(* ===== verification/Prelude.thy ===== *)
theory Prelude
  imports Complex_Main "HOL-Library.Word" "HOL-Library.Monad_Syntax"
begin

text \<open>
  The vocabulary that every component of MixTor shares: bytes and machine integers, time in
  nanoseconds, the saturating and rounding operations of Rust's standard library, the random
  number generators as a parameter, and the contracts (locales) the pipeline stages satisfy.

  Conventions of the whole development:
  \<^item> a value of type \<open>'a option\<close> that stands for the outcome of a call is \<open>None\<close> where the code
    panics (an empty \<open>gen_range\<close>, a slice off a character boundary) or does not return (a loop
    that has used up its fuel); \<open>Result\<close> values are sums with \<open>Inl\<close> the error;
  \<^item> \<open>usize\<close> and \<open>u64\<close> are read on a 64-bit target. Lengths and counters are \<open>nat\<close>, with the
    saturating, truncating and wrapping operations written out; values that travel as bits
    (cell headers, stream identifiers, nonces) are words of their width;
  \<^item> \<open>Instant\<close> and \<open>Duration\<close> are \<open>nat\<close> nanoseconds, and every reading of the clock is an
    argument;
  \<^item> \<open>f64\<close> is read as \<open>real\<close>: rounding of the last bit, infinities and NaN are not modelled.
\<close>

named_theorems stage_simps \<open>unfolding rules of the pipeline stages\<close>

section \<open>Types and machine arithmetic\<close>

type_synonym byte = "8 word"
type_synonym bytes = "8 word list"
type_synonym u16 = "16 word"
type_synonym u64 = "64 word"
type_synonym nanos = nat

text \<open>A byte string literal.\<close>

definition bytes_of :: "string \<Rightarrow> bytes" where
  "bytes_of s = map (of_nat \<circ> of_char) s"

definition u64_max :: nat where
  "u64_max = 18446744073709551615"

definition sat_add :: "nat \<Rightarrow> nat \<Rightarrow> nat" where
  "sat_add a b = min (a + b) u64_max"

definition trunc64 :: "nat \<Rightarrow> nat" where
  "trunc64 n = n mod 18446744073709551616"

lemma sat_add_le [simp]: "sat_add a b \<le> u64_max"
  by (simp add: sat_add_def)

lemma sat_add_mono: "a \<le> u64_max \<Longrightarrow> a \<le> sat_add a b"
  by (simp add: sat_add_def)

lemma sat_add_exact: "a + b \<le> u64_max \<Longrightarrow> sat_add a b = a + b"
  by (simp add: sat_add_def)

lemma trunc64_id: "n \<le> u64_max \<Longrightarrow> trunc64 n = n"
  by (simp add: trunc64_def u64_max_def)

lemma trunc64_le [simp]: "trunc64 n \<le> u64_max"
proof -
  have "n mod 18446744073709551616 < 18446744073709551616" by (rule mod_less_divisor) simp
  then show ?thesis by (simp add: trunc64_def u64_max_def)
qed

subsection \<open>Floating point operations of the standard library\<close>

definition clampf :: "real \<Rightarrow> real \<Rightarrow> real \<Rightarrow> real" where
  "clampf lo hi x = (if x < lo then lo else if x > hi then hi else x)"

definition roundf :: "real \<Rightarrow> int" where
  "roundf x = (if x < 0 then - \<lfloor>- x + 1 / 2\<rfloor> else \<lfloor>x + 1 / 2\<rfloor>)"

definition as_u64 :: "real \<Rightarrow> nat" where
  "as_u64 x = min (nat \<lfloor>x\<rfloor>) u64_max"

lemma clampf_ge: "lo \<le> hi \<Longrightarrow> lo \<le> clampf lo hi x"
  by (simp add: clampf_def)

lemma clampf_le: "lo \<le> hi \<Longrightarrow> clampf lo hi x \<le> hi"
  by (simp add: clampf_def)

lemma clampf_id: "lo \<le> x \<Longrightarrow> x \<le> hi \<Longrightarrow> clampf lo hi x = x"
  by (simp add: clampf_def)

lemma as_u64_le [simp]: "as_u64 x \<le> u64_max"
  by (simp add: as_u64_def)

lemma as_u64_mono: "x \<le> y \<Longrightarrow> as_u64 x \<le> as_u64 y"
  unfolding as_u64_def using floor_mono [of x y] nat_mono [of "\<lfloor>x\<rfloor>" "\<lfloor>y\<rfloor>"] by simp

lemma as_u64_of_nat: "n \<le> u64_max \<Longrightarrow> as_u64 (real n) = n"
  by (simp add: as_u64_def)

lemma as_u64_real_le: "0 \<le> x \<Longrightarrow> real (as_u64 x) \<le> x"
  unfolding as_u64_def by linarith

lemma as_u64_int: "0 \<le> i \<Longrightarrow> i \<le> int u64_max \<Longrightarrow> as_u64 (of_int i) = nat i"
  by (simp add: as_u64_def min_absorb1 nat_le_iff)

lemma roundf_mono: "x \<le> y \<Longrightarrow> roundf x \<le> roundf y"
proof -
  assume le: "x \<le> y"
  consider "y < 0" | "x < 0" "0 \<le> y" | "0 \<le> x" using le by linarith
  then show ?thesis
  proof cases
    case 1
    then have "\<lfloor>- y + 1 / 2\<rfloor> \<le> \<lfloor>- x + 1 / 2\<rfloor>" using le by (intro floor_mono) simp
    then show ?thesis using 1 le by (simp add: roundf_def)
  next
    case 2
    then have "0 \<le> \<lfloor>- x + 1 / 2\<rfloor>" "0 \<le> \<lfloor>y + 1 / 2\<rfloor>" by simp_all
    then have "- \<lfloor>- x + 1 / 2\<rfloor> \<le> \<lfloor>y + 1 / 2\<rfloor>" by linarith
    then show ?thesis using 2 by (simp add: roundf_def)
  next
    case 3
    then show ?thesis using le by (auto simp: roundf_def intro: floor_mono)
  qed
qed

lemma roundf_nat [simp]: "roundf (real n) = int n"
  unfolding roundf_def by (simp add: floor_eq_iff)

lemma roundf_nonneg: "0 \<le> x \<Longrightarrow> 0 \<le> roundf x"
  by (simp add: roundf_def)

section \<open>Random number generators\<close>

text \<open>
  The generators (\<open>ChaCha20Rng\<close>, \<open>StdRng\<close>, \<open>OsRng\<close>) come from third-party crates. A generator
  is a value of a type \<open>'r\<close>, and the methods the code calls are the fields of \<open>rng_ops\<close>:
  \<open>gen_incl\<close> is \<open>gen_range(lo..=hi)\<close> on integers, \<open>gen_f64\<close> the same on floats, \<open>gen_unit\<close> is
  \<open>gen::<f64>()\<close>, \<open>gen_coin\<close> is \<open>gen_bool(p)\<close>, \<open>gen_u64\<close> is
  \<open>gen::<u64>()\<close>, \<open>gen_u32\<close> is \<open>next_u32()\<close>, \<open>fill_bytes\<close> the bytes written into a slice of the
  given length, and \<open>from_seed\<close> seeds a generator. \<open>rng_ok\<close> states the documented contract.
\<close>

record 'r rng_ops =
  gen_incl :: "'r \<Rightarrow> nat \<Rightarrow> nat \<Rightarrow> nat \<times> 'r"
  gen_unit :: "'r \<Rightarrow> real \<times> 'r"
  gen_f64 :: "'r \<Rightarrow> real \<Rightarrow> real \<Rightarrow> real \<times> 'r"
  gen_coin :: "'r \<Rightarrow> real \<Rightarrow> bool \<times> 'r"
  gen_u64 :: "'r \<Rightarrow> nat \<times> 'r"
  gen_u32 :: "'r \<Rightarrow> nat \<times> 'r"
  fill_bytes :: "'r \<Rightarrow> nat \<Rightarrow> bytes \<times> 'r"
  from_seed :: "bytes \<Rightarrow> 'r"

definition rng_ok :: "'r rng_ops \<Rightarrow> bool" where
  "rng_ok R \<longleftrightarrow>
     (\<forall>r lo hi. lo \<le> hi \<longrightarrow> lo \<le> fst (gen_incl R r lo hi) \<and> fst (gen_incl R r lo hi) \<le> hi) \<and>
     (\<forall>r. 0 \<le> fst (gen_unit R r) \<and> fst (gen_unit R r) < 1) \<and>
     (\<forall>r lo hi. lo \<le> hi \<longrightarrow> lo \<le> fst (gen_f64 R r lo hi) \<and> fst (gen_f64 R r lo hi) \<le> hi) \<and>
     (\<forall>r n. length (fst (fill_bytes R r n)) = n)"

text \<open>\<open>gen_range\<close> over an empty range panics.\<close>

definition gen_range :: "'r rng_ops \<Rightarrow> 'r \<Rightarrow> nat \<Rightarrow> nat \<Rightarrow> (nat \<times> 'r) option" where
  "gen_range R r lo hi = (if lo \<le> hi then Some (gen_incl R r lo hi) else None)"

definition gen_range_f64 :: "'r rng_ops \<Rightarrow> 'r \<Rightarrow> real \<Rightarrow> real \<Rightarrow> (real \<times> 'r) option" where
  "gen_range_f64 R r lo hi = (if lo \<le> hi then Some (gen_f64 R r lo hi) else None)"

lemma gen_range_Some_iff:
  "gen_range R r lo hi = Some (n, r') \<longleftrightarrow> lo \<le> hi \<and> gen_incl R r lo hi = (n, r')"
  by (auto simp: gen_range_def)

lemma rng_ok_incl:
  "rng_ok R \<Longrightarrow> gen_incl R r lo hi = (n, r') \<Longrightarrow> lo \<le> hi \<Longrightarrow> lo \<le> n \<and> n \<le> hi"
  unfolding rng_ok_def by (metis fst_conv)

lemma rng_ok_f64:
  "rng_ok R \<Longrightarrow> gen_f64 R r a b = (x, r') \<Longrightarrow> a \<le> b \<Longrightarrow> a \<le> x \<and> x \<le> b"
  unfolding rng_ok_def by (metis fst_conv)

lemma rng_ok_unit: "rng_ok R \<Longrightarrow> gen_unit R r = (u, r') \<Longrightarrow> 0 \<le> u \<and> u < 1"
  unfolding rng_ok_def by (metis fst_conv)

lemma rng_ok_fill: "rng_ok R \<Longrightarrow> fill_bytes R r n = (bs, r') \<Longrightarrow> length bs = n"
  unfolding rng_ok_def by (metis fst_conv)

lemma rng_ok_fill_fst [simp]: "rng_ok R \<Longrightarrow> length (fst (fill_bytes R r n)) = n"
  by (simp add: rng_ok_def)

lemma gen_range_total:
  assumes "rng_ok R" "lo \<le> hi"
  obtains n r' where "gen_range R r lo hi = Some (n, r')" "lo \<le> n" "n \<le> hi"
  using assms rng_ok_incl [OF assms(1)] by (cases "gen_incl R r lo hi") (simp add: gen_range_def)

lemma gen_range_bounds:
  "rng_ok R \<Longrightarrow> gen_range R r lo hi = Some (n, r') \<Longrightarrow> lo \<le> n \<and> n \<le> hi"
  by (auto simp: gen_range_Some_iff dest: rng_ok_incl)

lemma gen_range_f64_total:
  assumes "rng_ok R" "lo \<le> hi"
  obtains x r' where "gen_range_f64 R r lo hi = Some (x, r')" "lo \<le> x" "x \<le> hi"
  using assms rng_ok_f64 [OF assms(1)] by (cases "gen_f64 R r lo hi") (simp add: gen_range_f64_def)

lemma gen_range_f64_bounds:
  "rng_ok R \<Longrightarrow> gen_range_f64 R r lo hi = Some (x, r') \<Longrightarrow> lo \<le> x \<and> x \<le> hi"
  by (auto simp: gen_range_f64_def split: if_splits dest: rng_ok_f64)

text \<open>A linear congruential generator satisfies the contract; witnesses run on it.\<close>

definition lcg_next :: "nat \<Rightarrow> nat" where
  "lcg_next r = (1103515245 * r + 12345) mod 2147483648"

definition lcg :: "nat rng_ops" where
  "lcg = \<lparr>
     gen_incl = (\<lambda>r lo hi. (lo + r mod (hi - lo + 1), lcg_next r)),
     gen_unit = (\<lambda>r. (real (r mod 2147483648) / 2147483648, lcg_next r)),
     gen_f64 = (\<lambda>r lo hi. (lo + (hi - lo) * real (r mod 2147483648) / 2147483648, lcg_next r)),
     gen_coin = (\<lambda>r p. (real (r mod 2147483648) / 2147483648 < p, lcg_next r)),
     gen_u64 = (\<lambda>r. (r mod 2147483648, lcg_next r)),
     gen_u32 = (\<lambda>r. (r mod 2147483648, lcg_next r)),
     fill_bytes = (\<lambda>r n. (replicate n (word_of_nat r), lcg_next r)),
     from_seed = (\<lambda>bs. fold (\<lambda>b acc. 256 * acc + unat b) bs 0)\<rparr>"

lemma lcg_ok: "rng_ok lcg"
proof -
  have 1: "lo + r mod (hi - lo + 1) \<le> hi" if "lo \<le> hi" for r lo hi :: nat
  proof -
    have "r mod (hi - lo + 1) < hi - lo + 1" by (rule mod_less_divisor) simp
    then show ?thesis using that by (simp only: Suc_eq_plus1 [symmetric])
  qed
  have m: "real (r mod 2147483648) < 2147483648" for r :: nat
  proof -
    have "r mod 2147483648 < 2147483648" by (rule mod_less_divisor) simp
    then show ?thesis by linarith
  qed
  have 2: "lo + (hi - lo) * real (r mod 2147483648) / 2147483648 \<le> hi"
    if "lo \<le> hi" for lo hi :: real and r :: nat
  proof -
    have "(hi - lo) * real (r mod 2147483648) \<le> (hi - lo) * 2147483648"
      using m [of r] that by (intro mult_left_mono) simp_all
    then show ?thesis by simp
  qed
  show ?thesis
    using 1 2 m by (simp add: rng_ok_def lcg_def)
qed

section \<open>Contracts of the pipeline stages\<close>

text \<open>
  A stage of the traffic pipeline (the clumping pool, the departure queue, the shaped session,
  a flow of the emitter) is driven by events, holds some payload items, and emits outputs that
  carry items. \<open>None\<close> is a stage that panics or gets stuck.
\<close>

fun run_stage :: "('s \<Rightarrow> 'e \<Rightarrow> ('s \<times> 'o list) option) \<Rightarrow> 's \<Rightarrow> 'e list \<Rightarrow> ('s \<times> 'o list) option" where
  "run_stage step s [] = Some (s, [])"
| "run_stage step s (e # es) = do {
     (s1, os1) \<leftarrow> step s e;
     (s2, os2) \<leftarrow> run_stage step s1 es;
     Some (s2, os1 @ os2)
   }"

text \<open>The items a stage takes in along a run.\<close>

fun taken_run :: "('s \<Rightarrow> 'e \<Rightarrow> ('s \<times> 'o list) option) \<Rightarrow> ('s \<Rightarrow> 'e \<Rightarrow> 'p list) \<Rightarrow> 's \<Rightarrow> 'e list \<Rightarrow> 'p list" where
  "taken_run step taken s [] = []"
| "taken_run step taken s (e # es) =
     taken s e @ (case step s e of None \<Rightarrow> [] | Some (s', _) \<Rightarrow> taken_run step taken s' es)"

text \<open>Every event of a run is admissible where it happens.\<close>

fun adm_run :: "('s \<Rightarrow> 'e \<Rightarrow> ('s \<times> 'o list) option) \<Rightarrow> ('s \<Rightarrow> 'e \<Rightarrow> bool) \<Rightarrow> 's \<Rightarrow> 'e list \<Rightarrow> bool" where
  "adm_run step adm s [] = True"
| "adm_run step adm s (e # es) =
     (adm s e \<and> (case step s e of None \<Rightarrow> True | Some (s', _) \<Rightarrow> adm_run step adm s' es))"

locale fifo_stage =
  fixes inv :: "'s \<Rightarrow> bool"
    and adm :: "'s \<Rightarrow> 'e \<Rightarrow> bool"
    and step :: "'s \<Rightarrow> 'e \<Rightarrow> ('s \<times> 'o list) option"
    and held :: "'s \<Rightarrow> 'p list"
    and taken :: "'s \<Rightarrow> 'e \<Rightarrow> 'p list"
    and carried :: "'o \<Rightarrow> 'p list"
  assumes stage_step: "inv s \<Longrightarrow> adm s e \<Longrightarrow>
    \<exists>s' os. step s e = Some (s', os) \<and> inv s' \<and>
      held s @ taken s e = concat (map carried os) @ held s'"
begin

text \<open>A run never gets stuck, and nothing is lost, duplicated or reordered along it.\<close>

lemma run_lossless:
  assumes "inv s" "adm_run step adm s es"
  shows "\<exists>s' os. run_stage step s es = Some (s', os) \<and> inv s' \<and>
    held s @ taken_run step taken s es = concat (map carried os) @ held s'"
  using assms
proof (induction es arbitrary: s)
  case Nil
  then show ?case by simp
next
  case (Cons e es)
  then obtain s1 os1 where 1: "step s e = Some (s1, os1)" "inv s1"
      "held s @ taken s e = concat (map carried os1) @ held s1"
    using stage_step by fastforce
  with Cons.prems have "adm_run step adm s1 es" by simp
  then obtain s2 os2 where 2: "run_stage step s1 es = Some (s2, os2)" "inv s2"
      "held s1 @ taken_run step taken s1 es = concat (map carried os2) @ held s2"
    using Cons.IH [OF 1(2)] by blast
  have "held s @ taken s e @ taken_run step taken s1 es
      = concat (map carried (os1 @ os2)) @ held s2"
    using 1(3) 2(3) by (metis append_assoc concat_append map_append)
  then show ?case using 1 2 by simp
qed

lemma run_inv:
  assumes "inv s" "adm_run step adm s es" "run_stage step s es = Some (s', os)"
  shows "inv s'"
  using run_lossless [OF assms(1,2)] assms(3) by auto

end

text \<open>A stage whose outputs all have one size, fixed for the life of the stage.\<close>

locale sized_stage = fifo_stage inv adm step held taken carried
  for inv :: "'s \<Rightarrow> bool"
    and adm :: "'s \<Rightarrow> 'e \<Rightarrow> bool"
    and step :: "'s \<Rightarrow> 'e \<Rightarrow> ('s \<times> 'o list) option"
    and held :: "'s \<Rightarrow> 'p list"
    and taken :: "'s \<Rightarrow> 'e \<Rightarrow> 'p list"
    and carried :: "'o \<Rightarrow> 'p list" +
  fixes out_size :: "'o \<Rightarrow> nat"
    and unit_size :: "'s \<Rightarrow> nat"
  assumes size_step: "inv s \<Longrightarrow> adm s e \<Longrightarrow> step s e = Some (s', os) \<Longrightarrow>
    unit_size s' = unit_size s \<and> (\<forall>x\<in>set os. out_size x = unit_size s)"
begin

lemma run_sized:
  assumes "inv s" "adm_run step adm s es" "run_stage step s es = Some (s', os)"
  shows "unit_size s' = unit_size s \<and> (\<forall>x\<in>set os. out_size x = unit_size s)"
  using assms
proof (induction es arbitrary: s s' os)
  case Nil
  then show ?case by simp
next
  case (Cons e es)
  then obtain s1 os1 where 1: "step s e = Some (s1, os1)" "inv s1"
    using stage_step [of s e] by fastforce
  with Cons.prems obtain os2 where 2: "run_stage step s1 es = Some (s', os2)" "os = os1 @ os2"
      "adm_run step adm s1 es"
    by (auto simp: Option.bind_eq_Some_conv)
  have "unit_size s' = unit_size s1 \<and> (\<forall>x\<in>set os2. out_size x = unit_size s1)"
    using Cons.IH [OF 1(2) 2(3) 2(1)] .
  moreover have "unit_size s1 = unit_size s \<and> (\<forall>x\<in>set os1. out_size x = unit_size s)"
    using size_step [OF Cons.prems(1) _ 1(1)] Cons.prems(2) by simp
  ultimately show ?case using 2(2) by auto
qed

text \<open>The volume on the wire is the number of outputs times the unit: it does not depend on
  what the outputs carry.\<close>

lemma run_volume:
  assumes "inv s" "adm_run step adm s es" "run_stage step s es = Some (s', os)"
  shows "sum_list (map out_size os) = length os * unit_size s"
proof -
  have "\<forall>x\<in>set os. out_size x = unit_size s" using run_sized [OF assms] by blast
  then show ?thesis by (induction os) auto
qed

end

text \<open>A configuration check that either refuses or returns its argument unchanged.\<close>

locale config_check =
  fixes validate :: "'c \<Rightarrow> 'err + 'c"
    and valid :: "'c \<Rightarrow> bool"
  assumes validate_ok: "valid c \<Longrightarrow> validate c = Inr c"
    and validate_err: "\<not> valid c \<Longrightarrow> \<exists>e. validate c = Inl e"
begin

lemma validate_Inr_iff: "validate c = Inr c' \<longleftrightarrow> c' = c \<and> valid c"
  using validate_ok validate_err by (cases "valid c") fastforce+

lemma validate_idem: "validate c = Inr c' \<Longrightarrow> validate c' = Inr c'"
  by (simp add: validate_Inr_iff)

lemma validate_Inl_iff: "(\<exists>e. validate c = Inl e) \<longleftrightarrow> \<not> valid c"
  using validate_ok validate_err by (cases "valid c") fastforce+

end

text \<open>A transition system with an invariant.\<close>

locale invariant_system =
  fixes init :: "'s \<Rightarrow> bool"
    and step :: "'s \<Rightarrow> 's \<Rightarrow> bool"
    and inv :: "'s \<Rightarrow> bool"
  assumes init_inv: "init s \<Longrightarrow> inv s"
    and step_inv: "inv s \<Longrightarrow> step s s' \<Longrightarrow> inv s'"
begin

lemma steps_inv: "step\<^sup>*\<^sup>* s s' \<Longrightarrow> inv s \<Longrightarrow> inv s'"
  by (induction rule: rtranclp_induct) (auto intro: step_inv)

lemma reach_inv: "init s \<Longrightarrow> step\<^sup>*\<^sup>* s s' \<Longrightarrow> inv s'"
  using init_inv steps_inv by blast

end

text \<open>So does the generator that always returns the least value; it makes messages short.\<close>

definition least_rng :: "unit rng_ops" where
  "least_rng = \<lparr>
     gen_incl = (\<lambda>r lo hi. (lo, ())), gen_unit = (\<lambda>r. (0, ())), gen_f64 = (\<lambda>r lo hi. (lo, ())),
     gen_coin = (\<lambda>r p. (False, ())), gen_u64 = (\<lambda>r. (0, ())), gen_u32 = (\<lambda>r. (0, ())),
     fill_bytes = (\<lambda>r n. (replicate n 7, ())), from_seed = (\<lambda>bs. ())\<rparr>"

lemma least_rng_ok: "rng_ok least_rng"
  by (simp add: rng_ok_def least_rng_def)

end
