(* ===== verification/Strings.thy ===== *)
theory Strings
  imports Prelude
begin

text \<open>
  The operations on \<open>str\<close> that the configuration parsers use. A string is the list of its Unicode
  scalar values; its length and the bounds of a slice count UTF-8 bytes, and a slice whose bound
  is not on a character boundary (or past the end) panics, which is \<open>None\<close>.
\<close>

type_synonym rstr = "nat list"

definition str_of :: "string \<Rightarrow> rstr" where
  "str_of s = map of_char s"

definition utf8_len :: "nat \<Rightarrow> nat" where
  "utf8_len c = (if c < 128 then 1 else if c < 2048 then 2 else if c < 65536 then 3 else 4)"

definition str_len :: "rstr \<Rightarrow> nat" where
  "str_len s = sum_list (map utf8_len s)"

text \<open>\<open>split_at\<close>: the two parts of a string at a byte index.\<close>

fun str_split_at :: "nat \<Rightarrow> rstr \<Rightarrow> (rstr \<times> rstr) option" where
  "str_split_at n s =
     (if n = 0 then Some ([], s)
      else case s of
        [] \<Rightarrow> None
      | c # cs \<Rightarrow>
          if utf8_len c \<le> n then map_option (\<lambda>(a, b). (c # a, b)) (str_split_at (n - utf8_len c) cs)
          else None)"

declare str_split_at.simps [simp del]

definition str_slice :: "nat \<Rightarrow> nat \<Rightarrow> rstr \<Rightarrow> rstr option" where
  "str_slice a b s =
     (if b < a then None
      else case str_split_at b s of
        None \<Rightarrow> None
      | Some (l, _) \<Rightarrow> map_option snd (str_split_at a l))"

definition str_from :: "nat \<Rightarrow> rstr \<Rightarrow> rstr option" where
  "str_from a s = map_option snd (str_split_at a s)"

definition is_whitespace :: "nat \<Rightarrow> bool" where
  "is_whitespace c \<longleftrightarrow> 9 \<le> c \<and> c \<le> 13 \<or> c = 32 \<or> c = 133 \<or> c = 160 \<or> c = 5760 \<or>
     8192 \<le> c \<and> c \<le> 8202 \<or> c = 8232 \<or> c = 8233 \<or> c = 8239 \<or> c = 8287 \<or> c = 12288"

definition str_trim :: "rstr \<Rightarrow> rstr" where
  "str_trim s = rev (dropWhile is_whitespace (rev (dropWhile is_whitespace s)))"

definition ascii_lower :: "rstr \<Rightarrow> rstr" where
  "ascii_lower = map (\<lambda>c. if 65 \<le> c \<and> c \<le> 90 then c + 32 else c)"

text \<open>\<open>char::to_digit\<close> for radix at most 16.\<close>

definition to_digit :: "nat \<Rightarrow> nat \<Rightarrow> nat option" where
  "to_digit radix c =
     (let d = (if 48 \<le> c \<and> c \<le> 57 then c - 48
               else if 97 \<le> c \<and> c \<le> 102 then c - 87
               else if 65 \<le> c \<and> c \<le> 70 then c - 55 else 99)
      in if d < radix then Some d else None)"

text \<open>\<open>from_str_radix\<close> and \<open>parse\<close> of an unsigned integer with maximal value \<open>limit\<close>: an optional
  plus sign, at least one digit, no overflow.\<close>

fun digits_value :: "nat \<Rightarrow> nat \<Rightarrow> nat \<Rightarrow> rstr \<Rightarrow> nat option" where
  "digits_value radix limit acc [] = Some acc"
| "digits_value radix limit acc (c # cs) =
     (case to_digit radix c of
        None \<Rightarrow> None
      | Some d \<Rightarrow> if limit < acc * radix + d then None else digits_value radix limit (acc * radix + d) cs)"

definition parse_uint :: "nat \<Rightarrow> nat \<Rightarrow> rstr \<Rightarrow> nat option" where
  "parse_uint radix limit s =
     (let ds = (case s of c # cs \<Rightarrow> if c = 43 \<and> cs \<noteq> [] then cs else s | [] \<Rightarrow> [])
      in if ds = [] then None else digits_value radix limit 0 ds)"

text \<open>Decimal notation of a number, \<open>to_string\<close>.\<close>

fun nat_digits :: "nat \<Rightarrow> bytes" where
  "nat_digits n = (if n < 10 then [of_nat (48 + n)] else nat_digits (n div 10) @ [of_nat (48 + n mod 10)])"

declare nat_digits.simps [simp del]

definition int_string :: "int \<Rightarrow> bytes" where
  "int_string i = (if i < 0 then 45 # nat_digits (nat (- i)) else nat_digits (nat i))"

section \<open>Lemmas\<close>

lemma str_split_at_0 [simp]: "str_split_at 0 s = Some ([], s)"
  by (simp add: str_split_at.simps)

lemma str_len_simps [simp]:
  "str_len [] = 0" "str_len (c # s) = utf8_len c + str_len s" "str_len (s @ t) = str_len s + str_len t"
  by (simp_all add: str_len_def)

lemma utf8_len_pos [simp]: "0 < utf8_len c"
  by (simp add: utf8_len_def)

lemma str_split_at_append: "str_split_at (str_len s) (s @ t) = Some (s, t)"
proof (induction s)
  case Nil
  then show ?case by simp
next
  case (Cons c s)
  have "utf8_len c + str_len s \<noteq> 0" using utf8_len_pos [of c] by linarith
  then show ?case using Cons by (simp add: str_split_at.simps [of "utf8_len c + str_len s" "c # s @ t"])
qed

lemma str_split_at_Some: "str_split_at n s = Some (a, b) \<Longrightarrow> s = a @ b \<and> str_len a = n"
proof (induction n s arbitrary: a b rule: str_split_at.induct)
  case (1 n s)
  then show ?case
    by (subst (asm) (2) str_split_at.simps) (auto split: if_splits list.splits)
qed

lemma str_len_ascii: "\<forall>c\<in>set s. c < 128 \<Longrightarrow> str_len s = length s"
  by (induction s) (simp_all add: utf8_len_def)

lemma str_split_ascii:
  assumes "\<forall>c\<in>set s. c < 128" "n \<le> length s"
  shows "str_split_at n s = Some (take n s, drop n s)"
proof -
  have "\<forall>c\<in>set (take n s). c < 128" using assms(1) by (meson in_set_takeD)
  then have "str_len (take n s) = n" using assms(2) by (simp add: str_len_ascii)
  then show ?thesis using str_split_at_append [of "take n s" "drop n s"] by simp
qed

lemma str_slice_ascii:
  assumes "\<forall>c\<in>set s. c < 128" "a \<le> b" "b \<le> length s"
  shows "str_slice a b s = Some (drop a (take b s))"
proof -
  have "\<forall>c\<in>set (take b s). c < 128" using assms(1) by (meson in_set_takeD)
  then have "str_split_at a (take b s) = Some (take a (take b s), drop a (take b s))"
    using assms(2,3) by (intro str_split_ascii) simp_all
  then show ?thesis using assms by (simp add: str_slice_def str_split_ascii)
qed

lemma dropWhile_none: "\<forall>c\<in>set s. \<not> P c \<Longrightarrow> dropWhile P s = s"
  by (cases s) simp_all

lemma str_trim_id: "\<forall>c\<in>set s. \<not> is_whitespace c \<Longrightarrow> str_trim s = s"
  by (simp add: str_trim_def dropWhile_none)

definition nat_str :: "nat \<Rightarrow> rstr" where
  "nat_str n = map unat (nat_digits n)"

text \<open>\<open>split\<close> on a character, and \<open>starts_with\<close>.\<close>

fun str_split :: "nat \<Rightarrow> rstr \<Rightarrow> rstr list" where
  "str_split d [] = [[]]"
| "str_split d (c # cs) =
     (if c = d then [] # str_split d cs
      else case str_split d cs of f # fs \<Rightarrow> (c # f) # fs | [] \<Rightarrow> [[c]])"

definition str_starts_with :: "rstr \<Rightarrow> rstr \<Rightarrow> bool" where
  "str_starts_with p s \<longleftrightarrow> take (length p) s = p"

lemma str_split_last: "d \<notin> set s \<Longrightarrow> str_split d s = [s]"
  by (induction s) auto

lemma str_split_append: "d \<notin> set s \<Longrightarrow> str_split d (s @ d # t) = s # str_split d t"
  by (induction s) auto

lemma digits_value_append:
  "digits_value r m acc (s @ t) =
     (case digits_value r m acc s of None \<Rightarrow> None | Some v \<Rightarrow> digits_value r m v t)"
  by (induction s arbitrary: acc) (auto split: option.splits)

lemma nat_str_simps:
  "n < 10 \<Longrightarrow> nat_str n = [48 + n]"
  "\<not> n < 10 \<Longrightarrow> nat_str n = nat_str (n div 10) @ [48 + n mod 10]"
proof -
  have u: "unat (of_nat (48 + d) :: byte) = 48 + d" if "d < 10" for d
    using that by (simp add: unat_of_nat del: of_nat_add)
  show "n < 10 \<Longrightarrow> nat_str n = [48 + n]" using u [of n] by (simp add: nat_str_def nat_digits.simps [of n])
  show "\<not> n < 10 \<Longrightarrow> nat_str n = nat_str (n div 10) @ [48 + n mod 10]"
    using u [of "n mod 10"] by (simp add: nat_str_def nat_digits.simps [of n])
qed

lemma nat_str_chars: "c \<in> set (nat_str n) \<Longrightarrow> 48 \<le> c \<and> c \<le> 57"
proof (induction n rule: nat_digits.induct)
  case (1 n)
  have "n mod 10 < 10" by simp
  then show ?case using 1 by (cases "n < 10") (auto simp: nat_str_simps)
qed

lemma nat_str_nonempty [simp]: "nat_str n \<noteq> []"
  by (cases "n < 10") (simp_all add: nat_str_simps)

lemma to_digit_decimal: "d < 10 \<Longrightarrow> to_digit 10 (48 + d) = Some d"
  by (simp add: to_digit_def)

lemma digits_value_nat_str: "n \<le> m \<Longrightarrow> digits_value 10 m 0 (nat_str n) = Some n"
proof (induction n rule: nat_digits.induct)
  case (1 n)
  show ?case
  proof (cases "n < 10")
    case True
    then show ?thesis using 1(2) by (simp add: nat_str_simps to_digit_decimal del: add_Suc add_2_eq_Suc)
  next
    case False
    have le: "n div 10 \<le> m" using 1(2) by linarith
    show ?thesis using 1(1) [OF False le] 1(2) False
      by (simp add: nat_str_simps(2) digits_value_append to_digit_decimal)
  qed
qed

lemma parse_nat_str: "n \<le> m \<Longrightarrow> parse_uint 10 m (nat_str n) = Some n"
proof -
  assume "n \<le> m"
  moreover have "\<forall>c\<in>set (nat_str n). c \<noteq> 43" using nat_str_chars by fastforce
  ultimately show ?thesis
    using digits_value_nat_str [of n m] by (cases "nat_str n") (auto simp: parse_uint_def)
qed

lemma nat_str_trim [simp]: "str_trim (nat_str n) = nat_str n"
  using nat_str_chars by (intro str_trim_id) (fastforce simp: is_whitespace_def)

end
