(* ===== verification/Seeds.thy ===== *)
theory Seeds
  imports Prelude
begin

text \<open>
  \<open>src/src/seeds.rs\<close>: the two ephemeral seeds of a session. The operating system's generator
  (\<open>getrandom\<close>) and the hash (\<open>blake3\<close>) are third-party code: the first is a function \<open>G\<close> from the
  state of the source to an error or the bytes asked for, the second a keyed hash \<open>H\<close>.
  Zeroizing a dropped seed has no effect a later operation could observe and is not modelled.
\<close>

definition SEED_LEN :: nat where
  "SEED_LEN = 32"

definition DEFAULT_ROTATION_INTERVAL :: nanos where
  "DEFAULT_ROTATION_INTERVAL = 24 * 60 * 60 * 1000000000"

datatype seed_role = TimingAndPool | BurstComposition

datatype 'g seed_error =
    SeedRandom 'g
  | AllZeroSeed seed_role
  | DuplicateSeeds
  | InvalidRotationInterval

record ephemeral_seed =
  seed_role :: seed_role
  seed_bytes :: bytes

type_synonym ('os, 'g) os_random = "'os \<Rightarrow> nat \<Rightarrow> ('g + bytes) \<times> 'os"

definition seed_generate ::
  "('os, 'g) os_random \<Rightarrow> 'os \<Rightarrow> seed_role \<Rightarrow> ('g seed_error + ephemeral_seed) \<times> 'os" where
  "seed_generate G os r =
     (case G os SEED_LEN of
        (Inl e, os') \<Rightarrow> (Inl (SeedRandom e), os')
      | (Inr bs, os') \<Rightarrow>
          if list_all (\<lambda>b. b = 0) bs then (Inl (AllZeroSeed r), os')
          else (Inr \<lparr>seed_role = r, seed_bytes = bs\<rparr>, os'))"

definition derive_rng_seed :: "(bytes \<Rightarrow> bytes \<Rightarrow> bytes) \<Rightarrow> ephemeral_seed \<Rightarrow> bytes \<Rightarrow> bytes" where
  "derive_rng_seed H s domain = H (seed_bytes s) domain"

record session_seeds =
  timing_and_pool :: ephemeral_seed
  burst_composition :: ephemeral_seed
  generated_at :: nanos
  rotation_interval :: nanos

definition generate_with_rotation_interval ::
  "('os, 'g) os_random \<Rightarrow> 'os \<Rightarrow> nanos \<Rightarrow> nanos \<Rightarrow> ('g seed_error + session_seeds) \<times> 'os" where
  "generate_with_rotation_interval G os now interval =
     (if interval = 0 then (Inl InvalidRotationInterval, os)
      else case seed_generate G os TimingAndPool of
        (Inl e, os1) \<Rightarrow> (Inl e, os1)
      | (Inr a, os1) \<Rightarrow>
          (case seed_generate G os1 BurstComposition of
             (Inl e, os2) \<Rightarrow> (Inl e, os2)
           | (Inr b, os2) \<Rightarrow>
               if seed_bytes a = seed_bytes b then (Inl DuplicateSeeds, os2)
               else (Inr \<lparr>timing_and_pool = a, burst_composition = b,
                          generated_at = now, rotation_interval = interval\<rparr>, os2)))"

definition session_generate ::
  "('os, 'g) os_random \<Rightarrow> 'os \<Rightarrow> nanos \<Rightarrow> ('g seed_error + session_seeds) \<times> 'os" where
  "session_generate G os now = generate_with_rotation_interval G os now DEFAULT_ROTATION_INTERVAL"

definition should_rotate :: "session_seeds \<Rightarrow> nanos \<Rightarrow> bool" where
  "should_rotate s now \<longleftrightarrow> rotation_interval s \<le> now - generated_at s"

text \<open>\<open>rotate\<close> returns its result and the value the caller is left with.\<close>

definition rotate_seeds ::
  "('os, 'g) os_random \<Rightarrow> 'os \<Rightarrow> nanos \<Rightarrow> session_seeds \<Rightarrow>
     ('g seed_error + unit) \<times> session_seeds \<times> 'os" where
  "rotate_seeds G os now s =
     (case generate_with_rotation_interval G os now (rotation_interval s) of
        (Inl e, os') \<Rightarrow> (Inl e, s, os')
      | (Inr s', os') \<Rightarrow> (Inr (), s', os'))"

section \<open>Lemmas\<close>

definition seed_wf :: "ephemeral_seed \<Rightarrow> bool" where
  "seed_wf s \<longleftrightarrow> (\<exists>b\<in>set (seed_bytes s). b \<noteq> 0)"

definition seeds_wf :: "session_seeds \<Rightarrow> bool" where
  "seeds_wf s \<longleftrightarrow> seed_wf (timing_and_pool s) \<and> seed_wf (burst_composition s) \<and>
     seed_role (timing_and_pool s) = TimingAndPool \<and>
     seed_role (burst_composition s) = BurstComposition \<and>
     seed_bytes (timing_and_pool s) \<noteq> seed_bytes (burst_composition s) \<and>
     0 < rotation_interval s"

lemma seed_generate_wf:
  "seed_generate G os r = (Inr s, os') \<Longrightarrow> seed_wf s \<and> seed_role s = r"
  by (auto simp: seed_generate_def seed_wf_def list_all_iff split: prod.splits sum.splits if_splits)

lemma generate_wf:
  "generate_with_rotation_interval G os now i = (Inr s, os') \<Longrightarrow>
     seeds_wf s \<and> rotation_interval s = i \<and> generated_at s = now"
  by (auto simp: generate_with_rotation_interval_def seeds_wf_def
      dest!: seed_generate_wf split: prod.splits sum.splits if_splits)

lemma rotate_Inr:
  "rotate_seeds G os now s = (Inr (), s', os') \<Longrightarrow>
     seeds_wf s' \<and> rotation_interval s' = rotation_interval s \<and> generated_at s' = now"
  by (auto simp: rotate_seeds_def dest!: generate_wf split: prod.splits sum.splits)

lemma rotate_Inl: "rotate_seeds G os now s = (Inl e, s', os') \<Longrightarrow> s' = s"
  by (auto simp: rotate_seeds_def split: prod.splits sum.splits)

section \<open>Properties\<close>

text \<open>Rotation is all or nothing. When it succeeds the session holds two fresh seeds that are
  not all zero, differ from each other and carry their two roles, the interval is unchanged and the
  age restarts, so that rotation is not due again before the interval has passed. When the operating
  system fails, or yields a zero or duplicate seed, the error is returned and the session keeps its
  old seeds and age.\<close>
theorem rotation_atomic:
  assumes "rotate_seeds G os now s = (res, s', os')"
  shows "case res of
      Inr _ \<Rightarrow> seeds_wf s' \<and> rotation_interval s' = rotation_interval s \<and> generated_at s' = now \<and>
        (\<forall>t. should_rotate s' t = (now + rotation_interval s \<le> t))
    | Inl e \<Rightarrow> s' = s"
proof (cases res)
  case (Inl e)
  then show ?thesis using rotate_Inl assms by fastforce
next
  case (Inr u)
  then have "rotate_seeds G os now s = (Inr (), s', os')" using assms by simp
  note r = rotate_Inr [OF this]
  then have "should_rotate s' t = (now + rotation_interval s \<le> t)" for t
    by (auto simp: should_rotate_def seeds_wf_def)
  then show ?thesis using r Inr by simp
qed

text \<open>The generator of the witness: the seed bytes are the state, repeated.\<close>

definition byte_source :: "(nat, unit) os_random" where
  "byte_source os n = (Inr (replicate n (word_of_nat os)), os + 1)"

definition seeds_sample :: session_seeds where
  "seeds_sample = \<lparr>timing_and_pool = \<lparr>seed_role = TimingAndPool, seed_bytes = replicate 32 1\<rparr>,
     burst_composition = \<lparr>seed_role = BurstComposition, seed_bytes = replicate 32 2\<rparr>,
     generated_at = 10, rotation_interval = 100\<rparr>"

theorem rotation_atomic_witness:
  "\<exists>s' os'. rotate_seeds byte_source 7 50 seeds_sample = (Inr (), s', os') \<and> seeds_wf s' \<and>
    should_rotate s' 149 = False \<and> should_rotate s' 150 = True"
proof -
  obtain s' os' where r: "rotate_seeds byte_source 7 50 seeds_sample = (Inr (), s', os')"
    by (simp add: rotate_seeds_def generate_with_rotation_interval_def seed_generate_def byte_source_def
        seeds_sample_def SEED_LEN_def list_all_iff)
  show ?thesis using r rotation_atomic [OF r] by (auto simp: seeds_sample_def)
qed

end
