(* ===== verification/Clumping.thy ===== *)
theory Clumping
  imports Seeds
begin

text \<open>
  \<open>src/src/clumping.rs\<close>: packets, and the pool that groups them into bursts of a randomised size
  or after a randomised timeout. The pool is a stage of the pipeline; its interpretation of
  \<open>fifo_stage\<close> at the end says that no event panics and that no packet is lost or reordered.
\<close>

section \<open>Packets and bursts\<close>

datatype packet = Packet (packet_bytes: bytes)

datatype clumping_error =
    EmptyPacket
  | ClumpInvalidConfig string
  | ClumpWrongSeedRole seed_role seed_role

definition packet_new :: "bytes \<Rightarrow> clumping_error + packet" where
  "packet_new bs = (if bs = [] then Inl EmptyPacket else Inr (Packet bs))"

definition packet_len :: "packet \<Rightarrow> nat" where
  "packet_len p = length (packet_bytes p)"

record cycle_thresholds =
  ct_max_packets :: nat
  ct_timeout :: nanos

datatype flush_reason = SizeThreshold | TimeoutReached | Manual

record burst =
  burst_packets :: "packet list"
  burst_threshold :: cycle_thresholds
  burst_reason :: flush_reason

definition packet_count :: "burst \<Rightarrow> nat" where
  "packet_count b = length (burst_packets b)"

definition burst_total_bytes :: "burst \<Rightarrow> nat" where
  "burst_total_bytes b = sum_list (map packet_len (burst_packets b))"

section \<open>Configuration\<close>

record clumping_config =
  min_packets_per_burst :: nat
  max_packets_per_burst :: nat
  min_timeout :: nanos
  max_timeout :: nanos

definition clumping_default :: clumping_config where
  "clumping_default = \<lparr>min_packets_per_burst = 1, max_packets_per_burst = 8,
     min_timeout = 80000000, max_timeout = 350000000\<rparr>"

definition clumping_validate :: "clumping_config \<Rightarrow> clumping_error + clumping_config" where
  "clumping_validate c =
     (if min_packets_per_burst c = 0 then
        Inl (ClumpInvalidConfig ''minimum packet threshold must be at least one'')
      else if min_packets_per_burst c > max_packets_per_burst c then
        Inl (ClumpInvalidConfig ''minimum packet threshold cannot exceed maximum packet threshold'')
      else if min_timeout c = 0 then
        Inl (ClumpInvalidConfig ''minimum timeout must be non-zero'')
      else if min_timeout c > max_timeout c then
        Inl (ClumpInvalidConfig ''minimum timeout cannot exceed maximum timeout'')
      else Inr c)"

definition clumping_valid :: "clumping_config \<Rightarrow> bool" where
  "clumping_valid c \<longleftrightarrow> 0 < min_packets_per_burst c \<and>
     min_packets_per_burst c \<le> max_packets_per_burst c \<and>
     0 < min_timeout c \<and> min_timeout c \<le> max_timeout c"

interpretation clump_cfg: config_check clumping_validate clumping_valid
  by unfold_locales (auto simp: clumping_validate_def clumping_valid_def)

section \<open>The pool\<close>

record 'r clumping_pool =
  cp_config :: clumping_config
  cp_rng :: 'r
  buffered :: "packet list"
  thresholds :: cycle_thresholds
  deadline :: "nanos option"

definition next_thresholds ::
  "'r rng_ops \<Rightarrow> clumping_config \<Rightarrow> 'r \<Rightarrow> (cycle_thresholds \<times> 'r) option" where
  "next_thresholds R c r = do {
     (mp, r1) \<leftarrow> gen_range R r (min_packets_per_burst c) (max_packets_per_burst c);
     let min_micros = trunc64 (min_timeout c div 1000);
     let max_micros = trunc64 (max_timeout c div 1000);
     (t, r2) \<leftarrow> gen_range R r1 min_micros max_micros;
     Some (\<lparr>ct_max_packets = mp, ct_timeout = t * 1000\<rparr>, r2)
   }"

definition pool_with_config ::
  "'r rng_ops \<Rightarrow> (bytes \<Rightarrow> bytes \<Rightarrow> bytes) \<Rightarrow> ephemeral_seed \<Rightarrow> clumping_config \<Rightarrow>
     (clumping_error + 'r clumping_pool) option" where
  "pool_with_config R H seed c =
     (if seed_role seed \<noteq> TimingAndPool then
        Some (Inl (ClumpWrongSeedRole TimingAndPool (seed_role seed)))
      else case clumping_validate c of
        Inl e \<Rightarrow> Some (Inl e)
      | Inr c \<Rightarrow> do {
          let r = from_seed R (derive_rng_seed H seed (bytes_of ''mixtor.clumping.v1''));
          (th, r') \<leftarrow> next_thresholds R c r;
          Some (Inr \<lparr>cp_config = c, cp_rng = r', buffered = [], thresholds = th, deadline = None\<rparr>)
        })"

definition flush_ready ::
  "'r rng_ops \<Rightarrow> flush_reason \<Rightarrow> nanos \<Rightarrow> 'r clumping_pool \<Rightarrow> ('r clumping_pool \<times> burst) option" where
  "flush_ready R reason now pool = do {
     let threshold = thresholds pool;
     let n = min (length (buffered pool)) (ct_max_packets threshold);
     let packets = take n (buffered pool);
     let rest = drop n (buffered pool);
     (th, r') \<leftarrow> next_thresholds R (cp_config pool) (cp_rng pool);
     Some (pool\<lparr>buffered := rest, thresholds := th, cp_rng := r',
                deadline := (if rest = [] then None else Some (now + ct_timeout th))\<rparr>,
           \<lparr>burst_packets = packets, burst_threshold = threshold, burst_reason = reason\<rparr>)
   }"

text \<open>The \<open>while\<close> loop of \<open>push\<close>; the fuel is the number of buffered packets plus one, which
  \<open>push_loop_ok\<close> shows to be enough.\<close>

fun push_loop ::
  "nat \<Rightarrow> 'r rng_ops \<Rightarrow> nanos \<Rightarrow> 'r clumping_pool \<Rightarrow> ('r clumping_pool \<times> burst list) option" where
  "push_loop 0 R now pool = None"
| "push_loop (Suc fuel) R now pool =
     (if ct_max_packets (thresholds pool) \<le> length (buffered pool) then do {
        (pool1, b) \<leftarrow> flush_ready R SizeThreshold now pool;
        let pool2 = (if buffered pool1 \<noteq> [] then
                       pool1\<lparr>deadline := Some (now + ct_timeout (thresholds pool1))\<rparr> else pool1);
        (pool3, bs) \<leftarrow> push_loop fuel R now pool2;
        Some (pool3, b # bs)
      } else Some (pool, []))"

definition pool_push ::
  "'r rng_ops \<Rightarrow> packet \<Rightarrow> nanos \<Rightarrow> 'r clumping_pool \<Rightarrow> ('r clumping_pool \<times> burst list) option" where
  "pool_push R p now pool =
     (let pool1 = (if buffered pool = [] then
                     pool\<lparr>deadline := Some (now + ct_timeout (thresholds pool))\<rparr> else pool);
          pool2 = pool1\<lparr>buffered := buffered pool1 @ [p]\<rparr>
      in push_loop (Suc (length (buffered pool2))) R now pool2)"

definition pool_tick ::
  "'r rng_ops \<Rightarrow> nanos \<Rightarrow> 'r clumping_pool \<Rightarrow> ('r clumping_pool \<times> burst option) option" where
  "pool_tick R now pool =
     (case deadline pool of
        Some d \<Rightarrow>
          if d \<le> now \<and> buffered pool \<noteq> [] then
            map_option (\<lambda>(q, b). (q, Some b)) (flush_ready R TimeoutReached now pool)
          else Some (pool, None)
      | None \<Rightarrow> Some (pool, None))"

definition pool_flush ::
  "'r rng_ops \<Rightarrow> nanos \<Rightarrow> 'r clumping_pool \<Rightarrow> ('r clumping_pool \<times> burst option) option" where
  "pool_flush R now pool =
     (if buffered pool = [] then Some (pool, None)
      else map_option (\<lambda>(q, b). (q, Some b)) (flush_ready R Manual now pool))"

datatype pool_event = PoolPush packet nanos | PoolTick nanos | PoolFlush nanos

fun pool_step ::
  "'r rng_ops \<Rightarrow> 'r clumping_pool \<Rightarrow> pool_event \<Rightarrow> ('r clumping_pool \<times> burst list) option" where
  "pool_step R pool (PoolPush p now) = pool_push R p now pool"
| "pool_step R pool (PoolTick now) =
     map_option (\<lambda>(q, b). (q, case b of None \<Rightarrow> [] | Some b \<Rightarrow> [b])) (pool_tick R now pool)"
| "pool_step R pool (PoolFlush now) =
     map_option (\<lambda>(q, b). (q, case b of None \<Rightarrow> [] | Some b \<Rightarrow> [b])) (pool_flush R now pool)"

section \<open>The pool's invariant\<close>

text \<open>
  A threshold drawn for a configuration. \<open>Duration\<close> can express timeouts of more than 2^64
  microseconds (584 thousand years), which the casts of \<open>next_thresholds\<close> would truncate; the
  invariant excludes them.
\<close>

definition clump_cfg_ok :: "clumping_config \<Rightarrow> bool" where
  "clump_cfg_ok c \<longleftrightarrow> clumping_valid c \<and> max_timeout c div 1000 \<le> u64_max"

definition thresholds_in :: "clumping_config \<Rightarrow> cycle_thresholds \<Rightarrow> bool" where
  "thresholds_in c th \<longleftrightarrow>
     min_packets_per_burst c \<le> ct_max_packets th \<and> ct_max_packets th \<le> max_packets_per_burst c \<and>
     min_timeout c div 1000 * 1000 \<le> ct_timeout th \<and> ct_timeout th \<le> max_timeout c"

definition pool_inv :: "'r clumping_pool \<Rightarrow> bool" where
  "pool_inv pool \<longleftrightarrow> clump_cfg_ok (cp_config pool) \<and> thresholds_in (cp_config pool) (thresholds pool) \<and>
     length (buffered pool) < ct_max_packets (thresholds pool) \<and>
     (deadline pool = None \<longleftrightarrow> buffered pool = [])"

text \<open>What holds inside the loop of \<open>push\<close>, where the size bound is not yet restored.\<close>

definition pool_mid :: "'r clumping_pool \<Rightarrow> bool" where
  "pool_mid pool \<longleftrightarrow> clump_cfg_ok (cp_config pool) \<and> thresholds_in (cp_config pool) (thresholds pool) \<and>
     (deadline pool = None \<longleftrightarrow> buffered pool = [])"

definition burst_ok :: "clumping_config \<Rightarrow> burst \<Rightarrow> bool" where
  "burst_ok c b \<longleftrightarrow> 0 < packet_count b \<and> packet_count b \<le> ct_max_packets (burst_threshold b) \<and>
     thresholds_in c (burst_threshold b) \<and>
     (burst_reason b = SizeThreshold \<longrightarrow> packet_count b = ct_max_packets (burst_threshold b))"

lemma next_thresholds_ok:
  assumes "rng_ok R" "clump_cfg_ok c"
  obtains th r' where "next_thresholds R c r = Some (th, r')" "thresholds_in c th"
proof -
  have le: "min_timeout c div 1000 \<le> max_timeout c div 1000"
    using assms(2) by (simp add: clump_cfg_ok_def clumping_valid_def div_le_mono)
  have t: "trunc64 (min_timeout c div 1000) = min_timeout c div 1000"
      "trunc64 (max_timeout c div 1000) = max_timeout c div 1000"
    using assms(2) le by (auto simp: clump_cfg_ok_def intro: trunc64_id)
  obtain mp r1 where 1: "gen_range R r (min_packets_per_burst c) (max_packets_per_burst c) = Some (mp, r1)"
      "min_packets_per_burst c \<le> mp" "mp \<le> max_packets_per_burst c"
    using gen_range_total [OF assms(1), of "min_packets_per_burst c" "max_packets_per_burst c"] assms(2)
    unfolding clump_cfg_ok_def clumping_valid_def by metis
  obtain m r2 where 2: "gen_range R r1 (min_timeout c div 1000) (max_timeout c div 1000) = Some (m, r2)"
      "min_timeout c div 1000 \<le> m" "m \<le> max_timeout c div 1000"
    using gen_range_total [OF assms(1) le] by metis
  have "m * 1000 \<le> max_timeout c"
    using 2(3) by (meson div_times_less_eq_dividend le_trans mult_le_mono1)
  with 1 2 t that show thesis
    by (simp add: next_thresholds_def thresholds_in_def Let_def)
qed

lemma thresholds_in_pos: "clump_cfg_ok c \<Longrightarrow> thresholds_in c th \<Longrightarrow> 0 < ct_max_packets th"
  by (simp add: clump_cfg_ok_def clumping_valid_def thresholds_in_def)

lemma flush_ready_ok:
  assumes "rng_ok R" "pool_mid pool" "buffered pool \<noteq> []"
    "reason = SizeThreshold \<Longrightarrow> ct_max_packets (thresholds pool) \<le> length (buffered pool)"
  obtains q b where "flush_ready R reason now pool = Some (q, b)" "pool_mid q"
    "cp_config q = cp_config pool" "burst_packets b @ buffered q = buffered pool"
    "burst_ok (cp_config pool) b" "length (buffered q) < length (buffered pool)"
    "buffered q = drop (ct_max_packets (thresholds pool)) (buffered pool)"
    "buffered q \<noteq> [] \<Longrightarrow> deadline q = Some (now + ct_timeout (thresholds q))"
    "burst_reason b = reason"
proof -
  have c: "clump_cfg_ok (cp_config pool)" and th: "thresholds_in (cp_config pool) (thresholds pool)"
    using assms(2) by (simp_all add: pool_mid_def)
  obtain th' r' where 1: "next_thresholds R (cp_config pool) (cp_rng pool) = Some (th', r')"
      "thresholds_in (cp_config pool) th'"
    using next_thresholds_ok [OF assms(1) c] .
  let ?n = "min (length (buffered pool)) (ct_max_packets (thresholds pool))"
  have pos: "0 < ct_max_packets (thresholds pool)" "0 < length (buffered pool)"
    using thresholds_in_pos [OF c th] assms(3) by auto
  have dn: "drop ?n (buffered pool) = drop (ct_max_packets (thresholds pool)) (buffered pool)"
    by (simp add: min_def)
  let ?q = "pool\<lparr>buffered := drop ?n (buffered pool), thresholds := th', cp_rng := r',
      deadline := (if drop ?n (buffered pool) = [] then None else Some (now + ct_timeout th'))\<rparr>"
  let ?b = "\<lparr>burst_packets = take ?n (buffered pool), burst_threshold = thresholds pool,
      burst_reason = reason\<rparr>"
  have eq: "flush_ready R reason now pool = Some (?q, ?b)"
    by (simp add: flush_ready_def Let_def 1(1))
  have mid: "pool_mid ?q" using c 1(2) by (simp add: pool_mid_def)
  have bok: "burst_ok (cp_config pool) ?b"
    using pos th assms(4) by (auto simp: burst_ok_def packet_count_def)
  have len: "length (drop ?n (buffered pool)) < length (buffered pool)"
    using pos by simp
  have cat: "burst_packets ?b @ buffered ?q = buffered pool" by simp
  show thesis
    by (rule that [OF eq mid _ cat]) (use bok len dn in simp_all)
qed

lemma push_loop_ok:
  assumes "rng_ok R" "pool_mid pool" "length (buffered pool) < fuel"
  shows "\<exists>q bs. push_loop fuel R now pool = Some (q, bs) \<and> pool_inv q \<and>
    cp_config q = cp_config pool \<and>
    concat (map burst_packets bs) @ buffered q = buffered pool \<and>
    (\<forall>b\<in>set bs. burst_ok (cp_config pool) b \<and> burst_reason b = SizeThreshold)"
  using assms(2,3)
proof (induction fuel arbitrary: pool)
  case 0
  then show ?case by simp
next
  case (Suc fuel)
  show ?case
  proof (cases "ct_max_packets (thresholds pool) \<le> length (buffered pool)")
    case False
    then show ?thesis using Suc.prems(1) by (simp add: pool_inv_def pool_mid_def)
  next
    case True
    have "0 < ct_max_packets (thresholds pool)"
      using Suc.prems(1) thresholds_in_pos by (auto simp: pool_mid_def)
    with True have ne: "buffered pool \<noteq> []" by auto
    obtain q b where q: "flush_ready R SizeThreshold now pool = Some (q, b)" "pool_mid q"
        "cp_config q = cp_config pool" "burst_packets b @ buffered q = buffered pool"
        "burst_ok (cp_config pool) b" "length (buffered q) < length (buffered pool)"
        "burst_reason b = SizeThreshold"
      using flush_ready_ok [OF assms(1) Suc.prems(1) ne, of SizeThreshold now] True by metis
    define q2 where "q2 = (if buffered q \<noteq> [] then
        q\<lparr>deadline := Some (now + ct_timeout (thresholds q))\<rparr> else q)"
    have q2: "pool_mid q2" "buffered q2 = buffered q" "cp_config q2 = cp_config q"
      using q(2) by (auto simp: q2_def pool_mid_def)
    have "length (buffered q2) < fuel" using q(6) q2(2) Suc.prems(2) by simp
    from Suc.IH [OF q2(1) this] obtain q3 bs where 3: "push_loop fuel R now q2 = Some (q3, bs)"
        "pool_inv q3" "cp_config q3 = cp_config q2"
        "concat (map burst_packets bs) @ buffered q3 = buffered q2"
        "\<forall>b\<in>set bs. burst_ok (cp_config q2) b \<and> burst_reason b = SizeThreshold"
      by blast
    have "push_loop (Suc fuel) R now pool = Some (q3, b # bs)"
      using True q(1) 3(1) by (simp add: q2_def [symmetric] Let_def)
    then show ?thesis using q q2 3 by auto
  qed
qed

lemma pool_push_ok:
  assumes "rng_ok R" "pool_inv pool"
  shows "\<exists>q bs. pool_push R p now pool = Some (q, bs) \<and> pool_inv q \<and>
    cp_config q = cp_config pool \<and>
    concat (map burst_packets bs) @ buffered q = buffered pool @ [p] \<and>
    (\<forall>b\<in>set bs. burst_ok (cp_config pool) b \<and> burst_reason b = SizeThreshold)"
proof -
  define p1 where "p1 = (if buffered pool = [] then
      pool\<lparr>deadline := Some (now + ct_timeout (thresholds pool))\<rparr> else pool)"
  define p2 where "p2 = p1\<lparr>buffered := buffered p1 @ [p]\<rparr>"
  have p2: "pool_mid p2" "buffered p2 = buffered pool @ [p]" "cp_config p2 = cp_config pool"
    using assms(2) by (auto simp: p1_def p2_def pool_mid_def pool_inv_def)
  have "pool_push R p now pool = push_loop (Suc (length (buffered p2))) R now p2"
    by (simp only: pool_push_def Let_def p1_def p2_def)
  with push_loop_ok [OF assms(1) p2(1) lessI, of now] p2(2,3) show ?thesis by metis
qed

text \<open>Between pushes the pool is below its threshold, so one flush empties it.\<close>

lemma flush_all:
  assumes "rng_ok R" "pool_inv pool" "buffered pool \<noteq> []" "reason \<noteq> SizeThreshold"
  obtains q b where "flush_ready R reason now pool = Some (q, b)" "pool_inv q"
    "cp_config q = cp_config pool" "burst_packets b = buffered pool" "buffered q = []"
    "burst_ok (cp_config pool) b" "burst_reason b = reason"
proof -
  have mid: "pool_mid pool" using assms(2) by (simp add: pool_inv_def pool_mid_def)
  obtain q b where q: "flush_ready R reason now pool = Some (q, b)" "pool_mid q"
    "cp_config q = cp_config pool" "burst_packets b @ buffered q = buffered pool"
    "burst_ok (cp_config pool) b"
    "buffered q = drop (ct_max_packets (thresholds pool)) (buffered pool)" "burst_reason b = reason"
    using flush_ready_ok [OF assms(1) mid assms(3), of reason now] assms(4) by metis
  have e: "buffered q = []" using q(6) assms(2) by (simp add: pool_inv_def)
  moreover have "pool_inv q"
    using q(2) e thresholds_in_pos by (auto simp: pool_mid_def pool_inv_def)
  ultimately show thesis using that q by simp
qed

lemma pool_tick_ok:
  assumes "rng_ok R" "pool_inv pool"
  shows "\<exists>q b. pool_tick R now pool = Some (q, b) \<and> pool_inv q \<and> cp_config q = cp_config pool \<and>
    (case b of None \<Rightarrow> q = pool \<and> (\<forall>d. deadline pool = Some d \<longrightarrow> now < d)
     | Some b \<Rightarrow> burst_packets b = buffered pool \<and> buffered q = [] \<and>
         burst_ok (cp_config pool) b \<and> burst_reason b = TimeoutReached)"
proof (cases "\<exists>d. deadline pool = Some d \<and> d \<le> now")
  case True
  then obtain d where d: "deadline pool = Some d" "d \<le> now" by blast
  then have ne: "buffered pool \<noteq> []" using assms(2) by (auto simp: pool_inv_def)
  obtain q b where "flush_ready R TimeoutReached now pool = Some (q, b)" "pool_inv q"
    "cp_config q = cp_config pool" "burst_packets b = buffered pool" "buffered q = []"
    "burst_ok (cp_config pool) b" "burst_reason b = TimeoutReached"
    using flush_all [OF assms ne, of TimeoutReached now] by blast
  then show ?thesis using d ne by (simp add: pool_tick_def)
next
  case False
  then show ?thesis using assms(2) by (auto simp: pool_tick_def split: option.splits)
qed

lemma pool_flush_ok:
  assumes "rng_ok R" "pool_inv pool"
  shows "\<exists>q b. pool_flush R now pool = Some (q, b) \<and> pool_inv q \<and> cp_config q = cp_config pool \<and>
    buffered q = [] \<and>
    (case b of None \<Rightarrow> buffered pool = []
     | Some b \<Rightarrow> burst_packets b = buffered pool \<and> burst_ok (cp_config pool) b)"
proof (cases "buffered pool = []")
  case True
  then show ?thesis using assms(2) by (simp add: pool_flush_def)
next
  case False
  obtain q b where "flush_ready R Manual now pool = Some (q, b)" "pool_inv q"
    "cp_config q = cp_config pool" "burst_packets b = buffered pool" "buffered q = []"
    "burst_ok (cp_config pool) b"
    using flush_all [OF assms False, of Manual now] by blast
  then show ?thesis using False by (simp add: pool_flush_def)
qed

lemma pool_new_ok:
  assumes "rng_ok R" "seed_role seed = TimingAndPool" "clump_cfg_ok c"
  shows "\<exists>pool. pool_with_config R H seed c = Some (Inr pool) \<and> pool_inv pool \<and>
    cp_config pool = c \<and> buffered pool = []"
proof -
  let ?r = "from_seed R (derive_rng_seed H seed (bytes_of ''mixtor.clumping.v1''))"
  obtain th r' where "next_thresholds R c ?r = Some (th, r')" "thresholds_in c th"
    using next_thresholds_ok [OF assms(1,3), of ?r] .
  moreover have "clumping_validate c = Inr c"
    using assms(3) clump_cfg.validate_ok by (simp add: clump_cfg_ok_def)
  ultimately show ?thesis
    using assms(2,3) thresholds_in_pos by (auto simp: pool_with_config_def pool_inv_def Let_def)
qed

section \<open>The pool as a pipeline stage\<close>

fun pool_taken :: "'r clumping_pool \<Rightarrow> pool_event \<Rightarrow> packet list" where
  "pool_taken pool (PoolPush p now) = [p]"
| "pool_taken pool _ = []"

definition pool_stage_inv :: "'r rng_ops \<Rightarrow> 'r clumping_pool \<Rightarrow> bool" where
  "pool_stage_inv R pool \<longleftrightarrow> rng_ok R \<and> pool_inv pool"

lemma pool_step_ok:
  assumes "rng_ok R" "pool_inv pool"
  shows "\<exists>q bs. pool_step R pool e = Some (q, bs) \<and> pool_inv q \<and> cp_config q = cp_config pool \<and>
    buffered pool @ pool_taken pool e = concat (map burst_packets bs) @ buffered q \<and>
    (\<forall>b\<in>set bs. burst_ok (cp_config pool) b)"
proof (cases e)
  case (PoolPush p now)
  then show ?thesis using pool_push_ok [OF assms, of p now] by fastforce
next
  case (PoolTick now)
  obtain q b where 1: "pool_tick R now pool = Some (q, b)" "pool_inv q" "cp_config q = cp_config pool"
    "case b of None \<Rightarrow> q = pool \<and> (\<forall>d. deadline pool = Some d \<longrightarrow> now < d)
     | Some b \<Rightarrow> burst_packets b = buffered pool \<and> buffered q = [] \<and>
         burst_ok (cp_config pool) b \<and> burst_reason b = TimeoutReached"
    using pool_tick_ok [OF assms, of now] by blast
  then show ?thesis using PoolTick by (cases b) auto
next
  case (PoolFlush now)
  obtain q b where 1: "pool_flush R now pool = Some (q, b)" "pool_inv q" "cp_config q = cp_config pool"
    "buffered q = []" "case b of None \<Rightarrow> buffered pool = []
     | Some b \<Rightarrow> burst_packets b = buffered pool \<and> burst_ok (cp_config pool) b"
    using pool_flush_ok [OF assms, of now] by blast
  then show ?thesis using PoolFlush by (cases b) auto
qed

interpretation pool: fifo_stage "pool_stage_inv R" "\<lambda>_ _. True" "pool_step R" buffered pool_taken burst_packets
  for R :: "'r rng_ops"
proof
  fix s :: "'r clumping_pool" and e
  assume "pool_stage_inv R s"
  then show "\<exists>s' os. pool_step R s e = Some (s', os) \<and> pool_stage_inv R s' \<and>
      buffered s @ pool_taken s e = concat (map burst_packets os) @ buffered s'"
    using pool_step_ok [of R s e] by (auto simp: pool_stage_inv_def)
qed

section \<open>Properties\<close>

lemma pool_run_ok:
  assumes "rng_ok R" "pool_inv pool"
  shows "\<exists>q bs. run_stage (pool_step R) pool es = Some (q, bs) \<and> pool_inv q \<and> cp_config q = cp_config pool \<and>
    buffered pool @ taken_run (pool_step R) pool_taken pool es = concat (map burst_packets bs) @ buffered q \<and>
    (\<forall>b\<in>set bs. burst_ok (cp_config pool) b)"
  using assms(2)
proof (induction es arbitrary: pool)
  case (Cons e es)
  obtain q bs where 1: "pool_step R pool e = Some (q, bs)" "pool_inv q" "cp_config q = cp_config pool"
      "buffered pool @ pool_taken pool e = concat (map burst_packets bs) @ buffered q"
      "\<forall>b\<in>set bs. burst_ok (cp_config pool) b"
    using pool_step_ok [OF assms(1) Cons.prems] by blast
  obtain q' bs' where 2: "run_stage (pool_step R) q es = Some (q', bs')" "pool_inv q'" "cp_config q' = cp_config q"
      "buffered q @ taken_run (pool_step R) pool_taken q es = concat (map burst_packets bs') @ buffered q'"
      "\<forall>b\<in>set bs'. burst_ok (cp_config q) b"
    using Cons.IH [OF 1(2)] by blast
  have "buffered pool @ pool_taken pool e @ taken_run (pool_step R) pool_taken q es =
      concat (map burst_packets (bs @ bs')) @ buffered q'"
    using 1(4) 2(4) by (metis append_assoc concat_append map_append)
  then show ?case using 1 2 by auto
qed simp

text \<open>C22: A pool built from a valid configuration and the timing seed never panics, whatever
  sequence of pushes, ticks and flushes it serves: the packets pushed leave it in order, each exactly
  once, as the concatenation of its bursts followed by what is still buffered. Every burst is
  non-empty, within thresholds drawn from the configured ranges, and one released by the size
  trigger has exactly the threshold size.\<close>
theorem pool_lossless:
  assumes "rng_ok R" "clump_cfg_ok c" "seed_role seed = TimingAndPool"
  shows "\<exists>pool. pool_with_config R H seed c = Some (Inr pool) \<and>
    (\<forall>es. \<exists>q bs. run_stage (pool_step R) pool es = Some (q, bs) \<and>
       taken_run (pool_step R) pool_taken pool es = concat (map burst_packets bs) @ buffered q \<and>
       length (buffered q) < max_packets_per_burst c \<and>
       (\<forall>b\<in>set bs. burst_ok c b))"
proof -
  obtain pool where p: "pool_with_config R H seed c = Some (Inr pool)" "pool_inv pool"
      "cp_config pool = c" "buffered pool = []"
    using pool_new_ok [OF assms(1,3,2)] by blast
  have "\<exists>q bs. run_stage (pool_step R) pool es = Some (q, bs) \<and>
       taken_run (pool_step R) pool_taken pool es = concat (map burst_packets bs) @ buffered q \<and>
       length (buffered q) < max_packets_per_burst c \<and> (\<forall>b\<in>set bs. burst_ok c b)" for es
    using pool_run_ok [OF assms(1) p(2), of es] p by (fastforce simp: pool_inv_def thresholds_in_def)
  then show ?thesis using p(1) by blast
qed

theorem pool_lossless_witness:
  "\<exists>pool. pool_with_config lcg (\<lambda>k d. d) \<lparr>seed_role = TimingAndPool, seed_bytes = [7]\<rparr> clumping_default = Some (Inr pool) \<and>
    (\<forall>es. \<exists>q bs. run_stage (pool_step lcg) pool es = Some (q, bs) \<and>
       taken_run (pool_step lcg) pool_taken pool es = concat (map burst_packets bs) @ buffered q \<and>
       length (buffered q) < max_packets_per_burst clumping_default \<and>
       (\<forall>b\<in>set bs. burst_ok clumping_default b))"
  by (rule pool_lossless [OF lcg_ok]) (simp_all add: clump_cfg_ok_def clumping_valid_def clumping_default_def u64_max_def)

text \<open>The two release triggers are exact. A push releases only bursts that reached their size
  threshold, and leaves fewer packets than the current threshold, with a deadline exactly when some
  are left. A tick releases the whole buffer in one burst once the deadline is reached and does
  nothing before.\<close>
theorem pool_triggers:
  assumes "rng_ok R" "pool_inv pool"
  shows "(\<exists>q bs. pool_push R p now pool = Some (q, bs) \<and> pool_inv q \<and>
      (\<forall>b\<in>set bs. burst_reason b = SizeThreshold \<and> packet_count b = ct_max_packets (burst_threshold b)) \<and>
      length (buffered q) < ct_max_packets (thresholds q) \<and> (deadline q = None) = (buffered q = [])) \<and>
    (\<exists>q b. pool_tick R now pool = Some (q, b) \<and>
      (if buffered pool \<noteq> [] \<and> the (deadline pool) \<le> now
       then \<exists>bst. b = Some bst \<and> burst_packets bst = buffered pool \<and> burst_reason bst = TimeoutReached \<and> buffered q = []
       else b = None \<and> q = pool))"
proof (intro conjI)
  show "\<exists>q bs. pool_push R p now pool = Some (q, bs) \<and> pool_inv q \<and>
      (\<forall>b\<in>set bs. burst_reason b = SizeThreshold \<and> packet_count b = ct_max_packets (burst_threshold b)) \<and>
      length (buffered q) < ct_max_packets (thresholds q) \<and> (deadline q = None) = (buffered q = [])"
    using pool_push_ok [OF assms, of p now] by (fastforce simp: pool_inv_def burst_ok_def)
  obtain q b where t: "pool_tick R now pool = Some (q, b)"
      "case b of None \<Rightarrow> q = pool \<and> (\<forall>d. deadline pool = Some d \<longrightarrow> now < d)
       | Some b \<Rightarrow> burst_packets b = buffered pool \<and> buffered q = [] \<and>
           burst_ok (cp_config pool) b \<and> burst_reason b = TimeoutReached"
    using pool_tick_ok [OF assms, of now] by blast
  have d: "(deadline pool = None) = (buffered pool = [])" using assms(2) by (simp add: pool_inv_def)
  have "b \<noteq> None \<longleftrightarrow> buffered pool \<noteq> [] \<and> the (deadline pool) \<le> now"
    using t d by (auto simp: pool_tick_def split: option.splits if_splits)
  then show "\<exists>q b. pool_tick R now pool = Some (q, b) \<and>
      (if buffered pool \<noteq> [] \<and> the (deadline pool) \<le> now
       then \<exists>bst. b = Some bst \<and> burst_packets bst = buffered pool \<and> burst_reason bst = TimeoutReached \<and> buffered q = []
       else b = None \<and> q = pool)"
    using t by (auto split: option.splits)
qed

theorem pool_triggers_witness:
  "\<exists>pool. pool_with_config lcg (\<lambda>k d. d) \<lparr>seed_role = TimingAndPool, seed_bytes = [7]\<rparr> clumping_default = Some (Inr pool) \<and>
    (\<exists>q bs. pool_push lcg (Packet [1]) 5 pool = Some (q, bs) \<and> pool_inv q \<and>
      (\<forall>b\<in>set bs. burst_reason b = SizeThreshold \<and> packet_count b = ct_max_packets (burst_threshold b)) \<and>
      length (buffered q) < ct_max_packets (thresholds q) \<and> (deadline q = None) = (buffered q = []))"
proof -
  have "clump_cfg_ok clumping_default"
    by (simp add: clump_cfg_ok_def clumping_valid_def clumping_default_def u64_max_def)
  then obtain pool where p: "pool_with_config lcg (\<lambda>k d. d) \<lparr>seed_role = TimingAndPool, seed_bytes = [7]\<rparr> clumping_default
      = Some (Inr pool)" "pool_inv pool"
    using pool_new_ok [OF lcg_ok, of "\<lparr>seed_role = TimingAndPool, seed_bytes = [7]\<rparr>" clumping_default "\<lambda>k d. d"] by auto
  show ?thesis
    by (rule exI [of _ pool], rule conjI, rule p(1), rule pool_triggers [OF lcg_ok p(2), THEN conjunct1])
qed

end
