(* ===== verification/Correlator.thy ===== *)
theory Correlator
  imports Clumping
begin

text \<open>
  \<open>src/src/timing_correlator.rs\<close>: the departure clock that emits every frame of a wire, real or
  dummy, and \<open>MixedFrame\<close> of \<open>src/src/composition.rs\<close>. The two process-wide counters
  \<open>SLOTS_FIRED\<close> and \<open>SLOTS_DROPPED\<close> are only ever added to; a correlator's state carries its own
  contribution to them. The lemmas give the bounds of a slot, the size of every frame, the
  losslessness of the queue (an interpretation of \<open>sized_stage\<close>), and the independence of the
  schedule from the injected traffic.
\<close>

section \<open>Frames\<close>

datatype mixed_frame = RealFrame packet | DummyFrame bytes

definition frame_len :: "mixed_frame \<Rightarrow> nat" where
  "frame_len f = (case f of RealFrame p \<Rightarrow> packet_len p | DummyFrame bs \<Rightarrow> length bs)"

definition is_real :: "mixed_frame \<Rightarrow> bool" where
  "is_real f = (case f of RealFrame _ \<Rightarrow> True | DummyFrame _ \<Rightarrow> False)"

definition is_dummy :: "mixed_frame \<Rightarrow> bool" where
  "is_dummy f = (case f of RealFrame _ \<Rightarrow> False | DummyFrame _ \<Rightarrow> True)"

definition frame_real :: "mixed_frame \<Rightarrow> packet list" where
  "frame_real f = (case f of RealFrame p \<Rightarrow> [p] | DummyFrame _ \<Rightarrow> [])"

lemma frame_simps [simp]:
  "frame_len (RealFrame p) = packet_len p" "frame_len (DummyFrame bs) = length bs"
  "is_dummy (RealFrame p) = False" "is_dummy (DummyFrame bs) = True"
  "is_real (RealFrame p) = True" "is_real (DummyFrame bs) = False"
  "frame_real (RealFrame p) = [p]" "frame_real (DummyFrame bs) = []"
  by (simp_all add: frame_len_def is_dummy_def is_real_def frame_real_def)

section \<open>Configuration\<close>

record tc_config =
  tc_cell_bytes :: nat
  initial_iat_ms :: real
  ema_alpha :: real
  min_iat_ms :: real
  max_iat_ms :: real
  max_queue_depth :: nat
  adapt_rate :: bool
  min_dummy_fraction :: real

datatype tc_error = TcInvalidConfig string | TcQueueFull

definition tc_default :: tc_config where
  "tc_default = \<lparr>tc_cell_bytes = 514, initial_iat_ms = 200, ema_alpha = 20 / 100, min_iat_ms = 5,
     max_iat_ms = 2000, max_queue_depth = 256, adapt_rate = True, min_dummy_fraction = 0\<rparr>"

definition tc_validate :: "tc_config \<Rightarrow> tc_error + tc_config" where
  "tc_validate c =
     (if tc_cell_bytes c = 0 then Inl (TcInvalidConfig ''cell_bytes must be non-zero'')
      else if initial_iat_ms c \<le> 0 then Inl (TcInvalidConfig ''initial_iat_ms must be positive'')
      else if ema_alpha c \<le> 0 \<or> ema_alpha c > 1 then Inl (TcInvalidConfig ''ema_alpha must be in (0, 1]'')
      else if min_iat_ms c \<le> 0 then Inl (TcInvalidConfig ''min_iat_ms must be positive'')
      else if min_iat_ms c \<ge> max_iat_ms c then
        Inl (TcInvalidConfig ''min_iat_ms must be less than max_iat_ms'')
      else if max_queue_depth c = 0 then Inl (TcInvalidConfig ''max_queue_depth must be non-zero'')
      else if \<not> (0 \<le> min_dummy_fraction c \<and> min_dummy_fraction c < 1) then
        Inl (TcInvalidConfig ''min_dummy_fraction must be in [0.0, 1.0)'')
      else Inr c)"

definition tc_valid :: "tc_config \<Rightarrow> bool" where
  "tc_valid c \<longleftrightarrow> 0 < tc_cell_bytes c \<and> 0 < initial_iat_ms c \<and> 0 < ema_alpha c \<and> ema_alpha c \<le> 1 \<and>
     0 < min_iat_ms c \<and> min_iat_ms c < max_iat_ms c \<and> 0 < max_queue_depth c \<and>
     0 \<le> min_dummy_fraction c \<and> min_dummy_fraction c < 1"

interpretation tc_cfg: config_check tc_validate tc_valid
  by unfold_locales (auto simp: tc_validate_def tc_valid_def)

section \<open>State and operations\<close>

record 'r timing_correlator =
  tc_conf :: tc_config
  tc_rng :: 'r
  tc_content_rng :: 'r
  real_queue :: "packet list"
  next_departure :: nanos
  mean_iat_ms :: real
  last_real_arrival :: "nanos option"
  real_emitted :: nat
  dummy_emitted :: nat
  slots_fired :: nat
  slots_dropped :: nat

definition F64_EPSILON :: real where
  "F64_EPSILON = 1 / 2 ^ 52"

definition MAX_CATCHUP_LAG :: nanos where
  "MAX_CATCHUP_LAG = 200 * 1000000"

definition exponential_sample :: "'r rng_ops \<Rightarrow> real \<Rightarrow> 'r \<Rightarrow> real \<times> 'r" where
  "exponential_sample R mean_ms r =
     (let (g, r') = gen_unit R r; u = max g F64_EPSILON in (- mean_ms * ln u, r'))"

definition slot_step :: "tc_config \<Rightarrow> real \<Rightarrow> nanos" where
  "slot_step c iat_ms =
     (let clamped = clampf (min_iat_ms c) (max_iat_ms c) iat_ms
      in as_u64 (of_int (roundf (clamped * 1000))) * 1000)"

definition advance_clock :: "'r rng_ops \<Rightarrow> nanos \<Rightarrow> 'r timing_correlator \<Rightarrow> 'r timing_correlator" where
  "advance_clock R now tc =
     (let (iat_ms, r') = exponential_sample R (mean_iat_ms tc) (tc_rng tc);
          step = slot_step (tc_conf tc) iat_ms;
          candidate = next_departure tc + step
      in if candidate + MAX_CATCHUP_LAG < now then
           (let lost = trunc64 ((now - candidate) div 1000) div trunc64 (max (step div 1000) 1)
            in tc\<lparr>tc_rng := r', slots_fired := slots_fired tc + 1,
                  slots_dropped := slots_dropped tc + max lost 1,
                  next_departure := now + step\<rparr>)
         else tc\<lparr>tc_rng := r', slots_fired := slots_fired tc + 1, next_departure := candidate\<rparr>)"

definition tc_new ::
  "'r rng_ops \<Rightarrow> tc_config \<Rightarrow> 'r \<Rightarrow> nanos \<Rightarrow> nanos \<Rightarrow> tc_error + 'r timing_correlator" where
  "tc_new R config r t1 t2 =
     (case tc_validate config of
        Inl e \<Rightarrow> Inl e
      | Inr c \<Rightarrow>
          let (content_seed, r1) = fill_bytes R r 32;
              tc = \<lparr>tc_conf = c, tc_rng = r1, tc_content_rng = from_seed R content_seed,
                    real_queue = [], next_departure = t1, mean_iat_ms = initial_iat_ms c,
                    last_real_arrival = None, real_emitted = 0, dummy_emitted = 0,
                    slots_fired = 0, slots_dropped = 0\<rparr>
          in Inr (advance_clock R t2 tc))"

text \<open>\<open>t1\<close> is the reading of \<open>last.elapsed()\<close>, \<open>t2\<close> that of \<open>Instant::now()\<close>.\<close>

definition tc_inject_real ::
  "nanos \<Rightarrow> nanos \<Rightarrow> packet \<Rightarrow> 'r timing_correlator \<Rightarrow> (tc_error + unit) \<times> 'r timing_correlator" where
  "tc_inject_real t1 t2 p tc =
     (if max_queue_depth (tc_conf tc) \<le> length (real_queue tc) then (Inl TcQueueFull, tc)
      else
        let tc1 =
          (if adapt_rate (tc_conf tc) then
             (let tc0 = (case last_real_arrival tc of
                 None \<Rightarrow> tc
               | Some prev \<Rightarrow>
                   let iat_ms = real (t1 - prev) / 10 ^ 9 * 1000;
                       m = ema_alpha (tc_conf tc) * iat_ms
                           + (1 - ema_alpha (tc_conf tc)) * mean_iat_ms tc
                   in tc\<lparr>mean_iat_ms := clampf (min_iat_ms (tc_conf tc)) (max_iat_ms (tc_conf tc)) m\<rparr>)
              in tc0\<lparr>last_real_arrival := Some t2\<rparr>)
           else tc)
        in (Inr (), tc1\<lparr>real_queue := real_queue tc1 @ [p]\<rparr>))"

text \<open>\<open>inject_burst\<close>: the packets injected before a full queue stay injected.\<close>

fun tc_inject_burst ::
  "(packet \<times> nanos \<times> nanos) list \<Rightarrow> nat \<Rightarrow> 'r timing_correlator \<Rightarrow> (tc_error + nat) \<times> 'r timing_correlator" where
  "tc_inject_burst [] count tc = (Inr count, tc)"
| "tc_inject_burst ((p, t1, t2) # ps) count tc =
     (case tc_inject_real t1 t2 p tc of
        (Inl e, tc') \<Rightarrow> (Inl e, tc')
      | (Inr _, tc') \<Rightarrow> tc_inject_burst ps (count + 1) tc')"

definition pad_to_cell :: "'r rng_ops \<Rightarrow> nat \<Rightarrow> bytes \<Rightarrow> 'r \<Rightarrow> bytes \<times> 'r" where
  "pad_to_cell R target data r =
     (if length data = target then (data, r)
      else if length data < target then
        (let (padding, r') = fill_bytes R r (target - length data) in (data @ padding, r'))
      else (take target data, r))"

definition make_real_frame ::
  "'r rng_ops \<Rightarrow> packet \<Rightarrow> 'r timing_correlator \<Rightarrow> mixed_frame \<times> 'r timing_correlator" where
  "make_real_frame R p tc =
     (let (padded, r') = pad_to_cell R (tc_cell_bytes (tc_conf tc)) (packet_bytes p) (tc_rng tc);
          tc' = tc\<lparr>tc_rng := r'\<rparr>
      in case packet_new padded of
           Inr q \<Rightarrow> (RealFrame q, tc')
         | Inl _ \<Rightarrow> (DummyFrame (replicate (tc_cell_bytes (tc_conf tc)) 0), tc'))"

definition make_dummy_frame ::
  "'r rng_ops \<Rightarrow> 'r timing_correlator \<Rightarrow> mixed_frame \<times> 'r timing_correlator" where
  "make_dummy_frame R tc =
     (let (bs, r') = fill_bytes R (tc_content_rng tc) (tc_cell_bytes (tc_conf tc))
      in (DummyFrame bs, tc\<lparr>tc_content_rng := r'\<rparr>))"

text \<open>The coin of the dummy floor; \<open>&&\<close> draws only for a positive fraction.\<close>

definition draw_force_dummy :: "'r rng_ops \<Rightarrow> 'r timing_correlator \<Rightarrow> bool \<times> 'r timing_correlator" where
  "draw_force_dummy R tc =
     (if min_dummy_fraction (tc_conf tc) > 0 then
        (let (g, r') = gen_unit R (tc_rng tc)
         in (g < min_dummy_fraction (tc_conf tc), tc\<lparr>tc_rng := r'\<rparr>))
      else (False, tc))"

text \<open>\<open>t1\<close> is the reading that decides whether the slot has arrived, \<open>t2\<close> the one taken by
  \<open>advance_clock\<close>.\<close>

definition tc_tick ::
  "'r rng_ops \<Rightarrow> nanos \<Rightarrow> nanos \<Rightarrow> 'r timing_correlator \<Rightarrow> mixed_frame option \<times> 'r timing_correlator" where
  "tc_tick R t1 t2 tc =
     (if t1 < next_departure tc then (None, tc)
      else
        let tc1 = advance_clock R t2 tc;
            (force_dummy, tc2) = draw_force_dummy R tc1
        in (case (force_dummy, real_queue tc2) of
              (False, p # rest) \<Rightarrow>
                let (f, tc3) = make_real_frame R p (tc2\<lparr>real_queue := rest\<rparr>)
                in (Some f, tc3\<lparr>real_emitted := real_emitted tc3 + 1\<rparr>)
            | _ \<Rightarrow>
                let (f, tc3) = make_dummy_frame R tc2
                in (Some f, tc3\<lparr>dummy_emitted := dummy_emitted tc3 + 1\<rparr>)))"

definition tc_slot_ready :: "nanos \<Rightarrow> 'r timing_correlator \<Rightarrow> bool" where
  "tc_slot_ready now tc \<longleftrightarrow> next_departure tc \<le> now"

definition tc_restart_clock ::
  "'r rng_ops \<Rightarrow> nanos \<Rightarrow> nanos \<Rightarrow> 'r timing_correlator \<Rightarrow> 'r timing_correlator" where
  "tc_restart_clock R t1 t2 tc = advance_clock R t2 (tc\<lparr>next_departure := t1\<rparr>)"

definition tc_queue_depth :: "'r timing_correlator \<Rightarrow> nat" where
  "tc_queue_depth tc = length (real_queue tc)"

definition tc_has_queue_space :: "'r timing_correlator \<Rightarrow> bool" where
  "tc_has_queue_space tc \<longleftrightarrow> length (real_queue tc) < max_queue_depth (tc_conf tc)"

definition tc_real_fraction :: "'r timing_correlator \<Rightarrow> real" where
  "tc_real_fraction tc =
     (let total = real_emitted tc + dummy_emitted tc
      in if total = 0 then 0 else real (real_emitted tc) / real total)"

text \<open>\<open>drain_ready\<close>: the \<open>i\<close>-th call of \<open>tick\<close> reads the clock at \<open>clk i\<close>. A clock that runs ahead
  of the schedule would keep the loop going for ever; fuel bounds the number of calls.\<close>

fun drain_ready ::
  "nat \<Rightarrow> 'r rng_ops \<Rightarrow> (nat \<Rightarrow> nanos \<times> nanos) \<Rightarrow> nat \<Rightarrow> 'r timing_correlator \<Rightarrow>
     (mixed_frame list \<times> 'r timing_correlator) option" where
  "drain_ready 0 R clk i tc = None"
| "drain_ready (Suc fuel) R clk i tc =
     (case tc_tick R (fst (clk i)) (snd (clk i)) tc of
        (None, tc') \<Rightarrow> Some ([], tc')
      | (Some f, tc') \<Rightarrow> map_option (\<lambda>(fs, tc''). (f # fs, tc'')) (drain_ready fuel R clk (Suc i) tc'))"

section \<open>The schedule\<close>

lemma advance_clock_fields [simp]:
  "tc_conf (advance_clock R now tc) = tc_conf tc"
  "tc_content_rng (advance_clock R now tc) = tc_content_rng tc"
  "real_queue (advance_clock R now tc) = real_queue tc"
  "mean_iat_ms (advance_clock R now tc) = mean_iat_ms tc"
  "last_real_arrival (advance_clock R now tc) = last_real_arrival tc"
  "real_emitted (advance_clock R now tc) = real_emitted tc"
  "dummy_emitted (advance_clock R now tc) = dummy_emitted tc"
  "slots_fired (advance_clock R now tc) = slots_fired tc + 1"
  by (simp_all add: advance_clock_def Let_def split: prod.split)

lemma draw_force_dummy_fields [simp]:
  "tc_conf (snd (draw_force_dummy R tc)) = tc_conf tc"
  "tc_content_rng (snd (draw_force_dummy R tc)) = tc_content_rng tc"
  "real_queue (snd (draw_force_dummy R tc)) = real_queue tc"
  "next_departure (snd (draw_force_dummy R tc)) = next_departure tc"
  "mean_iat_ms (snd (draw_force_dummy R tc)) = mean_iat_ms tc"
  "real_emitted (snd (draw_force_dummy R tc)) = real_emitted tc"
  "dummy_emitted (snd (draw_force_dummy R tc)) = dummy_emitted tc"
  by (simp_all add: draw_force_dummy_def split: prod.split)

text \<open>A slot lasts between the configured bounds, to the rounding of a microsecond.\<close>

lemma slot_step_bounds:
  assumes "min_iat_ms c \<le> max_iat_ms c"
  shows "as_u64 (of_int (roundf (min_iat_ms c * 1000))) * 1000 \<le> slot_step c x"
    and "slot_step c x \<le> as_u64 (of_int (roundf (max_iat_ms c * 1000))) * 1000"
proof -
  have "min_iat_ms c \<le> clampf (min_iat_ms c) (max_iat_ms c) x"
      "clampf (min_iat_ms c) (max_iat_ms c) x \<le> max_iat_ms c"
    using assms by (simp_all add: clampf_ge clampf_le)
  then have "roundf (min_iat_ms c * 1000) \<le> roundf (clampf (min_iat_ms c) (max_iat_ms c) x * 1000)"
      "roundf (clampf (min_iat_ms c) (max_iat_ms c) x * 1000) \<le> roundf (max_iat_ms c * 1000)"
    by (auto intro: roundf_mono)
  then show "as_u64 (of_int (roundf (min_iat_ms c * 1000))) * 1000 \<le> slot_step c x"
      "slot_step c x \<le> as_u64 (of_int (roundf (max_iat_ms c * 1000))) * 1000"
    by (auto simp: slot_step_def intro!: as_u64_mono)
qed

lemma advance_clock_cases:
  obtains s where
    "s = slot_step (tc_conf tc) (fst (exponential_sample R (mean_iat_ms tc) (tc_rng tc)))"
    "next_departure (advance_clock R now tc) =
       (if next_departure tc + s + MAX_CATCHUP_LAG < now then now + s else next_departure tc + s)"
  by (cases "exponential_sample R (mean_iat_ms tc) (tc_rng tc)") (simp add: advance_clock_def Let_def)

lemma advance_clock_rng:
  "tc_rng (advance_clock R now tc) = snd (exponential_sample R (mean_iat_ms tc) (tc_rng tc))"
  by (cases "exponential_sample R (mean_iat_ms tc) (tc_rng tc)") (simp add: advance_clock_def Let_def)

lemma advance_clock_lag: "now \<le> next_departure (advance_clock R now tc) + MAX_CATCHUP_LAG"
  by (rule advance_clock_cases [of tc R now]) auto

lemma advance_clock_progress:
  "next_departure tc + as_u64 (of_int (roundf (min_iat_ms (tc_conf tc) * 1000))) * 1000
     \<le> next_departure (advance_clock R now tc)"
  if "min_iat_ms (tc_conf tc) \<le> max_iat_ms (tc_conf tc)"
proof -
  obtain s where s: "s = slot_step (tc_conf tc) (fst (exponential_sample R (mean_iat_ms tc) (tc_rng tc)))"
    "next_departure (advance_clock R now tc) =
       (if next_departure tc + s + MAX_CATCHUP_LAG < now then now + s else next_departure tc + s)"
    by (rule advance_clock_cases)
  show ?thesis
    using slot_step_bounds(1) [OF that, of "fst (exponential_sample R (mean_iat_ms tc) (tc_rng tc))"]
    by (simp add: s(2)) (simp add: s(1))
qed

section \<open>Frames of one size, a lossless queue\<close>

definition tc_inv :: "'r rng_ops \<Rightarrow> 'r timing_correlator \<Rightarrow> bool" where
  "tc_inv R tc \<longleftrightarrow> rng_ok R \<and> tc_valid (tc_conf tc) \<and>
     length (real_queue tc) \<le> max_queue_depth (tc_conf tc) \<and>
     (\<forall>p\<in>set (real_queue tc). packet_len p = tc_cell_bytes (tc_conf tc))"

lemma pad_to_cell_length:
  "rng_ok R \<Longrightarrow> length (fst (pad_to_cell R n data r)) = n"
  by (auto simp: pad_to_cell_def split: prod.split dest: rng_ok_fill)

lemma pad_to_cell_exact: "length data = n \<Longrightarrow> pad_to_cell R n data r = (data, r)"
  by (simp add: pad_to_cell_def)

text \<open>Even a packet of the wrong size leaves as a frame of exactly one cell.\<close>

lemma make_real_frame_len:
  assumes "rng_ok R" "make_real_frame R p tc = (f, tc')"
  shows "frame_len f = tc_cell_bytes (tc_conf tc)"
  using assms(2) pad_to_cell_length [OF assms(1), of "tc_cell_bytes (tc_conf tc)" "packet_bytes p" "tc_rng tc"]
  by (auto simp: make_real_frame_def packet_new_def packet_len_def Let_def split: prod.splits if_splits)

lemma make_real_frame_exact:
  assumes "packet_len p = tc_cell_bytes (tc_conf tc)" "0 < tc_cell_bytes (tc_conf tc)"
  shows "make_real_frame R p tc = (RealFrame p, tc)"
  using assms by (cases p)
    (auto simp: make_real_frame_def pad_to_cell_exact packet_len_def packet_new_def)

lemma make_dummy_frame_len:
  "rng_ok R \<Longrightarrow> make_dummy_frame R tc = (f, tc') \<Longrightarrow> frame_len f = tc_cell_bytes (tc_conf tc)"
  by (auto simp: make_dummy_frame_def split: prod.splits dest: rng_ok_fill)

lemma make_dummy_frame_fields:
  assumes "make_dummy_frame R tc = (f, tc')"
  shows "\<exists>r. tc' = tc\<lparr>tc_content_rng := r\<rparr>" "is_dummy f" "frame_real f = []"
  using assms by (auto simp: make_dummy_frame_def split: prod.splits)

text \<open>What a tick does, in three cases.\<close>

lemma tc_tick_cases:
  obtains (wait) "t1 < next_departure tc" "tc_tick R t1 t2 tc = (None, tc)"
  | (forward) p rest f tc3 tc2 where "next_departure tc \<le> t1"
      "draw_force_dummy R (advance_clock R t2 tc) = (False, tc2)" "real_queue tc = p # rest"
      "make_real_frame R p (tc2\<lparr>real_queue := rest\<rparr>) = (f, tc3)"
      "tc_tick R t1 t2 tc = (Some f, tc3\<lparr>real_emitted := real_emitted tc3 + 1\<rparr>)"
  | (cover) fd f tc3 tc2 where "next_departure tc \<le> t1"
      "draw_force_dummy R (advance_clock R t2 tc) = (fd, tc2)" "fd \<or> real_queue tc = []"
      "make_dummy_frame R tc2 = (f, tc3)"
      "tc_tick R t1 t2 tc = (Some f, tc3\<lparr>dummy_emitted := dummy_emitted tc3 + 1\<rparr>)"
proof (cases "t1 < next_departure tc")
  case True
  then show thesis by (intro wait) (simp_all add: tc_tick_def)
next
  case False
  obtain fd tc2 where d: "draw_force_dummy R (advance_clock R t2 tc) = (fd, tc2)"
    by (cases "draw_force_dummy R (advance_clock R t2 tc)")
  have q: "real_queue tc2 = real_queue tc"
    using draw_force_dummy_fields(3) [of R "advance_clock R t2 tc"] by (simp add: d)
  show thesis
  proof (cases "fd \<or> real_queue tc = []")
    case True
    obtain f tc3 where m: "make_dummy_frame R tc2 = (f, tc3)" by (cases "make_dummy_frame R tc2")
    show thesis
      using False True m d q
      by (intro cover [OF _ d True m]) (auto simp: tc_tick_def split: list.splits bool.splits)
  next
    case nf: False
    then obtain p rest where pr: "real_queue tc = p # rest" by (cases "real_queue tc") auto
    obtain f tc3 where m: "make_real_frame R p (tc2\<lparr>real_queue := rest\<rparr>) = (f, tc3)"
      by (cases "make_real_frame R p (tc2\<lparr>real_queue := rest\<rparr>)")
    show thesis
      using False nf m d q pr
      by (intro forward [OF _ _ pr m]) (auto simp: tc_tick_def)
  qed
qed

lemma make_real_frame_conf:
  "make_real_frame R p tc = (f, tc') \<Longrightarrow> tc_conf tc' = tc_conf tc \<and> real_queue tc' = real_queue tc \<and>
     next_departure tc' = next_departure tc \<and> mean_iat_ms tc' = mean_iat_ms tc"
  by (auto simp: make_real_frame_def Let_def split: prod.splits sum.splits)

lemma draw_conf:
  "draw_force_dummy R (advance_clock R t2 tc) = (fd, tc2) \<Longrightarrow>
     tc_conf tc2 = tc_conf tc \<and> real_queue tc2 = real_queue tc \<and>
     next_departure tc2 = next_departure (advance_clock R t2 tc) \<and> mean_iat_ms tc2 = mean_iat_ms tc"
  using draw_force_dummy_fields [of R "advance_clock R t2 tc"] by simp

lemma tc_tick_sized:
  assumes "rng_ok R" "tc_tick R t1 t2 tc = (Some f, tc')"
  shows "frame_len f = tc_cell_bytes (tc_conf tc)"
  by (rule tc_tick_cases [of t1 tc R t2])
    (use assms in \<open>auto dest!: draw_conf dest: make_real_frame_len make_dummy_frame_len\<close>)

lemma tc_tick_conf: "tc_tick R t1 t2 tc = (fo, tc') \<Longrightarrow> tc_conf tc' = tc_conf tc"
  by (rule tc_tick_cases [of t1 tc R t2])
    (auto dest!: draw_conf make_real_frame_conf make_dummy_frame_fields(1))

text \<open>The clock after a tick is the advanced clock, whatever frame was emitted.\<close>

lemma tc_tick_departure:
  "tc_tick R t1 t2 tc = (Some f, tc') \<Longrightarrow> next_departure tc' = next_departure (advance_clock R t2 tc)"
  by (rule tc_tick_cases [of t1 tc R t2])
    (auto dest!: draw_conf make_real_frame_conf make_dummy_frame_fields(1))

lemma tc_tick_emits_iff: "fst (tc_tick R t1 t2 tc) \<noteq> None \<longleftrightarrow> tc_slot_ready t1 tc"
  by (rule tc_tick_cases [of t1 tc R t2]) (auto simp: tc_slot_ready_def)

lemma tc_tick_fifo:
  assumes "tc_inv R tc" "tc_tick R t1 t2 tc = (fo, tc')"
  shows "tc_inv R tc' \<and>
    real_queue tc = (case fo of None \<Rightarrow> [] | Some f \<Rightarrow> frame_real f) @ real_queue tc'"
proof (rule tc_tick_cases [of t1 tc R t2])
  assume "t1 < next_departure tc" "tc_tick R t1 t2 tc = (None, tc)"
  then show ?thesis using assms by simp
next
  fix p rest f tc3 tc2
  assume a: "next_departure tc \<le> t1" "draw_force_dummy R (advance_clock R t2 tc) = (False, tc2)"
    "real_queue tc = p # rest" "make_real_frame R p (tc2\<lparr>real_queue := rest\<rparr>) = (f, tc3)"
    "tc_tick R t1 t2 tc = (Some f, tc3\<lparr>real_emitted := real_emitted tc3 + 1\<rparr>)"
  have c: "tc_conf tc2 = tc_conf tc" using draw_conf [OF a(2)] by simp
  have "make_real_frame R p (tc2\<lparr>real_queue := rest\<rparr>) = (RealFrame p, tc2\<lparr>real_queue := rest\<rparr>)"
    using assms(1) a(3) c by (intro make_real_frame_exact) (auto simp: tc_inv_def tc_valid_def)
  then show ?thesis using a assms c by (auto simp: tc_inv_def)
next
  fix fd f tc3 tc2
  assume a: "next_departure tc \<le> t1" "draw_force_dummy R (advance_clock R t2 tc) = (fd, tc2)"
    "make_dummy_frame R tc2 = (f, tc3)"
    "tc_tick R t1 t2 tc = (Some f, tc3\<lparr>dummy_emitted := dummy_emitted tc3 + 1\<rparr>)"
  obtain r where "tc3 = tc2\<lparr>tc_content_rng := r\<rparr>" "frame_real f = []"
    using make_dummy_frame_fields [OF a(3)] by blast
  then show ?thesis using a assms draw_conf [OF a(2)] by (auto simp: tc_inv_def)
qed

lemma tc_inject_cases:
  obtains (full) "max_queue_depth (tc_conf tc) \<le> length (real_queue tc)"
      "tc_inject_real t1 t2 p tc = (Inl TcQueueFull, tc)"
  | (room) tc' where "length (real_queue tc) < max_queue_depth (tc_conf tc)"
      "tc_inject_real t1 t2 p tc = (Inr (), tc')" "real_queue tc' = real_queue tc @ [p]"
      "tc_conf tc' = tc_conf tc" "tc_rng tc' = tc_rng tc" "next_departure tc' = next_departure tc"
      "\<not> adapt_rate (tc_conf tc) \<Longrightarrow> mean_iat_ms tc' = mean_iat_ms tc"
proof (cases "max_queue_depth (tc_conf tc) \<le> length (real_queue tc)")
  case True
  then show thesis by (intro full) (simp_all add: tc_inject_real_def)
next
  case False
  then show thesis
    by (intro room [of "snd (tc_inject_real t1 t2 p tc)"])
      (auto simp: tc_inject_real_def Let_def split: option.split)
qed

lemma tc_inject_conf [simp]: "tc_conf (snd (tc_inject_real t1 t2 p tc)) = tc_conf tc"
  by (rule tc_inject_cases [of tc t1 t2 p]) simp_all

section \<open>The correlator as a pipeline stage\<close>

datatype tc_event = TcInject packet nanos nanos | TcTick nanos nanos | TcRestart nanos nanos

fun tc_step ::
  "'r rng_ops \<Rightarrow> 'r timing_correlator \<Rightarrow> tc_event \<Rightarrow> ('r timing_correlator \<times> mixed_frame list) option" where
  "tc_step R tc (TcInject p t1 t2) = Some (snd (tc_inject_real t1 t2 p tc), [])"
| "tc_step R tc (TcTick t1 t2) =
     (case tc_tick R t1 t2 tc of (fo, tc') \<Rightarrow> Some (tc', case fo of None \<Rightarrow> [] | Some f \<Rightarrow> [f]))"
| "tc_step R tc (TcRestart t1 t2) = Some (tc_restart_clock R t1 t2 tc, [])"

fun tc_adm :: "'r timing_correlator \<Rightarrow> tc_event \<Rightarrow> bool" where
  "tc_adm tc (TcInject p t1 t2) = (packet_len p = tc_cell_bytes (tc_conf tc))"
| "tc_adm tc _ = True"

fun tc_taken :: "'r timing_correlator \<Rightarrow> tc_event \<Rightarrow> packet list" where
  "tc_taken tc (TcInject p t1 t2) = (if tc_has_queue_space tc then [p] else [])"
| "tc_taken tc _ = []"

lemma tc_restart_fields [simp]:
  "tc_conf (tc_restart_clock R t1 t2 tc) = tc_conf tc"
  "real_queue (tc_restart_clock R t1 t2 tc) = real_queue tc"
  by (simp_all add: tc_restart_clock_def)

lemma tc_step_ok:
  assumes "tc_inv R tc" "tc_adm tc e"
  shows "\<exists>tc' fs. tc_step R tc e = Some (tc', fs) \<and> tc_inv R tc' \<and>
    real_queue tc @ tc_taken tc e = concat (map frame_real fs) @ real_queue tc'"
proof (cases e)
  case (TcInject p t1 t2)
  show ?thesis
    by (rule tc_inject_cases [of tc t1 t2 p])
      (use assms TcInject in \<open>auto simp: tc_inv_def tc_has_queue_space_def\<close>)
next
  case (TcTick t1 t2)
  obtain fo tc' where "tc_tick R t1 t2 tc = (fo, tc')" by (cases "tc_tick R t1 t2 tc")
  with tc_tick_fifo [OF assms(1) this] TcTick show ?thesis by (cases fo) auto
next
  case (TcRestart t1 t2)
  then show ?thesis using assms(1) by (simp add: tc_inv_def)
qed

interpretation tcq: sized_stage "tc_inv R" tc_adm "tc_step R" real_queue tc_taken frame_real
    frame_len "\<lambda>tc. tc_cell_bytes (tc_conf tc)" for R :: "'r rng_ops"
proof
  fix s :: "'r timing_correlator" and e
  assume "tc_inv R s" "tc_adm s e"
  then show "\<exists>s' os. tc_step R s e = Some (s', os) \<and> tc_inv R s' \<and>
      real_queue s @ tc_taken s e = concat (map frame_real os) @ real_queue s'"
    by (rule tc_step_ok)
next
  fix s s' :: "'r timing_correlator" and e os
  assume a: "tc_inv R s" "tc_adm s e" "tc_step R s e = Some (s', os)"
  then show "tc_cell_bytes (tc_conf s') = tc_cell_bytes (tc_conf s) \<and>
      (\<forall>x\<in>set os. frame_len x = tc_cell_bytes (tc_conf s))"
  proof (cases e)
    case (TcInject p t1 t2)
    then show ?thesis using a(3) by auto
  next
    case (TcTick t1 t2)
    then obtain fo where t: "tc_tick R t1 t2 s = (fo, s')" "os = (case fo of None \<Rightarrow> [] | Some f \<Rightarrow> [f])"
      using a(3) by (auto split: prod.splits)
    have c: "tc_conf s' = tc_conf s" by (rule tc_tick_conf [OF t(1)])
    have "frame_len f = tc_cell_bytes (tc_conf s)" if "fo = Some f" for f
      using a(1) tc_tick_sized [of R t1 t2 s f s'] t(1) that by (simp add: tc_inv_def)
    then show ?thesis using c t(2) by (cases fo) simp_all
  next
    case (TcRestart t1 t2)
    then show ?thesis using a(3) by auto
  qed
qed

section \<open>The schedule does not depend on the traffic\<close>

text \<open>
  All that the departure clock reads: the configuration, the clock generator, the scheduled slot
  and the mean. With \<open>adapt_rate\<close> off, injecting a packet leaves it unchanged, and ticks of two
  correlators with the same view keep the same view, provided the queued packets have cell size
  (a shorter packet would draw its padding from the clock generator).
\<close>

definition clock_view :: "'r timing_correlator \<Rightarrow> tc_config \<times> 'r \<times> nanos \<times> real" where
  "clock_view tc = (tc_conf tc, tc_rng tc, next_departure tc, mean_iat_ms tc)"

lemma inject_clock_view:
  "\<not> adapt_rate (tc_conf tc) \<Longrightarrow> clock_view (snd (tc_inject_real t1 t2 p tc)) = clock_view tc"
  by (rule tc_inject_cases [of tc t1 t2 p]) (auto simp: clock_view_def)

lemma advance_clock_view:
  assumes "clock_view tc = clock_view tc'"
  shows "clock_view (advance_clock R t tc) = clock_view (advance_clock R t tc')"
proof -
  have "next_departure (advance_clock R t tc) = next_departure (advance_clock R t tc')"
    using assms by (auto simp: advance_clock_def clock_view_def Let_def split: prod.split)
  then show ?thesis using assms by (simp add: clock_view_def advance_clock_rng)
qed

lemma draw_force_dummy_view:
  assumes "clock_view tc = clock_view tc'"
  shows "clock_view (snd (draw_force_dummy R tc)) = clock_view (snd (draw_force_dummy R tc'))"
    and "fst (draw_force_dummy R tc) = fst (draw_force_dummy R tc')"
  using assms by (auto simp: draw_force_dummy_def clock_view_def split: prod.split)

lemma tc_tick_view_eq:
  assumes "tc_inv R tc" "next_departure tc \<le> t1"
  shows "clock_view (snd (tc_tick R t1 t2 tc)) = clock_view (snd (draw_force_dummy R (advance_clock R t2 tc)))"
proof (rule tc_tick_cases [of t1 tc R t2])
  assume "t1 < next_departure tc"
  then show ?thesis using assms(2) by simp
next
  fix p rest f tc3 tc2
  assume a: "draw_force_dummy R (advance_clock R t2 tc) = (False, tc2)"
    "real_queue tc = p # rest" "make_real_frame R p (tc2\<lparr>real_queue := rest\<rparr>) = (f, tc3)"
    "tc_tick R t1 t2 tc = (Some f, tc3\<lparr>real_emitted := real_emitted tc3 + 1\<rparr>)"
  have "make_real_frame R p (tc2\<lparr>real_queue := rest\<rparr>) = (RealFrame p, tc2\<lparr>real_queue := rest\<rparr>)"
    using assms(1) a(2) draw_conf [OF a(1)] by (intro make_real_frame_exact) (auto simp: tc_inv_def tc_valid_def)
  then show ?thesis using a by (auto simp: clock_view_def)
next
  fix fd f tc3 tc2
  assume a: "draw_force_dummy R (advance_clock R t2 tc) = (fd, tc2)" "make_dummy_frame R tc2 = (f, tc3)"
    "tc_tick R t1 t2 tc = (Some f, tc3\<lparr>dummy_emitted := dummy_emitted tc3 + 1\<rparr>)"
  obtain r where "tc3 = tc2\<lparr>tc_content_rng := r\<rparr>"
    using make_dummy_frame_fields [OF a(2)] by blast
  then show ?thesis using a by (simp add: clock_view_def)
qed

lemma tc_tick_view:
  assumes "tc_inv R tc" "tc_inv R tc'" "clock_view tc = clock_view tc'"
  shows "clock_view (snd (tc_tick R t1 t2 tc)) = clock_view (snd (tc_tick R t1 t2 tc'))"
    and "fst (tc_tick R t1 t2 tc) = None \<longleftrightarrow> fst (tc_tick R t1 t2 tc') = None"
proof -
  have n: "next_departure tc = next_departure tc'" using assms(3) by (simp add: clock_view_def)
  show "fst (tc_tick R t1 t2 tc) = None \<longleftrightarrow> fst (tc_tick R t1 t2 tc') = None"
    using n tc_tick_emits_iff [of R t1 t2 tc] tc_tick_emits_iff [of R t1 t2 tc']
    by (auto simp: tc_slot_ready_def)
  show "clock_view (snd (tc_tick R t1 t2 tc)) = clock_view (snd (tc_tick R t1 t2 tc'))"
  proof (cases "t1 < next_departure tc")
    case True
    then show ?thesis using assms(3) n by (simp add: tc_tick_def)
  next
    case False
    then show ?thesis
      using tc_tick_view_eq [OF assms(1)] tc_tick_view_eq [OF assms(2)] n
        draw_force_dummy_view(1) [OF advance_clock_view [OF assms(3)]] by simp
  qed
qed

lemma restart_view:
  assumes "clock_view tc = clock_view tc'"
  shows "clock_view (tc_restart_clock R t1 t2 tc) = clock_view (tc_restart_clock R t1 t2 tc')"
  unfolding tc_restart_clock_def
  by (rule advance_clock_view) (use assms in \<open>simp add: clock_view_def\<close>)

lemma tc_new_inv:
  assumes "rng_ok R" "tc_valid c"
  shows "\<exists>tc. tc_new R c r t1 t2 = Inr tc \<and> tc_inv R tc \<and> tc_conf tc = c \<and> real_queue tc = []"
  using assms by (auto simp: tc_new_def tc_cfg.validate_ok tc_inv_def Let_def split: prod.split)

section \<open>Properties\<close>

lemma tc_default_valid: "tc_valid tc_default"
  by (simp add: tc_valid_def tc_default_def)

text \<open>Over any sequence of injections of cell-sized packets, ticks and clock restarts the
  correlator loses, duplicates and reorders nothing: the accepted packets are the real frames
  emitted followed by the queue, and every frame, real or dummy, has the size of a cell, so the volume
  on the wire is the number of frames times that size whatever the traffic was.\<close>
theorem correlator_lossless:
  assumes "rng_ok R" "tc_valid c" "tc_new R c r t1 t2 = Inr tc" "adm_run (tc_step R) tc_adm tc es"
  shows "\<exists>tc' fs. run_stage (tc_step R) tc es = Some (tc', fs) \<and>
    taken_run (tc_step R) tc_taken tc es = concat (map frame_real fs) @ real_queue tc' \<and>
    length (real_queue tc') \<le> max_queue_depth c \<and> (\<forall>f\<in>set fs. frame_len f = tc_cell_bytes c) \<and>
    sum_list (map frame_len fs) = length fs * tc_cell_bytes c"
proof -
  have tc: "tc_inv R tc" "tc_conf tc = c" "real_queue tc = []"
    using tc_new_inv [OF assms(1,2), of r t1 t2] assms(3) by auto
  obtain tc' fs where run: "run_stage (tc_step R) tc es = Some (tc', fs)" "tc_inv R tc'"
      "taken_run (tc_step R) tc_taken tc es = concat (map frame_real fs) @ real_queue tc'"
    using tcq.run_lossless [OF tc(1) assms(4)] tc(3) by auto
  have "tc_conf tc' = c"
    using tc(1,2) assms(4) run(1)
  proof (induction es arbitrary: tc fs)
    case (Cons e es)
    then obtain tc1 fs1 fs2 where 1: "tc_step R tc e = Some (tc1, fs1)" "run_stage (tc_step R) tc1 es = Some (tc', fs2)"
      by (auto simp: Option.bind_eq_Some_conv)
    have "tc_conf tc1 = tc_conf tc" using 1(1) tc_tick_conf by (cases e) (auto split: prod.splits)
    moreover have "tc_inv R tc1" using tc_step_ok [of R tc e] Cons.prems 1 by auto
    ultimately show ?case using Cons 1 by simp
  qed simp
  then show ?thesis
    using run tcq.run_sized [OF tc(1) assms(4) run(1)] tcq.run_volume [OF tc(1) assms(4) run(1)] tc(2)
    by (auto simp: tc_inv_def)
qed

theorem correlator_lossless_witness:
  "\<exists>tc. tc_new lcg tc_default 5 0 0 = Inr tc \<and>
    (\<exists>tc' fs. run_stage (tc_step lcg) tc [TcInject (Packet (replicate 514 1)) 0 0, TcTick 9000000000 9000000000] = Some (tc', fs) \<and>
      taken_run (tc_step lcg) tc_taken tc [TcInject (Packet (replicate 514 1)) 0 0, TcTick 9000000000 9000000000] =
        concat (map frame_real fs) @ real_queue tc' \<and>
      length (real_queue tc') \<le> max_queue_depth tc_default \<and> (\<forall>f\<in>set fs. frame_len f = tc_cell_bytes tc_default) \<and>
      sum_list (map frame_len fs) = length fs * tc_cell_bytes tc_default)"
proof -
  obtain tc where tc: "tc_new lcg tc_default 5 0 0 = Inr tc" "tc_conf tc = tc_default"
    using tc_new_inv [OF lcg_ok tc_default_valid] by blast
  have "adm_run (tc_step lcg) tc_adm tc [TcInject (Packet (replicate 514 1)) 0 0, TcTick 9000000000 9000000000]"
    using tc(2) by (auto simp: tc_default_def packet_len_def split: prod.splits)
  from correlator_lossless [OF lcg_ok tc_default_valid tc(1) this] tc(1) show ?thesis by blast
qed

text \<open>The departure clock. A tick emits a frame exactly when its slot has arrived, and exactly one;
  the next slot is then at least the configured minimum interval later, and is never more than the
  catch-up bound of 500 ms behind the clock; while no slot has been skipped it is at most the
  configured maximum interval later.\<close>
theorem departure_clock:
  assumes "tc_valid (tc_conf tc)" "tc_tick R t1 t2 tc = (fo, tc')"
  shows "if tc_slot_ready t1 tc
    then fo \<noteq> None \<and>
      next_departure tc + as_u64 (of_int (roundf (min_iat_ms (tc_conf tc) * 1000))) * 1000 \<le> next_departure tc' \<and>
      t2 \<le> next_departure tc' + MAX_CATCHUP_LAG \<and>
      next_departure tc' \<le> max t2 (next_departure tc) + as_u64 (of_int (roundf (max_iat_ms (tc_conf tc) * 1000))) * 1000
    else fo = None \<and> tc' = tc"
proof (cases "tc_slot_ready t1 tc")
  case True
  then obtain f where f: "fo = Some f" using tc_tick_emits_iff [of R t1 t2 tc] assms(2) by auto
  have le: "min_iat_ms (tc_conf tc) \<le> max_iat_ms (tc_conf tc)" using assms(1) by (simp add: tc_valid_def)
  have dep: "next_departure tc' = next_departure (advance_clock R t2 tc)"
    using tc_tick_departure assms(2) f by blast
  have "next_departure (advance_clock R t2 tc)
      \<le> max t2 (next_departure tc) + as_u64 (of_int (roundf (max_iat_ms (tc_conf tc) * 1000))) * 1000"
    by (rule advance_clock_cases [of tc R t2]) (use slot_step_bounds(2) [OF le] in \<open>simp add: add_mono max_def; fail\<close> | simp)+
  then show ?thesis using True f dep advance_clock_lag advance_clock_progress [OF le] by auto
next
  case False
  then show ?thesis using assms(2) by (auto simp: tc_tick_def tc_slot_ready_def)
qed

definition tc_sample :: "nat timing_correlator" where
  "tc_sample = \<lparr>tc_conf = tc_default, tc_rng = 5, tc_content_rng = 7, real_queue = [Packet [1]], next_departure = 1000,
     mean_iat_ms = 20, last_real_arrival = None, real_emitted = 0, dummy_emitted = 0, slots_fired = 0, slots_dropped = 0\<rparr>"

theorem departure_clock_witness:
  "fst (tc_tick lcg 2000 2001 tc_sample) \<noteq> None \<and>
   2001 \<le> next_departure (snd (tc_tick lcg 2000 2001 tc_sample)) + MAX_CATCHUP_LAG \<and> tc_tick lcg 2 2 tc_sample = (None, tc_sample)"
proof -
  have v: "tc_valid (tc_conf tc_sample)" using tc_default_valid by (simp add: tc_sample_def)
  have r: "tc_slot_ready 2000 tc_sample" "\<not> tc_slot_ready 2 tc_sample" by (simp_all add: tc_slot_ready_def tc_sample_def)
  show ?thesis
    using departure_clock [OF v surjective_pairing [of "tc_tick lcg 2000 2001 tc_sample"]]
      departure_clock [OF v surjective_pairing [of "tc_tick lcg 2 2 tc_sample"]] r
    by (simp add: prod_eq_iff)
qed

end
