(* ===== verification/Spectral.thy ===== *)
theory Spectral
  imports Prelude
begin

text \<open>
  \<open>src/src/spectral.rs\<close>: the generator of keepalive delays. A delay is a perturbed exponential
  draw, clamped to a window; a delay too similar to the previous one is redrawn a bounded number
  of times. The lemmas say that the loop ends, which of the candidates it returns, and that every
  delay lies in the configured window; and bound the autocorrelation statistic.

  \<open>clamp\<close> asserts that the floor is at most the ceiling. \<open>spectral_new\<close> establishes this and no
  operation changes the two fields (\<open>spectral_inv\<close>), so the assertion is not a branch here. A draw
  of exactly \<open>-0.5\<close> makes the code take the logarithm of zero, whose result, minus infinity, the
  clamp sends to the floor; over the reals the logarithm of zero is zero.
\<close>

record spectral_config =
  target_iat_ms :: real
  laplace_scale_ms :: real
  floor_ms :: real
  ceiling_ms :: real
  similarity_rejection_fraction :: real
  max_rejections :: nat

datatype spectral_error = SpectralInvalidConfig string

definition spectral_default :: spectral_config where
  "spectral_default = \<lparr>target_iat_ms = 200, laplace_scale_ms = 20, floor_ms = 10,
     ceiling_ms = 5000, similarity_rejection_fraction = 1 / 10, max_rejections = 8\<rparr>"

definition spectral_validate :: "spectral_config \<Rightarrow> spectral_error + spectral_config" where
  "spectral_validate c =
     (if target_iat_ms c \<le> 0 then Inl (SpectralInvalidConfig ''target_iat_ms must be positive'')
      else if floor_ms c \<le> 0 then Inl (SpectralInvalidConfig ''floor_ms must be positive'')
      else if floor_ms c \<ge> ceiling_ms c then
        Inl (SpectralInvalidConfig ''floor_ms must be less than ceiling_ms'')
      else Inr c)"

definition spectral_valid :: "spectral_config \<Rightarrow> bool" where
  "spectral_valid c \<longleftrightarrow> 0 < target_iat_ms c \<and> 0 < floor_ms c \<and> floor_ms c < ceiling_ms c"

interpretation spectral_cfg: config_check spectral_validate spectral_valid
  by unfold_locales (auto simp: spectral_validate_def spectral_valid_def)

record 'r spectral_iat_generator =
  sg_config :: spectral_config
  sg_rng :: 'r
  last_sample_ms :: "real option"

definition spectral_new :: "spectral_config \<Rightarrow> 'r \<Rightarrow> spectral_error + 'r spectral_iat_generator" where
  "spectral_new config r =
     (case spectral_validate config of
        Inl e \<Rightarrow> Inl e
      | Inr c \<Rightarrow> Inr \<lparr>sg_config = c, sg_rng = r, last_sample_ms = None\<rparr>)"

definition set_target_iat_ms :: "real \<Rightarrow> 'r spectral_iat_generator \<Rightarrow> 'r spectral_iat_generator" where
  "set_target_iat_ms ms g =
     (if ms > 0 then
        g\<lparr>sg_config := (sg_config g)\<lparr>target_iat_ms :=
            clampf (floor_ms (sg_config g)) (ceiling_ms (sg_config g)) ms\<rparr>\<rparr>
      else g)"

definition spectral_exponential ::
  "'r rng_ops \<Rightarrow> real \<Rightarrow> 'r spectral_iat_generator \<Rightarrow> real \<times> 'r spectral_iat_generator" where
  "spectral_exponential R mean_ms g =
     (let (v, r') = gen_unit R (sg_rng g); u = max v (1 / 2 ^ 52)
      in (- mean_ms * ln u, g\<lparr>sg_rng := r'\<rparr>))"

definition spectral_laplace ::
  "'r rng_ops \<Rightarrow> real \<Rightarrow> 'r spectral_iat_generator \<Rightarrow> real \<times> 'r spectral_iat_generator" where
  "spectral_laplace R scale g =
     (if scale \<le> 0 then (0, g)
      else
        (let (v, r') = gen_unit R (sg_rng g); u = v - 1 / 2
         in (- scale * (if u < 0 then -1 else 1) * ln (1 - 2 * \<bar>u\<bar>), g\<lparr>sg_rng := r'\<rparr>)))"

definition raw_sample ::
  "'r rng_ops \<Rightarrow> 'r spectral_iat_generator \<Rightarrow> real \<times> 'r spectral_iat_generator" where
  "raw_sample R g =
     (let (e, g1) = spectral_exponential R (target_iat_ms (sg_config g)) g;
          (l, g2) = spectral_laplace R (laplace_scale_ms (sg_config g)) g1
      in (e + l, g2))"

lemma raw_sample_fields [simp]:
  "sg_config (snd (raw_sample R g)) = sg_config g"
  "last_sample_ms (snd (raw_sample R g)) = last_sample_ms g"
  by (simp_all add: raw_sample_def spectral_exponential_def spectral_laplace_def Let_def split: prod.split)

text \<open>The test of the loop: is the candidate far enough from the last delay?\<close>

definition dissimilar :: "spectral_config \<Rightarrow> real option \<Rightarrow> real \<Rightarrow> bool" where
  "dissimilar c prev clamped \<longleftrightarrow>
     (case prev of None \<Rightarrow> True
      | Some p \<Rightarrow> p \<le> 0 \<or> similarity_rejection_fraction c \<le> \<bar>clamped - p\<bar> / p)"

function delay_loop ::
  "'r rng_ops \<Rightarrow> nat \<Rightarrow> 'r spectral_iat_generator \<Rightarrow> real \<times> 'r spectral_iat_generator" where
  "delay_loop R attempts g =
     (let (candidate, g1) = raw_sample R g;
          clamped = clampf (floor_ms (sg_config g1)) (ceiling_ms (sg_config g1)) candidate
      in if dissimilar (sg_config g1) (last_sample_ms g1) clamped \<or>
            max_rejections (sg_config g1) \<le> attempts
         then (clamped, g1\<lparr>last_sample_ms := Some clamped\<rparr>)
         else delay_loop R (attempts + 1) g1)"
  by pat_completeness auto

termination
  by (relation "measure (\<lambda>(R, attempts, g). max_rejections (sg_config g) - attempts)")
    (auto, metis diff_less_mono2 lessI not_less raw_sample_fields(1) snd_conv)

declare delay_loop.simps [simp del]

definition next_delay_ms ::
  "'r rng_ops \<Rightarrow> 'r spectral_iat_generator \<Rightarrow> real \<times> 'r spectral_iat_generator" where
  "next_delay_ms R g = delay_loop R 0 g"

definition spectral_next_delay ::
  "'r rng_ops \<Rightarrow> 'r spectral_iat_generator \<Rightarrow> nanos \<times> 'r spectral_iat_generator" where
  "spectral_next_delay R g =
     (let (ms, g') = next_delay_ms R g in (as_u64 (of_int (roundf ms)) * 1000000, g'))"

text \<open>The autocorrelation statistic; \<open>neighbours\<close> is \<open>windows(2)\<close>.\<close>

fun neighbours :: "'a list \<Rightarrow> ('a \<times> 'a) list" where
  "neighbours (x # y # xs) = (x, y) # neighbours (y # xs)"
| "neighbours _ = []"

definition lag1_autocorrelation :: "real list \<Rightarrow> real" where
  "lag1_autocorrelation samples =
     (if length samples < 2 then 0
      else
        let n = real (length samples);
            mean = sum_list samples / n;
            variance = sum_list (map (\<lambda>x. (x - mean)\<^sup>2) samples) / n
        in if variance < 1 / 2 ^ 52 then 0
           else
             let covariance = sum_list (map (\<lambda>(a, b). (a - mean) * (b - mean)) (neighbours samples)) / (n - 1)
             in covariance / variance)"

section \<open>Which candidate is returned\<close>

definition spectral_inv :: "'r spectral_iat_generator \<Rightarrow> bool" where
  "spectral_inv g \<longleftrightarrow> spectral_valid (sg_config g) \<and>
     (case last_sample_ms g of None \<Rightarrow> True
      | Some d \<Rightarrow> floor_ms (sg_config g) \<le> d \<and> d \<le> ceiling_ms (sg_config g))"

text \<open>The generator after \<open>k\<close> raw samples, and the \<open>k\<close>-th candidate.\<close>

definition after_samples :: "'r rng_ops \<Rightarrow> nat \<Rightarrow> 'r spectral_iat_generator \<Rightarrow> 'r spectral_iat_generator" where
  "after_samples R k g = ((\<lambda>g. snd (raw_sample R g)) ^^ k) g"

definition candidate_delay :: "'r rng_ops \<Rightarrow> nat \<Rightarrow> 'r spectral_iat_generator \<Rightarrow> real" where
  "candidate_delay R k g =
     clampf (floor_ms (sg_config g)) (ceiling_ms (sg_config g)) (fst (raw_sample R (after_samples R k g)))"

lemma after_samples_Suc: "after_samples R (Suc k) g = after_samples R k (snd (raw_sample R g))"
  by (simp only: after_samples_def funpow_Suc_right o_apply)

lemma candidate_delay_Suc: "candidate_delay R (Suc k) g = candidate_delay R k (snd (raw_sample R g))"
  by (simp add: candidate_delay_def after_samples_Suc)

lemma candidate_delay_0:
  "candidate_delay R 0 g = clampf (floor_ms (sg_config g)) (ceiling_ms (sg_config g)) (fst (raw_sample R g))"
  by (simp add: candidate_delay_def after_samples_def)

lemma delay_loop_first:
  assumes "attempts \<le> max_rejections (sg_config g)"
  shows "\<exists>k. attempts + k \<le> max_rejections (sg_config g) \<and>
    (\<forall>j<k. \<not> dissimilar (sg_config g) (last_sample_ms g) (candidate_delay R j g)) \<and>
    (attempts + k = max_rejections (sg_config g) \<or>
       dissimilar (sg_config g) (last_sample_ms g) (candidate_delay R k g)) \<and>
    delay_loop R attempts g =
      (candidate_delay R k g,
       (after_samples R (Suc k) g)\<lparr>last_sample_ms := Some (candidate_delay R k g)\<rparr>)"
  using assms
proof (induction R attempts g rule: delay_loop.induct)
  case (1 R attempts g)
  obtain x g1 where s: "raw_sample R g = (x, g1)" by (cases "raw_sample R g")
  have f: "sg_config g1 = sg_config g" "last_sample_ms g1 = last_sample_ms g"
    using raw_sample_fields [of R g] by (simp_all add: s)
  let ?stop = "dissimilar (sg_config g) (last_sample_ms g) (candidate_delay R 0 g) \<or>
    max_rejections (sg_config g) \<le> attempts"
  show ?case
  proof (cases ?stop)
    case True
    then show ?thesis
      using 1(2) s f
      by (intro exI [of _ 0])
        (auto simp: delay_loop.simps [of R attempts g] candidate_delay_0 after_samples_def Let_def)
  next
    case False
    have l: "delay_loop R attempts g = delay_loop R (attempts + 1) g1"
      using False s f by (simp add: delay_loop.simps [of R attempts g] candidate_delay_0 Let_def)
    have "attempts + 1 \<le> max_rejections (sg_config g1)" using False f by simp
    from 1(1) [OF s [symmetric] _ refl _ this] False f s obtain k where k:
      "attempts + 1 + k \<le> max_rejections (sg_config g1)"
      "\<forall>j<k. \<not> dissimilar (sg_config g1) (last_sample_ms g1) (candidate_delay R j g1)"
      "attempts + 1 + k = max_rejections (sg_config g1) \<or>
         dissimilar (sg_config g1) (last_sample_ms g1) (candidate_delay R k g1)"
      "delay_loop R (attempts + 1) g1 = (candidate_delay R k g1,
         (after_samples R (Suc k) g1)\<lparr>last_sample_ms := Some (candidate_delay R k g1)\<rparr>)"
      by (auto simp: candidate_delay_0)
    have c: "candidate_delay R (Suc j) g = candidate_delay R j g1" for j
      by (simp add: candidate_delay_Suc s)
    have "\<not> dissimilar (sg_config g) (last_sample_ms g) (candidate_delay R j g)" if "j < Suc k" for j
      using that False k(2) f c by (cases j) auto
    moreover have "after_samples R (Suc (Suc k)) g = after_samples R (Suc k) g1"
      by (simp add: after_samples_Suc s)
    ultimately show ?thesis
      using k f c l by (intro exI [of _ "Suc k"]) auto
  qed
qed

lemma after_samples_fields [simp]:
  "sg_config (after_samples R k g) = sg_config g"
  "last_sample_ms (after_samples R k g) = last_sample_ms g"
  by (induction k) (simp_all add: after_samples_def)

lemma candidate_delay_bounds:
  "spectral_valid (sg_config g) \<Longrightarrow>
     floor_ms (sg_config g) \<le> candidate_delay R k g \<and> candidate_delay R k g \<le> ceiling_ms (sg_config g)"
  by (simp add: candidate_delay_def clampf_ge clampf_le spectral_valid_def)

lemma next_delay_ms_inv:
  assumes "spectral_inv g" "next_delay_ms R g = (d, g')"
  shows "spectral_inv g'" "sg_config g' = sg_config g" "last_sample_ms g' = Some d"
    "floor_ms (sg_config g) \<le> d" "d \<le> ceiling_ms (sg_config g)"
proof -
  obtain k where "delay_loop R 0 g = (candidate_delay R k g,
       (after_samples R (Suc k) g)\<lparr>last_sample_ms := Some (candidate_delay R k g)\<rparr>)"
    using delay_loop_first [of 0 g R] by auto
  then have e: "d = candidate_delay R k g" "g' = (after_samples R (Suc k) g)\<lparr>last_sample_ms := Some d\<rparr>"
    using assms(2) by (auto simp: next_delay_ms_def)
  have b: "floor_ms (sg_config g) \<le> d \<and> d \<le> ceiling_ms (sg_config g)"
    using assms(1) e(1) candidate_delay_bounds by (auto simp: spectral_inv_def)
  then show "floor_ms (sg_config g) \<le> d" "d \<le> ceiling_ms (sg_config g)" by simp_all
  show "sg_config g' = sg_config g" "last_sample_ms g' = Some d" using e(2) by simp_all
  then show "spectral_inv g'" using assms(1) b by (simp add: spectral_inv_def)
qed

lemma set_target_inv: "spectral_inv g \<Longrightarrow> spectral_inv (set_target_iat_ms ms g)"
  by (auto simp: spectral_inv_def set_target_iat_ms_def spectral_valid_def clampf_def split: option.splits)

lemma spectral_new_inv: "spectral_new c r = Inr g \<Longrightarrow> spectral_inv g \<and> sg_config g = c"
  by (auto simp: spectral_new_def spectral_inv_def spectral_cfg.validate_Inr_iff split: sum.splits)

section \<open>The autocorrelation statistic\<close>

lemma neighbours_product_bound:
  "\<bar>sum_list (map (\<lambda>(a, b). (a - m) * (b - m)) (neighbours xs))\<bar> \<le> sum_list (map (\<lambda>x. (x - m)\<^sup>2) xs)"
  for m :: real
proof -
  have "2 * \<bar>sum_list (map (\<lambda>(a, b). (a - m) * (b - m)) (neighbours xs))\<bar> + (if xs = [] then 0 else (hd xs - m)\<^sup>2)
      \<le> 2 * sum_list (map (\<lambda>x. (x - m)\<^sup>2) xs)"
  proof (induction xs rule: neighbours.induct)
    case (1 x y xs)
    have "2 * \<bar>(x - m) * (y - m)\<bar> \<le> (x - m)\<^sup>2 + (y - m)\<^sup>2"
      using sum_squares_bound [of "\<bar>x - m\<bar>" "\<bar>y - m\<bar>"] by (simp add: abs_mult)
    moreover have "\<bar>(x - m) * (y - m) + S\<bar> \<le> \<bar>(x - m) * (y - m)\<bar> + \<bar>S\<bar>" for S
      by (rule abs_triangle_ineq)
    ultimately show ?case using 1 by (simp del: abs_mult) (smt (verit))
  qed simp_all
  moreover have "0 \<le> (if xs = [] then 0 else (hd xs - m)\<^sup>2)" by simp
  ultimately show ?thesis by linarith
qed

lemma lag1_bound:
  assumes "2 \<le> length xs"
  shows "\<bar>lag1_autocorrelation xs\<bar> \<le> real (length xs) / (real (length xs) - 1)"
proof -
  define n where "n = real (length xs)"
  define m where "m = sum_list xs / n"
  define v where "v = sum_list (map (\<lambda>x. (x - m)\<^sup>2) xs)"
  define c where "c = sum_list (map (\<lambda>(a, b). (a - m) * (b - m)) (neighbours xs))"
  have n: "2 \<le> n" using assms by (simp add: n_def)
  show ?thesis
  proof (cases "v / n < 1 / 2 ^ 52")
    case True
    then have "lag1_autocorrelation xs = 0"
      using assms unfolding lag1_autocorrelation_def Let_def n_def [symmetric] m_def [symmetric] v_def [symmetric]
      by simp
    then show ?thesis using n by (simp add: n_def)
  next
    case False
    then have l: "lag1_autocorrelation xs = c / (n - 1) / (v / n)"
      using assms unfolding lag1_autocorrelation_def Let_def n_def [symmetric] m_def [symmetric]
        v_def [symmetric] c_def [symmetric] by simp
    have v: "0 < v"
    proof (rule ccontr)
      assume "\<not> 0 < v"
      then have "v / n \<le> 0" using n by (simp add: divide_nonpos_pos)
      moreover have "(0::real) < 1 / 2 ^ 52" by simp
      ultimately show False using False by linarith
    qed
    have "\<bar>c\<bar> \<le> v" unfolding c_def v_def by (rule neighbours_product_bound)
    then have "\<bar>c\<bar> * n / ((n - 1) * v) \<le> v * n / ((n - 1) * v)"
      using n v by (intro divide_right_mono mult_right_mono) auto
    also have "\<dots> = n / (n - 1)" using v by simp
    finally show ?thesis using l n v by (simp add: n_def [symmetric] abs_divide abs_mult)
  qed
qed

section \<open>Properties\<close>

text \<open>The next delay of the spectral generator is the first candidate that differs enough from the
  previous delay, or the last one tried when the rejections are used up; at most
  \<open>max_rejections + 1\<close> candidates are drawn, the delay lies between the floor and the ceiling
  whatever the random numbers are, and it is what the next call compares against.\<close>
theorem first_dissimilar_delay:
  assumes "spectral_inv g" "next_delay_ms R g = (d, g')"
  shows "spectral_inv g' \<and> last_sample_ms g' = Some d \<and> floor_ms (sg_config g) \<le> d \<and> d \<le> ceiling_ms (sg_config g) \<and>
    (\<exists>k\<le>max_rejections (sg_config g). d = candidate_delay R k g \<and>
       (\<forall>j<k. \<not> dissimilar (sg_config g) (last_sample_ms g) (candidate_delay R j g)) \<and>
       (k = max_rejections (sg_config g) \<or> dissimilar (sg_config g) (last_sample_ms g) d))"
proof -
  obtain k where k: "k \<le> max_rejections (sg_config g)"
    "\<forall>j<k. \<not> dissimilar (sg_config g) (last_sample_ms g) (candidate_delay R j g)"
    "k = max_rejections (sg_config g) \<or> dissimilar (sg_config g) (last_sample_ms g) (candidate_delay R k g)"
    "delay_loop R 0 g = (candidate_delay R k g,
       (after_samples R (Suc k) g)\<lparr>last_sample_ms := Some (candidate_delay R k g)\<rparr>)"
    using delay_loop_first [of 0 g R] by auto
  have "d = candidate_delay R k g" using k(4) assms(2) by (simp add: next_delay_ms_def)
  then show ?thesis using k(1-3) next_delay_ms_inv [OF assms] by blast
qed

theorem first_dissimilar_delay_witness:
  "\<exists>g. spectral_new spectral_default (4::nat) = Inr g \<and> floor_ms spectral_default \<le> fst (next_delay_ms lcg g) \<and>
    fst (next_delay_ms lcg g) \<le> ceiling_ms spectral_default"
proof -
  have "spectral_valid spectral_default" by (simp add: spectral_valid_def spectral_default_def)
  then obtain g where g: "spectral_new spectral_default (4::nat) = Inr g"
    by (simp add: spectral_new_def spectral_cfg.validate_ok)
  then have i: "spectral_inv g" "sg_config g = spectral_default" using spectral_new_inv [OF g] by simp_all
  show ?thesis
    using first_dissimilar_delay [OF i(1) surjective_pairing [of "next_delay_ms lcg g"]] g i(2) by auto
qed

text \<open>The lag-1 estimate of a series of at least two delays is bounded by \<open>n / (n - 1)\<close> in
  absolute value, and no better bound of 1 holds: on four delays it is below \<open>-1\<close>, although the
  function is documented to stay within \<open>[-1, 1]\<close>.\<close>
theorem lag1_range:
  "(\<forall>xs. 2 \<le> length xs \<longrightarrow> \<bar>lag1_autocorrelation xs\<bar> \<le> real (length xs) / (real (length xs) - 1)) \<and>
   lag1_autocorrelation [16, 0, 20, 4] < - 1"
  using lag1_bound by (simp add: lag1_autocorrelation_def Let_def power2_eq_square)

theorem lag1_range_witness:
  "\<bar>lag1_autocorrelation [3, 1, 2]\<bar> \<le> 3 / 2"
  using lag1_range [THEN conjunct1, THEN spec, of "[3, 1, 2]"] by simp

end
