(* ===== verification/SelfTest.thy ===== *)
theory SelfTest
  imports Correlator Spectral
begin

text \<open>
  \<open>src/src/self_test.rs\<close>: the counters the composer feeds with every frame it emits. The
  statistical tests that run on them are in the theory \<open>Monitor\<close>.
\<close>

record self_test_config =
  ks_threshold :: real
  autocorr_threshold :: real
  dummy_ratio_min :: real
  dummy_ratio_max :: real
  spectral_peak_ratio_threshold :: real

definition self_test_default :: self_test_config where
  "self_test_default = \<lparr>ks_threshold = 15 / 100, autocorr_threshold = 20 / 100,
     dummy_ratio_min = 30 / 100, dummy_ratio_max = 98 / 100, spectral_peak_ratio_threshold = 8\<rparr>"

record self_tester =
  st_config :: self_test_config
  iat_samples :: "real list"
  dummy_sizes :: "nat list"
  real_sizes :: "nat list"
  st_real_count :: nat
  st_dummy_count :: nat
  last_frame_at_ms :: "nat option"

definition self_tester_new :: "self_test_config \<Rightarrow> self_tester" where
  "self_tester_new c = \<lparr>st_config = c, iat_samples = [], dummy_sizes = [], real_sizes = [],
     st_real_count = 0, st_dummy_count = 0, last_frame_at_ms = None\<rparr>"

definition record_frame :: "mixed_frame \<Rightarrow> nat \<Rightarrow> self_tester \<Rightarrow> self_tester" where
  "record_frame frame now_ms st =
     (let st1 = (case frame of
            RealFrame p \<Rightarrow> st\<lparr>st_real_count := st_real_count st + 1, real_sizes := real_sizes st @ [packet_len p]\<rparr>
          | DummyFrame b \<Rightarrow> st\<lparr>st_dummy_count := st_dummy_count st + 1, dummy_sizes := dummy_sizes st @ [length b]\<rparr>);
          st2 = (case last_frame_at_ms st1 of
            Some prev \<Rightarrow> st1\<lparr>iat_samples := iat_samples st1 @ [real (now_ms - prev)]\<rparr>
          | None \<Rightarrow> st1)
      in st2\<lparr>last_frame_at_ms := Some now_ms\<rparr>)"

definition tester_inv :: "self_tester \<Rightarrow> bool" where
  "tester_inv st \<longleftrightarrow> st_real_count st = length (real_sizes st) \<and>
     st_dummy_count st = length (dummy_sizes st) \<and>
     (if last_frame_at_ms st = None then iat_samples st = [] \<and> st_real_count st + st_dummy_count st = 0
      else length (iat_samples st) + 1 = st_real_count st + st_dummy_count st)"

lemma tester_new_inv: "tester_inv (self_tester_new c)"
  by (simp add: tester_inv_def self_tester_new_def)

lemma record_frame_inv: "tester_inv st \<Longrightarrow> tester_inv (record_frame f t st)"
  by (cases f; cases "last_frame_at_ms st") (auto simp: tester_inv_def record_frame_def Let_def)

end
