(* ===== verification/Padding.thy ===== *)
theory Padding
  imports Prelude "HOL-Library.Multiset"
begin

text \<open>
  \<open>src/src/optimal_padding.rs\<close>: size buckets over the observed packet lengths, and the stateful
  padder that rebuilds them lazily. The lemmas say that the buckets cover every observed length,
  that they are ordered and at most \<open>k\<close>, and that the overhead computed over the lengths the
  buckets were built from never underflows.
\<close>

record size_bucket =
  sb_lo :: nat
  sb_hi :: nat
  sb_target :: nat

definition overhead_contribution :: "size_bucket \<Rightarrow> real \<Rightarrow> real" where
  "overhead_contribution b prob =
     (let mean = real (sb_lo b + sb_hi b) / 2 in prob * (real (sb_target b) - mean))"

definition default_bucket :: size_bucket where
  "default_bucket = \<lparr>sb_lo = 0, sb_hi = 65535, sb_target = 65535\<rparr>"

text \<open>The \<open>i\<close>-th bucket of the loop of \<open>build_buckets\<close>.\<close>

definition bucket_at :: "nat list \<Rightarrow> nat \<Rightarrow> nat \<Rightarrow> size_bucket" where
  "bucket_at xs k_actual i =
     (let n = length xs; chunk = n div k_actual;
          start = i * chunk; e = (if i = k_actual - 1 then n else (i + 1) * chunk);
          hi = xs ! (e - 1)
      in \<lparr>sb_lo = xs ! start, sb_hi = hi, sb_target = hi\<rparr>)"

text \<open>\<open>None\<close> is the failed assertion \<open>k > 0\<close>.\<close>

definition build_buckets :: "nat list \<Rightarrow> nat \<Rightarrow> size_bucket list option" where
  "build_buckets lengths k =
     (if k = 0 then None
      else if lengths = [] then Some [default_bucket]
      else let xs = sort lengths; k_actual = min k (length xs)
           in Some (map (bucket_at xs k_actual) [0..<k_actual]))"

definition optimal_pad_length :: "nat \<Rightarrow> size_bucket list \<Rightarrow> nat" where
  "optimal_pad_length true_len buckets =
     (case find (\<lambda>b. true_len \<le> sb_hi b) buckets of
        Some b \<Rightarrow> sb_target b
      | None \<Rightarrow> if buckets = [] then true_len else sb_target (last buckets))"

record optimal_padder =
  op_k :: nat
  op_length_pool :: "nat list"
  op_buckets :: "size_bucket list"
  pool_version_at_last_build :: nat
  rebuild_interval :: nat
  observations :: nat

definition padder_new :: "nat \<Rightarrow> nat \<Rightarrow> optimal_padder" where
  "padder_new k interval =
     \<lparr>op_k = max k 1, op_length_pool = [], op_buckets = [default_bucket],
      pool_version_at_last_build = 0, rebuild_interval = max interval 1, observations = 0\<rparr>"

definition observe_length :: "nat \<Rightarrow> optimal_padder \<Rightarrow> optimal_padder" where
  "observe_length len p =
     p\<lparr>op_length_pool := op_length_pool p @ [len], observations := observations p + 1\<rparr>"

definition padder_rebuild :: "optimal_padder \<Rightarrow> optimal_padder option" where
  "padder_rebuild p =
     map_option (\<lambda>bs. p\<lparr>op_buckets := bs, pool_version_at_last_build := observations p\<rparr>)
       (build_buckets (op_length_pool p) (op_k p))"

definition pad_length :: "nat \<Rightarrow> optimal_padder \<Rightarrow> (nat \<times> optimal_padder) option" where
  "pad_length true_len p = do {
     p' \<leftarrow> (if rebuild_interval p \<le> observations p - pool_version_at_last_build p
            then padder_rebuild p else Some p);
     Some (optimal_pad_length true_len (op_buckets p'), p')
   }"

text \<open>\<open>None\<close> is the underflow of \<open>padded - len\<close>, a panic in a build with overflow checks.\<close>

fun overhead_sum :: "size_bucket list \<Rightarrow> nat list \<Rightarrow> real option" where
  "overhead_sum buckets [] = Some 0"
| "overhead_sum buckets (len # lens) =
     (let padded = optimal_pad_length len buckets
      in if padded < len then None
         else map_option (\<lambda>s. real (padded - len) + s) (overhead_sum buckets lens))"

definition expected_overhead :: "size_bucket list \<Rightarrow> nat list \<Rightarrow> real option" where
  "expected_overhead buckets lengths =
     (if lengths = [] then Some 0
      else map_option (\<lambda>s. s / real (length lengths)) (overhead_sum buckets lengths))"

section \<open>Lemmas\<close>

lemma bucket_index_bounds:
  fixes k n i :: nat
  assumes "0 < k" "k \<le> n" "i < k"
  shows "i * (n div k) < (if i = k - 1 then n else (i + 1) * (n div k))"
    and "(if i = k - 1 then n else (i + 1) * (n div k)) \<le> n"
proof -
  have pos: "0 < n div k" using div_le_mono [OF assms(2), of k] assms(1) by simp
  have "(i + 1) * (n div k) \<le> k * (n div k)" using assms(3) by (intro mult_le_mono1) simp
  also have "\<dots> \<le> n" by simp
  finally have le: "(i + 1) * (n div k) \<le> n" .
  then show "(if i = k - 1 then n else (i + 1) * (n div k)) \<le> n" by simp
  show "i * (n div k) < (if i = k - 1 then n else (i + 1) * (n div k))"
    using pos le by auto
qed

lemma bucket_at_fields:
  "sb_target (bucket_at xs k i) = sb_hi (bucket_at xs k i)"
  by (simp add: bucket_at_def Let_def)

lemma build_buckets_length:
  assumes "build_buckets lengths k = Some bs"
  shows "0 < length bs" "length bs \<le> k"
proof -
  have "k \<noteq> 0" using assms by (cases "k = 0") (simp_all add: build_buckets_def)
  moreover from this have "bs = [default_bucket] \<or> (lengths \<noteq> [] \<and> length bs = min k (length lengths))"
    using assms by (auto simp: build_buckets_def Let_def split: if_splits)
  ultimately show "0 < length bs" "length bs \<le> k" by (auto simp: min_def split: if_splits)
qed

text \<open>The last bucket ends at the largest observation, so every observation has a bucket.\<close>

lemma build_buckets_covers:
  assumes "build_buckets lengths k = Some bs" "len \<in> set lengths"
  shows "\<exists>b\<in>set bs. len \<le> sb_hi b"
proof -
  define xs where "xs = sort lengths"
  define ka where "ka = min k (length xs)"
  have ne: "lengths \<noteq> []" using assms(2) by auto
  then have k: "0 < ka" "ka \<le> length xs" "0 < length xs" and bs: "bs = map (bucket_at xs ka) [0..<ka]"
    using assms(1) by (auto simp: build_buckets_def Let_def xs_def ka_def split: if_splits)
  have hi: "sb_hi (bucket_at xs ka (ka - 1)) = xs ! (length xs - 1)"
    by (simp add: bucket_at_def Let_def)
  obtain j where j: "j < length xs" "xs ! j = len"
    using assms(2) by (metis in_set_conv_nth set_sort xs_def)
  have "len \<le> xs ! (length xs - 1)"
    using j sorted_nth_mono [of xs j "length xs - 1"] by (auto simp: xs_def)
  moreover have "bucket_at xs ka (ka - 1) \<in> set bs" using k by (simp add: bs)
  ultimately show ?thesis using hi by metis
qed

lemma build_buckets_target:
  assumes "build_buckets lengths k = Some bs" "b \<in> set bs"
  shows "sb_target b = sb_hi b"
  using assms
  by (auto simp: build_buckets_def Let_def default_bucket_def bucket_at_fields split: if_splits)

lemma optimal_pad_covers:
  assumes "\<exists>b\<in>set bs. len \<le> sb_hi b" "\<forall>b\<in>set bs. sb_target b = sb_hi b"
  shows "len \<le> optimal_pad_length len bs"
  using assms by (auto simp: optimal_pad_length_def find_None_iff find_Some_iff split: option.splits)

lemma optimal_pad_in_targets:
  assumes "bs \<noteq> []"
  shows "optimal_pad_length len bs \<in> sb_target ` set bs"
  using assms
  by (auto simp: optimal_pad_length_def find_Some_iff split: option.splits)

lemma overhead_sum_covered:
  assumes "\<forall>len\<in>set lens. len \<le> optimal_pad_length len bs"
  shows "\<exists>s. overhead_sum bs lens = Some s \<and> 0 \<le> s"
  using assms by (induction lens) (auto simp: Let_def)

lemma buckets_ordered:
  assumes "build_buckets lengths k = Some bs" "i < j" "j < length bs"
  shows "sb_lo (bs ! i) \<le> sb_hi (bs ! i) \<and> sb_hi (bs ! i) \<le> sb_lo (bs ! j) \<and>
    sb_lo (bs ! j) \<le> sb_hi (bs ! j)"
proof -
  define xs where "xs = sort lengths"
  define ka where "ka = min k (length xs)"
  have ne: "lengths \<noteq> []" using assms by (auto simp: build_buckets_def split: if_splits)
  then have bs: "bs = map (bucket_at xs ka) [0..<ka]" and ka: "0 < ka" "ka \<le> length xs"
    using assms(1) by (auto simp: build_buckets_def Let_def xs_def ka_def split: if_splits)
  have sx: "sorted xs" by (simp add: xs_def)
  have j: "j < ka" using assms(3) by (simp add: bs)
  have i: "i < ka - 1" using assms(2) j by linarith
  let ?c = "length xs div ka" and ?ej = "if j = ka - 1 then length xs else (j + 1) * (length xs div ka)"
  have pi: "i * ?c < (i + 1) * ?c" "(i + 1) * ?c \<le> length xs"
    using bucket_index_bounds [OF ka, of i] i by auto
  have pj: "j * ?c < ?ej" "?ej \<le> length xs"
    using bucket_index_bounds [OF ka j] by auto
  have ij: "(i + 1) * ?c \<le> j * ?c" using assms(2) by (intro mult_le_mono1) simp
  have bi: "bs ! i = \<lparr>sb_lo = xs ! (i * ?c), sb_hi = xs ! ((i + 1) * ?c - 1), sb_target = xs ! ((i + 1) * ?c - 1)\<rparr>"
    using i by (simp add: bs bucket_at_def Let_def)
  have bj: "bs ! j = \<lparr>sb_lo = xs ! (j * ?c), sb_hi = xs ! (?ej - 1), sb_target = xs ! (?ej - 1)\<rparr>"
    using j by (simp add: bs bucket_at_def Let_def)
  have "xs ! (i * ?c) \<le> xs ! ((i + 1) * ?c - 1)"
    by (rule sorted_nth_mono [OF sx]) (use pi in linarith)+
  moreover have "xs ! ((i + 1) * ?c - 1) \<le> xs ! (j * ?c)"
    by (rule sorted_nth_mono [OF sx]) (use pi pj ij in linarith)+
  moreover have "xs ! (j * ?c) \<le> xs ! (?ej - 1)"
    by (rule sorted_nth_mono [OF sx]) (use pj in linarith)+
  ultimately show ?thesis unfolding bi bj by simp
qed

definition padder_inv :: "optimal_padder \<Rightarrow> bool" where
  "padder_inv p \<longleftrightarrow> 0 < op_k p \<and> observations p = length (op_length_pool p) \<and>
     pool_version_at_last_build p \<le> observations p \<and> op_buckets p \<noteq> [] \<and> length (op_buckets p) \<le> op_k p \<and>
     (\<forall>b\<in>set (op_buckets p). sb_target b = sb_hi b)"

lemma padder_new_inv: "padder_inv (padder_new k i)"
  by (simp add: padder_inv_def padder_new_def default_bucket_def)

lemma observe_length_inv: "padder_inv p \<Longrightarrow> padder_inv (observe_length n p)"
  by (simp add: padder_inv_def observe_length_def)

lemma pad_length_ok:
  assumes "padder_inv p"
  shows "\<exists>n p'. pad_length len p = Some (n, p') \<and> padder_inv p' \<and> n \<in> sb_target ` set (op_buckets p') \<and>
    op_k p' = op_k p"
proof (cases "rebuild_interval p \<le> observations p - pool_version_at_last_build p")
  case True
  have "build_buckets (op_length_pool p) (op_k p) \<noteq> None"
    using assms by (simp add: padder_inv_def build_buckets_def Let_def)
  then obtain bs where bs: "build_buckets (op_length_pool p) (op_k p) = Some bs" by blast
  have "bs \<noteq> []" "length bs \<le> op_k p" "\<forall>b\<in>set bs. sb_target b = sb_hi b"
    using build_buckets_length [OF bs] build_buckets_target [OF bs] by auto
  then show ?thesis
    using True bs assms optimal_pad_in_targets [of bs len]
    by (simp add: pad_length_def padder_rebuild_def padder_inv_def)
next
  case False
  then show ?thesis
    using assms optimal_pad_in_targets [of "op_buckets p" len]
    by (simp add: pad_length_def padder_inv_def)
qed

section \<open>Properties\<close>

lemma bucket_hi_observed:
  assumes "build_buckets lengths k = Some bs" "lengths \<noteq> []" "b \<in> set bs"
  shows "sb_hi b \<in> set lengths"
proof -
  let ?xs = "sort lengths" and ?k = "min k (length lengths)"
  obtain i where i: "i < ?k" "b = bucket_at ?xs ?k i" and k: "0 < ?k"
    using assms by (auto simp: build_buckets_def Let_def split: if_splits)
  let ?e = "if i = ?k - 1 then length lengths else (i + 1) * (length lengths div ?k)"
  have "?e - 1 < length ?xs" "sb_hi b = ?xs ! (?e - 1)"
    using bucket_index_bounds [OF k _ i(1), of "length lengths"] i assms(2) by (auto simp: bucket_at_def Let_def)
  then show ?thesis using nth_mem [of "?e - 1" ?xs] by simp
qed

text \<open>The first bucket that holds a length is the smallest one that does.\<close>

lemma optimal_pad_smallest:
  assumes "build_buckets lengths k = Some bs" "b \<in> set bs" "len \<le> sb_hi b"
  shows "optimal_pad_length len bs \<le> sb_hi b"
proof -
  obtain c where c: "find (\<lambda>b. len \<le> sb_hi b) bs = Some c"
    using assms(2,3) by (cases "find (\<lambda>b. len \<le> sb_hi b) bs") (auto simp: find_None_iff)
  then obtain i where i: "i < length bs" "c = bs ! i" "\<forall>j<i. \<not> len \<le> sb_hi (bs ! j)" by (auto simp: find_Some_iff)
  obtain j where j: "j < length bs" "b = bs ! j" using assms(2) by (metis in_set_conv_nth)
  have "i \<le> j" using i(3) j assms(3) not_le by blast
  then have "sb_hi (bs ! i) \<le> sb_hi (bs ! j)"
    using buckets_ordered [OF assms(1), of i j] j(1) by (cases "i = j") auto
  then show ?thesis
    using c i j build_buckets_target [OF assms(1), of c] by (simp add: optimal_pad_length_def)
qed

text \<open>Padding to the buckets of a sample of lengths. A length that is not above the largest observed
  one is padded up, never down, to the smallest bucket bound that holds it, and that bound is itself
  an observed length; there are at most \<open>k\<close> different padded lengths, and the expected overhead over
  the sample is defined (the subtraction never underflows) and not negative.\<close>
theorem padding_fits:
  assumes "build_buckets lengths k = Some bs" "lengths \<noteq> []"
  shows "(\<forall>len. len \<le> Max (set lengths) \<longrightarrow>
      len \<le> optimal_pad_length len bs \<and> optimal_pad_length len bs \<in> set lengths \<and>
      (\<forall>b\<in>set bs. len \<le> sb_hi b \<longrightarrow> optimal_pad_length len bs \<le> sb_hi b)) \<and>
    card (range (\<lambda>len. optimal_pad_length len bs)) \<le> k \<and>
    (\<exists>x. overhead_sum bs lengths = Some x \<and> 0 \<le> x)"
proof (intro conjI)
  have target: "\<forall>b\<in>set bs. sb_target b = sb_hi b" using build_buckets_target [OF assms(1)] by blast
  have bs: "bs \<noteq> []" using build_buckets_length [OF assms(1)] by auto
  have observed: "optimal_pad_length len bs \<in> set lengths" for len
    using optimal_pad_in_targets [OF bs, of len] target bucket_hi_observed [OF assms(1,2)] by auto
  have up: "len \<le> optimal_pad_length len bs" if "len \<le> Max (set lengths)" for len
  proof -
    obtain b where "b \<in> set bs" "Max (set lengths) \<le> sb_hi b"
      using build_buckets_covers [OF assms(1) Max_in] assms(2) by auto
    then show ?thesis using that target by (intro optimal_pad_covers) (auto intro: order_trans)
  qed
  show "\<forall>len. len \<le> Max (set lengths) \<longrightarrow>
      len \<le> optimal_pad_length len bs \<and> optimal_pad_length len bs \<in> set lengths \<and>
      (\<forall>b\<in>set bs. len \<le> sb_hi b \<longrightarrow> optimal_pad_length len bs \<le> sb_hi b)"
    using up observed optimal_pad_smallest [OF assms(1)] by blast
  have "range (\<lambda>len. optimal_pad_length len bs) \<subseteq> set (map sb_target bs)"
    using optimal_pad_in_targets [OF bs] by auto
  then have "card (range (\<lambda>len. optimal_pad_length len bs)) \<le> length bs"
    using card_mono card_length [of "map sb_target bs"] by (metis List.finite_set length_map order_trans)
  then show "card (range (\<lambda>len. optimal_pad_length len bs)) \<le> k"
    using build_buckets_length(2) [OF assms(1)] by simp
  show "\<exists>x. overhead_sum bs lengths = Some x \<and> 0 \<le> x"
    using up by (intro overhead_sum_covered) simp
qed

theorem padding_fits_witness:
  "\<exists>bs. build_buckets [60, 100, 500, 514, 90, 300] 3 = Some bs \<and> optimal_pad_length 95 bs = 300 \<and>
    card (range (\<lambda>len. optimal_pad_length len bs)) \<le> 3 \<and> (\<exists>x. overhead_sum bs [60, 100, 500, 514, 90, 300] = Some x \<and> 0 \<le> x)"
proof -
  let ?bs = "[\<lparr>sb_lo = 60, sb_hi = 90, sb_target = 90\<rparr>, \<lparr>sb_lo = 100, sb_hi = 300, sb_target = 300\<rparr>,
    \<lparr>sb_lo = 500, sb_hi = 514, sb_target = 514\<rparr>]"
  have b: "build_buckets [60, 100, 500, 514, 90, 300] 3 = Some ?bs"
    by (simp add: build_buckets_def bucket_at_def Let_def upt_rec)
  then show ?thesis using padding_fits [OF b] by (intro exI [of _ ?bs]) (simp add: optimal_pad_length_def)
qed

end
