(* ===== verification/Privacy.thy ===== *)
theory Privacy
  imports Prelude
begin

text \<open>
  \<open>src/src/dp_shaper.rs\<close> and \<open>src/src/privacy_accountant.rs\<close>: the Laplace mechanism that decides the
  dummy bytes of a window, and the accountant and ledger that add up what the windows spend. The
  lemmas state the decision of a window, and that the accountant's flag, total and count are those
  of the whole history of queries.
\<close>

section \<open>The shaper\<close>

record dp_config =
  epsilon :: real
  window_ms :: nat
  max_real_bytes_per_window :: nat

datatype dp_error = DpInvalidConfig string

definition dp_default :: dp_config where
  "dp_default = \<lparr>epsilon = 1 / 2, window_ms = 100, max_real_bytes_per_window = 64 * 1024\<rparr>"

definition noise_scale :: "dp_config \<Rightarrow> real" where
  "noise_scale c = real (max_real_bytes_per_window c) / epsilon c"

definition dp_validate :: "dp_config \<Rightarrow> dp_error + dp_config" where
  "dp_validate c =
     (if epsilon c \<le> 0 then Inl (DpInvalidConfig ''epsilon must be positive'')
      else if window_ms c = 0 then Inl (DpInvalidConfig ''window_ms must be non-zero'')
      else if max_real_bytes_per_window c = 0 then
        Inl (DpInvalidConfig ''max_real_bytes_per_window must be non-zero'')
      else Inr c)"

definition dp_valid :: "dp_config \<Rightarrow> bool" where
  "dp_valid c \<longleftrightarrow> 0 < epsilon c \<and> 0 < window_ms c \<and> 0 < max_real_bytes_per_window c"

interpretation dp_cfg: config_check dp_validate dp_valid
  by unfold_locales (auto simp: dp_validate_def dp_valid_def)

record window_decision =
  wd_real_bytes :: nat
  wd_dummy_bytes :: nat
  noise_sample :: real
  wd_epsilon_spent :: real

record 'r dp_shaper =
  dp_conf :: dp_config
  dp_rng :: 'r

definition dp_new :: "dp_config \<Rightarrow> 'r \<Rightarrow> dp_error + 'r dp_shaper" where
  "dp_new c r = (case dp_validate c of Inl e \<Rightarrow> Inl e | Inr c \<Rightarrow> Inr \<lparr>dp_conf = c, dp_rng = r\<rparr>)"

text \<open>\<open>f64::signum\<close> is 1 at zero.\<close>

definition f64_signum :: "real \<Rightarrow> real" where
  "f64_signum x = (if x < 0 then -1 else 1)"

definition laplace_of :: "real \<Rightarrow> real \<Rightarrow> real" where
  "laplace_of scale v = - scale * f64_signum v * ln (1 - 2 * \<bar>v\<bar>)"

definition dp_laplace_sample :: "'r rng_ops \<Rightarrow> real \<Rightarrow> 'r dp_shaper \<Rightarrow> real \<times> 'r dp_shaper" where
  "dp_laplace_sample R scale s =
     (let (u, r') = gen_unit R (dp_rng s); v = u - 1 / 2 in (laplace_of scale v, s\<lparr>dp_rng := r'\<rparr>))"

definition decide_window :: "'r rng_ops \<Rightarrow> nat \<Rightarrow> 'r dp_shaper \<Rightarrow> window_decision \<times> 'r dp_shaper" where
  "decide_window R real_bytes s =
     (let (noise, s') = dp_laplace_sample R (noise_scale (dp_conf s)) s;
          target = real real_bytes + noise;
          dummy_bytes = (if target > real real_bytes
                         then as_u64 (of_int (roundf (target - real real_bytes))) else 0)
      in (\<lparr>wd_real_bytes = real_bytes, wd_dummy_bytes = dummy_bytes, noise_sample = noise,
           wd_epsilon_spent = epsilon (dp_conf s)\<rparr>, s'))"

record 'r bidirectional_dp =
  bdp_upstream :: "'r dp_shaper"
  bdp_downstream :: "'r dp_shaper"

definition bidirectional_dp_new :: "dp_config \<Rightarrow> 'r \<Rightarrow> 'r \<Rightarrow> dp_error + 'r bidirectional_dp" where
  "bidirectional_dp_new c r_up r_down =
     (case dp_new c r_up of
        Inl e \<Rightarrow> Inl e
      | Inr up \<Rightarrow>
          (case dp_new c r_down of
             Inl e \<Rightarrow> Inl e
           | Inr down \<Rightarrow> Inr \<lparr>bdp_upstream = up, bdp_downstream = down\<rparr>))"

text \<open>The sign of the noise is the side of the median the uniform draw falls on.\<close>

lemma laplace_of_nonneg:
  assumes "0 \<le> scale" "0 \<le> v" "v < 1 / 2"
  shows "0 \<le> laplace_of scale v"
proof -
  have "ln (1 - 2 * \<bar>v\<bar>) \<le> 0" using assms by (subst ln_le_zero_iff) auto
  then show ?thesis using assms by (simp add: laplace_of_def f64_signum_def mult_nonneg_nonpos)
qed

lemma laplace_of_nonpos:
  assumes "0 \<le> scale" "- 1 / 2 < v" "v < 0"
  shows "laplace_of scale v \<le> 0"
proof -
  have "ln (1 - 2 * \<bar>v\<bar>) \<le> 0" using assms by (subst ln_le_zero_iff) auto
  then show ?thesis using assms by (simp add: laplace_of_def f64_signum_def mult_nonneg_nonpos)
qed

lemma decide_window_dummy:
  assumes "decide_window R n s = (d, s')"
  shows "wd_real_bytes d = n" "wd_epsilon_spent d = epsilon (dp_conf s)" "dp_conf s' = dp_conf s"
    "noise_sample d \<le> 0 \<Longrightarrow> wd_dummy_bytes d = 0"
    "0 < noise_sample d \<Longrightarrow> wd_dummy_bytes d = as_u64 (of_int (roundf (noise_sample d)))"
  using assms by (auto simp: decide_window_def dp_laplace_sample_def Let_def split: prod.splits)

section \<open>The accountant\<close>

datatype composition_method = Basic | AdvancedRdp | ZeroConcentrated

record privacy_accountant =
  pa_budget :: real
  pa_method :: composition_method
  pa_epsilon_spent :: real
  pa_delta_spent :: real
  pa_query_count :: nat
  pa_started_at :: nanos
  budget_exceeded :: bool

record accounting_result =
  ar_epsilon_spent :: real
  ar_epsilon_remaining :: real
  ar_delta_spent :: real
  ar_query_count :: nat
  ar_budget_fraction_used :: real
  ar_exceeded :: bool

text \<open>\<open>None\<close> is a failed assertion.\<close>

definition accountant_new :: "real \<Rightarrow> composition_method \<Rightarrow> nanos \<Rightarrow> privacy_accountant option" where
  "accountant_new b m now =
     (if b > 0 then
        Some \<lparr>pa_budget = b, pa_method = m, pa_epsilon_spent = 0, pa_delta_spent = 0,
              pa_query_count = 0, pa_started_at = now, budget_exceeded = False\<rparr>
      else None)"

definition accountant_status :: "privacy_accountant \<Rightarrow> accounting_result" where
  "accountant_status a =
     (let remaining = max (pa_budget a - pa_epsilon_spent a) 0
      in \<lparr>ar_epsilon_spent = pa_epsilon_spent a, ar_epsilon_remaining = remaining,
          ar_delta_spent = pa_delta_spent a, ar_query_count = pa_query_count a,
          ar_budget_fraction_used = pa_epsilon_spent a / pa_budget a,
          ar_exceeded = budget_exceeded a\<rparr>)"

definition record_query :: "real \<Rightarrow> privacy_accountant \<Rightarrow> (accounting_result \<times> privacy_accountant) option" where
  "record_query eps a =
     (if eps \<ge> 0 then
        let a1 = a\<lparr>pa_query_count := pa_query_count a + 1\<rparr>;
            a2 = (case pa_method a1 of
                    Basic \<Rightarrow> a1\<lparr>pa_epsilon_spent := pa_epsilon_spent a1 + eps\<rparr>
                  | _ \<Rightarrow> a1\<lparr>pa_epsilon_spent := pa_epsilon_spent a1 + eps\<rparr>);
            a3 = (if pa_epsilon_spent a2 > pa_budget a2 \<and> \<not> budget_exceeded a2
                  then a2\<lparr>budget_exceeded := True\<rparr> else a2)
        in Some (accountant_status a3, a3)
      else None)"

definition record_approx_query ::
  "real \<Rightarrow> real \<Rightarrow> privacy_accountant \<Rightarrow> (accounting_result \<times> privacy_accountant) option" where
  "record_approx_query eps delta a =
     record_query eps (a\<lparr>pa_delta_spent := pa_delta_spent a + delta\<rparr>)"

definition is_near_limit :: "real \<Rightarrow> privacy_accountant \<Rightarrow> bool" where
  "is_near_limit fraction a \<longleftrightarrow> fraction \<le> pa_epsilon_spent a / pa_budget a"

definition should_throttle :: "accounting_result \<Rightarrow> bool" where
  "should_throttle r \<longleftrightarrow> ar_exceeded r \<or> ar_budget_fraction_used r \<ge> 95 / 100"

text \<open>A history of queries, each one \<open>(epsilon, delta)\<close>.\<close>

fun record_queries :: "(real \<times> real) list \<Rightarrow> privacy_accountant \<Rightarrow> privacy_accountant option" where
  "record_queries [] a = Some a"
| "record_queries ((e, d) # qs) a =
     (case record_approx_query e d a of None \<Rightarrow> None | Some (_, a') \<Rightarrow> record_queries qs a')"

definition accountant_inv :: "privacy_accountant \<Rightarrow> bool" where
  "accountant_inv a \<longleftrightarrow> 0 < pa_budget a \<and> 0 \<le> pa_epsilon_spent a \<and>
     (budget_exceeded a \<longleftrightarrow> pa_epsilon_spent a > pa_budget a)"

lemma accountant_new_inv: "accountant_new b m now = Some a \<Longrightarrow> accountant_inv a"
  by (auto simp: accountant_new_def accountant_inv_def split: if_splits)

lemma record_approx_query_ok:
  assumes "accountant_inv a" "0 \<le> e"
  shows "\<exists>r a'. record_approx_query e d a = Some (r, a') \<and> accountant_inv a' \<and>
    pa_budget a' = pa_budget a \<and> pa_epsilon_spent a' = pa_epsilon_spent a + e \<and>
    pa_delta_spent a' = pa_delta_spent a + d \<and> pa_query_count a' = pa_query_count a + 1 \<and>
    r = accountant_status a'"
  using assms
  by (cases "pa_method a") (auto simp: record_approx_query_def record_query_def accountant_inv_def Let_def)

lemma record_queries_ok:
  assumes "accountant_inv a" "list_all (\<lambda>(e, d). 0 \<le> e) qs"
  shows "\<exists>a'. record_queries qs a = Some a' \<and> accountant_inv a' \<and> pa_budget a' = pa_budget a \<and>
    pa_epsilon_spent a' = pa_epsilon_spent a + sum_list (map fst qs) \<and>
    pa_delta_spent a' = pa_delta_spent a + sum_list (map snd qs) \<and>
    pa_query_count a' = pa_query_count a + length qs"
  using assms
proof (induction qs arbitrary: a)
  case Nil
  then show ?case by simp
next
  case (Cons q qs)
  obtain e d where q: "q = (e, d)" by (cases q)
  have "0 \<le> e" using Cons.prems(2) q by simp
  from record_approx_query_ok [OF Cons.prems(1) this, of d]
  obtain r a1 where 1: "record_approx_query e d a = Some (r, a1)" "accountant_inv a1"
    "pa_budget a1 = pa_budget a" "pa_epsilon_spent a1 = pa_epsilon_spent a + e"
    "pa_delta_spent a1 = pa_delta_spent a + d" "pa_query_count a1 = pa_query_count a + 1" by blast
  have "list_all (\<lambda>(e, d). 0 \<le> e) qs" using Cons.prems(2) by simp
  from Cons.IH [OF 1(2) this] show ?case using 1 q by auto
qed

section \<open>The ledger of a user\<close>

record user_ledger =
  session_budgets :: "real list"
  lifetime_budget :: real
  total_epsilon_spent :: real

record ledger_status =
  ls_total_epsilon_spent :: real
  ls_lifetime_budget :: real
  sessions_recorded :: nat
  fraction_used :: real
  ls_exceeded :: bool

definition ledger_new :: "real \<Rightarrow> user_ledger option" where
  "ledger_new b = (if b > 0 then
     Some \<lparr>session_budgets = [], lifetime_budget = b, total_epsilon_spent = 0\<rparr> else None)"

definition ledger_get_status :: "user_ledger \<Rightarrow> ledger_status" where
  "ledger_get_status l =
     \<lparr>ls_total_epsilon_spent = total_epsilon_spent l, ls_lifetime_budget = lifetime_budget l,
      sessions_recorded = length (session_budgets l),
      fraction_used = total_epsilon_spent l / lifetime_budget l,
      ls_exceeded = (total_epsilon_spent l > lifetime_budget l)\<rparr>"

definition record_session :: "real \<Rightarrow> user_ledger \<Rightarrow> ledger_status \<times> user_ledger" where
  "record_session eps l =
     (let l' = l\<lparr>session_budgets := session_budgets l @ [eps],
                 total_epsilon_spent := total_epsilon_spent l + eps\<rparr>
      in (ledger_get_status l', l'))"

definition ledger_inv :: "user_ledger \<Rightarrow> bool" where
  "ledger_inv l \<longleftrightarrow> 0 < lifetime_budget l \<and> total_epsilon_spent l = sum_list (session_budgets l)"

lemma ledger_new_inv: "ledger_new b = Some l \<Longrightarrow> ledger_inv l"
  by (auto simp: ledger_new_def ledger_inv_def split: if_splits)

lemma record_session_inv: "ledger_inv l \<Longrightarrow> ledger_inv (snd (record_session e l))"
  by (simp add: ledger_inv_def record_session_def Let_def)

section \<open>Properties\<close>

text \<open>A window decision only adds. The real bytes of the window are passed on unchanged, the dummy
  bytes are the positive part of the Laplace noise rounded to bytes, the window costs exactly the
  configured epsilon and the shaper keeps its configuration; the noise has the sign of the uniform
  draw around one half.\<close>
theorem window_only_adds:
  assumes "rng_ok R" "dp_valid (dp_conf s)" "decide_window R n s = (d, s')"
  shows "wd_real_bytes d = n \<and> wd_dummy_bytes d = as_u64 (of_int (roundf (max (noise_sample d) 0))) \<and>
    wd_epsilon_spent d = epsilon (dp_conf s) \<and> dp_conf s' = dp_conf s \<and>
    (1 / 2 \<le> fst (gen_unit R (dp_rng s)) \<longrightarrow> 0 \<le> noise_sample d) \<and>
    (0 < fst (gen_unit R (dp_rng s)) \<and> fst (gen_unit R (dp_rng s)) < 1 / 2 \<longrightarrow>
       noise_sample d \<le> 0 \<and> wd_dummy_bytes d = 0)"
proof -
  obtain u r' where u: "gen_unit R (dp_rng s) = (u, r')" by force
  then have range: "0 \<le> u" "u < 1" using rng_ok_unit [OF assms(1)] by blast+
  have noise: "noise_sample d = laplace_of (noise_scale (dp_conf s)) (u - 1 / 2)"
    using assms(3) by (auto simp: decide_window_def dp_laplace_sample_def u Let_def)
  have scale: "0 \<le> noise_scale (dp_conf s)" using assms(2) by (simp add: noise_scale_def dp_valid_def)
  have neg: "noise_sample d \<le> 0" if "0 < u" "u < 1 / 2"
    unfolding noise by (rule laplace_of_nonpos [OF scale]) (use that in auto)
  have pos: "0 \<le> noise_sample d" if "1 / 2 \<le> u"
    unfolding noise by (rule laplace_of_nonneg [OF scale]) (use that range in auto)
  have zero: "as_u64 (of_int (roundf 0)) = 0" by (simp add: roundf_def as_u64_def)
  show ?thesis
    using decide_window_dummy [OF assms(3)] neg pos by (auto simp: u max_def zero)
qed

theorem window_only_adds_witness:
  "wd_real_bytes (fst (decide_window lcg 900 \<lparr>dp_conf = dp_default, dp_rng = 1073741824\<rparr>)) = 900 \<and>
   0 \<le> noise_sample (fst (decide_window lcg 900 \<lparr>dp_conf = dp_default, dp_rng = 1073741824\<rparr>))"
proof -
  have "dp_valid (dp_conf \<lparr>dp_conf = dp_default, dp_rng = 1073741824\<rparr>)" by (simp add: dp_valid_def dp_default_def)
  from window_only_adds [OF lcg_ok this surjective_pairing [of "decide_window lcg 900 \<lparr>dp_conf = dp_default, dp_rng = 1073741824\<rparr>"]]
  show ?thesis by (auto simp: lcg_def)
qed



end
