(* ===== verification/SessionBound.thy ===== *)
theory SessionBound
  imports Prelude
begin

text \<open>
  \<open>src/src/session_bounder.rs\<close>: the session classes, the per-session class boundaries drawn with
  30 percent of noise, and the bounder that tells how much padding a session still owes.
\<close>

section \<open>Session classes\<close>

datatype session_class = Short | Medium | Long | VeryLong

text \<open>The derived order of the Rust enum: the order of its variants.\<close>

fun class_rank :: "session_class \<Rightarrow> nat" where
  "class_rank Short = 0"
| "class_rank Medium = 1"
| "class_rank Long = 2"
| "class_rank VeryLong = 3"

lemma class_rank_inj: "class_rank a = class_rank b \<Longrightarrow> a = b"
  by (cases a; cases b) simp_all

instantiation session_class :: linorder
begin

definition less_eq_session_class :: "session_class \<Rightarrow> session_class \<Rightarrow> bool" where
  "less_eq_session_class a b \<longleftrightarrow> class_rank a \<le> class_rank b"

definition less_session_class :: "session_class \<Rightarrow> session_class \<Rightarrow> bool" where
  "less_session_class a b \<longleftrightarrow> class_rank a < class_rank b"

instance
  by standard (auto simp: less_eq_session_class_def less_session_class_def class_rank_inj)

end

fun target_volume_bytes :: "session_class \<Rightarrow> nat" where
  "target_volume_bytes Short = 64 * 1024"
| "target_volume_bytes Medium = 1 * 1024 * 1024"
| "target_volume_bytes Long = 16 * 1024 * 1024"
| "target_volume_bytes VeryLong = 256 * 1024 * 1024"

fun target_duration :: "session_class \<Rightarrow> nanos" where
  "target_duration Short = 30 * 1000000000"
| "target_duration Medium = 5 * 60 * 1000000000"
| "target_duration Long = 30 * 60 * 1000000000"
| "target_duration VeryLong = 2 * 60 * 60 * 1000000000"

definition for_volume :: "nat \<Rightarrow> session_class" where
  "for_volume real_bytes =
     (if real_bytes \<le> target_volume_bytes Short then Short
      else if real_bytes \<le> target_volume_bytes Medium then Medium
      else if real_bytes \<le> target_volume_bytes Long then Long
      else VeryLong)"

text \<open>\<open>saturating_sub\<close> is subtraction on \<open>nat\<close>.\<close>

definition padding_remaining :: "session_class \<Rightarrow> nat \<Rightarrow> nat" where
  "padding_remaining c real_bytes_sent = target_volume_bytes c - real_bytes_sent"

lemma target_volume_mono: "a < b \<Longrightarrow> target_volume_bytes a < target_volume_bytes b"
  by (cases a; cases b) (simp_all add: less_session_class_def)

lemma target_duration_mono: "a < b \<Longrightarrow> target_duration a < target_duration b"
  by (cases a; cases b) (simp_all add: less_session_class_def)

section \<open>Fuzzed class boundaries\<close>

definition BOUNDARY_JITTER :: real where
  "BOUNDARY_JITTER = 30 / 100"

record fuzzed_thresholds =
  short_max :: nat
  medium_max :: nat
  long_max :: nat

definition fuzz :: "'r rng_ops \<Rightarrow> 'r \<Rightarrow> nat \<Rightarrow> (nat \<times> 'r) option" where
  "fuzz R r base = do {
     let lo = 1 - BOUNDARY_JITTER;
     let hi = 1 + BOUNDARY_JITTER;
     (factor, r') \<leftarrow> gen_range_f64 R r lo hi;
     Some (as_u64 (real base * factor), r')
   }"

definition sample_thresholds :: "'r rng_ops \<Rightarrow> 'r \<Rightarrow> (fuzzed_thresholds \<times> 'r) option" where
  "sample_thresholds R r = do {
     (s, r1) \<leftarrow> fuzz R r (target_volume_bytes Short);
     (m, r2) \<leftarrow> fuzz R r1 (target_volume_bytes Medium);
     (l, r3) \<leftarrow> fuzz R r2 (target_volume_bytes Long);
     Some (\<lparr>short_max = s, medium_max = m, long_max = l\<rparr>, r3)
   }"

definition classify :: "fuzzed_thresholds \<Rightarrow> nat \<Rightarrow> session_class" where
  "classify t real_bytes =
     (if real_bytes \<le> short_max t then Short
      else if real_bytes \<le> medium_max t then Medium
      else if real_bytes \<le> long_max t then Long
      else VeryLong)"

text \<open>The boundaries a draw can give, in bytes.\<close>

definition thresholds_wf :: "fuzzed_thresholds \<Rightarrow> bool" where
  "thresholds_wf t \<longleftrightarrow>
     45875 \<le> short_max t \<and> short_max t \<le> 85197 \<and>
     734003 \<le> medium_max t \<and> medium_max t \<le> 1363149 \<and>
     11744051 \<le> long_max t \<and> long_max t \<le> 21810381"

lemma fuzz_bounds:
  assumes "rng_ok R"
  obtains n r' where "fuzz R r base = Some (n, r')"
    "as_u64 (real base * 0.7) \<le> n" "n \<le> as_u64 (real base * 1.3)"
proof -
  obtain f r' where f: "gen_range_f64 R r (1 - BOUNDARY_JITTER) (1 + BOUNDARY_JITTER) = Some (f, r')"
      "1 - BOUNDARY_JITTER \<le> f" "f \<le> 1 + BOUNDARY_JITTER"
    using gen_range_f64_total [OF assms, of "1 - BOUNDARY_JITTER" "1 + BOUNDARY_JITTER" r]
    by (auto simp: BOUNDARY_JITTER_def)
  have b: "as_u64 (real base * 0.7) \<le> as_u64 (real base * f)"
      "as_u64 (real base * f) \<le> as_u64 (real base * 1.3)"
    using f(2,3) by (auto simp only: BOUNDARY_JITTER_def intro!: as_u64_mono mult_left_mono)
  show thesis by (rule that [OF _ b]) (simp add: fuzz_def Let_def f(1))
qed

lemma sample_thresholds_wf:
  assumes "rng_ok R"
  obtains t r' where "sample_thresholds R r = Some (t, r')" "thresholds_wf t"
proof -
  obtain s r1 where s: "fuzz R r (target_volume_bytes Short) = Some (s, r1)"
      "as_u64 (real (target_volume_bytes Short) * 0.7) \<le> s" "s \<le> as_u64 (real (target_volume_bytes Short) * 1.3)"
    using fuzz_bounds [OF assms, of r "target_volume_bytes Short"] .
  obtain m r2 where m: "fuzz R r1 (target_volume_bytes Medium) = Some (m, r2)"
      "as_u64 (real (target_volume_bytes Medium) * 0.7) \<le> m" "m \<le> as_u64 (real (target_volume_bytes Medium) * 1.3)"
    using fuzz_bounds [OF assms, of r1 "target_volume_bytes Medium"] .
  obtain l r3 where l: "fuzz R r2 (target_volume_bytes Long) = Some (l, r3)"
      "as_u64 (real (target_volume_bytes Long) * 0.7) \<le> l" "l \<le> as_u64 (real (target_volume_bytes Long) * 1.3)"
    using fuzz_bounds [OF assms, of r2 "target_volume_bytes Long"] .
  have "thresholds_wf \<lparr>short_max = s, medium_max = m, long_max = l\<rparr>"
    using s(2,3) m(2,3) l(2,3) by (simp add: thresholds_wf_def as_u64_def u64_max_def)
  moreover have "sample_thresholds R r = Some (\<lparr>short_max = s, medium_max = m, long_max = l\<rparr>, r3)"
    by (simp only: sample_thresholds_def s(1) m(1) l(1) Option.bind.bind_lunit split_conv)
  ultimately show thesis by (rule that [rotated])
qed

text \<open>Classification by three increasing boundaries is monotone in the volume.\<close>

lemma classify_mono:
  assumes "a \<le> b"
  shows "classify t a \<le> classify t b"
  using assms by (auto simp: classify_def less_eq_session_class_def)

lemma for_volume_as_classify:
  "for_volume n = classify \<lparr>short_max = 65536, medium_max = 1048576, long_max = 16777216\<rparr> n"
  by (simp add: for_volume_def classify_def)

section \<open>The session bounder\<close>

record session_bounder =
  sb_class :: session_class
  real_bytes_sent :: nat
  sb_start :: nanos

definition bounder_new :: "session_class \<Rightarrow> nanos \<Rightarrow> session_bounder" where
  "bounder_new c now = \<lparr>sb_class = c, real_bytes_sent = 0, sb_start = now\<rparr>"

definition record_real_bytes :: "nat \<Rightarrow> session_bounder \<Rightarrow> session_bounder" where
  "record_real_bytes n b = b\<lparr>real_bytes_sent := sat_add (real_bytes_sent b) n\<rparr>"

definition volume_padding_remaining :: "session_bounder \<Rightarrow> nat" where
  "volume_padding_remaining b = padding_remaining (sb_class b) (real_bytes_sent b)"

definition time_remaining :: "session_bounder \<Rightarrow> nanos \<Rightarrow> nanos" where
  "time_remaining b now = target_duration (sb_class b) - (now - sb_start b)"

definition is_complete :: "session_bounder \<Rightarrow> nanos \<Rightarrow> bool" where
  "is_complete b now \<longleftrightarrow> target_volume_bytes (sb_class b) \<le> real_bytes_sent b \<and> time_remaining b now = 0"

definition dummy_bytes_needed_now :: "session_bounder \<Rightarrow> nat \<Rightarrow> nanos \<Rightarrow> nat" where
  "dummy_bytes_needed_now b dummy_bytes_emitted now =
     (let total_padding = target_volume_bytes (sb_class b) - real_bytes_sent b in
      if total_padding = 0 then 0
      else let elapsed = now - sb_start b;
               target = target_duration (sb_class b);
               progress = (real elapsed / 10 ^ 9) / (real target / 10 ^ 9);
               progress = min progress 1;
               expected_so_far = as_u64 (of_int (roundf (real total_padding * progress)))
           in expected_so_far - dummy_bytes_emitted)"

definition final_padding_bytes :: "session_bounder \<Rightarrow> nat \<Rightarrow> nat" where
  "final_padding_bytes b dummy_bytes_emitted =
     (let total_padding = target_volume_bytes (sb_class b) - real_bytes_sent b
      in total_padding - dummy_bytes_emitted)"

lemma target_volume_le: "target_volume_bytes c \<le> 268435456"
  by (cases c) simp_all

lemma round_part_le:
  assumes "T \<le> u64_max" "p \<le> 1"
  shows "as_u64 (of_int (roundf (real T * p))) \<le> T"
proof -
  have "real T * p \<le> real T" using assms(2) by (simp add: mult_left_le)
  then have "roundf (real T * p) \<le> roundf (real T)" by (rule roundf_mono)
  then have "as_u64 (of_int (roundf (real T * p))) \<le> as_u64 (of_int (int T))"
    by (intro as_u64_mono) (simp del: of_int_of_nat_eq)
  also have "\<dots> = T" using assms(1) by (simp add: as_u64_of_nat)
  finally show ?thesis .
qed

lemma owed_le_max: "target_volume_bytes (sb_class b) - n \<le> u64_max"
  using target_volume_le [of "sb_class b"] by (simp add: u64_max_def)

lemma dummy_needed_bounds:
  "dummy_bytes_needed_now b d now \<le> final_padding_bytes b d"
proof -
  obtain T where T: "T = target_volume_bytes (sb_class b) - real_bytes_sent b" by simp
  show ?thesis
    unfolding dummy_bytes_needed_now_def final_padding_bytes_def Let_def T [symmetric]
    using round_part_le [of T, OF _ min.cobounded2] owed_le_max [of b "real_bytes_sent b"]
    by (simp add: T [symmetric] diff_le_mono)
qed

text \<open>Once the target duration is over, the schedule asks for all of the missing padding.\<close>

lemma dummy_needed_final:
  assumes "target_duration (sb_class b) \<le> now - sb_start b"
  shows "dummy_bytes_needed_now b d now = final_padding_bytes b d"
proof -
  obtain T where T: "T = target_volume_bytes (sb_class b) - real_bytes_sent b" by simp
  obtain t where t: "t = target_duration (sb_class b)" by simp
  obtain e where e: "e = now - sb_start b" by simp
  have "0 < real t" unfolding t by (cases "sb_class b") simp_all
  moreover have "real t \<le> real e" using assms by (simp add: t e)
  ultimately have p: "min ((real e / 10 ^ 9) / (real t / 10 ^ 9)) 1 = 1"
    by (simp add: min_def field_simps)
  have "as_u64 (of_int (roundf (real T * 1))) = T"
    using owed_le_max [of b "real_bytes_sent b"] by (simp add: as_u64_of_nat T)
  then show ?thesis
    unfolding dummy_bytes_needed_now_def final_padding_bytes_def Let_def
      T [symmetric] t [symmetric] e [symmetric] p by simp
qed

lemma final_padding_exact:
  assumes "real_bytes_sent b + d \<le> target_volume_bytes (sb_class b)"
  shows "real_bytes_sent b + d + final_padding_bytes b d = target_volume_bytes (sb_class b)"
  using assms by (simp add: final_padding_bytes_def Let_def)

section \<open>Properties\<close>

text \<open>The padding schedule of a session. At no time does it ask for more padding than is missing to
  the class volume; it never asks for less as time goes on; and from the class duration on it asks
  for all of it, after which real plus dummy bytes are exactly the class volume, whatever the real
  volume was.\<close>
theorem padding_schedule:
  assumes "real_bytes_sent b + d \<le> target_volume_bytes (sb_class b)"
  shows "real_bytes_sent b + d + dummy_bytes_needed_now b d t \<le> target_volume_bytes (sb_class b) \<and>
    (t \<le> t' \<longrightarrow> dummy_bytes_needed_now b d t \<le> dummy_bytes_needed_now b d t') \<and>
    (sb_start b + target_duration (sb_class b) \<le> t \<longrightarrow>
       real_bytes_sent b + d + dummy_bytes_needed_now b d t = target_volume_bytes (sb_class b))"
proof (intro conjI impI)
  note exact = final_padding_exact [OF assms]
  show "real_bytes_sent b + d + dummy_bytes_needed_now b d t \<le> target_volume_bytes (sb_class b)"
    using dummy_needed_bounds [of b d t] exact by simp
  show "real_bytes_sent b + d + dummy_bytes_needed_now b d t = target_volume_bytes (sb_class b)"
    if "sb_start b + target_duration (sb_class b) \<le> t"
    using dummy_needed_final [of b t d] that exact by simp
  assume le: "t \<le> t'"
  let ?D = "real (target_duration (sb_class b))"
  obtain T where T: "T = target_volume_bytes (sb_class b) - real_bytes_sent b" by simp
  have D: "0 < ?D" by (cases "sb_class b") simp_all
  have "real (t - sb_start b) / 10 ^ 9 / (?D / 10 ^ 9) \<le> real (t' - sb_start b) / 10 ^ 9 / (?D / 10 ^ 9)"
    using le D by (intro divide_right_mono) auto
  then have "roundf (real T * min (real (t - sb_start b) / 10 ^ 9 / (?D / 10 ^ 9)) 1)
      \<le> roundf (real T * min (real (t' - sb_start b) / 10 ^ 9 / (?D / 10 ^ 9)) 1)"
    by (intro roundf_mono mult_left_mono min.mono) simp_all
  then show "dummy_bytes_needed_now b d t \<le> dummy_bytes_needed_now b d t'"
    unfolding dummy_bytes_needed_now_def Let_def T [symmetric] by (simp add: as_u64_mono diff_le_mono)
qed

theorem padding_schedule_witness:
  "dummy_bytes_needed_now (bounder_new Short 0) 5000 0 \<le> dummy_bytes_needed_now (bounder_new Short 0) 5000 30000000000 \<and>
   5000 + dummy_bytes_needed_now (bounder_new Short 0) 5000 30000000000 = target_volume_bytes Short"
proof -
  have b: "real_bytes_sent (bounder_new Short 0) + 5000 \<le> target_volume_bytes (sb_class (bounder_new Short 0))"
    by (simp add: bounder_new_def)
  show ?thesis
    using padding_schedule [OF b, of 0 30000000000] padding_schedule [OF b, of 30000000000 30000000000]
    by (simp add: bounder_new_def)
qed

text \<open>The class of a flow. The three boundaries a connection draws stay within 30 percent of the
  nominal volumes and are strictly increasing whatever the generator returns; classification by them
  is monotone in the true volume, every volume below 45 kB is a short session and every volume above
  21.9 MB a very long one, and without jitter it is the nominal classification.\<close>
theorem fuzzed_classes:
  assumes "rng_ok R"
  shows "\<exists>t r'. sample_thresholds R r = Some (t, r') \<and> short_max t < medium_max t \<and> medium_max t < long_max t \<and>
    (\<forall>a b. a \<le> b \<longrightarrow> classify t a \<le> classify t b) \<and>
    (\<forall>a. a \<le> 45000 \<longrightarrow> classify t a = Short) \<and> (\<forall>a. 21900000 \<le> a \<longrightarrow> classify t a = VeryLong) \<and>
    (\<forall>a. classify \<lparr>short_max = target_volume_bytes Short, medium_max = target_volume_bytes Medium,
           long_max = target_volume_bytes Long\<rparr> a = for_volume a)"
proof -
  obtain t r' where t: "sample_thresholds R r = Some (t, r')" "thresholds_wf t"
    using sample_thresholds_wf [OF assms] by blast
  then have "short_max t < medium_max t" "medium_max t < long_max t"
    "\<forall>a. a \<le> 45000 \<longrightarrow> classify t a = Short" "\<forall>a. 21900000 \<le> a \<longrightarrow> classify t a = VeryLong"
    by (auto simp: thresholds_wf_def classify_def)
  then show ?thesis using t(1) classify_mono by (auto simp: for_volume_as_classify)
qed

theorem fuzzed_classes_witness:
  "\<exists>t r'. sample_thresholds lcg 11 = Some (t, r') \<and> classify t 45000 = Short \<and> classify t 21900000 = VeryLong"
proof -
  obtain t r' where "sample_thresholds lcg 11 = Some (t, r')" "\<forall>a. a \<le> 45000 \<longrightarrow> classify t a = Short"
    "\<forall>a. 21900000 \<le> a \<longrightarrow> classify t a = VeryLong"
    using fuzzed_classes [OF lcg_ok, of 11] by blast
  then show ?thesis by auto
qed

end
