(* ===== verification/Composition.thy ===== *)
theory Composition
  imports SelfTest Padding Privacy SessionBound
begin

text \<open>
  \<open>src/src/composition.rs\<close>: the composer that budgets the cover traffic of a burst, and the shaped
  session that couples it with the departure clock of \<open>Correlator\<close>. A call that reads the clock
  several times has an argument \<open>clk\<close>, \<open>clk i\<close> being its \<open>i\<close>-th reading. \<open>None\<close> is a panic. The
  lemmas say when no call panics, what a composed burst is made of, that a shaped session is a
  lossless stage of fixed frame size, and that with a fixed rate its wire trace does not depend on
  the payload.
\<close>

section \<open>Data\<close>

datatype ratio_distribution_kind = Sparse | Balanced | HeavyCover | Spiky

definition dummy_count_range :: "ratio_distribution_kind \<Rightarrow> nat \<times> nat" where
  "dummy_count_range k =
     (case k of Sparse \<Rightarrow> (0, 1) | Balanced \<Rightarrow> (3, 8) | HeavyCover \<Rightarrow> (10, 18) | Spiky \<Rightarrow> (12, 20))"

definition dummy_mu_sigma :: "ratio_distribution_kind \<Rightarrow> real \<times> real" where
  "dummy_mu_sigma k =
     (case k of Sparse \<Rightarrow> (1 / 2, 1 / 2) | Balanced \<Rightarrow> (11 / 2, 3 / 2)
      | HeavyCover \<Rightarrow> (14, 5 / 2) | Spiky \<Rightarrow> (10, 8))"

record ratio_switch_threshold =
  rs_bursts :: nat
  rs_real_bytes :: nat
  rs_real_packets :: nat

record ratio_regime =
  rr_kind :: ratio_distribution_kind
  rr_switch_after :: ratio_switch_threshold
  dummy_lo :: nat
  dummy_hi :: nat
  spiky :: bool

record mixed_burst =
  mb_frames :: "mixed_frame list"
  mb_ratio_regime :: ratio_regime
  mb_real_packets :: nat
  mb_dummy_packets :: nat

definition mb_total_bytes :: "mixed_burst \<Rightarrow> nat" where
  "mb_total_bytes b = sum_list (map frame_len (mb_frames b))"

record composition_config =
  max_dummy_packets_per_burst :: nat
  min_switch_bursts :: nat
  max_switch_bursts :: nat
  min_switch_real_bytes :: nat
  max_switch_real_bytes :: nat
  min_switch_real_packets :: nat
  max_switch_real_packets :: nat
  max_idle_gap_ms :: nat
  keepalive_min_bytes :: nat
  keepalive_max_bytes :: nat
  cc_dp_shaper :: "dp_config option"
  cc_session_class :: "session_class option"
  padding_buckets :: nat
  cc_cell_bytes :: "nat option"
  clock_ema_alpha :: "real option"
  clock_min_iat_ms :: "real option"
  clock_max_iat_ms :: "real option"
  clock_initial_iat_ms :: "real option"
  clock_adapt_rate :: "bool option"
  clock_min_dummy_fraction :: "real option"

datatype composition_error =
    CompInvalidConfig string
  | CompWrongSeedRole seed_role seed_role
  | CompQueueFull

definition TOR_CELL_BYTES :: nat where
  "TOR_CELL_BYTES = 514"

definition composition_default :: composition_config where
  "composition_default = \<lparr>max_dummy_packets_per_burst = 32,
     min_switch_bursts = 180, max_switch_bursts = 800,
     min_switch_real_bytes = 4 * 1024 * 1024, max_switch_real_bytes = 32 * 1024 * 1024,
     min_switch_real_packets = 4096, max_switch_real_packets = 32768,
     max_idle_gap_ms = 480, keepalive_min_bytes = 100, keepalive_max_bytes = 1400,
     cc_dp_shaper = Some dp_default, cc_session_class = None, padding_buckets = 4,
     cc_cell_bytes = Some TOR_CELL_BYTES, clock_ema_alpha = None, clock_min_iat_ms = None,
     clock_max_iat_ms = None, clock_initial_iat_ms = None, clock_adapt_rate = None,
     clock_min_dummy_fraction = None\<rparr>"

definition composition_validate :: "composition_config \<Rightarrow> composition_error + composition_config" where
  "composition_validate c =
     (if max_dummy_packets_per_burst c = 0 then
        Inl (CompInvalidConfig ''maximum dummy packets must be non-zero'')
      else if min_switch_bursts c = 0 \<or> min_switch_real_bytes c = 0 \<or> min_switch_real_packets c = 0 then
        Inl (CompInvalidConfig ''ratio switch thresholds must be non-zero'')
      else if min_switch_bursts c > max_switch_bursts c then
        Inl (CompInvalidConfig ''minimum switch bursts cannot exceed maximum switch bursts'')
      else if min_switch_real_bytes c > max_switch_real_bytes c then
        Inl (CompInvalidConfig ''minimum switch bytes cannot exceed maximum switch bytes'')
      else if min_switch_real_packets c > max_switch_real_packets c then
        Inl (CompInvalidConfig ''minimum switch packets cannot exceed maximum switch packets'')
      else if max_idle_gap_ms c = 0 then Inl (CompInvalidConfig ''max idle gap must be non-zero'')
      else if keepalive_min_bytes c = 0 \<or> keepalive_min_bytes c > keepalive_max_bytes c then
        Inl (CompInvalidConfig ''keepalive byte range is invalid'')
      else if padding_buckets c = 0 then Inl (CompInvalidConfig ''padding_buckets must be non-zero'')
      else case cc_cell_bytes c of
        Some cb \<Rightarrow> if cb = 0 then Inl (CompInvalidConfig ''cell_bytes must be non-zero'') else Inr c
      | None \<Rightarrow> Inr c)"

definition composition_valid :: "composition_config \<Rightarrow> bool" where
  "composition_valid c \<longleftrightarrow> 0 < max_dummy_packets_per_burst c \<and>
     0 < min_switch_bursts c \<and> min_switch_bursts c \<le> max_switch_bursts c \<and>
     0 < min_switch_real_bytes c \<and> min_switch_real_bytes c \<le> max_switch_real_bytes c \<and>
     0 < min_switch_real_packets c \<and> min_switch_real_packets c \<le> max_switch_real_packets c \<and>
     0 < max_idle_gap_ms c \<and> 0 < keepalive_min_bytes c \<and> keepalive_min_bytes c \<le> keepalive_max_bytes c \<and>
     0 < padding_buckets c \<and> cc_cell_bytes c \<noteq> Some 0"

interpretation composition_cfg: config_check composition_validate composition_valid
  by unfold_locales (auto simp: composition_validate_def composition_valid_def split: option.split)

section \<open>The composer\<close>

definition LENGTH_POOL_CAP :: nat where
  "LENGTH_POOL_CAP = 16"

record 'r composer =
  co_config :: composition_config
  co_rng :: 'r
  co_regime :: ratio_regime
  bursts_in_regime :: nat
  real_bytes_in_regime :: nat
  real_packets_in_regime :: nat
  last_burst_at :: nanos
  spectral_iat :: "'r spectral_iat_generator"
  next_keepalive_due :: nanos
  length_pool :: "nat list"
  length_pool_pos :: nat
  observed_real_iat_ms :: real
  last_real_burst_at :: "nanos option"
  co_optimal_padder :: optimal_padder
  co_dp_shaper :: "'r dp_shaper option"
  co_session_bounder :: "session_bounder option"
  dummy_bytes_emitted :: nat
  co_accountant :: privacy_accountant
  co_self_tester :: self_tester
  frame_clock_ms :: nat

definition ratio_kind_of :: "nat \<Rightarrow> ratio_distribution_kind" where
  "ratio_kind_of n = (if n \<le> 2 then Sparse else if n \<le> 8 then Balanced
     else if n \<le> 15 then HeavyCover else Spiky)"

definition ratio_next_regime ::
  "'r rng_ops \<Rightarrow> composition_config \<Rightarrow> 'r \<Rightarrow> (ratio_regime \<times> 'r) option" where
  "ratio_next_regime R c r = do {
     (k, r0) \<leftarrow> gen_range R r 0 19;
     let kind = ratio_kind_of k;
     let (lo, hi) = dummy_count_range kind;
     (b, r1) \<leftarrow> gen_range R r0 (min_switch_bursts c) (max_switch_bursts c);
     (rb, r2) \<leftarrow> gen_range R r1 (min_switch_real_bytes c) (max_switch_real_bytes c);
     (rp, r3) \<leftarrow> gen_range R r2 (min_switch_real_packets c) (max_switch_real_packets c);
     Some (\<lparr>rr_kind = kind,
            rr_switch_after = \<lparr>rs_bursts = b, rs_real_bytes = rb, rs_real_packets = rp\<rparr>,
            dummy_lo = lo, dummy_hi = min hi (max_dummy_packets_per_burst c),
            spiky = (kind = Spiky)\<rparr>, r3)
   }"

definition reset_keepalive_deadline :: "'r rng_ops \<Rightarrow> nanos \<Rightarrow> 'r composer \<Rightarrow> 'r composer" where
  "reset_keepalive_deadline R now co =
     (let g = set_target_iat_ms (observed_real_iat_ms co) (spectral_iat co);
          (delay_ms, g') = next_delay_ms R g;
          clamped = min delay_ms (real (max_idle_gap_ms (co_config co)))
      in co\<lparr>spectral_iat := g',
            next_keepalive_due := now + as_u64 (max (of_int (roundf clamped)) 1) * 1000000\<rparr>)"

definition needs_keepalive :: "nanos \<Rightarrow> 'r composer \<Rightarrow> bool" where
  "needs_keepalive now co \<longleftrightarrow> next_keepalive_due co \<le> now"

definition composer_spectral_config :: "composition_config \<Rightarrow> spectral_config" where
  "composer_spectral_config c =
     \<lparr>target_iat_ms = real (max_idle_gap_ms c), laplace_scale_ms = real (max_idle_gap_ms c) * (1 / 10),
      floor_ms = 10, ceiling_ms = real (max_idle_gap_ms c) * 2,
      similarity_rejection_fraction = 1 / 10, max_rejections = 8\<rparr>"

definition composer_with_config ::
  "'r rng_ops \<Rightarrow> (bytes \<Rightarrow> bytes \<Rightarrow> bytes) \<Rightarrow> (nat \<Rightarrow> nanos) \<Rightarrow> ephemeral_seed \<Rightarrow> composition_config \<Rightarrow>
     (composition_error + 'r composer) option" where
  "composer_with_config R H clk seed config =
     (if seed_role seed \<noteq> BurstComposition then
        Some (Inl (CompWrongSeedRole BurstComposition (seed_role seed)))
      else case composition_validate config of
        Inl e \<Rightarrow> Some (Inl e)
      | Inr c \<Rightarrow> do {
          let r = from_seed R (derive_rng_seed H seed (bytes_of ''mixtor.composition.v1''));
          (regime, r') \<leftarrow> ratio_next_regime R c r;
          let spectral_rng = from_seed R (derive_rng_seed H seed (bytes_of ''mixtor.spectral.v1''));
          (case spectral_new (composer_spectral_config c) spectral_rng of
             Inl _ \<Rightarrow> Some (Inl (CompInvalidConfig ''spectral IAT: invalid configuration''))
           | Inr spectral \<Rightarrow>
               (case (case cc_dp_shaper c of
                        None \<Rightarrow> Inr None
                      | Some cfg \<Rightarrow>
                          (case dp_new cfg (from_seed R (derive_rng_seed H seed (bytes_of ''mixtor.dp.v1''))) of
                             Inl _ \<Rightarrow> Inl (CompInvalidConfig ''invalid DP shaper config'')
                           | Inr d \<Rightarrow> Inr (Some d))) of
                  Inl e \<Rightarrow> Some (Inl e)
                | Inr dp \<Rightarrow> do {
                    acc \<leftarrow> accountant_new 100 Basic (clk 1);
                    Some (Inr (reset_keepalive_deadline R (clk 4)
                      \<lparr>co_config = c, co_rng = r', co_regime = regime, bursts_in_regime = 0,
                       real_bytes_in_regime = 0, real_packets_in_regime = 0, last_burst_at = clk 2,
                       spectral_iat = spectral, next_keepalive_due = clk 3, length_pool = [],
                       length_pool_pos = 0, observed_real_iat_ms = real (max_idle_gap_ms c),
                       last_real_burst_at = None,
                       co_optimal_padder = padder_new (padding_buckets c) 32, co_dp_shaper = dp,
                       co_session_bounder =
                         map_option (\<lambda>cl. bounder_new cl (clk 0)) (cc_session_class c),
                       dummy_bytes_emitted = 0, co_accountant = acc,
                       co_self_tester = self_tester_new self_test_default, frame_clock_ms = 0\<rparr>))
                  }))
        })"

definition dummy_count_absolute :: "'r rng_ops \<Rightarrow> 'r composer \<Rightarrow> (nat \<times> 'r composer) option" where
  "dummy_count_absolute R co = do {
     (raw, r') \<leftarrow>
       (if spiky (co_regime co) then
          (case gen_coin R (co_rng co) (74 / 100) of
             (True, r1) \<Rightarrow> gen_range R r1 0 1
           | (False, r1) \<Rightarrow> gen_range R r1 (dummy_lo (co_regime co)) (dummy_hi (co_regime co)))
        else gen_range R (co_rng co) (dummy_lo (co_regime co)) (dummy_hi (co_regime co)));
     Some (min raw (max_dummy_packets_per_burst (co_config co)), co\<lparr>co_rng := r'\<rparr>)
   }"

definition dummy_count_for_burst ::
  "'r rng_ops \<Rightarrow> nat \<Rightarrow> 'r composer \<Rightarrow> (nat \<times> 'r composer) option" where
  "dummy_count_for_burst R real_bytes co = do {
     (regime_count, co1) \<leftarrow> dummy_count_absolute R co;
     (case co_dp_shaper co1 of
        None \<Rightarrow> Some (regime_count, co1)
      | Some dp \<Rightarrow> do {
          let (decision, dp') = decide_window R real_bytes dp;
          (_, acc') \<leftarrow> record_query (wd_epsilon_spent decision) (co_accountant co1);
          let mean_len = (if length_pool co1 = [] then keepalive_min_bytes (co_config co1)
                          else sum_list (length_pool co1) div length (length_pool co1));
          let dp_count = wd_dummy_bytes decision div max mean_len 1;
          Some (min (max dp_count regime_count) (max_dummy_packets_per_burst (co_config co1)),
                co1\<lparr>co_dp_shaper := Some dp', co_accountant := acc'\<rparr>)
        })
   }"

definition co_observe :: "'r rng_ops \<Rightarrow> (nat \<Rightarrow> nanos) \<Rightarrow> nat \<Rightarrow> nat \<Rightarrow> 'r composer \<Rightarrow> 'r composer option" where
  "co_observe R clk nbytes npackets co =
     (let co1 = co\<lparr>bursts_in_regime := sat_add (bursts_in_regime co) 1,
                   real_bytes_in_regime := sat_add (real_bytes_in_regime co) nbytes,
                   real_packets_in_regime := sat_add (real_packets_in_regime co) npackets,
                   co_session_bounder := map_option (record_real_bytes nbytes) (co_session_bounder co)\<rparr>;
          co2 = (case last_real_burst_at co1 of
                   None \<Rightarrow> co1
                 | Some prev \<Rightarrow>
                     let iat_ms = real (clk 1 - prev) / 10 ^ 9 * 1000; alpha = 1 / 4
                     in co1\<lparr>observed_real_iat_ms :=
                          clampf 10 10000 (alpha * iat_ms + (1 - alpha) * observed_real_iat_ms co1)\<rparr>);
          co3 = co2\<lparr>last_real_burst_at := Some (clk 0)\<rparr>;
          th = rr_switch_after (co_regime co3)
      in if rs_bursts th \<le> bursts_in_regime co3 \<or> rs_real_bytes th \<le> real_bytes_in_regime co3 \<or>
            rs_real_packets th \<le> real_packets_in_regime co3
         then do {
           (regime, r') \<leftarrow> ratio_next_regime R (co_config co3) (co_rng co3);
           Some (co3\<lparr>co_regime := regime, co_rng := r', bursts_in_regime := 0,
                     real_bytes_in_regime := 0, real_packets_in_regime := 0\<rparr>)
         }
         else Some co3)"

definition ingest_length :: "nat \<Rightarrow> 'r composer \<Rightarrow> 'r composer" where
  "ingest_length len co =
     (if length (length_pool co) < LENGTH_POOL_CAP then co\<lparr>length_pool := length_pool co @ [len]\<rparr>
      else co\<lparr>length_pool := (length_pool co)[length_pool_pos co := len],
              length_pool_pos := (length_pool_pos co + 1) mod LENGTH_POOL_CAP\<rparr>)"

text \<open>The loop over the packets of a burst in \<open>compose\<close> and \<open>inject_burst\<close>.\<close>

definition ingest_packet :: "packet \<Rightarrow> 'r composer \<Rightarrow> 'r composer" where
  "ingest_packet p co =
     (let len = packet_len p; co1 = ingest_length len (ingest_length len (ingest_length len co))
      in co1\<lparr>co_optimal_padder := observe_length len (co_optimal_padder co1)\<rparr>)"

definition dummy_payload :: "'r rng_ops \<Rightarrow> 'r composer \<Rightarrow> (bytes \<times> 'r composer) option" where
  "dummy_payload R co = do {
     (len, co1) \<leftarrow>
       (case cc_cell_bytes (co_config co) of
          Some cell \<Rightarrow> Some (cell, co)
        | None \<Rightarrow> do {
            (true_len, r1) \<leftarrow>
              (if length_pool co = [] then
                 gen_range R (co_rng co) (keepalive_min_bytes (co_config co)) (keepalive_max_bytes (co_config co))
               else do {
                 (idx, r1) \<leftarrow> gen_range R (co_rng co) 0 (length (length_pool co) - 1);
                 Some (length_pool co ! idx, r1)
               });
            (n, padder) \<leftarrow> pad_length true_len (co_optimal_padder co);
            Some (n, co\<lparr>co_rng := r1, co_optimal_padder := padder\<rparr>)
          });
     let (bs, r2) = fill_bytes R (co_rng co1) len;
     Some (bs, co1\<lparr>co_rng := r2\<rparr>)
   }"

text \<open>\<open>Packet::new\<close> on the padded bytes cannot fail on a valid configuration; the \<open>expect\<close> is
  the \<open>None\<close>.\<close>

definition pad_real_packet :: "'r rng_ops \<Rightarrow> packet \<Rightarrow> 'r composer \<Rightarrow> (packet \<times> 'r composer) option" where
  "pad_real_packet R p co =
     (case cc_cell_bytes (co_config co) of
        None \<Rightarrow> Some (p, co)
      | Some cell \<Rightarrow>
          let raw = packet_bytes p;
              (padded, r') =
                (if length raw = cell then (raw, co_rng co)
                 else if length raw < cell then
                   (let (padding, r1) = fill_bytes R (co_rng co) (cell - length raw) in (raw @ padding, r1))
                 else (take cell raw, co_rng co))
          in (case packet_new padded of
                Inr q \<Rightarrow> Some (q, co\<lparr>co_rng := r'\<rparr>)
              | Inl _ \<Rightarrow> None))"

text \<open>The gaps of \<open>interleave_preserving_real_order\<close>, and the frames built from them.\<close>

fun distribute :: "'r rng_ops \<Rightarrow> nat \<Rightarrow> nat list \<Rightarrow> 'r \<Rightarrow> (nat list \<times> 'r) option" where
  "distribute R 0 gaps r = Some (gaps, r)"
| "distribute R (Suc n) gaps r =
     (if gaps = [] then None
      else do {
        (gap, r1) \<leftarrow> gen_range R r 0 (length gaps - 1);
        distribute R n (gaps[gap := gaps ! gap + 1]) r1
      })"

fun emit_dummies :: "'r rng_ops \<Rightarrow> nat \<Rightarrow> 'r composer \<Rightarrow> (mixed_frame list \<times> 'r composer) option" where
  "emit_dummies R 0 co = Some ([], co)"
| "emit_dummies R (Suc n) co = do {
     (bs, co1) \<leftarrow> dummy_payload R co;
     (fs, co2) \<leftarrow> emit_dummies R n co1;
     Some (DummyFrame bs # fs, co2)
   }"

fun emit_reals ::
  "'r rng_ops \<Rightarrow> packet list \<Rightarrow> nat list \<Rightarrow> 'r composer \<Rightarrow> (mixed_frame list \<times> 'r composer) option" where
  "emit_reals R (p # ps) (g # gs) co = do {
     (q, co1) \<leftarrow> pad_real_packet R p co;
     (ds, co2) \<leftarrow> emit_dummies R g co1;
     (fs, co3) \<leftarrow> emit_reals R ps gs co2;
     Some (RealFrame q # ds @ fs, co3)
   }"
| "emit_reals R _ _ co = Some ([], co)"

definition interleave ::
  "'r rng_ops \<Rightarrow> packet list \<Rightarrow> nat \<Rightarrow> 'r composer \<Rightarrow> (mixed_frame list \<times> 'r composer) option" where
  "interleave R real_packets dummy_packets co = do {
     let gaps0 = replicate (length real_packets + 1) 0;
     (gaps1, remaining, r1) \<leftarrow>
       (if length real_packets = 1 then do {
          (leading, r1) \<leftarrow> gen_range R (co_rng co) 0 dummy_packets;
          Some (gaps0[0 := leading, 1 := dummy_packets - leading], 0, r1)
        } else Some (gaps0, dummy_packets, co_rng co));
     (gaps, r2) \<leftarrow> distribute R remaining gaps1 r1;
     (fs1, co1) \<leftarrow> emit_dummies R (gaps ! 0) (co\<lparr>co_rng := r2\<rparr>);
     (fs2, co2) \<leftarrow> emit_reals R real_packets (drop 1 gaps) co1;
     Some (fs1 @ fs2, co2)
   }"

fun record_frames :: "mixed_frame list \<Rightarrow> 'r composer \<Rightarrow> 'r composer" where
  "record_frames [] co = co"
| "record_frames (f # fs) co =
     (let t = frame_clock_ms co + 1
      in record_frames fs (co\<lparr>frame_clock_ms := t, co_self_tester := record_frame f t (co_self_tester co)\<rparr>))"

definition dummy_volume :: "mixed_frame list \<Rightarrow> nat" where
  "dummy_volume fs = sum_list (map frame_len (filter is_dummy fs))"

definition compose :: "'r rng_ops \<Rightarrow> (nat \<Rightarrow> nanos) \<Rightarrow> burst \<Rightarrow> 'r composer \<Rightarrow> (mixed_burst \<times> 'r composer) option" where
  "compose R clk b co = do {
     let real_packets = packet_count b;
     let real_bytes = burst_total_bytes b;
     let co1 = fold ingest_packet (burst_packets b) co;
     (dummy_count, co2) \<leftarrow> dummy_count_for_burst R real_bytes co1;
     (frames, co3) \<leftarrow> interleave R (burst_packets b) dummy_count co2;
     let mixed = \<lparr>mb_frames = frames, mb_ratio_regime = co_regime co3,
                  mb_real_packets = real_packets, mb_dummy_packets = dummy_count\<rparr>;
     let co4 = co3\<lparr>dummy_bytes_emitted := sat_add (dummy_bytes_emitted co3) (dummy_volume frames)\<rparr>;
     let co5 = record_frames frames co4;
     co6 \<leftarrow> co_observe R clk real_bytes real_packets co5;
     let co7 = co6\<lparr>last_burst_at := clk 2\<rparr>;
     Some (mixed, reset_keepalive_deadline R (clk 3) co7)
   }"

definition compose_keepalive ::
  "'r rng_ops \<Rightarrow> (nat \<Rightarrow> nanos) \<Rightarrow> 'r composer \<Rightarrow> (mixed_burst \<times> 'r composer) option" where
  "compose_keepalive R clk co = do {
     let extra = (case co_session_bounder co of
           None \<Rightarrow> 0
         | Some b \<Rightarrow>
             let needed = dummy_bytes_needed_now b (dummy_bytes_emitted co) (clk 0);
                 mean_pkt = (keepalive_min_bytes (co_config co) + keepalive_max_bytes (co_config co)) div 2
             in needed div max mean_pkt 1);
     let dummy_count = min (1 + extra) (max_dummy_packets_per_burst (co_config co));
     (frames, co1) \<leftarrow> emit_dummies R dummy_count co;
     let co2 = co1\<lparr>dummy_bytes_emitted := sat_add (dummy_bytes_emitted co1) (sum_list (map frame_len frames))\<rparr>;
     let co3 = (record_frames frames co2)\<lparr>last_burst_at := clk 1\<rparr>;
     let co4 = reset_keepalive_deadline R (clk 2) co3;
     Some (\<lparr>mb_frames = frames, mb_ratio_regime = co_regime co4, mb_real_packets = 0,
            mb_dummy_packets = dummy_count\<rparr>, co4)
   }"

section \<open>When no call panics\<close>

text \<open>
  \<open>validate\<close> accepts a ceiling on the dummies of a burst that is below the lower end of a regime's
  range; a draw in that regime then panics (see \<open>regime_range_empty\<close>). The configurations used
  are above the largest lower end, 12. An idle gap of 5 ms or less is refused by the spectral
  generator.
\<close>

definition comp_cfg_ok :: "composition_config \<Rightarrow> bool" where
  "comp_cfg_ok c \<longleftrightarrow> composition_valid c \<and> 12 \<le> max_dummy_packets_per_burst c \<and> 5 < max_idle_gap_ms c \<and>
     (case cc_dp_shaper c of None \<Rightarrow> True | Some d \<Rightarrow> dp_valid d)"

definition ratio_regime_ok :: "composition_config \<Rightarrow> ratio_regime \<Rightarrow> bool" where
  "ratio_regime_ok c g \<longleftrightarrow> dummy_lo g \<le> dummy_hi g \<and> dummy_hi g \<le> max_dummy_packets_per_burst c \<and>
     0 < rs_bursts (rr_switch_after g) \<and> 0 < rs_real_bytes (rr_switch_after g) \<and>
     0 < rs_real_packets (rr_switch_after g)"

definition composer_inv :: "'r composer \<Rightarrow> bool" where
  "composer_inv co \<longleftrightarrow> comp_cfg_ok (co_config co) \<and> ratio_regime_ok (co_config co) (co_regime co) \<and>
     spectral_inv (spectral_iat co) \<and> padder_inv (co_optimal_padder co) \<and>
     accountant_inv (co_accountant co) \<and>
     (case co_dp_shaper co of None \<Rightarrow> True | Some d \<Rightarrow> dp_valid (dp_conf d)) \<and>
     length (length_pool co) \<le> LENGTH_POOL_CAP \<and> length_pool_pos co < LENGTH_POOL_CAP"

text \<open>The counters of the regime stay below its switching thresholds.\<close>

definition regime_counters_ok :: "'r composer \<Rightarrow> bool" where
  "regime_counters_ok co \<longleftrightarrow>
     bursts_in_regime co < rs_bursts (rr_switch_after (co_regime co)) \<and>
     real_bytes_in_regime co < rs_real_bytes (rr_switch_after (co_regime co)) \<and>
     real_packets_in_regime co < rs_real_packets (rr_switch_after (co_regime co))"

lemma composer_inv_simps [simp]:
  "composer_inv (co\<lparr>co_rng := r\<rparr>) = composer_inv co"
  "composer_inv (co\<lparr>dummy_bytes_emitted := n\<rparr>) = composer_inv co"
  "composer_inv (co\<lparr>last_burst_at := t\<rparr>) = composer_inv co"
  "composer_inv (co\<lparr>next_keepalive_due := t\<rparr>) = composer_inv co"
  "composer_inv (co\<lparr>frame_clock_ms := n, co_self_tester := st\<rparr>) = composer_inv co"
  "composer_inv (co\<lparr>co_session_bounder := b\<rparr>) = composer_inv co"
  "composer_inv (co\<lparr>observed_real_iat_ms := x\<rparr>) = composer_inv co"
  "composer_inv (co\<lparr>last_real_burst_at := t'\<rparr>) = composer_inv co"
  by (simp_all add: composer_inv_def)

lemma ratio_next_regime_ok:
  assumes "rng_ok R" "comp_cfg_ok c"
  shows "\<exists>g r'. ratio_next_regime R c r = Some (g, r') \<and> ratio_regime_ok c g"
proof -
  have v: "composition_valid c" "12 \<le> max_dummy_packets_per_burst c"
    using assms(2) by (simp_all add: comp_cfg_ok_def)
  obtain k r0 where 0: "gen_range R r 0 19 = Some (k, r0)"
    using gen_range_total [OF assms(1), of 0 19] by blast
  obtain b r1 where 1: "gen_range R r0 (min_switch_bursts c) (max_switch_bursts c) = Some (b, r1)" "min_switch_bursts c \<le> b"
    using gen_range_total [OF assms(1), of "min_switch_bursts c" "max_switch_bursts c"] v
    unfolding composition_valid_def by metis
  obtain rb r2 where 2: "gen_range R r1 (min_switch_real_bytes c) (max_switch_real_bytes c) = Some (rb, r2)"
      "min_switch_real_bytes c \<le> rb"
    using gen_range_total [OF assms(1), of "min_switch_real_bytes c" "max_switch_real_bytes c"] v
    unfolding composition_valid_def by metis
  obtain rp r3 where 3: "gen_range R r2 (min_switch_real_packets c) (max_switch_real_packets c) = Some (rp, r3)"
      "min_switch_real_packets c \<le> rp"
    using gen_range_total [OF assms(1), of "min_switch_real_packets c" "max_switch_real_packets c"] v
    unfolding composition_valid_def by metis
  have p: "0 < b" "0 < rb" "0 < rp" using 1(2) 2(2) 3(2) v(1) by (auto simp: composition_valid_def)
  have "fst (dummy_count_range (ratio_kind_of k)) \<le>
      min (snd (dummy_count_range (ratio_kind_of k))) (max_dummy_packets_per_burst c)"
    using v(2) by (cases "ratio_kind_of k") (simp_all add: dummy_count_range_def)
  then show ?thesis
    using 0 1(1) 2(1) 3(1) p
    by (cases "dummy_count_range (ratio_kind_of k)")
      (simp add: ratio_next_regime_def ratio_regime_ok_def Let_def)
qed

lemma reset_keepalive_fields [simp]:
  "co_config (reset_keepalive_deadline R now co) = co_config co"
  "co_regime (reset_keepalive_deadline R now co) = co_regime co"
  "bursts_in_regime (reset_keepalive_deadline R now co) = bursts_in_regime co"
  "real_bytes_in_regime (reset_keepalive_deadline R now co) = real_bytes_in_regime co"
  "real_packets_in_regime (reset_keepalive_deadline R now co) = real_packets_in_regime co"
  by (simp_all add: reset_keepalive_deadline_def Let_def split: prod.split)

lemma reset_keepalive_inv:
  assumes "composer_inv co"
  shows "composer_inv (reset_keepalive_deadline R now co)"
proof -
  let ?g = "set_target_iat_ms (observed_real_iat_ms co) (spectral_iat co)"
  obtain d g' where n: "next_delay_ms R ?g = (d, g')" by (cases "next_delay_ms R ?g")
  have "spectral_inv ?g" using assms by (simp add: composer_inv_def set_target_inv)
  then have "spectral_inv g'" using next_delay_ms_inv(1) [OF _ n] by simp
  then show ?thesis using assms n by (simp add: reset_keepalive_deadline_def Let_def composer_inv_def)
qed

text \<open>The keepalive is due within the idle gap, and never at once.\<close>

lemma reset_keepalive_due:
  assumes "1 \<le> max_idle_gap_ms (co_config co)" "max_idle_gap_ms (co_config co) \<le> u64_max"
  shows "now + 1000000 \<le> next_keepalive_due (reset_keepalive_deadline R now co)"
    and "next_keepalive_due (reset_keepalive_deadline R now co) \<le> now + max_idle_gap_ms (co_config co) * 1000000"
proof -
  let ?gap = "max_idle_gap_ms (co_config co)"
  obtain d g' where n: "next_delay_ms R (set_target_iat_ms (observed_real_iat_ms co) (spectral_iat co)) = (d, g')"
    by (cases "next_delay_ms R (set_target_iat_ms (observed_real_iat_ms co) (spectral_iat co))")
  define m where "m = max (real_of_int (roundf (min d (real ?gap)))) 1"
  have due: "next_keepalive_due (reset_keepalive_deadline R now co) = now + as_u64 m * 1000000"
    using n by (simp add: reset_keepalive_deadline_def Let_def m_def)
  have "roundf (min d (real ?gap)) \<le> int ?gap"
    using roundf_mono [of "min d (real ?gap)" "real ?gap"] by simp
  then have "real_of_int (roundf (min d (real ?gap))) \<le> real ?gap" by linarith
  then have m: "1 \<le> m" "m \<le> real ?gap" using assms(1) by (auto simp: m_def)
  have "as_u64 (real 1) \<le> as_u64 m" using m(1) by (intro as_u64_mono) simp
  then have "1 \<le> as_u64 m" by (subst (asm) as_u64_of_nat) (simp_all add: u64_max_def)
  moreover have "as_u64 m \<le> ?gap"
    using as_u64_mono [OF m(2)] assms(2) by (simp add: as_u64_of_nat)
  ultimately show "now + 1000000 \<le> next_keepalive_due (reset_keepalive_deadline R now co)"
      "next_keepalive_due (reset_keepalive_deadline R now co) \<le> now + ?gap * 1000000"
    by (simp_all add: due)
qed

lemma composer_new_ok:
  assumes "rng_ok R" "comp_cfg_ok c" "seed_role seed = BurstComposition"
  shows "\<exists>co. composer_with_config R H clk seed c = Some (Inr co) \<and> composer_inv co \<and> co_config co = c \<and>
    regime_counters_ok co"
proof -
  have v: "composition_valid c" "5 < max_idle_gap_ms c" using assms(2) by (simp_all add: comp_cfg_ok_def)
  let ?r = "from_seed R (derive_rng_seed H seed (bytes_of ''mixtor.composition.v1''))"
  let ?rs = "from_seed R (derive_rng_seed H seed (bytes_of ''mixtor.spectral.v1''))"
  obtain g r' where g: "ratio_next_regime R c ?r = Some (g, r')" "ratio_regime_ok c g"
    using ratio_next_regime_ok [OF assms(1,2)] by blast
  have sv: "spectral_valid (composer_spectral_config c)"
    using v(2) by (simp add: spectral_valid_def composer_spectral_config_def)
  then obtain sp where sp: "spectral_new (composer_spectral_config c) ?rs = Inr sp"
    by (simp add: spectral_new_def spectral_cfg.validate_ok)
  have si: "spectral_inv sp" using spectral_new_inv [OF sp] by simp
  obtain acc where acc: "accountant_new 100 Basic (clk 1) = Some acc"
    by (simp add: accountant_new_def)
  have ai: "accountant_inv acc" by (rule accountant_new_inv [OF acc])
  obtain dp where dp: "(case cc_dp_shaper c of None \<Rightarrow> Inr None
      | Some cfg \<Rightarrow> (case dp_new cfg (from_seed R (derive_rng_seed H seed (bytes_of ''mixtor.dp.v1''))) of
            Inl _ \<Rightarrow> Inl (CompInvalidConfig ''invalid DP shaper config'') | Inr d \<Rightarrow> Inr (Some d))) = Inr dp"
      "case dp of None \<Rightarrow> True | Some d \<Rightarrow> dp_valid (dp_conf d)"
    using assms(2) by (auto simp: comp_cfg_ok_def dp_new_def dp_cfg.validate_ok split: option.splits)
  let ?co = "\<lparr>co_config = c, co_rng = r', co_regime = g, bursts_in_regime = 0,
     real_bytes_in_regime = 0, real_packets_in_regime = 0, last_burst_at = clk 2,
     spectral_iat = sp, next_keepalive_due = clk 3, length_pool = [],
     length_pool_pos = 0, observed_real_iat_ms = real (max_idle_gap_ms c),
     last_real_burst_at = None, co_optimal_padder = padder_new (padding_buckets c) 32, co_dp_shaper = dp,
     co_session_bounder = map_option (\<lambda>cl. bounder_new cl (clk 0)) (cc_session_class c),
     dummy_bytes_emitted = 0, co_accountant = acc,
     co_self_tester = self_tester_new self_test_default, frame_clock_ms = 0\<rparr>"
  have "composer_inv ?co"
    using assms(2) g(2) si ai dp(2) by (simp add: composer_inv_def padder_new_inv LENGTH_POOL_CAP_def)
  then have inv: "composer_inv (reset_keepalive_deadline R (clk 4) ?co)" by (rule reset_keepalive_inv)
  have "composer_with_config R H clk seed c = Some (Inr (reset_keepalive_deadline R (clk 4) ?co))"
    using assms(3) v(1) g(1) sp dp(1) acc
    by (simp add: composer_with_config_def composition_cfg.validate_ok Let_def)
  then show ?thesis using inv g(2) by (simp add: regime_counters_ok_def ratio_regime_ok_def)
qed

section \<open>What a composed burst is made of\<close>

lemma dummy_count_absolute_ok:
  assumes "rng_ok R" "composer_inv co"
  shows "\<exists>n r'. dummy_count_absolute R co = Some (n, co\<lparr>co_rng := r'\<rparr>) \<and>
    n \<le> max_dummy_packets_per_burst (co_config co)"
proof -
  have lh: "dummy_lo (co_regime co) \<le> dummy_hi (co_regime co)"
    using assms(2) by (simp add: composer_inv_def ratio_regime_ok_def)
  show ?thesis
    using lh by (auto simp: dummy_count_absolute_def gen_range_def split: prod.split bool.split)
qed

lemma dummy_count_for_burst_ok:
  assumes "rng_ok R" "composer_inv co"
  shows "\<exists>n co'. dummy_count_for_burst R nbytes co = Some (n, co') \<and> composer_inv co' \<and>
    n \<le> max_dummy_packets_per_burst (co_config co) \<and> co_config co' = co_config co \<and>
    co_regime co' = co_regime co \<and> (regime_counters_ok co' \<longleftrightarrow> regime_counters_ok co) \<and>
    dummy_bytes_emitted co' = dummy_bytes_emitted co"
proof -
  obtain n r' where n: "dummy_count_absolute R co = Some (n, co\<lparr>co_rng := r'\<rparr>)"
      "n \<le> max_dummy_packets_per_burst (co_config co)"
    using dummy_count_absolute_ok [OF assms] by blast
  show ?thesis
  proof (cases "co_dp_shaper co")
    case None
    then show ?thesis using n assms(2) by (simp add: dummy_count_for_burst_def regime_counters_ok_def)
  next
    case (Some dp)
    obtain d dp' where d: "decide_window R nbytes dp = (d, dp')" by (cases "decide_window R nbytes dp")
    have dv: "dp_valid (dp_conf dp)" "accountant_inv (co_accountant co)"
      using assms(2) Some by (simp_all add: composer_inv_def)
    have "0 \<le> wd_epsilon_spent d"
      using decide_window_dummy(2) [OF d] dv(1) by (simp add: dp_valid_def)
    then obtain res acc where acc: "record_query (wd_epsilon_spent d) (co_accountant co) = Some (res, acc)"
        "accountant_inv acc"
      using record_approx_query_ok [OF dv(2), of "wd_epsilon_spent d" 0]
      by (auto simp: record_approx_query_def)
    show ?thesis
      using n Some d acc assms(2) dv decide_window_dummy(3) [OF d]
      by (simp add: dummy_count_for_burst_def Let_def composer_inv_def regime_counters_ok_def)
  qed
qed

lemma ingest_length_inv: "composer_inv co \<Longrightarrow> composer_inv (ingest_length n co)"
  by (auto simp: composer_inv_def ingest_length_def LENGTH_POOL_CAP_def)

lemma ingest_length_fields [simp]:
  "co_config (ingest_length n co) = co_config co" "co_regime (ingest_length n co) = co_regime co"
  "co_rng (ingest_length n co) = co_rng co"
  "co_optimal_padder (ingest_length n co) = co_optimal_padder co"
  "regime_counters_ok (ingest_length n co) = regime_counters_ok co"
  by (simp_all add: ingest_length_def regime_counters_ok_def)

lemma ingest_packet_inv:
  assumes "composer_inv co"
  shows "composer_inv (ingest_packet p co)"
proof -
  let ?c = "ingest_length (packet_len p) (ingest_length (packet_len p) (ingest_length (packet_len p) co))"
  have "composer_inv ?c" using assms by (intro ingest_length_inv)
  then show ?thesis by (simp add: ingest_packet_def Let_def composer_inv_def observe_length_inv)
qed

lemma ingest_packet_fields [simp]:
  "co_config (ingest_packet p co) = co_config co" "co_regime (ingest_packet p co) = co_regime co"
  "regime_counters_ok (ingest_packet p co) = regime_counters_ok co"
  by (simp_all add: ingest_packet_def Let_def) (simp add: regime_counters_ok_def ingest_length_def)

lemma ingest_all:
  "composer_inv co \<Longrightarrow> composer_inv (fold ingest_packet ps co) \<and>
     co_config (fold ingest_packet ps co) = co_config co \<and>
     co_regime (fold ingest_packet ps co) = co_regime co \<and>
     regime_counters_ok (fold ingest_packet ps co) = regime_counters_ok co"
  by (induction ps arbitrary: co) (simp_all add: ingest_packet_inv)

lemma ingest_all_emitted:
  "dummy_bytes_emitted (fold ingest_packet ps co) = dummy_bytes_emitted co"
  by (induction ps arbitrary: co) (simp_all add: ingest_packet_def ingest_length_def Let_def)

text \<open>What stays the same while frames are built.\<close>

definition same_budget :: "'r composer \<Rightarrow> 'r composer \<Rightarrow> bool" where
  "same_budget co co' \<longleftrightarrow> co_config co' = co_config co \<and> co_regime co' = co_regime co \<and>
     (regime_counters_ok co' \<longleftrightarrow> regime_counters_ok co) \<and>
     dummy_bytes_emitted co' = dummy_bytes_emitted co"

lemma same_budget_refl [simp]: "same_budget co co"
  by (simp add: same_budget_def)

lemma same_budget_trans: "same_budget a b \<Longrightarrow> same_budget b c \<Longrightarrow> same_budget a c"
  by (simp add: same_budget_def)

lemma same_budget_rng [simp]: "same_budget co (co\<lparr>co_rng := r\<rparr>)"
  by (simp add: same_budget_def regime_counters_ok_def)

lemma pad_source_ok:
  assumes "rng_ok R" "composer_inv co"
  shows "\<exists>n r1. (if length_pool co = [] then
       gen_range R (co_rng co) (keepalive_min_bytes (co_config co)) (keepalive_max_bytes (co_config co))
     else do { (idx, r1) \<leftarrow> gen_range R (co_rng co) 0 (length (length_pool co) - 1);
               Some (length_pool co ! idx, r1) }) = Some (n, r1)"
proof -
  have "keepalive_min_bytes (co_config co) \<le> keepalive_max_bytes (co_config co)"
    using assms(2) by (simp add: composer_inv_def comp_cfg_ok_def composition_valid_def)
  then show ?thesis by (auto simp: gen_range_def split: prod.split)
qed

lemma dummy_payload_ok:
  assumes "rng_ok R" "composer_inv co"
  shows "\<exists>bs co'. dummy_payload R co = Some (bs, co') \<and> composer_inv co' \<and> same_budget co co' \<and>
    (\<forall>n. cc_cell_bytes (co_config co) = Some n \<longrightarrow> length bs = n)"
proof (cases "cc_cell_bytes (co_config co)")
  case (Some cell)
  then show ?thesis using assms by (simp add: dummy_payload_def Let_def split: prod.split)
      (metis rng_ok_fill)
next
  case None
  obtain n r1 where 1: "(if length_pool co = [] then
       gen_range R (co_rng co) (keepalive_min_bytes (co_config co)) (keepalive_max_bytes (co_config co))
     else do { (idx, r1) \<leftarrow> gen_range R (co_rng co) 0 (length (length_pool co) - 1);
               Some (length_pool co ! idx, r1) }) = Some (n, r1)"
    using pad_source_ok [OF assms] by blast
  obtain m p' where 2: "pad_length n (co_optimal_padder co) = Some (m, p')" "padder_inv p'"
    using pad_length_ok [of "co_optimal_padder co" n] assms(2) unfolding composer_inv_def by blast
  obtain bs r2 where 3: "fill_bytes R r1 m = (bs, r2)" by (cases "fill_bytes R r1 m")
  have "dummy_payload R co = Some (bs, co\<lparr>co_rng := r2, co_optimal_padder := p'\<rparr>)"
    unfolding dummy_payload_def None option.case 1 by (simp add: 2(1) 3)
  then show ?thesis using assms(2) 2(2) None
    by (simp add: composer_inv_def same_budget_def regime_counters_ok_def)
qed

text \<open>A packet padded, or cut, to the cell.\<close>

definition padded_as :: "nat option \<Rightarrow> packet \<Rightarrow> packet \<Rightarrow> bool" where
  "padded_as cell p q \<longleftrightarrow>
     (case cell of None \<Rightarrow> q = p
      | Some n \<Rightarrow> packet_len q = n \<and> take (packet_len p) (packet_bytes q) = take n (packet_bytes p))"

lemma padded_as_prefix:
  "padded_as (Some n) p q \<Longrightarrow> packet_len p \<le> n \<Longrightarrow> take (packet_len p) (packet_bytes q) = packet_bytes p"
  by (simp add: padded_as_def packet_len_def)

lemma pad_real_packet_ok:
  assumes "rng_ok R" "composer_inv co"
  shows "\<exists>q r'. pad_real_packet R p co = Some (q, co\<lparr>co_rng := r'\<rparr>) \<and>
    padded_as (cc_cell_bytes (co_config co)) p q"
proof (cases "cc_cell_bytes (co_config co)")
  case None
  then show ?thesis by (intro exI [of _ p] exI [of _ "co_rng co"]) (simp add: pad_real_packet_def padded_as_def)
next
  case (Some cell)
  have pos: "0 < cell" using assms(2) Some by (auto simp: composer_inv_def comp_cfg_ok_def composition_valid_def)
  show ?thesis
  proof (cases "length (packet_bytes p) < cell")
    case True
    obtain padding r1 where f: "fill_bytes R (co_rng co) (cell - length (packet_bytes p)) = (padding, r1)"
      by (cases "fill_bytes R (co_rng co) (cell - length (packet_bytes p))")
    have "length padding = cell - length (packet_bytes p)" by (rule rng_ok_fill [OF assms(1) f])
    then show ?thesis using True Some f pos
      by (auto simp: pad_real_packet_def padded_as_def packet_new_def packet_len_def Let_def)
  next
    case False
    then have "pad_real_packet R p co = Some (Packet (take cell (packet_bytes p)), co\<lparr>co_rng := co_rng co\<rparr>)"
      using Some pos by (auto simp: pad_real_packet_def packet_new_def Let_def)
    then show ?thesis using False Some
      by (intro exI [of _ "Packet (take cell (packet_bytes p))"] exI [of _ "co_rng co"])
        (auto simp: padded_as_def packet_len_def min_def)
  qed
qed

lemma sum_list_update_inc:
  "i < length xs \<Longrightarrow> sum_list (xs[i := xs ! i + 1]) = sum_list xs + (1::nat)"
  by (induction xs arbitrary: i) (auto split: nat.splits)

lemma distribute_ok:
  assumes "rng_ok R" "gaps \<noteq> []"
  shows "\<exists>gaps' r'. distribute R n gaps r = Some (gaps', r') \<and> length gaps' = length gaps \<and>
    sum_list gaps' = sum_list gaps + n"
  using assms(2)
proof (induction n arbitrary: gaps r)
  case 0
  then show ?case by simp
next
  case (Suc n)
  obtain g r1 where g: "gen_range R r 0 (length gaps - 1) = Some (g, r1)" "g \<le> length gaps - 1"
    using gen_range_total [OF assms(1), of 0 "length gaps - 1" r] by blast
  have i: "g < length gaps" using g(2) Suc.prems by (cases gaps) auto
  have ne: "gaps[g := gaps ! g + 1] \<noteq> []" using Suc.prems by simp
  obtain gaps' r' where "distribute R n (gaps[g := gaps ! g + 1]) r1 = Some (gaps', r')"
      "length gaps' = length (gaps[g := gaps ! g + 1])" "sum_list gaps' = sum_list (gaps[g := gaps ! g + 1]) + n"
    using Suc.IH [OF ne] by blast
  then show ?case using Suc.prems g(1) sum_list_update_inc [OF i] by auto
qed

definition frames_sized :: "nat option \<Rightarrow> mixed_frame list \<Rightarrow> bool" where
  "frames_sized cell fs \<longleftrightarrow> (\<forall>n. cell = Some n \<longrightarrow> (\<forall>f\<in>set fs. frame_len f = n))"

lemma frames_sized_append [simp]:
  "frames_sized cell (fs @ gs) \<longleftrightarrow> frames_sized cell fs \<and> frames_sized cell gs"
  by (auto simp: frames_sized_def)

lemma emit_dummies_ok:
  assumes "rng_ok R" "composer_inv co"
  shows "\<exists>fs co'. emit_dummies R n co = Some (fs, co') \<and> composer_inv co' \<and> same_budget co co' \<and>
    length fs = n \<and> list_all is_dummy fs \<and> frames_sized (cc_cell_bytes (co_config co)) fs"
  using assms(2)
proof (induction n arbitrary: co)
  case 0
  then show ?case by (simp add: frames_sized_def)
next
  case (Suc n)
  obtain bs co1 where 1: "dummy_payload R co = Some (bs, co1)" "composer_inv co1" "same_budget co co1"
      "\<forall>n. cc_cell_bytes (co_config co) = Some n \<longrightarrow> length bs = n"
    using dummy_payload_ok [OF assms(1) Suc.prems] by blast
  have c: "co_config co1 = co_config co" using 1(3) by (simp add: same_budget_def)
  obtain fs co2 where 2: "emit_dummies R n co1 = Some (fs, co2)" "composer_inv co2" "same_budget co1 co2"
      "length fs = n" "list_all is_dummy fs" "frames_sized (cc_cell_bytes (co_config co1)) fs"
    using Suc.IH [OF 1(2)] by blast
  show ?case using 1 2 c same_budget_trans [OF 1(3) 2(3)] by (simp add: frames_sized_def)
qed

lemma concat_real_dummies: "list_all is_dummy fs \<Longrightarrow> concat (map frame_real fs) = []"
  by (induction fs) (auto simp: is_dummy_def frame_real_def split: mixed_frame.splits)

lemma filter_dummies: "list_all is_dummy fs \<Longrightarrow> filter is_dummy fs = fs"
  by (induction fs) auto

lemma emit_reals_ok:
  assumes "rng_ok R" "composer_inv co" "length gs = length ps"
  shows "\<exists>fs co'. emit_reals R ps gs co = Some (fs, co') \<and> composer_inv co' \<and> same_budget co co' \<and>
    list_all2 (padded_as (cc_cell_bytes (co_config co))) ps (concat (map frame_real fs)) \<and>
    length (filter is_dummy fs) = sum_list gs \<and> frames_sized (cc_cell_bytes (co_config co)) fs \<and>
    (ps \<noteq> [] \<longrightarrow> is_real (hd fs)) \<and> length fs = length ps + sum_list gs"
  using assms(2,3)
proof (induction ps arbitrary: gs co)
  case Nil
  then show ?case by (simp add: frames_sized_def)
next
  case (Cons p ps)
  obtain g gs' where gs: "gs = g # gs'" using Cons.prems(2) by (cases gs) auto
  let ?cell = "cc_cell_bytes (co_config co)"
  obtain q r where 1: "pad_real_packet R p co = Some (q, co\<lparr>co_rng := r\<rparr>)" "padded_as ?cell p q"
    using pad_real_packet_ok [OF assms(1) Cons.prems(1)] by blast
  have i1: "composer_inv (co\<lparr>co_rng := r\<rparr>)" using Cons.prems(1) by simp
  obtain ds co2 where 2: "emit_dummies R g (co\<lparr>co_rng := r\<rparr>) = Some (ds, co2)" "composer_inv co2"
      "same_budget (co\<lparr>co_rng := r\<rparr>) co2" "length ds = g" "list_all is_dummy ds" "frames_sized ?cell ds"
    using emit_dummies_ok [OF assms(1) i1, of g] by auto
  have b2: "same_budget co co2" using same_budget_trans [OF same_budget_rng 2(3)] .
  then have c: "co_config co2 = co_config co" by (simp add: same_budget_def)
  obtain fs co3 where 3: "emit_reals R ps gs' co2 = Some (fs, co3)" "composer_inv co3" "same_budget co2 co3"
      "list_all2 (padded_as ?cell) ps (concat (map frame_real fs))"
      "length (filter is_dummy fs) = sum_list gs'" "frames_sized ?cell fs"
      "length fs = length ps + sum_list gs'"
    using Cons.IH [OF 2(2), of gs'] Cons.prems(2) gs c by auto
  have sz: "frames_sized ?cell [RealFrame q]"
    using 1(2) by (auto simp: frames_sized_def padded_as_def)
  have "emit_reals R (p # ps) gs co = Some (RealFrame q # ds @ fs, co3)"
    using gs 1(1) 2(1) 3(1) by simp
  moreover have "list_all2 (padded_as ?cell) (p # ps) (concat (map frame_real (RealFrame q # ds @ fs)))"
    using 1(2) 3(4) by (simp add: concat_real_dummies [OF 2(5)])
  moreover have "frames_sized ?cell (RealFrame q # ds @ fs)"
    using sz 2(6) 3(6) by (auto simp: frames_sized_def)
  ultimately show ?case
    using 2 3 gs same_budget_trans [OF b2 3(3)] by (simp add: filter_dummies)
qed

lemma interleave_gaps_ok:
  assumes "rng_ok R"
  shows "\<exists>gaps r'. (do {
      let gaps0 = replicate (length ps + 1) 0;
      (gaps1, remaining, r1) \<leftarrow>
        (if length ps = 1 then do {
           (leading, r1) \<leftarrow> gen_range R r 0 n;
           Some (gaps0[0 := leading, 1 := n - leading], 0, r1)
         } else Some (gaps0, n, r));
      distribute R remaining gaps1 r1 }) = Some (gaps, r') \<and>
    length gaps = length ps + 1 \<and> sum_list gaps = n"
proof (cases "length ps = 1")
  case True
  obtain k r1 where k: "gen_range R r 0 n = Some (k, r1)" "k \<le> n"
    using gen_range_total [OF assms, of 0 n r] by blast
  have "(replicate (length ps + 1) 0)[0 := k, 1 := n - k] = [k, n - k]"
    using True by (simp add: numeral_2_eq_2)
  then show ?thesis using True k by simp
next
  case False
  have "replicate (length ps + 1) (0::nat) \<noteq> []" by simp
  from distribute_ok [OF assms this, of n r] show ?thesis using False by (auto simp: sum_list_replicate)
qed

lemma interleave_ok:
  assumes "rng_ok R" "composer_inv co"
  shows "\<exists>fs co'. interleave R ps n co = Some (fs, co') \<and> composer_inv co' \<and> same_budget co co' \<and>
    list_all2 (padded_as (cc_cell_bytes (co_config co))) ps (concat (map frame_real fs)) \<and>
    length (filter is_dummy fs) = n \<and> length fs = length ps + n \<and>
    frames_sized (cc_cell_bytes (co_config co)) fs"
proof -
  let ?cell = "cc_cell_bytes (co_config co)"
  obtain gaps r2 where g: "(do {
      let gaps0 = replicate (length ps + 1) 0;
      (gaps1, remaining, r1) \<leftarrow>
        (if length ps = 1 then do {
           (leading, r1) \<leftarrow> gen_range R (co_rng co) 0 n;
           Some (gaps0[0 := leading, 1 := n - leading], 0, r1)
         } else Some (gaps0, n, co_rng co));
      distribute R remaining gaps1 r1 }) = Some (gaps, r2)"
      "length gaps = length ps + 1" "sum_list gaps = n"
    using interleave_gaps_ok [OF assms(1), of ps "co_rng co" n] by metis
  obtain g0 gs where gs: "gaps = g0 # gs" using g(2) by (cases gaps) auto
  have i0: "composer_inv (co\<lparr>co_rng := r2\<rparr>)" using assms(2) by simp
  obtain fs1 co1 where 1: "emit_dummies R g0 (co\<lparr>co_rng := r2\<rparr>) = Some (fs1, co1)" "composer_inv co1"
      "same_budget (co\<lparr>co_rng := r2\<rparr>) co1" "length fs1 = g0" "list_all is_dummy fs1" "frames_sized ?cell fs1"
    using emit_dummies_ok [OF assms(1) i0, of g0] by auto
  have b1: "same_budget co co1" using same_budget_trans [OF same_budget_rng 1(3)] .
  then have c: "co_config co1 = co_config co" by (simp add: same_budget_def)
  obtain fs2 co2 where 2: "emit_reals R ps gs co1 = Some (fs2, co2)" "composer_inv co2" "same_budget co1 co2"
      "list_all2 (padded_as ?cell) ps (concat (map frame_real fs2))"
      "length (filter is_dummy fs2) = sum_list gs" "frames_sized ?cell fs2" "length fs2 = length ps + sum_list gs"
    using emit_reals_ok [OF assms(1) 1(2), of gs ps] g(2) gs c by auto
  have "interleave R ps n co = Some (fs1 @ fs2, co2)"
    using g(1) gs 1(1) 2(1) by (auto simp: interleave_def Let_def Option.bind_eq_Some_conv split: if_splits)
  then show ?thesis
    using 1 2 g gs same_budget_trans [OF b1 2(3)]
    by (simp add: concat_real_dummies [OF 1(5)] filter_dummies)
qed

lemma record_frames_inv [simp]:
  "composer_inv (record_frames fs co) = composer_inv co"
  "co_config (record_frames fs co) = co_config co"
  "co_regime (record_frames fs co) = co_regime co"
  "dummy_bytes_emitted (record_frames fs co) = dummy_bytes_emitted co"
  "co_session_bounder (record_frames fs co) = co_session_bounder co"
  "frame_clock_ms (record_frames fs co) = frame_clock_ms co + length fs"
  by (induction fs arbitrary: co) (simp_all add: Let_def)

lemma record_frames_counters [simp]: "regime_counters_ok (record_frames fs co) = regime_counters_ok co"
  by (induction fs arbitrary: co) (simp_all add: Let_def, simp add: regime_counters_ok_def)

text \<open>However many bytes and packets are observed, the counters end below the thresholds of the
  regime in force.\<close>

lemma co_observe_ok:
  assumes "rng_ok R" "composer_inv co"
  shows "\<exists>co'. co_observe R clk nb np co = Some co' \<and> composer_inv co' \<and> co_config co' = co_config co \<and>
    regime_counters_ok co' \<and> dummy_bytes_emitted co' = dummy_bytes_emitted co"
proof -
  have c: "comp_cfg_ok (co_config co)" using assms(2) by (simp add: composer_inv_def)
  obtain g r' where "ratio_next_regime R (co_config co) (co_rng co) = Some (g, r')" "ratio_regime_ok (co_config co) g"
    using ratio_next_regime_ok [OF assms(1) c] by blast
  then show ?thesis
    using assms(2) by (auto simp: co_observe_def Let_def composer_inv_def regime_counters_ok_def
        ratio_regime_ok_def split: option.splits)
qed

definition mixed_ok :: "composition_config \<Rightarrow> packet list \<Rightarrow> mixed_burst \<Rightarrow> bool" where
  "mixed_ok c ps m \<longleftrightarrow>
     list_all2 (padded_as (cc_cell_bytes c)) ps (concat (map frame_real (mb_frames m))) \<and>
     mb_real_packets m = length ps \<and>
     mb_dummy_packets m = length (filter is_dummy (mb_frames m)) \<and>
     mb_dummy_packets m \<le> max_dummy_packets_per_burst c \<and>
     length (mb_frames m) = mb_real_packets m + mb_dummy_packets m \<and>
     frames_sized (cc_cell_bytes c) (mb_frames m)"

lemma compose_ok:
  assumes "rng_ok R" "composer_inv co"
  shows "\<exists>m co'. compose R clk b co = Some (m, co') \<and> composer_inv co' \<and> co_config co' = co_config co \<and>
    regime_counters_ok co' \<and> mixed_ok (co_config co) (burst_packets b) m \<and>
    dummy_bytes_emitted co' = sat_add (dummy_bytes_emitted co) (dummy_volume (mb_frames m))"
proof -
  let ?ps = "burst_packets b"
  define co1 where "co1 = fold ingest_packet ?ps co"
  have 1: "composer_inv co1" "co_config co1 = co_config co"
    using ingest_all [OF assms(2), of ?ps] by (simp_all add: co1_def)
  have e1: "dummy_bytes_emitted co1 = dummy_bytes_emitted co"
    by (simp add: co1_def ingest_all_emitted)
  obtain n co2 where 2: "dummy_count_for_burst R (burst_total_bytes b) co1 = Some (n, co2)" "composer_inv co2"
      "n \<le> max_dummy_packets_per_burst (co_config co1)" "co_config co2 = co_config co1"
      and e2: "dummy_bytes_emitted co2 = dummy_bytes_emitted co1"
    using dummy_count_for_burst_ok [OF assms(1) 1(1), of "burst_total_bytes b"] by blast
  obtain fs co3 where 3: "interleave R ?ps n co2 = Some (fs, co3)" "composer_inv co3" "same_budget co2 co3"
      "list_all2 (padded_as (cc_cell_bytes (co_config co2))) ?ps (concat (map frame_real fs))"
      "length (filter is_dummy fs) = n" "length fs = length ?ps + n"
      "frames_sized (cc_cell_bytes (co_config co2)) fs"
    using interleave_ok [OF assms(1) 2(2), of ?ps n] by blast
  have c3: "co_config co3 = co_config co" "dummy_bytes_emitted co3 = dummy_bytes_emitted co"
    using 3(3) 2(4) 1(2) e1 e2 by (simp_all add: same_budget_def)
  define co4 where "co4 = co3\<lparr>dummy_bytes_emitted := sat_add (dummy_bytes_emitted co3) (dummy_volume fs)\<rparr>"
  have i5: "composer_inv (record_frames fs co4)" using 3(2) by (simp add: co4_def)
  obtain co6 where 6: "co_observe R clk (burst_total_bytes b) (packet_count b) (record_frames fs co4) = Some co6"
      "composer_inv co6" "co_config co6 = co_config co4" "regime_counters_ok co6"
      "dummy_bytes_emitted co6 = dummy_bytes_emitted co4"
    using co_observe_ok [OF assms(1) i5] by (metis record_frames_inv(2,4))
  define m where "m = \<lparr>mb_frames = fs, mb_ratio_regime = co_regime co3,
      mb_real_packets = packet_count b, mb_dummy_packets = n\<rparr>"
  let ?co7 = "co6\<lparr>last_burst_at := clk 2\<rparr>"
  have eq: "compose R clk b co = Some (m, reset_keepalive_deadline R (clk 3) ?co7)"
    unfolding compose_def Let_def
    using 2(1) 3(1) 6(1) by (simp add: co1_def m_def co4_def)
  have "composer_inv (reset_keepalive_deadline R (clk 3) ?co7)"
    using 6(2) by (intro reset_keepalive_inv) simp
  moreover have "regime_counters_ok (reset_keepalive_deadline R (clk 3) ?co7)"
    using 6(4) by (simp add: regime_counters_ok_def)
  moreover have "mixed_ok (co_config co) ?ps m"
    using 3 2 1 by (simp add: mixed_ok_def m_def packet_count_def)
  moreover have "dummy_bytes_emitted (reset_keepalive_deadline R (clk 3) ?co7)
      = sat_add (dummy_bytes_emitted co) (dummy_volume (mb_frames m))"
    using 6(5) c3(2) by (simp add: co4_def m_def reset_keepalive_deadline_def Let_def split: prod.split)
  ultimately show ?thesis using eq 6(3) c3(1) by (simp add: co4_def)
qed

lemma compose_keepalive_ok:
  assumes "rng_ok R" "composer_inv co"
  shows "\<exists>m co'. compose_keepalive R clk co = Some (m, co') \<and> composer_inv co' \<and>
    co_config co' = co_config co \<and> mixed_ok (co_config co) [] m \<and> 0 < mb_dummy_packets m"
proof -
  define n where "n = min (1 + (case co_session_bounder co of None \<Rightarrow> 0
     | Some b \<Rightarrow> dummy_bytes_needed_now b (dummy_bytes_emitted co) (clk 0) div
          max ((keepalive_min_bytes (co_config co) + keepalive_max_bytes (co_config co)) div 2) 1))
     (max_dummy_packets_per_burst (co_config co))"
  have n: "0 < n" "n \<le> max_dummy_packets_per_burst (co_config co)"
    using assms(2) by (auto simp: n_def composer_inv_def comp_cfg_ok_def composition_valid_def)
  obtain fs co1 where 1: "emit_dummies R n co = Some (fs, co1)" "composer_inv co1" "same_budget co co1"
      "length fs = n" "list_all is_dummy fs" "frames_sized (cc_cell_bytes (co_config co)) fs"
    using emit_dummies_ok [OF assms, of n] by blast
  define co3 where "co3 = (record_frames fs (co1\<lparr>dummy_bytes_emitted :=
      sat_add (dummy_bytes_emitted co1) (sum_list (map frame_len fs))\<rparr>))\<lparr>last_burst_at := clk 1\<rparr>"
  have i: "composer_inv (reset_keepalive_deadline R (clk 2) co3)"
    using 1(2) by (intro reset_keepalive_inv) (simp add: co3_def)
  have "compose_keepalive R clk co = Some (\<lparr>mb_frames = fs,
      mb_ratio_regime = co_regime (reset_keepalive_deadline R (clk 2) co3), mb_real_packets = 0,
      mb_dummy_packets = n\<rparr>, reset_keepalive_deadline R (clk 2) co3)"
    unfolding compose_keepalive_def Let_def n_def [symmetric] by (simp add: 1(1) co3_def)
  moreover have "co_config (reset_keepalive_deadline R (clk 2) co3) = co_config co"
    using 1(3) by (simp add: co3_def same_budget_def)
  ultimately show ?thesis
    using 1 n i concat_real_dummies [OF 1(5)] filter_dummies [OF 1(5)]
    by (simp add: mixed_ok_def del: concat_eq_Nil_conv)
qed

text \<open>The gap in \<open>validate\<close>: a valid configuration with a low ceiling has a regime whose range is
  empty, and a draw in it panics.\<close>

lemma regime_range_empty:
  assumes "dummy_hi (co_regime co) < dummy_lo (co_regime co)" "\<not> spiky (co_regime co)"
  shows "dummy_count_absolute R co = None"
  using assms by (simp add: dummy_count_absolute_def gen_range_def)

section \<open>Properties\<close>

lemma default_cfg_ok: "comp_cfg_ok composition_default"
  by (simp add: comp_cfg_ok_def composition_valid_def composition_default_def TOR_CELL_BYTES_def dp_valid_def dp_default_def)

text \<open>C23: Composing a burst. A composer in a valid state never panics on a burst: the mixed burst holds its
  packets in order, each padded or cut to the cell size when one is set, and between them the number
  of dummies it reports, at most the configured maximum; every frame has the cell size. The regime
  counters are again below their thresholds, the dummy volume is accounted, and the next keepalive is
  due between one millisecond and the maximum idle gap after the reading of the clock.\<close>
theorem compose_burst:
  assumes "rng_ok R" "composer_inv co" "max_idle_gap_ms (co_config co) \<le> u64_max"
  shows "\<exists>m co'. compose R clk b co = Some (m, co') \<and> composer_inv co' \<and> co_config co' = co_config co \<and>
    list_all2 (padded_as (cc_cell_bytes (co_config co))) (burst_packets b) (concat (map frame_real (mb_frames m))) \<and>
    mb_real_packets m = packet_count b \<and> mb_dummy_packets m = length (filter is_dummy (mb_frames m)) \<and>
    mb_dummy_packets m \<le> max_dummy_packets_per_burst (co_config co) \<and>
    frames_sized (cc_cell_bytes (co_config co)) (mb_frames m) \<and> regime_counters_ok co' \<and>
    dummy_bytes_emitted co' = sat_add (dummy_bytes_emitted co) (dummy_volume (mb_frames m)) \<and>
    clk 3 + 1000000 \<le> next_keepalive_due co' \<and>
    next_keepalive_due co' \<le> clk 3 + max_idle_gap_ms (co_config co) * 1000000"
proof -
  obtain m co' where c: "compose R clk b co = Some (m, co')" "composer_inv co'" "co_config co' = co_config co"
      "regime_counters_ok co'" "mixed_ok (co_config co) (burst_packets b) m"
      "dummy_bytes_emitted co' = sat_add (dummy_bytes_emitted co) (dummy_volume (mb_frames m))"
    using compose_ok [OF assms(1,2)] by blast
  obtain co1 where co1: "co' = reset_keepalive_deadline R (clk 3) co1"
    using c(1) by (auto simp: compose_def Let_def Option.bind_eq_Some_conv split: prod.splits)
  have conf: "co_config co1 = co_config co" using c(3) co1 by (simp add: reset_keepalive_deadline_def case_prod_beta Let_def)
  have "1 \<le> max_idle_gap_ms (co_config co)" using assms(2) by (simp add: composer_inv_def comp_cfg_ok_def)
  then show ?thesis
    using c assms(3) reset_keepalive_due [where co = co1 and now = "clk 3" and R = R] conf co1
    by (auto simp: mixed_ok_def packet_count_def)
qed

theorem compose_burst_witness:
  "\<exists>co. composer_with_config lcg (\<lambda>k d. d) (\<lambda>i. i) \<lparr>seed_role = BurstComposition, seed_bytes = [3]\<rparr> composition_default = Some (Inr co) \<and>
    (\<exists>m co'. compose lcg (\<lambda>i. 50 + i) \<lparr>burst_packets = [Packet [1, 2], Packet [3]], burst_threshold = \<lparr>ct_max_packets = 2, ct_timeout = 5\<rparr>,
         burst_reason = SizeThreshold\<rparr> co = Some (m, co') \<and> mb_real_packets m = 2 \<and> regime_counters_ok co')"
proof -
  obtain co where co: "composer_with_config lcg (\<lambda>k d. d) (\<lambda>i. i) \<lparr>seed_role = BurstComposition, seed_bytes = [3]\<rparr> composition_default
      = Some (Inr co)" "composer_inv co" "co_config co = composition_default"
    using composer_new_ok [OF lcg_ok default_cfg_ok, of "\<lparr>seed_role = BurstComposition, seed_bytes = [3]\<rparr>" "\<lambda>k d. d" "\<lambda>i. i"] by auto
  have "max_idle_gap_ms (co_config co) \<le> u64_max" by (simp add: co(3) composition_default_def u64_max_def)
  from compose_burst [OF lcg_ok co(2) this, of "\<lambda>i. 50 + i" "\<lparr>burst_packets = [Packet [1, 2], Packet [3]],
      burst_threshold = \<lparr>ct_max_packets = 2, ct_timeout = 5\<rparr>, burst_reason = SizeThreshold\<rparr>"] co(1)
  show ?thesis by (auto simp: packet_count_def)
qed

text \<open>A keepalive burst is pure cover. It holds no real packet, at least one and at most the
  configured number of dummies, all of the cell size when one is set, and leaves the composer in a
  valid state; once it is due it stays due until it is sent.\<close>
theorem keepalive_cover:
  assumes "rng_ok R" "composer_inv co"
  shows "\<exists>m co'. compose_keepalive R clk co = Some (m, co') \<and> composer_inv co' \<and>
    concat (map frame_real (mb_frames m)) = [] \<and> list_all is_dummy (mb_frames m) \<and>
    0 < length (mb_frames m) \<and> length (mb_frames m) = mb_dummy_packets m \<and>
    mb_dummy_packets m \<le> max_dummy_packets_per_burst (co_config co) \<and>
    frames_sized (cc_cell_bytes (co_config co)) (mb_frames m) \<and>
    (\<forall>t t'. t \<le> t' \<and> needs_keepalive t co \<longrightarrow> needs_keepalive t' co)"
proof -
  obtain m co' where c: "compose_keepalive R clk co = Some (m, co')" "composer_inv co'"
      "mixed_ok (co_config co) [] m" "0 < mb_dummy_packets m"
    using compose_keepalive_ok [OF assms] by blast
  then have n: "length (filter is_dummy (mb_frames m)) = length (mb_frames m)" by (simp add: mixed_ok_def)
  then have "list_all is_dummy (mb_frames m)" unfolding list_all_iff by (metis length_filter_less less_irrefl)
  then show ?thesis using c by (auto simp: mixed_ok_def needs_keepalive_def)
qed

theorem keepalive_cover_witness:
  "\<exists>co. composer_with_config lcg (\<lambda>k d. d) (\<lambda>i. i) \<lparr>seed_role = BurstComposition, seed_bytes = [3]\<rparr> composition_default = Some (Inr co) \<and>
    (\<exists>m co'. compose_keepalive lcg (\<lambda>i. 50 + i) co = Some (m, co') \<and> 0 < length (mb_frames m) \<and>
      list_all is_dummy (mb_frames m))"
proof -
  obtain co where co: "composer_with_config lcg (\<lambda>k d. d) (\<lambda>i. i) \<lparr>seed_role = BurstComposition, seed_bytes = [3]\<rparr> composition_default
      = Some (Inr co)" "composer_inv co"
    using composer_new_ok [OF lcg_ok default_cfg_ok, of "\<lparr>seed_role = BurstComposition, seed_bytes = [3]\<rparr>" "\<lambda>k d. d" "\<lambda>i. i"] by auto
  from keepalive_cover [OF lcg_ok co(2), of "\<lambda>i. 50 + i"] co(1) show ?thesis by blast
qed

end
