(* ===== verification/Session.thy ===== *)
theory Session
  imports Composition
begin

text \<open>
  The shaped session of \<open>src/src/composition.rs\<close>: a composer for the budget and a correlator for the
  departures. The session is a pipeline stage of fixed frame size (the interpretation \<open>shaped\<close>);
  the last section says that with a fixed departure rate the wire trace of a session is the same
  whatever is injected into it.
\<close>

section \<open>Operations\<close>

record 'r shaped_session =
  ss_composer :: "'r composer"
  ss_correlator :: "'r timing_correlator"

fun tc_error_to :: "string \<Rightarrow> tc_error \<Rightarrow> composition_error" where
  "tc_error_to full (TcInvalidConfig m) = CompInvalidConfig m"
| "tc_error_to full TcQueueFull = CompInvalidConfig full"

fun inject_error :: "tc_error \<Rightarrow> composition_error" where
  "inject_error TcQueueFull = CompQueueFull"
| "inject_error (TcInvalidConfig m) = CompInvalidConfig m"

definition or_else :: "'a option \<Rightarrow> 'a \<Rightarrow> 'a" where
  "or_else x d = (case x of None \<Rightarrow> d | Some v \<Rightarrow> v)"

definition shaped_tc_config :: "nat \<Rightarrow> composition_config \<Rightarrow> tc_config" where
  "shaped_tc_config cell c =
     \<lparr>tc_cell_bytes = cell,
      initial_iat_ms = or_else (clock_initial_iat_ms c) (real (max_idle_gap_ms c)),
      ema_alpha = or_else (clock_ema_alpha c) (20 / 100),
      min_iat_ms = or_else (clock_min_iat_ms c) 5,
      max_iat_ms = or_else (clock_max_iat_ms c) (real (max_idle_gap_ms c) * 2),
      max_queue_depth = max_dummy_packets_per_burst c * 4,
      adapt_rate = or_else (clock_adapt_rate c) True,
      min_dummy_fraction = or_else (clock_min_dummy_fraction c) 0\<rparr>"

text \<open>\<open>clk 0\<close> and \<open>clk 1\<close> are the readings of the correlator, the composer reads from \<open>clk 2\<close> on.\<close>

definition shaped_new ::
  "'r rng_ops \<Rightarrow> (bytes \<Rightarrow> bytes \<Rightarrow> bytes) \<Rightarrow> (nat \<Rightarrow> nanos) \<Rightarrow> ephemeral_seed \<Rightarrow> composition_config \<Rightarrow>
     (composition_error + 'r shaped_session) option" where
  "shaped_new R H clk seed config =
     (case cc_cell_bytes config of
        None \<Rightarrow> Some (Inl (CompInvalidConfig
          ''ShapedSession requires cell_bytes to be set for size uniformity''))
      | Some cell \<Rightarrow>
          let tmp_rng = from_seed R (derive_rng_seed H seed (bytes_of ''mixtor.correlator.v1''));
              (_, tc_rng) = gen_u64 R tmp_rng
          in (case tc_new R (shaped_tc_config cell config) tc_rng (clk 0) (clk 1) of
                Inl e \<Rightarrow> Some (Inl (tc_error_to ''correlator queue full during init'' e))
              | Inr tc \<Rightarrow>
                  map_option (\<lambda>res. case res of Inl e \<Rightarrow> Inl e
                      | Inr co \<Rightarrow> Inr \<lparr>ss_composer = co, ss_correlator = tc\<rparr>)
                    (composer_with_config R H (\<lambda>i. clk (i + 2)) seed config)))"

definition ss_inject_real ::
  "'r rng_ops \<Rightarrow> nanos \<Rightarrow> nanos \<Rightarrow> packet \<Rightarrow> 'r shaped_session \<Rightarrow>
     ((composition_error + unit) \<times> 'r shaped_session) option" where
  "ss_inject_real R t1 t2 p s = do {
     (padded, co) \<leftarrow> pad_real_packet R p (ss_composer s);
     let (res, tc) = tc_inject_real t1 t2 padded (ss_correlator s);
     Some (case res of Inl e \<Rightarrow> Inl (inject_error e) | Inr u \<Rightarrow> Inr u,
           s\<lparr>ss_composer := co, ss_correlator := tc\<rparr>)
   }"

text \<open>The injection loop of \<open>inject_burst\<close>; the \<open>i\<close>-th packet reads the clock at \<open>clk (2 i)\<close> and
  \<open>clk (2 i + 1)\<close>. A full queue ends it with the packets so far injected.\<close>

fun inject_all ::
  "'r rng_ops \<Rightarrow> (nat \<Rightarrow> nanos) \<Rightarrow> packet list \<Rightarrow> nat \<Rightarrow> 'r shaped_session \<Rightarrow>
     ((composition_error + nat) \<times> 'r shaped_session) option" where
  "inject_all R clk [] injected s = Some (Inr injected, s)"
| "inject_all R clk (p # ps) injected s = do {
     (res, s1) \<leftarrow> ss_inject_real R (clk (2 * injected)) (clk (2 * injected + 1)) p s;
     (case res of
        Inl e \<Rightarrow> Some (Inl e, s1)
      | Inr _ \<Rightarrow> inject_all R clk ps (injected + 1) s1)
   }"

definition ss_inject_burst ::
  "'r rng_ops \<Rightarrow> (nat \<Rightarrow> nanos) \<Rightarrow> (nat \<Rightarrow> nanos) \<Rightarrow> burst \<Rightarrow> 'r shaped_session \<Rightarrow>
     ((composition_error + nat) \<times> 'r shaped_session) option" where
  "ss_inject_burst R clk clk' b s = do {
     let real_bytes = burst_total_bytes b;
     let real_packets = packet_count b;
     let co1 = fold ingest_packet (burst_packets b) (ss_composer s);
     (_, co2) \<leftarrow> dummy_count_for_burst R real_bytes co1;
     (res, s1) \<leftarrow> inject_all R clk (burst_packets b) 0 (s\<lparr>ss_composer := co2\<rparr>);
     (case res of
        Inl e \<Rightarrow> Some (Inl e, s1)
      | Inr injected \<Rightarrow> do {
          co3 \<leftarrow> co_observe R clk' real_bytes real_packets (ss_composer s1);
          let co4 = reset_keepalive_deadline R (clk' 3) (co3\<lparr>last_burst_at := clk' 2\<rparr>);
          Some (Inr injected, s1\<lparr>ss_composer := co4\<rparr>)
        })
   }"

definition ss_tick ::
  "'r rng_ops \<Rightarrow> nanos \<Rightarrow> nanos \<Rightarrow> 'r shaped_session \<Rightarrow> mixed_frame option \<times> 'r shaped_session" where
  "ss_tick R t1 t2 s =
     (case tc_tick R t1 t2 (ss_correlator s) of
        (None, tc) \<Rightarrow> (None, s\<lparr>ss_correlator := tc\<rparr>)
      | (Some frame, tc) \<Rightarrow>
          let co = ss_composer s;
              t = frame_clock_ms co + 1;
              co1 = co\<lparr>frame_clock_ms := t, co_self_tester := record_frame frame t (co_self_tester co)\<rparr>;
              co2 = (if is_dummy frame then
                       co1\<lparr>dummy_bytes_emitted := sat_add (dummy_bytes_emitted co1) (frame_len frame)\<rparr>
                     else co1)
          in (Some frame, s\<lparr>ss_composer := co2, ss_correlator := tc\<rparr>))"

definition ss_next_departure :: "'r shaped_session \<Rightarrow> nanos" where
  "ss_next_departure s = next_departure (ss_correlator s)"

definition ss_restart_clock ::
  "'r rng_ops \<Rightarrow> nanos \<Rightarrow> nanos \<Rightarrow> 'r shaped_session \<Rightarrow> 'r shaped_session" where
  "ss_restart_clock R t1 t2 s = s\<lparr>ss_correlator := tc_restart_clock R t1 t2 (ss_correlator s)\<rparr>"

definition ss_slot_ready :: "nanos \<Rightarrow> 'r shaped_session \<Rightarrow> bool" where
  "ss_slot_ready now s = tc_slot_ready now (ss_correlator s)"

definition ss_queue_depth :: "'r shaped_session \<Rightarrow> nat" where
  "ss_queue_depth s = tc_queue_depth (ss_correlator s)"

definition ss_has_queue_space :: "'r shaped_session \<Rightarrow> bool" where
  "ss_has_queue_space s = tc_has_queue_space (ss_correlator s)"

definition emission_counts :: "'r shaped_session \<Rightarrow> nat \<times> nat" where
  "emission_counts s = (real_emitted (ss_correlator s), dummy_emitted (ss_correlator s))"

definition ss_real_fraction :: "'r shaped_session \<Rightarrow> real" where
  "ss_real_fraction s = tc_real_fraction (ss_correlator s)"

record 'r bidirectional_session =
  bs_upstream :: "'r shaped_session"
  bs_downstream :: "'r shaped_session"

definition bidirectional_session_new ::
  "'r rng_ops \<Rightarrow> (bytes \<Rightarrow> bytes \<Rightarrow> bytes) \<Rightarrow> (nat \<Rightarrow> nanos) \<Rightarrow> (nat \<Rightarrow> nanos) \<Rightarrow> ephemeral_seed \<Rightarrow> ephemeral_seed \<Rightarrow>
     composition_config \<Rightarrow> (composition_error + 'r bidirectional_session) option" where
  "bidirectional_session_new R H clk clk' seed_up seed_down config = do {
     up \<leftarrow> shaped_new R H clk seed_up config;
     (case up of
        Inl e \<Rightarrow> Some (Inl e)
      | Inr u \<Rightarrow> do {
          down \<leftarrow> shaped_new R H clk' seed_down config;
          (case down of
             Inl e \<Rightarrow> Some (Inl e)
           | Inr d \<Rightarrow> Some (Inr \<lparr>bs_upstream = u, bs_downstream = d\<rparr>))
        })
   }"

record 'r bidirectional_composer =
  bc_upstream :: "'r composer"
  bc_downstream :: "'r composer"

definition bidirectional_composer_new ::
  "'r rng_ops \<Rightarrow> (bytes \<Rightarrow> bytes \<Rightarrow> bytes) \<Rightarrow> (nat \<Rightarrow> nanos) \<Rightarrow> (nat \<Rightarrow> nanos) \<Rightarrow> ephemeral_seed \<Rightarrow> ephemeral_seed \<Rightarrow>
     composition_config \<Rightarrow> (composition_error + 'r bidirectional_composer) option" where
  "bidirectional_composer_new R H clk clk' seed_up seed_down config = do {
     up \<leftarrow> composer_with_config R H clk seed_up config;
     (case up of
        Inl e \<Rightarrow> Some (Inl e)
      | Inr u \<Rightarrow> do {
          down \<leftarrow> composer_with_config R H clk' seed_down config;
          (case down of
             Inl e \<Rightarrow> Some (Inl e)
           | Inr d \<Rightarrow> Some (Inr \<lparr>bc_upstream = u, bc_downstream = d\<rparr>))
        })
   }"

section \<open>Invariant\<close>

definition shaped_inv :: "'r rng_ops \<Rightarrow> 'r shaped_session \<Rightarrow> bool" where
  "shaped_inv R s \<longleftrightarrow> tc_inv R (ss_correlator s) \<and> composer_inv (ss_composer s) \<and>
     cc_cell_bytes (co_config (ss_composer s)) = Some (tc_cell_bytes (tc_conf (ss_correlator s)))"

lemma shaped_new_ok:
  assumes "rng_ok R" "comp_cfg_ok c" "seed_role seed = BurstComposition"
    "cc_cell_bytes c = Some cell" "tc_valid (shaped_tc_config cell c)"
  shows "\<exists>s. shaped_new R H clk seed c = Some (Inr s) \<and> shaped_inv R s \<and> real_queue (ss_correlator s) = [] \<and>
    tc_conf (ss_correlator s) = shaped_tc_config cell c"
proof -
  let ?r = "snd (gen_u64 R (from_seed R (derive_rng_seed H seed (bytes_of ''mixtor.correlator.v1''))))"
  obtain tc where tc: "tc_new R (shaped_tc_config cell c) ?r (clk 0) (clk 1) = Inr tc" "tc_inv R tc"
      "tc_conf tc = shaped_tc_config cell c" "real_queue tc = []"
    using tc_new_inv [OF assms(1,5)] by blast
  obtain co where co: "composer_with_config R H (\<lambda>i. clk (i + 2)) seed c = Some (Inr co)" "composer_inv co"
      "co_config co = c"
    using composer_new_ok [OF assms(1-3)] by blast
  have "shaped_new R H clk seed c = Some (Inr \<lparr>ss_composer = co, ss_correlator = tc\<rparr>)"
    using assms(4) tc(1) co(1) by (simp add: shaped_new_def Let_def case_prod_beta)
  then show ?thesis using tc co assms(4) by (simp add: shaped_inv_def shaped_tc_config_def)
qed

lemma ss_inject_real_ok:
  assumes "shaped_inv R s"
  shows "\<exists>res s' q. ss_inject_real R t1 t2 p s = Some (res, s') \<and> shaped_inv R s' \<and>
    padded_as (Some (tc_cell_bytes (tc_conf (ss_correlator s)))) p q \<and>
    tc_conf (ss_correlator s') = tc_conf (ss_correlator s) \<and>
    (if ss_has_queue_space s
     then res = Inr () \<and> real_queue (ss_correlator s') = real_queue (ss_correlator s) @ [q]
     else res = Inl CompQueueFull \<and> ss_correlator s' = ss_correlator s) \<and>
    (\<not> adapt_rate (tc_conf (ss_correlator s)) \<longrightarrow> clock_view (ss_correlator s') = clock_view (ss_correlator s))"
proof -
  have i: "tc_inv R (ss_correlator s)" "composer_inv (ss_composer s)" "rng_ok R"
      "cc_cell_bytes (co_config (ss_composer s)) = Some (tc_cell_bytes (tc_conf (ss_correlator s)))"
    using assms by (auto simp: shaped_inv_def tc_inv_def)
  obtain q r where q: "pad_real_packet R p (ss_composer s) = Some (q, (ss_composer s)\<lparr>co_rng := r\<rparr>)"
      "padded_as (Some (tc_cell_bytes (tc_conf (ss_correlator s)))) p q"
    using pad_real_packet_ok [OF i(3,2)] i(4) by metis
  show ?thesis
  proof (rule tc_inject_cases [of "ss_correlator s" t1 t2 q])
    assume "max_queue_depth (tc_conf (ss_correlator s)) \<le> length (real_queue (ss_correlator s))"
      "tc_inject_real t1 t2 q (ss_correlator s) = (Inl TcQueueFull, ss_correlator s)"
    then show ?thesis using q i assms
      by (auto simp: ss_inject_real_def shaped_inv_def ss_has_queue_space_def tc_has_queue_space_def)
  next
    fix tc'
    assume a: "length (real_queue (ss_correlator s)) < max_queue_depth (tc_conf (ss_correlator s))"
      "tc_inject_real t1 t2 q (ss_correlator s) = (Inr (), tc')"
      "real_queue tc' = real_queue (ss_correlator s) @ [q]"
      "tc_conf tc' = tc_conf (ss_correlator s)" "tc_rng tc' = tc_rng (ss_correlator s)"
      "next_departure tc' = next_departure (ss_correlator s)"
      "\<not> adapt_rate (tc_conf (ss_correlator s)) \<Longrightarrow> mean_iat_ms tc' = mean_iat_ms (ss_correlator s)"
    have "tc_inv R tc'" using i(1) a q(2) by (auto simp: tc_inv_def padded_as_def)
    then show ?thesis using q i a
      by (auto simp: ss_inject_real_def shaped_inv_def ss_has_queue_space_def tc_has_queue_space_def clock_view_def)
  qed
qed

text \<open>A burst: as many of its packets as fit are queued, in order, each padded to the cell.\<close>

lemma inject_all_ok:
  assumes "shaped_inv R s"
  shows "\<exists>res s' qs. inject_all R clk ps k s = Some (res, s') \<and> shaped_inv R s' \<and>
    tc_conf (ss_correlator s') = tc_conf (ss_correlator s) \<and>
    real_queue (ss_correlator s') = real_queue (ss_correlator s) @ qs \<and>
    list_all2 (padded_as (Some (tc_cell_bytes (tc_conf (ss_correlator s))))) (take (length qs) ps) qs \<and>
    length qs = min (length ps) (max_queue_depth (tc_conf (ss_correlator s)) - ss_queue_depth s) \<and>
    res = (if length qs = length ps then Inr (k + length ps) else Inl CompQueueFull) \<and>
    (\<not> adapt_rate (tc_conf (ss_correlator s)) \<longrightarrow> clock_view (ss_correlator s') = clock_view (ss_correlator s))"
  using assms
proof (induction ps arbitrary: s k)
  case Nil
  then show ?case by simp
next
  case (Cons p ps)
  obtain r1 s1 q where 1: "ss_inject_real R (clk (2 * k)) (clk (2 * k + 1)) p s = Some (r1, s1)" "shaped_inv R s1"
    "padded_as (Some (tc_cell_bytes (tc_conf (ss_correlator s)))) p q"
    "tc_conf (ss_correlator s1) = tc_conf (ss_correlator s)"
    "if ss_has_queue_space s
     then r1 = Inr () \<and> real_queue (ss_correlator s1) = real_queue (ss_correlator s) @ [q]
     else r1 = Inl CompQueueFull \<and> ss_correlator s1 = ss_correlator s"
    "\<not> adapt_rate (tc_conf (ss_correlator s)) \<longrightarrow> clock_view (ss_correlator s1) = clock_view (ss_correlator s)"
    using ss_inject_real_ok [OF Cons.prems] by blast
  show ?case
  proof (cases "ss_has_queue_space s")
    case False
    then have "max_queue_depth (tc_conf (ss_correlator s)) - ss_queue_depth s = 0"
      by (simp add: ss_has_queue_space_def tc_has_queue_space_def ss_queue_depth_def tc_queue_depth_def)
    then show ?thesis using False 1 by (intro exI [of _ "Inl CompQueueFull"] exI [of _ s1] exI [of _ "[]"]) simp
  next
    case True
    then have r1: "r1 = Inr ()" and q1: "real_queue (ss_correlator s1) = real_queue (ss_correlator s) @ [q]"
      using 1(5) by simp_all
    obtain res s2 qs where 2: "inject_all R clk ps (k + 1) s1 = Some (res, s2)" "shaped_inv R s2"
      "tc_conf (ss_correlator s2) = tc_conf (ss_correlator s1)"
      "real_queue (ss_correlator s2) = real_queue (ss_correlator s1) @ qs"
      "list_all2 (padded_as (Some (tc_cell_bytes (tc_conf (ss_correlator s1))))) (take (length qs) ps) qs"
      "length qs = min (length ps) (max_queue_depth (tc_conf (ss_correlator s1)) - ss_queue_depth s1)"
      "res = (if length qs = length ps then Inr (k + 1 + length ps) else Inl CompQueueFull)"
      "\<not> adapt_rate (tc_conf (ss_correlator s1)) \<longrightarrow> clock_view (ss_correlator s2) = clock_view (ss_correlator s1)"
      using Cons.IH [OF 1(2), of "k + 1"] by blast
    have d: "ss_queue_depth s1 = ss_queue_depth s + 1"
      using q1 by (simp add: ss_queue_depth_def tc_queue_depth_def)
    have sp: "ss_queue_depth s < max_queue_depth (tc_conf (ss_correlator s))"
      using True by (simp add: ss_has_queue_space_def tc_has_queue_space_def ss_queue_depth_def tc_queue_depth_def)
    have len: "length (q # qs) = min (length (p # ps)) (max_queue_depth (tc_conf (ss_correlator s)) - ss_queue_depth s)"
      using 2(6) 1(4) d sp by (auto simp: min_def)
    have la: "list_all2 (padded_as (Some (tc_cell_bytes (tc_conf (ss_correlator s)))))
        (take (length (q # qs)) (p # ps)) (q # qs)"
      using 1(3,4) 2(5) by simp
    have res: "res = (if length (q # qs) = length (p # ps) then Inr (k + length (p # ps)) else Inl CompQueueFull)"
      using 2(7) by simp
    have ia: "inject_all R clk (p # ps) k s = Some (res, s2)" using 1(1) 2(1) r1 by simp
    have qq: "real_queue (ss_correlator s2) = real_queue (ss_correlator s) @ q # qs" using 2(4) q1 by simp
    have vw: "\<not> adapt_rate (tc_conf (ss_correlator s)) \<longrightarrow>
        clock_view (ss_correlator s2) = clock_view (ss_correlator s)"
      using 1(4,6) 2(8) by simp
    have cf: "tc_conf (ss_correlator s2) = tc_conf (ss_correlator s)" using 1(4) 2(3) by simp
    show ?thesis using ia 2(2) cf qq la len res vw by blast
  qed
qed

lemma ss_tick_frame: "fst (ss_tick R t1 t2 s) = fst (tc_tick R t1 t2 (ss_correlator s))"
  by (auto simp: ss_tick_def Let_def split: prod.split option.split)

lemma ss_tick_correlator: "ss_correlator (snd (ss_tick R t1 t2 s)) = snd (tc_tick R t1 t2 (ss_correlator s))"
  by (auto simp: ss_tick_def Let_def split: prod.split option.split)

lemma ss_tick_composer:
  "composer_inv (ss_composer s) \<Longrightarrow> composer_inv (ss_composer (snd (ss_tick R t1 t2 s))) \<and>
     co_config (ss_composer (snd (ss_tick R t1 t2 s))) = co_config (ss_composer s)"
  by (auto simp: ss_tick_def Let_def split: prod.split option.split)

text \<open>\<open>inject_burst\<close>: the budget layer advances only when the whole burst was queued.\<close>

lemma ss_inject_burst_ok:
  assumes "shaped_inv R s"
  shows "\<exists>res s' qs. ss_inject_burst R clk clk' b s = Some (res, s') \<and> shaped_inv R s' \<and>
    tc_conf (ss_correlator s') = tc_conf (ss_correlator s) \<and>
    real_queue (ss_correlator s') = real_queue (ss_correlator s) @ qs \<and>
    list_all2 (padded_as (Some (tc_cell_bytes (tc_conf (ss_correlator s))))) (take (length qs) (burst_packets b)) qs \<and>
    length qs = min (packet_count b) (max_queue_depth (tc_conf (ss_correlator s)) - ss_queue_depth s) \<and>
    res = (if length qs = packet_count b then Inr (packet_count b) else Inl CompQueueFull) \<and>
    (\<not> adapt_rate (tc_conf (ss_correlator s)) \<longrightarrow> clock_view (ss_correlator s') = clock_view (ss_correlator s))"
proof -
  have i: "tc_inv R (ss_correlator s)" "composer_inv (ss_composer s)" "rng_ok R"
    using assms by (auto simp: shaped_inv_def tc_inv_def)
  define co1 where "co1 = fold ingest_packet (burst_packets b) (ss_composer s)"
  have 1: "composer_inv co1" "co_config co1 = co_config (ss_composer s)"
    using ingest_all [OF i(2), of "burst_packets b"] by (simp_all add: co1_def)
  obtain n co2 where 2: "dummy_count_for_burst R (burst_total_bytes b) co1 = Some (n, co2)" "composer_inv co2"
      "co_config co2 = co_config co1"
    using dummy_count_for_burst_ok [OF i(3) 1(1), of "burst_total_bytes b"] by blast
  have si: "shaped_inv R (s\<lparr>ss_composer := co2\<rparr>)" using assms 1 2 by (simp add: shaped_inv_def)
  have sc: "ss_correlator (s\<lparr>ss_composer := co2\<rparr>) = ss_correlator s"
      "ss_queue_depth (s\<lparr>ss_composer := co2\<rparr>) = ss_queue_depth s"
    by (simp_all add: ss_queue_depth_def)
  obtain res s1 qs where 3: "inject_all R clk (burst_packets b) 0 (s\<lparr>ss_composer := co2\<rparr>) = Some (res, s1)"
    "shaped_inv R s1" "tc_conf (ss_correlator s1) = tc_conf (ss_correlator s)"
    "real_queue (ss_correlator s1) = real_queue (ss_correlator s) @ qs"
    "list_all2 (padded_as (Some (tc_cell_bytes (tc_conf (ss_correlator s))))) (take (length qs) (burst_packets b)) qs"
    "length qs = min (packet_count b) (max_queue_depth (tc_conf (ss_correlator s)) - ss_queue_depth s)"
    "res = (if length qs = packet_count b then Inr (packet_count b) else Inl CompQueueFull)"
    "\<not> adapt_rate (tc_conf (ss_correlator s)) \<longrightarrow> clock_view (ss_correlator s1) = clock_view (ss_correlator s)"
    using inject_all_ok [OF si, of clk "burst_packets b" 0, unfolded sc add_0 packet_count_def [symmetric]]
    by blast
  show ?thesis
  proof (cases "length qs = packet_count b")
    case False
    then have r: "res = Inl CompQueueFull" using 3(7) by simp
    have "ss_inject_burst R clk clk' b s = Some (res, s1)"
      using 2(1) 3(1) r by (simp add: ss_inject_burst_def Let_def co1_def)
    then show ?thesis using 3(2-8) by blast
  next
    case True
    then have r: "res = Inr (packet_count b)" using 3(7) by simp
    have c1: "composer_inv (ss_composer s1)" using 3(2) by (simp add: shaped_inv_def)
    obtain co3 where o: "co_observe R clk' (burst_total_bytes b) (packet_count b) (ss_composer s1) = Some co3"
        "composer_inv co3" "co_config co3 = co_config (ss_composer s1)"
      using co_observe_ok [OF i(3) c1] by blast
    define s2 where "s2 = s1\<lparr>ss_composer := reset_keepalive_deadline R (clk' 3) (co3\<lparr>last_burst_at := clk' 2\<rparr>)\<rparr>"
    have e: "ss_inject_burst R clk clk' b s = Some (res, s2)"
      using 2(1) 3(1) r o(1) by (simp add: ss_inject_burst_def Let_def co1_def s2_def)
    have "composer_inv (reset_keepalive_deadline R (clk' 3) (co3\<lparr>last_burst_at := clk' 2\<rparr>))"
      using o(2) by (intro reset_keepalive_inv) simp
    then have "shaped_inv R s2" "ss_correlator s2 = ss_correlator s1"
      using 3(2) o(3) by (simp_all add: shaped_inv_def s2_def)
    then show ?thesis using 3(3-8) e by metis
  qed
qed

section \<open>The session as a pipeline stage\<close>

datatype ss_event =
    SsInject packet nanos nanos
  | SsBurst burst "nat \<Rightarrow> nanos" "nat \<Rightarrow> nanos"
  | SsTick nanos nanos
  | SsRestart nanos nanos

fun ss_step ::
  "'r rng_ops \<Rightarrow> 'r shaped_session \<Rightarrow> ss_event \<Rightarrow> ('r shaped_session \<times> mixed_frame list) option" where
  "ss_step R s (SsInject p t1 t2) = map_option (\<lambda>(_, s'). (s', [])) (ss_inject_real R t1 t2 p s)"
| "ss_step R s (SsBurst b clk clk') = map_option (\<lambda>(_, s'). (s', [])) (ss_inject_burst R clk clk' b s)"
| "ss_step R s (SsTick t1 t2) =
     (case ss_tick R t1 t2 s of (fo, s') \<Rightarrow> Some (s', case fo of None \<Rightarrow> [] | Some f \<Rightarrow> [f]))"
| "ss_step R s (SsRestart t1 t2) = Some (ss_restart_clock R t1 t2 s, [])"

definition ss_queue :: "'r shaped_session \<Rightarrow> packet list" where
  "ss_queue s = real_queue (ss_correlator s)"

text \<open>What an event adds to the queue: the padded packets of the injection that found room.\<close>

definition ss_taken :: "'r rng_ops \<Rightarrow> 'r shaped_session \<Rightarrow> ss_event \<Rightarrow> packet list" where
  "ss_taken R s e =
     (case e of
        SsTick _ _ \<Rightarrow> []
      | SsRestart _ _ \<Rightarrow> []
      | _ \<Rightarrow> (case ss_step R s e of None \<Rightarrow> [] | Some (s', _) \<Rightarrow> drop (length (ss_queue s)) (ss_queue s')))"

definition ss_cell :: "'r shaped_session \<Rightarrow> nat" where
  "ss_cell s = tc_cell_bytes (tc_conf (ss_correlator s))"

lemma ss_tick_ok:
  assumes "shaped_inv R s" "ss_tick R t1 t2 s = (fo, s')"
  shows "shaped_inv R s'" "ss_queue s = (case fo of None \<Rightarrow> [] | Some f \<Rightarrow> frame_real f) @ ss_queue s'"
    "ss_cell s' = ss_cell s" "\<And>f. fo = Some f \<Longrightarrow> frame_len f = ss_cell s"
proof -
  have i: "tc_inv R (ss_correlator s)" "composer_inv (ss_composer s)" "rng_ok R"
    using assms(1) by (auto simp: shaped_inv_def tc_inv_def)
  have t: "tc_tick R t1 t2 (ss_correlator s) = (fo, ss_correlator s')"
    using ss_tick_frame [of R t1 t2 s] ss_tick_correlator [of R t1 t2 s] assms(2)
    by (metis fst_conv prod.collapse snd_conv)
  show "shaped_inv R s'"
    using tc_tick_fifo [OF i(1) t] ss_tick_composer [OF i(2), of R t1 t2] tc_tick_conf [OF t] assms
    by (simp add: shaped_inv_def)
  show "ss_queue s = (case fo of None \<Rightarrow> [] | Some f \<Rightarrow> frame_real f) @ ss_queue s'"
    using tc_tick_fifo [OF i(1) t] by (simp add: ss_queue_def)
  show "ss_cell s' = ss_cell s" using tc_tick_conf [OF t] by (simp add: ss_cell_def)
  show "frame_len f = ss_cell s" if "fo = Some f" for f
    using tc_tick_sized [OF i(3)] t that by (simp add: ss_cell_def)
qed

lemma ss_step_ok:
  assumes "shaped_inv R s"
  shows "\<exists>s' fs. ss_step R s e = Some (s', fs) \<and> shaped_inv R s' \<and>
    ss_queue s @ ss_taken R s e = concat (map frame_real fs) @ ss_queue s' \<and>
    ss_cell s' = ss_cell s \<and> (\<forall>f\<in>set fs. frame_len f = ss_cell s)"
proof (cases e)
  case (SsInject p t1 t2)
  show ?thesis
    using ss_inject_real_ok [OF assms, of t1 t2 p] SsInject
    by (auto simp: ss_taken_def ss_queue_def ss_cell_def split: if_splits)
next
  case (SsBurst b clk clk')
  show ?thesis
    using ss_inject_burst_ok [OF assms, of clk clk' b] SsBurst
    by (auto simp: ss_taken_def ss_queue_def ss_cell_def)
next
  case (SsTick t1 t2)
  obtain fo s' where t: "ss_tick R t1 t2 s = (fo, s')" by (cases "ss_tick R t1 t2 s")
  show ?thesis
    using ss_tick_ok [OF assms t] t SsTick by (cases fo) (auto simp: ss_taken_def)
next
  case (SsRestart t1 t2)
  then show ?thesis using assms
    by (simp add: ss_taken_def ss_restart_clock_def shaped_inv_def tc_inv_def ss_queue_def ss_cell_def)
qed

interpretation shaped: sized_stage "shaped_inv R" "\<lambda>_ _. True" "ss_step R" ss_queue "ss_taken R" frame_real
    frame_len ss_cell for R :: "'r rng_ops"
proof
  fix s :: "'r shaped_session" and e
  assume "shaped_inv R s"
  then show "\<exists>s' os. ss_step R s e = Some (s', os) \<and> shaped_inv R s' \<and>
      ss_queue s @ ss_taken R s e = concat (map frame_real os) @ ss_queue s'"
    using ss_step_ok by blast
next
  fix s s' :: "'r shaped_session" and e os
  assume "shaped_inv R s" "ss_step R s e = Some (s', os)"
  then show "ss_cell s' = ss_cell s \<and> (\<forall>x\<in>set os. frame_len x = ss_cell s)"
    using ss_step_ok [of R s e] by auto
qed

section \<open>The wire trace does not depend on the payload\<close>

text \<open>What the wire shows of a run: for every tick, whether a frame left and its size.\<close>

fun wire_trace :: "'r rng_ops \<Rightarrow> 'r shaped_session \<Rightarrow> ss_event list \<Rightarrow> nat option list" where
  "wire_trace R s [] = []"
| "wire_trace R s (e # es) =
     (case ss_step R s e of
        None \<Rightarrow> []
      | Some (s', fs) \<Rightarrow>
          (case e of
             SsTick _ _ \<Rightarrow> (case fs of [] \<Rightarrow> None | f # _ \<Rightarrow> Some (frame_len f)) # wire_trace R s' es
           | _ \<Rightarrow> wire_trace R s' es))"

fun is_clock_event :: "ss_event \<Rightarrow> bool" where
  "is_clock_event (SsTick _ _) = True"
| "is_clock_event (SsRestart _ _) = True"
| "is_clock_event _ = False"

definition fixed_rate :: "'r shaped_session \<Rightarrow> bool" where
  "fixed_rate s \<longleftrightarrow> \<not> adapt_rate (tc_conf (ss_correlator s))"

lemma payload_event_view:
  assumes "shaped_inv R s" "fixed_rate s" "\<not> is_clock_event e"
  shows "\<exists>s'. ss_step R s e = Some (s', []) \<and> shaped_inv R s' \<and> fixed_rate s' \<and>
    clock_view (ss_correlator s') = clock_view (ss_correlator s)"
proof (cases e)
  case (SsInject p t1 t2)
  then show ?thesis using ss_inject_real_ok [OF assms(1), of t1 t2 p] assms(2)
    by (auto simp: fixed_rate_def split: if_splits)
next
  case (SsBurst b clk clk')
  then show ?thesis using ss_inject_burst_ok [OF assms(1), of clk clk' b] assms(2)
    by (auto simp: fixed_rate_def)
qed (use assms(3) in simp_all)

lemma wire_trace_payload:
  assumes "shaped_inv R s" "fixed_rate s" "\<not> is_clock_event e"
  shows "\<exists>s'. wire_trace R s (e # es) = wire_trace R s' es \<and> shaped_inv R s' \<and> fixed_rate s' \<and>
    clock_view (ss_correlator s') = clock_view (ss_correlator s)"
  using payload_event_view [OF assms] assms(3) by (cases e) auto

lemma clock_event_view:
  assumes "shaped_inv R s" "shaped_inv R s'" "fixed_rate s"
    "clock_view (ss_correlator s) = clock_view (ss_correlator s')" "is_clock_event e"
  shows "\<exists>u u' fs fs'. ss_step R s e = Some (u, fs) \<and> ss_step R s' e = Some (u', fs') \<and>
    shaped_inv R u \<and> shaped_inv R u' \<and> fixed_rate u \<and>
    clock_view (ss_correlator u) = clock_view (ss_correlator u') \<and>
    map frame_len fs = map frame_len fs'"
proof (cases e)
  case (SsTick t1 t2)
  obtain fo u where u: "ss_tick R t1 t2 s = (fo, u)" by (cases "ss_tick R t1 t2 s")
  obtain fo' u' where u': "ss_tick R t1 t2 s' = (fo', u')" by (cases "ss_tick R t1 t2 s'")
  have i: "tc_inv R (ss_correlator s)" "tc_inv R (ss_correlator s')"
    using assms(1,2) by (simp_all add: shaped_inv_def)
  have v: "clock_view (ss_correlator u) = clock_view (ss_correlator u')" "fo = None \<longleftrightarrow> fo' = None"
    using tc_tick_view [OF i assms(4), of t1 t2] ss_tick_correlator [of R t1 t2] ss_tick_frame [of R t1 t2] u u'
    by (metis snd_conv) (metis tc_tick_view(2) [OF i assms(4), of t1 t2] ss_tick_frame u u' fst_conv)
  have c: "ss_cell s = ss_cell s'" using assms(4) by (simp add: clock_view_def ss_cell_def)
  have fr: "fixed_rate u"
    using tc_tick_conf [of R t1 t2 "ss_correlator s"] ss_tick_correlator [of R t1 t2 s] u assms(3)
    by (metis fixed_rate_def prod.collapse snd_conv)
  show ?thesis
    using ss_tick_ok [OF assms(1) u] ss_tick_ok [OF assms(2) u'] u u' v c fr SsTick
    by (cases fo; cases fo') auto
next
  case (SsRestart t1 t2)
  then show ?thesis using assms restart_view [OF assms(4), of R t1 t2]
    by (simp add: ss_restart_clock_def shaped_inv_def tc_inv_def fixed_rate_def)
qed (use assms(5) in simp_all)

lemma wire_trace_independent:
  assumes "shaped_inv R s" "shaped_inv R s'" "fixed_rate s"
    "clock_view (ss_correlator s) = clock_view (ss_correlator s')"
    "filter is_clock_event es = filter is_clock_event es'"
  shows "wire_trace R s es = wire_trace R s' es'"
  using assms
proof (induction "length es + length es'" arbitrary: s s' es es' rule: less_induct)
  case less
  have fr': "fixed_rate s'" using less.prems(3,4) by (simp add: fixed_rate_def clock_view_def)
  consider (left) e rest where "es = e # rest" "\<not> is_clock_event e"
    | (right) e rest where "es' = e # rest" "\<not> is_clock_event e"
    | (both) e rest rest' where "es = e # rest" "es' = e # rest'" "is_clock_event e"
    | (empty) "es = []" "es' = []"
    using less.prems(5)
    by (cases es; cases es') (auto split: if_splits)
  then show ?case
  proof cases
    case left
    obtain u where "wire_trace R s es = wire_trace R u rest" "shaped_inv R u" "fixed_rate u"
        "clock_view (ss_correlator u) = clock_view (ss_correlator s)"
      using wire_trace_payload [OF less.prems(1,3) left(2)] left(1) by blast
    then show ?thesis using less.hyps [of rest es' u s'] less.prems left by simp
  next
    case right
    obtain u where "wire_trace R s' es' = wire_trace R u rest" "shaped_inv R u" "fixed_rate u"
        "clock_view (ss_correlator u) = clock_view (ss_correlator s')"
      using wire_trace_payload [OF less.prems(2) fr' right(2)] right(1) by blast
    then show ?thesis using less.hyps [of es rest s u] less.prems right by simp
  next
    case both
    obtain u u' fs fs' where v: "ss_step R s e = Some (u, fs)" "ss_step R s' e = Some (u', fs')"
      "shaped_inv R u" "shaped_inv R u'" "fixed_rate u"
      "clock_view (ss_correlator u) = clock_view (ss_correlator u')" "map frame_len fs = map frame_len fs'"
      using clock_event_view [OF less.prems(1-4) both(3)] by blast
    have "wire_trace R u rest = wire_trace R u' rest'"
      using less.hyps [of rest rest' u u'] less.prems(5) both v by simp
    then show ?thesis using both v by (cases e; cases fs; cases fs') auto
  next
    case empty
    then show ?thesis by simp
  qed
qed

end
