(* ===== verification/Cells.thy ===== *)
theory Cells
  imports Prelude
begin

text \<open>
  The cell format of \<open>src/src/transport.rs\<close>: every frame carries one 514-byte cell, a real cell
  holding a stream identifier and a length (both 16-bit big-endian), the payload and random
  padding. The readers of the transport cut what they read into payloads with \<open>chunks\<close> of the
  standard library and end a stream with a cell of length 0.
\<close>

section \<open>Constants and big-endian words\<close>

definition CELL_BYTES :: nat where
  "CELL_BYTES = 514"

definition CELL_HEADER :: nat where
  "CELL_HEADER = 4"

definition CELL_PAYLOAD :: nat where
  "CELL_PAYLOAD = CELL_BYTES - CELL_HEADER"

definition STREAM_ID_SINGLE :: u16 where
  "STREAM_ID_SINGLE = 0"

definition DEFAULT_MAX_FRAME_LEN :: nat where
  "DEFAULT_MAX_FRAME_LEN = 64 * 1024"

definition u16_to_be :: "u16 \<Rightarrow> bytes" where
  "u16_to_be w = [ucast (drop_bit 8 w), ucast w]"

definition u16_from_be :: "byte \<Rightarrow> byte \<Rightarrow> u16" where
  "u16_from_be a b = push_bit 8 (ucast a) + ucast b"

lemma length_u16_to_be [simp]: "length (u16_to_be w) = 2"
  by (simp add: u16_to_be_def)

lemma unat_u16_from_be: "unat (u16_from_be a b) = 256 * unat a + unat b"
proof -
  have a: "unat a < 256" and b: "unat b < 256"
    using unsigned_less [of a, where ?'a = nat] unsigned_less [of b, where ?'a = nat] by simp_all
  have ca: "unat (ucast a :: u16) = unat a" and cb: "unat (ucast b :: u16) = unat b"
    using a b by (simp_all add: unsigned_ucast_eq take_bit_eq_mod)
  have p: "unat (push_bit 8 (ucast a :: u16)) = 256 * unat a"
    using a by (simp add: ca push_bit_eq_mult unat_word_ariths)
  show ?thesis
    using a b by (simp add: u16_from_be_def unat_word_ariths p cb)
qed

lemma u16_be_roundtrip [simp]: "u16_from_be (ucast (drop_bit 8 w)) (ucast w) = (w :: u16)"
proof -
  have w: "unat w < 65536" using unsigned_less [of w, where ?'a = nat] by simp
  have "unat (ucast (drop_bit 8 w) :: byte) = unat w div 256"
    using w by (simp add: unsigned_ucast_eq take_bit_eq_mod drop_bit_eq_div unat_div less_mult_imp_div_less)
  moreover have "unat (ucast w :: byte) = unat w mod 256"
    by (simp add: unsigned_ucast_eq take_bit_eq_mod)
  ultimately have "unat (u16_from_be (ucast (drop_bit 8 w)) (ucast w)) = unat w"
    by (simp add: unat_u16_from_be)
  then show ?thesis by (simp add: word_unat_eq_iff)
qed

section \<open>Encoding and decoding\<close>

definition encode_real_cell :: "'r rng_ops \<Rightarrow> u16 \<Rightarrow> bytes \<Rightarrow> 'r \<Rightarrow> bytes \<times> 'r" where
  "encode_real_cell R stream_id data r =
     (let n = min (length data) CELL_PAYLOAD;
          (pad, r') = fill_bytes R r (CELL_BYTES - (4 + n))
      in (u16_to_be stream_id @ u16_to_be (of_nat n) @ take n data @ pad, r'))"

definition encode_close_cell :: "'r rng_ops \<Rightarrow> u16 \<Rightarrow> 'r \<Rightarrow> bytes \<times> 'r" where
  "encode_close_cell R stream_id r =
     (let (pad, r') = fill_bytes R r (CELL_BYTES - 4)
      in (u16_to_be stream_id @ [0, 0] @ pad, r'))"

definition decode_real_cell :: "bytes \<Rightarrow> u16 \<times> bytes" where
  "decode_real_cell cell =
     (if length cell < CELL_HEADER then (0, [])
      else let stream_id = u16_from_be (cell ! 0) (cell ! 1);
               n = unat (u16_from_be (cell ! 2) (cell ! 3));
               e = min (CELL_HEADER + n) (length cell)
           in (stream_id, drop CELL_HEADER (take e cell)))"

text \<open>\<open>chunks(n)\<close> of a slice: pieces of \<open>n\<close> elements, the last one possibly shorter. The
  standard library panics for \<open>n = 0\<close>; the code calls it with \<open>CELL_PAYLOAD\<close>.\<close>

function chunks :: "nat \<Rightarrow> 'a list \<Rightarrow> 'a list list" where
  "chunks n xs = (if xs = [] \<or> n = 0 then [] else take n xs # chunks n (drop n xs))"
  by pat_completeness auto
termination
  by (relation "measure (\<lambda>(n, xs). length xs)") auto

declare chunks.simps [simp del]

lemma chunks_Nil [simp]: "chunks n [] = []"
  by (simp add: chunks.simps)

lemma chunks_props:
  "0 < n \<Longrightarrow> concat (chunks n xs) = xs \<and> (\<forall>c\<in>set (chunks n xs). c \<noteq> [] \<and> length c \<le> n)"
proof (induction n xs rule: chunks.induct)
  case (1 n xs)
  then show ?case by (cases "xs = []") (auto simp: chunks.simps [of n xs])
qed

lemma concat_chunks [simp]: "0 < n \<Longrightarrow> concat (chunks n xs) = xs"
  using chunks_props by blast

lemma CELL_PAYLOAD_val [simp]: "CELL_PAYLOAD = 510"
  by (simp add: CELL_PAYLOAD_def CELL_BYTES_def CELL_HEADER_def)

lemma decode_real_cell_frame:
  assumes "length rest + 4 = CELL_BYTES" "unat n \<le> length rest"
  shows "decode_real_cell (u16_to_be sid @ u16_to_be n @ rest) = (sid, take (unat n) rest)"
proof -
  let ?c = "u16_to_be sid @ u16_to_be n @ rest"
  have len: "length ?c = 514" using assms(1) by (simp add: CELL_BYTES_def)
  have h: "?c ! 0 = ucast (drop_bit 8 sid)" "?c ! 1 = ucast sid"
      "?c ! 2 = ucast (drop_bit 8 n)" "?c ! 3 = ucast n"
    by (simp_all add: u16_to_be_def numeral_eq_Suc)
  have t: "drop 4 (take (4 + unat n) ?c) = take (unat n) rest"
    by (simp add: u16_to_be_def drop_take numeral_eq_Suc)
  have "min (4 + unat n) (length ?c) = 4 + unat n"
    using assms len by (simp add: CELL_BYTES_def)
  then show ?thesis
    using len t by (simp only: decode_real_cell_def h CELL_HEADER_def Let_def u16_be_roundtrip) simp
qed

lemma encode_real_cell_length:
  assumes "rng_ok R" "encode_real_cell R sid data r = (cell, r')"
  shows "length cell = CELL_BYTES"
  using assms by (auto simp: encode_real_cell_def Let_def CELL_BYTES_def
      split: prod.splits dest!: rng_ok_fill)

lemma encode_close_cell_length:
  assumes "rng_ok R" "encode_close_cell R sid r = (cell, r')"
  shows "length cell = CELL_BYTES"
  using assms by (auto simp: encode_close_cell_def Let_def CELL_BYTES_def
      split: prod.splits dest!: rng_ok_fill)

lemma decode_encode_real_cell:
  assumes "rng_ok R" "encode_real_cell R sid data r = (cell, r')"
  shows "decode_real_cell cell = (sid, take CELL_PAYLOAD data)"
proof -
  define n where "n = min (length data) CELL_PAYLOAD"
  have n: "n \<le> 510" "n \<le> length data" by (simp_all add: n_def)
  obtain pad where p: "cell = u16_to_be sid @ u16_to_be (of_nat n) @ take n data @ pad"
      and pl: "length pad = CELL_BYTES - (4 + n)"
    using assms(2) rng_ok_fill [OF assms(1), of r "CELL_BYTES - (4 + n)"]
    by (auto simp only: encode_real_cell_def Let_def n_def [symmetric] split: prod.splits)
  have un: "unat (of_nat n :: u16) = n" using n by (simp add: unat_of_nat)
  have "length (take n data @ pad) + 4 = CELL_BYTES" using pl n by (simp add: CELL_BYTES_def)
  from decode_real_cell_frame [OF this, of "of_nat n" sid]
  have "decode_real_cell cell = (sid, take n data)" using n by (simp add: p un)
  then show ?thesis by (simp add: n_def min_def)
qed

lemma decode_encode_close_cell:
  assumes "rng_ok R" "encode_close_cell R sid r = (cell, r')"
  shows "decode_real_cell cell = (sid, [])"
proof -
  obtain pad where p: "cell = u16_to_be sid @ [0, 0] @ pad" and pl: "length pad = CELL_BYTES - 4"
    using assms by (auto simp: encode_close_cell_def split: prod.splits dest!: rng_ok_fill)
  have z: "u16_to_be 0 = [0, 0]" by (simp add: u16_to_be_def)
  have "length pad + 4 = CELL_BYTES" using pl by (simp add: CELL_BYTES_def)
  from decode_real_cell_frame [OF this, of 0 sid] show ?thesis by (simp add: p z)
qed

section \<open>What the readers send\<close>

text \<open>
  The body of every reader loop (\<open>shaped_forward\<close>, \<open>bridge_stream_reader\<close>, \<open>mux_tor_reader\<close>):
  one read is cut into payloads and each is encoded with the reader's padding generator.
\<close>

fun encode_chunks :: "'r rng_ops \<Rightarrow> u16 \<Rightarrow> bytes list \<Rightarrow> 'r \<Rightarrow> bytes list \<times> 'r" where
  "encode_chunks R sid [] r = ([], r)"
| "encode_chunks R sid (c # cs) r =
     (let (cell, r1) = encode_real_cell R sid c r; (cells, r2) = encode_chunks R sid cs r1
      in (cell # cells, r2))"

definition encode_read :: "'r rng_ops \<Rightarrow> u16 \<Rightarrow> bytes \<Rightarrow> 'r \<Rightarrow> bytes list \<times> 'r" where
  "encode_read R sid buf r = encode_chunks R sid (chunks CELL_PAYLOAD buf) r"

lemma encode_chunks_decode:
  assumes "rng_ok R" "encode_chunks R sid cs r = (cells, r')" "\<forall>c\<in>set cs. length c \<le> CELL_PAYLOAD"
  shows "map decode_real_cell cells = map (Pair sid) cs \<and> (\<forall>c\<in>set cells. length c = CELL_BYTES)"
  using assms(2,3)
proof (induction cs arbitrary: r cells)
  case Nil
  then show ?case by simp
next
  case (Cons c cs)
  then obtain cell r1 cells' where 1: "encode_real_cell R sid c r = (cell, r1)"
      "encode_chunks R sid cs r1 = (cells', r')" "cells = cell # cells'"
    by (auto split: prod.splits)
  have "decode_real_cell cell = (sid, c)"
    using decode_encode_real_cell [OF assms(1) 1(1)] Cons.prems(2) by simp
  with Cons.IH [OF 1(2)] Cons.prems(2) 1(3) encode_real_cell_length [OF assms(1) 1(1)]
  show ?case by simp
qed

lemma encode_read_decode:
  assumes "rng_ok R" "encode_read R sid buf r = (cells, r')"
  shows "concat (map (snd \<circ> decode_real_cell) cells) = buf"
    and "\<forall>c\<in>set cells. fst (decode_real_cell c) = sid \<and> snd (decode_real_cell c) \<noteq> [] \<and>
           length c = CELL_BYTES"
proof -
  have ch: "concat (chunks CELL_PAYLOAD buf) = buf"
      "\<forall>c\<in>set (chunks CELL_PAYLOAD buf). c \<noteq> [] \<and> length c \<le> CELL_PAYLOAD"
    using chunks_props [of CELL_PAYLOAD buf] by simp_all
  have d: "map decode_real_cell cells = map (Pair sid) (chunks CELL_PAYLOAD buf)"
      "\<forall>c\<in>set cells. length c = CELL_BYTES"
    using encode_chunks_decode [OF assms(1) assms(2)[unfolded encode_read_def]] ch(2) by blast+
  have "map (snd \<circ> decode_real_cell) cells = map snd (map decode_real_cell cells)" by simp
  also have "\<dots> = chunks CELL_PAYLOAD buf" unfolding d(1) by (simp add: comp_def)
  finally show "concat (map (snd \<circ> decode_real_cell) cells) = buf" using ch(1) by simp
  have "decode_real_cell c \<in> set (map (Pair sid) (chunks CELL_PAYLOAD buf))" if "c \<in> set cells" for c
    using that unfolding d(1) [symmetric] by simp
  then show "\<forall>c\<in>set cells. fst (decode_real_cell c) = sid \<and> snd (decode_real_cell c) \<noteq> [] \<and>
           length c = CELL_BYTES"
    using ch(2) d(2) by fastforce
qed

section \<open>Properties\<close>

text \<open>What a stream reader puts into cells comes out of them. Whatever bytes one read returned, its
  cells all have the fixed cell size, carry the id of the stream and decode to non-empty pieces whose
  concatenation is exactly what was read; so no data cell can be mistaken for the close cell, which
  decodes to an empty payload of the same stream.\<close>
theorem cells_roundtrip:
  assumes "rng_ok R" "encode_read R sid buf r = (cells, r')" "encode_close_cell R sid r' = (close, r'')"
  shows "concat (map (\<lambda>c. snd (decode_real_cell c)) cells) = buf \<and>
    (\<forall>c\<in>set cells. fst (decode_real_cell c) = sid \<and> snd (decode_real_cell c) \<noteq> [] \<and> length c = CELL_BYTES) \<and>
    decode_real_cell close = (sid, []) \<and> length close = CELL_BYTES"
  using encode_read_decode [OF assms(1,2)] decode_encode_close_cell [OF assms(1,3)]
    encode_close_cell_length [OF assms(1,3)]
  by (simp add: comp_def)

theorem cells_roundtrip_witness:
  "concat (map (\<lambda>c. snd (decode_real_cell c)) (fst (encode_read lcg 7 (replicate 1200 65) 3))) = replicate 1200 65"
  using cells_roundtrip [OF lcg_ok surjective_pairing [of "encode_read lcg 7 (replicate 1200 65) 3"]
      surjective_pairing [of "encode_close_cell lcg 7 (snd (encode_read lcg 7 (replicate 1200 65) 3))"]]
  by blast

end
