(* ===== verification/Tail.thy ===== *)
theory Tail
  imports Strings Session Cells
begin

text \<open>
  The tail policy of \<open>src/src/transport.rs\<close>: the epoch clock, the parser of \<open>MIXTOR_TAIL_FLOOR_MS\<close>,
  the deadline and volume a closing flow must reach, and the configuration of a flow's shaped
  session. The lemmas say that a boundary lies after the instant it is asked for, that flows of one
  epoch share it, and that every deadline respects the floor of the session's class.
\<close>

section \<open>The epoch clock\<close>

definition TAIL_VOLUME_QUANTUM_CELLS :: nat where
  "TAIL_VOLUME_QUANTUM_CELLS = 256"

definition DEFAULT_EPOCH_DURATION :: nanos where
  "DEFAULT_EPOCH_DURATION = 5 * 1000000000"

record epoch_clock =
  ec_origin :: nanos
  ec_period :: nanos

definition epoch_clock_new :: "nanos \<Rightarrow> nanos \<Rightarrow> epoch_clock" where
  "epoch_clock_new now period = \<lparr>ec_origin = now, ec_period = period\<rparr>"

definition next_boundary :: "epoch_clock \<Rightarrow> nanos \<Rightarrow> nanos" where
  "next_boundary clock now =
     (let elapsed_ns = now - ec_origin clock; period_ns = ec_period clock
      in if period_ns = 0 then now
         else let next_ns = (elapsed_ns div period_ns + 1) * period_ns
              in ec_origin clock + trunc64 next_ns)"

section \<open>The policy\<close>

datatype tail_policy =
    TailOff
  | TailFixed nanos
  | TailByClass
  | TailEpoch epoch_clock

definition eq_ignore_ascii_case :: "rstr \<Rightarrow> rstr \<Rightarrow> bool" where
  "eq_ignore_ascii_case a b \<longleftrightarrow> ascii_lower a = ascii_lower b"

text \<open>
  The argument is the value of the variable, if it is set to valid Unicode, and the reading of the
  clock a new epoch clock would start from. The outer \<open>None\<close> is the panic of \<open>v[..6]\<close> on a value
  whose sixth byte is inside a character.
\<close>

definition tail_from_env :: "rstr option \<Rightarrow> nanos \<Rightarrow> tail_policy option option" where
  "tail_from_env var now =
     (case var of
        None \<Rightarrow> Some None
      | Some v \<Rightarrow>
          if eq_ignore_ascii_case v (str_of ''epoch'') then
            Some (Some (TailEpoch (epoch_clock_new now DEFAULT_EPOCH_DURATION)))
          else
            let rest = (if eq_ignore_ascii_case v (str_of ''class'') then Some TailByClass
                        else if eq_ignore_ascii_case v (str_of ''off'') \<or> eq_ignore_ascii_case v (str_of ''none'')
                        then Some TailOff
                        else case parse_uint 10 u64_max v of
                          Some ms \<Rightarrow> if ms = 0 then Some TailOff else Some (TailFixed (ms * 1000000))
                        | None \<Rightarrow> None)
            in if 6 < str_len v then
                 (case str_split_at 6 v of
                    None \<Rightarrow> None
                  | Some (l, r) \<Rightarrow>
                      if eq_ignore_ascii_case l (str_of ''epoch:'') then
                        Some (case parse_uint 10 u64_max r of
                                None \<Rightarrow> None
                              | Some ms \<Rightarrow> Some (TailEpoch (epoch_clock_new now (ms * 1000000))))
                      else Some rest)
               else Some rest)"

definition tail_from_env_or :: "rstr option \<Rightarrow> nanos \<Rightarrow> tail_policy \<Rightarrow> tail_policy option" where
  "tail_from_env_or var now d = map_option (\<lambda>p. or_else p d) (tail_from_env var now)"

definition default_for_production :: "rstr option \<Rightarrow> nanos \<Rightarrow> nanos \<Rightarrow> tail_policy option" where
  "default_for_production var now now' =
     map_option (\<lambda>p. or_else p (TailEpoch (epoch_clock_new now' DEFAULT_EPOCH_DURATION))) (tail_from_env var now)"

definition class_targets_fuzzy :: "nat \<Rightarrow> fuzzed_thresholds \<Rightarrow> nanos \<times> nat" where
  "class_targets_fuzzy nbytes th =
     (let c = classify th nbytes
      in (target_duration c, target_volume_bytes c div CELL_BYTES))"

definition tail_targets ::
  "nat \<Rightarrow> nat \<Rightarrow> tail_policy \<Rightarrow> fuzzed_thresholds \<Rightarrow> nanos \<Rightarrow> nanos \<Rightarrow> (nanos \<times> nat) option" where
  "tail_targets nbytes wire_seq policy th session_start now =
     (case policy of
        TailOff \<Rightarrow> None
      | TailFixed d \<Rightarrow>
          let q = TAIL_VOLUME_QUANTUM_CELLS; vol = sat_add wire_seq (q - 1) div q * q
          in Some (session_start + d, vol)
      | TailByClass \<Rightarrow>
          let (floor, vol) = class_targets_fuzzy nbytes th in Some (session_start + floor, vol)
      | TailEpoch clock \<Rightarrow>
          let (floor, _) = class_targets_fuzzy nbytes th;
              min_deadline = session_start + floor;
              anchor = (if min_deadline > now then min_deadline else now)
          in Some (next_boundary clock anchor, 0))"

section \<open>The session of a flow\<close>

definition JITTER_IAT_MIN_MS :: real where "JITTER_IAT_MIN_MS = 5 / 2"
definition JITTER_IAT_MAX_MS :: real where "JITTER_IAT_MAX_MS = 5"

definition shaped_composition_config :: "real \<Rightarrow> composition_config" where
  "shaped_composition_config iat_ms =
     composition_default\<lparr>cc_cell_bytes := Some CELL_BYTES, clock_adapt_rate := Some False,
       clock_ema_alpha := Some (5 / 100), clock_min_iat_ms := Some 1,
       clock_initial_iat_ms := Some iat_ms, clock_max_iat_ms := Some 60,
       clock_min_dummy_fraction := Some (12 / 100)\<rparr>"

section \<open>Lemmas\<close>

text \<open>Boundaries are computed in 64-bit nanoseconds, which last 584 years.\<close>

lemma next_boundary_props:
  assumes "0 < ec_period c" "ec_origin c \<le> now" "now - ec_origin c + ec_period c \<le> u64_max"
  shows "now < next_boundary c now" "next_boundary c now \<le> now + ec_period c"
    "(next_boundary c now - ec_origin c) mod ec_period c = 0" "ec_origin c \<le> next_boundary c now"
proof -
  let ?e = "now - ec_origin c" and ?p = "ec_period c"
  have d: "?e div ?p * ?p \<le> ?e" by (rule div_times_less_eq_dividend)
  have "?e < ?e div ?p * ?p + ?p"
    using div_mult_mod_eq [of ?e ?p] mod_less_divisor [OF assms(1), of ?e] by linarith
  then have lt: "?e < (?e div ?p + 1) * ?p" by (simp add: add_mult_distrib)
  have le: "(?e div ?p + 1) * ?p \<le> ?e + ?p" using d by (simp add: add_mult_distrib)
  then have t: "trunc64 ((?e div ?p + 1) * ?p) = (?e div ?p + 1) * ?p"
    using assms(3) by (intro trunc64_id) linarith
  have nb: "next_boundary c now = ec_origin c + (?e div ?p + 1) * ?p"
    using assms(1) t by (simp add: next_boundary_def Let_def)
  show "now < next_boundary c now" using lt assms(2) nb by linarith
  show "next_boundary c now \<le> now + ?p" using le assms(2) nb by linarith
  show "(next_boundary c now - ec_origin c) mod ?p = 0" by (simp add: nb)
  show "ec_origin c \<le> next_boundary c now" by (simp add: nb)
qed

lemma next_boundary_same_epoch:
  assumes "(a - ec_origin c) div ec_period c = (b - ec_origin c) div ec_period c" "0 < ec_period c"
  shows "next_boundary c a = next_boundary c b"
  using assms by (simp add: next_boundary_def Let_def)

lemma class_floor: "30 * 1000000000 \<le> fst (class_targets_fuzzy n th)"
  by (cases "classify th n") (simp_all add: class_targets_fuzzy_def)

lemma quantum_volume:
  assumes "n + 255 \<le> u64_max"
  shows "n \<le> sat_add n 255 div 256 * 256" "sat_add n 255 div 256 * 256 < n + 256"
proof -
  have s: "sat_add n 255 = n + 255" using assms by (rule sat_add_exact)
  show "n \<le> sat_add n 255 div 256 * 256" "sat_add n 255 div 256 * 256 < n + 256"
    using div_mult_mod_eq [of "n + 255" 256] mod_less_divisor [of 256 "n + 255"] unfolding s by linarith+
qed

lemma shaped_config_ok:
  assumes "0 < iat_ms"
  shows "comp_cfg_ok (shaped_composition_config iat_ms)"
    "cc_cell_bytes (shaped_composition_config iat_ms) = Some CELL_BYTES"
    "tc_valid (shaped_tc_config CELL_BYTES (shaped_composition_config iat_ms))"
    "\<not> adapt_rate (shaped_tc_config CELL_BYTES (shaped_composition_config iat_ms))"
    "max_queue_depth (shaped_tc_config CELL_BYTES (shaped_composition_config iat_ms)) = 128"
  using assms
  by (simp_all add: shaped_composition_config_def composition_default_def comp_cfg_ok_def
      composition_valid_def dp_default_def dp_valid_def shaped_tc_config_def tc_valid_def or_else_def
      CELL_BYTES_def)

text \<open>Times within the 584 years that 64-bit nanoseconds can hold.\<close>

definition policy_adm :: "tail_policy \<Rightarrow> nanos \<Rightarrow> nanos \<Rightarrow> bool" where
  "policy_adm p start now \<longleftrightarrow>
     (case p of
        TailEpoch c \<Rightarrow> 0 < ec_period c \<and> ec_origin c \<le> start \<and>
          max (start + 7200 * 1000000000) now - ec_origin c + ec_period c \<le> u64_max
      | _ \<Rightarrow> True)"

lemma class_floor_le: "fst (class_targets_fuzzy n th) \<le> 7200 * 1000000000"
  by (cases "classify th n") (simp_all add: class_targets_fuzzy_def)

section \<open>Properties\<close>

text \<open>The epoch grid. With a non-zero period and readings within 64-bit nanoseconds the next boundary is
  strictly in the future, at most one period away and a whole number of periods after the origin; two
  readings in the same epoch get the same boundary, so everything gated on it moves at one instant.
  With a period of zero the boundary is the reading itself, not a later instant as documented.\<close>
theorem epoch_grid:
  "(\<forall>c now. 0 < ec_period c \<and> ec_origin c \<le> now \<and> now - ec_origin c + ec_period c \<le> u64_max \<longrightarrow>
      now < next_boundary c now \<and> next_boundary c now \<le> now + ec_period c \<and>
      (next_boundary c now - ec_origin c) mod ec_period c = 0) \<and>
   (\<forall>c a b. 0 < ec_period c \<and> (a - ec_origin c) div ec_period c = (b - ec_origin c) div ec_period c \<longrightarrow>
      next_boundary c a = next_boundary c b) \<and>
   next_boundary (epoch_clock_new 5 0) 9 = 9"
proof (intro conjI)
  show "next_boundary (epoch_clock_new 5 0) 9 = 9" by (simp add: next_boundary_def epoch_clock_new_def)
qed (use next_boundary_props next_boundary_same_epoch in blast)+

theorem epoch_grid_witness:
  "9 < next_boundary (epoch_clock_new 5 100) 9 \<and> next_boundary (epoch_clock_new 5 100) 9 = next_boundary (epoch_clock_new 5 100) 77"
  using epoch_grid by (auto simp: epoch_clock_new_def u64_max_def)

text \<open>The tail a flow is given when its reader ends. Switched off, there is none; a fixed tail keeps the
  wire up for that time and rounds the volume up to the next multiple of 256 cells; by class, the
  wire stays up at least the class duration (30 s or more) and carries the class volume; by epoch, it
  closes on a grid boundary that is after both the class floor and the present, with no volume
  target.\<close>
theorem tail_of_policy:
  "tail_targets n seq TailOff th start now = None \<and>
   (seq + 255 \<le> u64_max \<longrightarrow> (\<exists>v. tail_targets n seq (TailFixed d) th start now = Some (start + d, v) \<and>
      seq \<le> v \<and> v < seq + 256 \<and> v mod 256 = 0)) \<and>
   (\<exists>d' v. tail_targets n seq TailByClass th start now = Some (d', v) \<and> start + 30 * 1000000000 \<le> d' \<and>
      d' = start + target_duration (classify th n) \<and> v = target_volume_bytes (classify th n) div 514) \<and>
   (policy_adm (TailEpoch c) start now \<longrightarrow> (\<exists>b. tail_targets n seq (TailEpoch c) th start now = Some (b, 0) \<and>
      start + target_duration (classify th n) < b \<and> now < b \<and> (b - ec_origin c) mod ec_period c = 0))"
proof (intro conjI impI)
  show "tail_targets n seq TailOff th start now = None" by (simp add: tail_targets_def)
next
  assume "seq + 255 \<le> u64_max"
  from quantum_volume [OF this]
  show "\<exists>v. tail_targets n seq (TailFixed d) th start now = Some (start + d, v) \<and> seq \<le> v \<and> v < seq + 256 \<and> v mod 256 = 0"
    by (simp add: tail_targets_def TAIL_VOLUME_QUANTUM_CELLS_def)
next
  show "\<exists>d' v. tail_targets n seq TailByClass th start now = Some (d', v) \<and> start + 30 * 1000000000 \<le> d' \<and>
      d' = start + target_duration (classify th n) \<and> v = target_volume_bytes (classify th n) div 514"
    using class_floor [of n th] by (simp add: tail_targets_def class_targets_fuzzy_def Let_def CELL_BYTES_def)
next
  assume a: "policy_adm (TailEpoch c) start now"
  let ?floor = "start + target_duration (classify th n)"
  let ?anchor = "if ?floor > now then ?floor else now"
  have fl: "?floor \<le> start + 7200 * 1000000000" using class_floor_le [of n th] by (simp add: class_targets_fuzzy_def Let_def)
  have "0 < ec_period c" "ec_origin c \<le> ?anchor" "?anchor - ec_origin c + ec_period c \<le> u64_max"
    using a fl by (auto simp: policy_adm_def max_def split: if_splits)
  from next_boundary_props [OF this]
  show "\<exists>b. tail_targets n seq (TailEpoch c) th start now = Some (b, 0) \<and> ?floor < b \<and> now < b \<and>
      (b - ec_origin c) mod ec_period c = 0"
    by (auto simp: tail_targets_def class_targets_fuzzy_def Let_def split: if_splits)
qed

theorem tail_of_policy_witness:
  "\<exists>b. tail_targets 100 7 (TailEpoch (epoch_clock_new 0 60000000000)) \<lparr>short_max = 65536, medium_max = 1048576, long_max = 16777216\<rparr>
      10 20 = Some (b, 0) \<and> 30000000010 < b \<and> b mod 60000000000 = 0"
proof -
  have "policy_adm (TailEpoch (epoch_clock_new 0 60000000000)) 10 20"
    by (simp add: policy_adm_def epoch_clock_new_def u64_max_def)
  then show ?thesis
    using tail_of_policy [of 100 7 "\<lparr>short_max = 65536, medium_max = 1048576, long_max = 16777216\<rparr>" 10 20 0
        "epoch_clock_new 0 60000000000"]
    by (auto simp: epoch_clock_new_def classify_def)
qed

text \<open>The policy read from the environment. Unset or not a policy, the production default is one-minute
  epochs; \<open>off\<close>, \<open>none\<close> and \<open>0\<close> switch the tail off and \<open>class\<close> selects the class floor, in any
  letter case. But a value whose sixth byte is inside a character makes the process panic.\<close>
theorem policy_from_env:
  "default_for_production None t0 t1 = Some (TailEpoch (epoch_clock_new t1 DEFAULT_EPOCH_DURATION)) \<and>
   default_for_production (Some (str_of ''bogus'')) t0 t1 = Some (TailEpoch (epoch_clock_new t1 DEFAULT_EPOCH_DURATION)) \<and>
   default_for_production (Some (str_of ''OFF'')) t0 t1 = Some TailOff \<and>
   default_for_production (Some (str_of ''none'')) t0 t1 = Some TailOff \<and>
   default_for_production (Some (str_of ''0'')) t0 t1 = Some TailOff \<and>
   default_for_production (Some (str_of ''Class'')) t0 t1 = Some TailByClass \<and>
   default_for_production (Some (str_of ''1500'')) t0 t1 = Some (TailFixed 1500000000) \<and>
   default_for_production (Some (str_of ''epoch:250'')) t0 t1 = Some (TailEpoch (epoch_clock_new t0 250000000)) \<and>
   default_for_production (Some [97, 8364, 8364, 8364]) t0 t1 = None"
  by (simp add: default_for_production_def tail_from_env_def eq_ignore_ascii_case_def ascii_lower_def str_of_def
      str_len_def utf8_len_def str_split_at.simps parse_uint_def to_digit_def or_else_def u64_max_def Let_def)

end
