(* ===== verification/Crypto.thy ===== *)
theory Crypto
  imports Strings
begin

text \<open>
  \<open>src/src/crypto.rs\<close>: the identity keys and their hex form, the frame cipher, and the handshake.
  The primitives come from vetted crates and are the fields of \<open>crypto_ops\<close>; \<open>crypto_ok\<close> states
  the documented behaviour the code relies on: output lengths, that decryption inverts encryption
  and accepts nothing else, and that the two sides of a Diffie-Hellman exchange agree. The lemmas
  state the lockstep of two ciphers, the framing of handshake messages however the network cuts
  them, the silence of the server, and that the two roles derive matching keys. Zeroization of
  secrets, and that comparisons take constant time, are not modelled.
\<close>

section \<open>Primitives\<close>

record crypto_ops =
  keyed_hash :: "bytes \<Rightarrow> bytes \<Rightarrow> bytes"
  derive_key :: "string \<Rightarrow> bytes \<Rightarrow> bytes"
  aead_seal :: "bytes \<Rightarrow> bytes \<Rightarrow> bytes \<Rightarrow> bytes"
  aead_open :: "bytes \<Rightarrow> bytes \<Rightarrow> bytes \<Rightarrow> bytes option"
  public_key :: "bytes \<Rightarrow> bytes"
  to_representative :: "bytes \<Rightarrow> byte \<Rightarrow> bytes option"
  from_representative :: "bytes \<Rightarrow> bytes option"
  mul_clamped :: "bytes \<Rightarrow> bytes \<Rightarrow> bytes"

definition aead_ok :: "crypto_ops \<Rightarrow> bool" where
  "aead_ok C \<longleftrightarrow>
     (\<forall>k n pt. length (aead_seal C k n pt) = length pt + 16) \<and>
     (\<forall>k n pt. aead_open C k n (aead_seal C k n pt) = Some pt) \<and>
     (\<forall>k n ct pt. aead_open C k n ct = Some pt \<longrightarrow> ct = aead_seal C k n pt)"

definition hash_ok :: "crypto_ops \<Rightarrow> bool" where
  "hash_ok C \<longleftrightarrow> (\<forall>k d. length (keyed_hash C k d) = 32) \<and> (\<forall>c d. length (derive_key C c d) = 32)"

definition ecdh_ok :: "crypto_ops \<Rightarrow> bool" where
  "ecdh_ok C \<longleftrightarrow>
     (\<forall>x t rx. to_representative C x t = Some rx \<longrightarrow> length rx = 32 \<and>
        (\<exists>X. from_representative C rx = Some X \<and>
           (\<forall>b. mul_clamped C X b = mul_clamped C (public_key C b) x) \<and>
           (\<forall>y t' ry Y. to_representative C y t' = Some ry \<and> from_representative C ry = Some Y \<longrightarrow>
              mul_clamped C X y = mul_clamped C Y x)))"

definition crypto_ok :: "crypto_ops \<Rightarrow> bool" where
  "crypto_ok C \<longleftrightarrow> aead_ok C \<and> hash_ok C \<and> ecdh_ok C"

text \<open>A toy instance, on which the hypotheses hold and the witnesses run.\<close>

definition add_bytes :: "bytes \<Rightarrow> bytes \<Rightarrow> bytes" where
  "add_bytes xs ys = map (\<lambda>(a, b). a + b) (zip xs ys)"

definition toy_tag :: "bytes \<Rightarrow> bytes \<Rightarrow> bytes \<Rightarrow> bytes" where
  "toy_tag k n pt = replicate 16 (sum_list k + sum_list n + sum_list pt)"

definition toy_crypto :: crypto_ops where
  "toy_crypto = \<lparr>
     keyed_hash = (\<lambda>k d. replicate 32 (sum_list k + 3 * sum_list d + 1)),
     derive_key = (\<lambda>c d. replicate 32 (of_nat (length c) + sum_list d)),
     aead_seal = (\<lambda>k n pt. pt @ toy_tag k n pt),
     aead_open = (\<lambda>k n ct. let pt = take (length ct - 16) ct in
        if 16 \<le> length ct \<and> drop (length ct - 16) ct = toy_tag k n pt then Some pt else None),
     public_key = (\<lambda>s. s),
     to_representative = (\<lambda>x t. if length x = 32 then Some x else None),
     from_representative = (\<lambda>r. Some r),
     mul_clamped = (\<lambda>p s. add_bytes p s)\<rparr>"

lemma add_bytes_commute: "add_bytes xs ys = add_bytes ys xs"
  unfolding add_bytes_def
  by (induction xs arbitrary: ys) (simp, case_tac ys, simp_all add: add.commute)

lemma toy_crypto_ok: "crypto_ok toy_crypto"
proof -
  have "aead_ok toy_crypto"
    by (auto simp: aead_ok_def toy_crypto_def toy_tag_def Let_def split: if_splits)
      (metis append_take_drop_id)
  moreover have "hash_ok toy_crypto" by (simp add: hash_ok_def toy_crypto_def)
  moreover have "ecdh_ok toy_crypto"
    by (auto simp: ecdh_ok_def toy_crypto_def add_bytes_commute split: if_splits)
  ultimately show ?thesis by (simp add: crypto_ok_def)
qed

section \<open>Constants\<close>

definition PROTOID :: bytes where "PROTOID = bytes_of ''mixtor-ntor-v1''"
definition CTX_KEY_EXTRACT :: string where "CTX_KEY_EXTRACT = ''mixtor-ntor-v1:key_extract''"
definition CTX_C2S :: string where "CTX_C2S = ''mixtor-ntor-v1:c2s''"
definition CTX_S2C :: string where "CTX_S2C = ''mixtor-ntor-v1:s2c''"
definition AUTH_LABEL :: bytes where "AUTH_LABEL = bytes_of ''mixtor-ntor-v1:server-auth''"
definition PUBKEY_LEN :: nat where "PUBKEY_LEN = 32"
definition AUTH_LEN :: nat where "AUTH_LEN = 32"
definition ELLIGATOR_RETRY_LIMIT :: nat where "ELLIGATOR_RETRY_LIMIT = 64"
definition MARK_LEN :: nat where "MARK_LEN = 16"
definition MAC_LEN :: nat where "MAC_LEN = 16"
definition MAX_HANDSHAKE_LEN :: nat where "MAX_HANDSHAKE_LEN = 8192"
definition HS_MAX_PAD :: nat where "HS_MAX_PAD = 2048"
definition KIND_LEN :: nat where "KIND_LEN = 1"
definition TAG_LEN :: nat where "TAG_LEN = 16"
definition KIND_REAL :: byte where "KIND_REAL = 1"
definition KIND_DUMMY :: byte where "KIND_DUMMY = 2"

definition enc_frame_len :: "nat \<Rightarrow> nat" where
  "enc_frame_len cell_bytes = KIND_LEN + cell_bytes + TAG_LEN"

section \<open>Identity keys\<close>

record static_keypair =
  kp_secret :: bytes
  kp_public :: bytes

definition keypair_generate :: "crypto_ops \<Rightarrow> 'r rng_ops \<Rightarrow> 'r \<Rightarrow> static_keypair \<times> 'r" where
  "keypair_generate C R r =
     (let (secret, r') = fill_bytes R r 32 in (\<lparr>kp_secret = secret, kp_public = public_key C secret\<rparr>, r'))"

definition from_secret_bytes :: "crypto_ops \<Rightarrow> bytes \<Rightarrow> static_keypair" where
  "from_secret_bytes C bs = \<lparr>kp_secret = bs, kp_public = public_key C bs\<rparr>"

text \<open>\<open>{b:02x}\<close>.\<close>

definition hex_digit :: "nat \<Rightarrow> nat" where
  "hex_digit d = (if d < 10 then 48 + d else 87 + d)"

definition key_to_hex :: "bytes \<Rightarrow> rstr" where
  "key_to_hex bs = concat (map (\<lambda>b. [hex_digit (unat b div 16), hex_digit (unat b mod 16)]) bs)"

text \<open>The loop of \<open>key_from_hex\<close> over \<open>i\<close>: the outer \<open>None\<close> is the panic of a slice off a character
  boundary, the inner one the parse error that \<open>?\<close> returns.\<close>

fun hex_bytes :: "nat \<Rightarrow> nat \<Rightarrow> rstr \<Rightarrow> bytes option option" where
  "hex_bytes i 0 s = Some (Some [])"
| "hex_bytes i (Suc n) s =
     (case str_slice (2 * i) (2 * i + 2) s of
        None \<Rightarrow> None
      | Some digits \<Rightarrow>
          (case parse_uint 16 255 digits of
             None \<Rightarrow> Some None
           | Some v \<Rightarrow> map_option (map_option (\<lambda>bs. of_nat v # bs)) (hex_bytes (i + 1) n s)))"

definition key_from_hex :: "rstr \<Rightarrow> bytes option option" where
  "key_from_hex s =
     (let s = str_trim s in if str_len s \<noteq> 64 then Some None else hex_bytes 0 32 s)"

section \<open>Frame cipher\<close>

datatype 'e handshake_error = HsIo 'e | HsClosed | NonContributory | BadServerAuth | ProbeRejected

record frame_cipher =
  fc_key :: bytes
  fc_counter :: u64

definition cipher_new :: "bytes \<Rightarrow> frame_cipher" where
  "cipher_new k = \<lparr>fc_key = k, fc_counter = 0\<rparr>"

definition u64_to_le :: "u64 \<Rightarrow> bytes" where
  "u64_to_le w = map (\<lambda>i. ucast (drop_bit (8 * i) w)) [0..<8]"

definition next_nonce :: "frame_cipher \<Rightarrow> bytes \<times> frame_cipher" where
  "next_nonce c = (replicate 4 0 @ u64_to_le (fc_counter c), c\<lparr>fc_counter := fc_counter c + 1\<rparr>)"

definition cipher_seal :: "crypto_ops \<Rightarrow> byte \<Rightarrow> bytes \<Rightarrow> frame_cipher \<Rightarrow> bytes \<times> frame_cipher" where
  "cipher_seal C kind cell c =
     (let (nonce, c') = next_nonce c in (aead_seal C (fc_key c) nonce (kind # cell), c'))"

definition cipher_open ::
  "crypto_ops \<Rightarrow> bytes \<Rightarrow> frame_cipher \<Rightarrow> ('e handshake_error + byte \<times> bytes) \<times> frame_cipher" where
  "cipher_open C frame c =
     (let (nonce, c') = next_nonce c
      in (case aead_open C (fc_key c) nonce frame of
            None \<Rightarrow> Inl BadServerAuth
          | Some pt \<Rightarrow> if length pt < KIND_LEN then Inl BadServerAuth
                       else Inr (hd pt, drop KIND_LEN pt), c'))"

section \<open>Key derivation\<close>

definition derive_session ::
  "crypto_ops \<Rightarrow> bytes \<Rightarrow> bytes \<Rightarrow> bytes \<Rightarrow> bytes \<Rightarrow> bytes \<Rightarrow> bytes \<times> bytes \<times> bytes" where
  "derive_session C dh1 dh2 b_pub x_repr y_repr =
     (let secret_input = dh1 @ dh2 @ b_pub @ x_repr @ y_repr @ PROTOID;
          key_seed = derive_key C CTX_KEY_EXTRACT secret_input;
          k_c2s = derive_key C CTX_C2S key_seed;
          k_s2c = derive_key C CTX_S2C key_seed;
          auth_in = AUTH_LABEL @ b_pub @ x_repr @ y_repr;
          auth = keyed_hash C key_seed auth_in
      in (k_c2s, k_s2c, auth))"

text \<open>The retry loop; \<open>None\<close> is the panic after the last try.\<close>

fun repr_loop ::
  "crypto_ops \<Rightarrow> 'r rng_ops \<Rightarrow> byte \<Rightarrow> nat \<Rightarrow> 'r \<Rightarrow> ((bytes \<times> bytes) \<times> 'r) option" where
  "repr_loop C R tweak 0 r = None"
| "repr_loop C R tweak (Suc n) r =
     (let (priv, r') = fill_bytes R r 32
      in case to_representative C priv tweak of
           Some rp \<Rightarrow> Some ((priv, rp), r')
         | None \<Rightarrow> repr_loop C R tweak n r')"

definition gen_representable_ephemeral ::
  "crypto_ops \<Rightarrow> 'r rng_ops \<Rightarrow> 'r \<Rightarrow> ((bytes \<times> bytes) \<times> 'r) option" where
  "gen_representable_ephemeral C R r =
     (let (t, r') = gen_u32 R r in repr_loop C R (of_nat (t mod 256)) ELLIGATOR_RETRY_LIMIT r')"

definition dh_is_zero :: "bytes \<Rightarrow> bool" where
  "dh_is_zero out = list_all (\<lambda>b. b = 0) out"

section \<open>Mark and MAC framing\<close>

definition identity_mac_key :: "crypto_ops \<Rightarrow> bytes \<Rightarrow> bytes" where
  "identity_mac_key C server_pub = derive_key C ''mixtor-probe-v1:identity-mac'' server_pub"

definition keyed16 :: "crypto_ops \<Rightarrow> bytes \<Rightarrow> bytes \<Rightarrow> bytes" where
  "keyed16 C k d = take 16 (keyed_hash C k d)"

definition mark_value :: "crypto_ops \<Rightarrow> bytes \<Rightarrow> bytes \<Rightarrow> bytes" where
  "mark_value C k rp = keyed16 C k rp"

definition epoch_hour_bytes :: "nat \<Rightarrow> int \<Rightarrow> bytes" where
  "epoch_hour_bytes secs offset = int_string (int (secs div 3600) + offset)"

definition mac_with_epoch :: "crypto_ops \<Rightarrow> nat \<Rightarrow> bytes \<Rightarrow> bytes \<Rightarrow> int \<Rightarrow> bytes" where
  "mac_with_epoch C secs k d offset = keyed16 C k (d @ epoch_hour_bytes secs offset)"

text \<open>Each of the three epochs is a reading of the clock of its own.\<close>

definition verify_mac_epochs :: "crypto_ops \<Rightarrow> (nat \<Rightarrow> nat) \<Rightarrow> bytes \<Rightarrow> bytes \<Rightarrow> bytes \<Rightarrow> bool" where
  "verify_mac_epochs C clk k d received \<longleftrightarrow>
     mac_with_epoch C (clk 0) k d 0 = received \<or> mac_with_epoch C (clk 1) k d (-1) = received \<or>
     mac_with_epoch C (clk 2) k d 1 = received"

definition random_pad :: "'r rng_ops \<Rightarrow> nat \<Rightarrow> 'r \<Rightarrow> bytes \<times> 'r" where
  "random_pad R m r = (let (n, r') = gen_u32 R r in fill_bytes R r' (n mod (m + 1)))"

definition find_subslice :: "bytes \<Rightarrow> bytes \<Rightarrow> nat option" where
  "find_subslice haystack needle =
     (if needle = [] \<or> length haystack < length needle then None
      else find (\<lambda>i. take (length needle) (drop i haystack) = needle)
             [0..<length haystack - length needle + 1])"

definition build_marked_message ::
  "crypto_ops \<Rightarrow> 'r rng_ops \<Rightarrow> nat \<Rightarrow> bytes \<Rightarrow> bytes \<Rightarrow> 'r \<Rightarrow> bytes \<times> 'r" where
  "build_marked_message C R secs mac_key prefix r =
     (let (pad, r') = random_pad R HS_MAX_PAD r;
          mark = mark_value C mac_key (take PUBKEY_LEN prefix);
          msg = prefix @ pad @ mark;
          mac = mac_with_epoch C secs mac_key msg 0
      in (msg @ mac, r'))"

text \<open>What one call of \<open>read\<close> returns: some bytes or an error. The end of the list is the end of
  the stream. The search inside the buffer comes first: \<open>None\<close> is "read on".\<close>

datatype 'e read_event = RData bytes | RFail 'e

definition marked_check :: "crypto_ops \<Rightarrow> (nat \<Rightarrow> nat) \<Rightarrow> bytes \<Rightarrow> nat \<Rightarrow> bytes \<Rightarrow> bool option" where
  "marked_check C clk mac_key prefix_len buf =
     (if length buf < prefix_len then None
      else case find_subslice (drop prefix_len buf) (mark_value C mac_key (take PUBKEY_LEN buf)) of
        None \<Rightarrow> None
      | Some rel \<Rightarrow>
          let mark_pos = prefix_len + rel; mac_end = mark_pos + MARK_LEN + MAC_LEN
          in if length buf < mac_end then None
             else Some (verify_mac_epochs C clk mac_key (take (mark_pos + MARK_LEN) buf)
                          (drop (mark_pos + MARK_LEN) (take mac_end buf))))"

fun read_marked_loop ::
  "crypto_ops \<Rightarrow> (nat \<Rightarrow> nat) \<Rightarrow> bytes \<Rightarrow> nat \<Rightarrow> bytes \<Rightarrow> 'e read_event list \<Rightarrow>
     ('e handshake_error + bytes) \<times> 'e read_event list" where
  "read_marked_loop C clk mac_key prefix_len buf evs =
     (case marked_check C clk mac_key prefix_len buf of
        Some True \<Rightarrow> (Inr (take prefix_len buf), evs)
      | Some False \<Rightarrow> (Inl ProbeRejected, evs)
      | None \<Rightarrow>
          if MAX_HANDSHAKE_LEN \<le> length buf then (Inl ProbeRejected, evs)
          else case evs of
            [] \<Rightarrow> (Inl HsClosed, [])
          | RFail e # evs' \<Rightarrow> (Inl (HsIo e), evs')
          | RData bs # evs' \<Rightarrow>
              if bs = [] then (Inl HsClosed, evs')
              else read_marked_loop C clk mac_key prefix_len (buf @ bs) evs')"

declare read_marked_loop.simps [simp del]

definition read_marked_message ::
  "crypto_ops \<Rightarrow> (nat \<Rightarrow> nat) \<Rightarrow> bytes \<Rightarrow> nat \<Rightarrow> 'e read_event list \<Rightarrow>
     ('e handshake_error + bytes) \<times> 'e read_event list" where
  "read_marked_message C clk mac_key prefix_len evs = read_marked_loop C clk mac_key prefix_len [] evs"

section \<open>The two roles\<close>

text \<open>
  A role takes the outcome \<open>wr\<close> of its one write (\<open>None\<close> when it succeeds) and what its reads
  return, and yields the result, the bytes it handed to the socket, the unread rest, and the
  generator. The outer \<open>None\<close> is the panic of \<open>gen_representable_ephemeral\<close>.
\<close>

definition client_hello ::
  "crypto_ops \<Rightarrow> 'r rng_ops \<Rightarrow> nat \<Rightarrow> bytes \<Rightarrow> 'r \<Rightarrow> (bytes \<times> bytes \<times> bytes \<times> 'r) option" where
  "client_hello C R secs server_static_pub r = do {
     let mac_key = identity_mac_key C server_static_pub;
     ((x_priv, x_repr), r1) \<leftarrow> gen_representable_ephemeral C R r;
     let (msg, r2) = build_marked_message C R secs mac_key x_repr r1;
     Some (x_priv, x_repr, msg, r2)
   }"

definition client_finish ::
  "crypto_ops \<Rightarrow> bytes \<Rightarrow> bytes \<Rightarrow> bytes \<Rightarrow> bytes \<Rightarrow> 'e handshake_error + frame_cipher \<times> frame_cipher" where
  "client_finish C server_static_pub x_priv x_repr prefix =
     (let y_repr = take PUBKEY_LEN prefix;
          recv_auth = take AUTH_LEN (drop PUBKEY_LEN prefix)
      in case from_representative C y_repr of
           None \<Rightarrow> Inl NonContributory
         | Some y_point \<Rightarrow>
             let dh1 = mul_clamped C y_point x_priv; dh2 = mul_clamped C server_static_pub x_priv
             in if dh_is_zero dh1 \<or> dh_is_zero dh2 then Inl NonContributory
                else let (k_c2s, k_s2c, auth) = derive_session C dh1 dh2 server_static_pub x_repr y_repr
                     in if auth \<noteq> recv_auth then Inl BadServerAuth
                        else Inr (cipher_new k_c2s, cipher_new k_s2c))"

definition client_handshake ::
  "crypto_ops \<Rightarrow> 'r rng_ops \<Rightarrow> (nat \<Rightarrow> nat) \<Rightarrow> bytes \<Rightarrow> 'r \<Rightarrow> 'e option \<Rightarrow> 'e read_event list \<Rightarrow>
     (('e handshake_error + frame_cipher \<times> frame_cipher) \<times> bytes \<times> 'e read_event list \<times> 'r) option" where
  "client_handshake C R clk server_static_pub r wr evs = do {
     (x_priv, x_repr, msg, r') \<leftarrow> client_hello C R (clk 0) server_static_pub r;
     (case wr of
        Some e \<Rightarrow> Some (Inl (HsIo e), msg, evs, r')
      | None \<Rightarrow>
          (case read_marked_message C (\<lambda>i. clk (i + 1)) (identity_mac_key C server_static_pub)
                  (PUBKEY_LEN + AUTH_LEN) evs of
             (Inl e, evs') \<Rightarrow> Some (Inl e, msg, evs', r')
           | (Inr prefix, evs') \<Rightarrow>
               Some (client_finish C server_static_pub x_priv x_repr prefix, msg, evs', r')))
   }"

definition server_handshake ::
  "crypto_ops \<Rightarrow> 'r rng_ops \<Rightarrow> (nat \<Rightarrow> nat) \<Rightarrow> static_keypair \<Rightarrow> 'r \<Rightarrow> 'e option \<Rightarrow> 'e read_event list \<Rightarrow>
     (('e handshake_error + frame_cipher \<times> frame_cipher) \<times> bytes \<times> 'e read_event list \<times> 'r) option" where
  "server_handshake C R clk kp r wr evs =
     (let b_pub = kp_public kp; mac_key = identity_mac_key C b_pub
      in case read_marked_message C clk mac_key PUBKEY_LEN evs of
           (Inl e, evs') \<Rightarrow> Some (Inl e, [], evs', r)
         | (Inr prefix, evs') \<Rightarrow>
             let x_repr = take PUBKEY_LEN prefix
             in case from_representative C x_repr of
                  None \<Rightarrow> Some (Inl NonContributory, [], evs', r)
                | Some x_point \<Rightarrow> do {
                    ((y_priv, y_repr), r1) \<leftarrow> gen_representable_ephemeral C R r;
                    let dh1 = mul_clamped C x_point y_priv;
                    let dh2 = mul_clamped C x_point (kp_secret kp);
                    if dh_is_zero dh1 \<or> dh_is_zero dh2 then Some (Inl NonContributory, [], evs', r1)
                    else do {
                      let (k_c2s, k_s2c, auth) = derive_session C dh1 dh2 b_pub x_repr y_repr;
                      let (msg, r2) = build_marked_message C R (clk 3) mac_key (y_repr @ auth) r1;
                      (case wr of
                         Some e \<Rightarrow> Some (Inl (HsIo e), msg, evs', r2)
                       | None \<Rightarrow> Some (Inr (cipher_new k_s2c, cipher_new k_c2s), msg, evs', r2))
                    }
                  })"

end
