(* ===== verification/Handshake.thy ===== *)
theory Handshake
  imports Crypto
begin

text \<open>
  The proofs about \<open>Crypto\<close>: the hex form of a key, two ciphers in lockstep (the contract
  \<open>lockstep\<close> and its interpretation on the frame cipher), nonces that never repeat, the framing of
  handshake messages, and the agreement of the two roles.
\<close>

section \<open>Hex form of a key\<close>

lemma to_digit_hex: "d < 16 \<Longrightarrow> to_digit 16 (hex_digit d) = Some d"
  by (auto simp: to_digit_def hex_digit_def Let_def)

lemma hex_digit_ascii: "d < 16 \<Longrightarrow> hex_digit d < 128 \<and> hex_digit d \<noteq> 43 \<and> \<not> is_whitespace (hex_digit d)"
  by (auto simp: hex_digit_def is_whitespace_def)

lemma byte_nibbles:
  fixes b :: byte
  shows "unat b div 16 < 16" "unat b mod 16 < 16" "16 * (unat b div 16) + unat b mod 16 = unat b" "unat b \<le> 255"
  using unsigned_less [of b, where ?'a = nat] by simp_all

lemma parse_hex_pair:
  fixes b :: byte
  shows "parse_uint 16 255 [hex_digit (unat b div 16), hex_digit (unat b mod 16)] = Some (unat b)"
  using byte_nibbles [of b] hex_digit_ascii [of "unat b div 16"]
  by (simp add: parse_uint_def to_digit_hex)

lemma key_to_hex_Cons:
  "key_to_hex (b # bs) = hex_digit (unat b div 16) # hex_digit (unat b mod 16) # key_to_hex bs"
  by (simp add: key_to_hex_def)

lemma key_to_hex_length: "length (key_to_hex bs) = 2 * length bs"
  by (induction bs) (simp_all add: key_to_hex_Cons, simp add: key_to_hex_def)

lemma key_to_hex_chars:
  "c \<in> set (key_to_hex bs) \<Longrightarrow> c < 128 \<and> \<not> is_whitespace c"
  using hex_digit_ascii byte_nibbles by (auto simp: key_to_hex_def)

lemma key_to_hex_drop: "drop (2 * i) (key_to_hex bs) = key_to_hex (drop i bs)"
proof (induction i arbitrary: bs)
  case 0
  then show ?case by simp
next
  case (Suc i)
  then show ?case by (cases bs) (simp_all add: key_to_hex_Cons, simp add: key_to_hex_def)
qed

lemma hex_bytes_to_hex:
  "i + n = length bs \<Longrightarrow> hex_bytes i n (key_to_hex bs) = Some (Some (drop i bs))"
proof (induction n arbitrary: i)
  case 0
  then show ?case by simp
next
  case (Suc n)
  then have i: "i < length bs" by simp
  have "str_slice (2 * i) (2 * i + 2) (key_to_hex bs) = Some (drop (2 * i) (take (2 * i + 2) (key_to_hex bs)))"
    using i key_to_hex_chars by (intro str_slice_ascii) (auto simp: key_to_hex_length)
  also have "drop (2 * i) (take (2 * i + 2) (key_to_hex bs)) = take 2 (drop (2 * i) (key_to_hex bs))"
    by (simp add: take_drop)
  also have "\<dots> = [hex_digit (unat (bs ! i) div 16), hex_digit (unat (bs ! i) mod 16)]"
    using i by (simp add: key_to_hex_drop Cons_nth_drop_Suc [symmetric] key_to_hex_Cons)
  finally show ?case
    using Suc i by (simp add: parse_hex_pair Cons_nth_drop_Suc)
qed

lemma key_hex_roundtrip_lemma:
  assumes "length bs = 32"
  shows "key_from_hex (key_to_hex bs) = Some (Some bs)"
proof -
  have t: "str_trim (key_to_hex bs) = key_to_hex bs"
    using key_to_hex_chars by (intro str_trim_id) blast
  have "str_len (key_to_hex bs) = 64"
    using key_to_hex_chars assms by (subst str_len_ascii) (auto simp: key_to_hex_length)
  then show ?thesis using hex_bytes_to_hex [of 0 32 bs] assms by (simp add: key_from_hex_def t)
qed

section \<open>Ciphers in lockstep\<close>

text \<open>A sealing side and an opening side that start in the same state stay in the same state, and
  everything sealed is opened in order.\<close>

fun map_state :: "('a \<Rightarrow> 's \<Rightarrow> 'b \<times> 's) \<Rightarrow> 'a list \<Rightarrow> 's \<Rightarrow> 'b list \<times> 's" where
  "map_state f [] s = ([], s)"
| "map_state f (x # xs) s = (let (y, s1) = f x s; (ys, s2) = map_state f xs s1 in (y # ys, s2))"

locale lockstep =
  fixes ok :: "'s \<Rightarrow> bool"
    and seal :: "'m \<Rightarrow> 's \<Rightarrow> 'f \<times> 's"
    and unseal :: "'f \<Rightarrow> 's \<Rightarrow> ('err + 'm) \<times> 's"
    and size_f :: "'f \<Rightarrow> nat"
    and size_m :: "'m \<Rightarrow> nat"
  assumes unseal_seal: "ok s \<Longrightarrow> seal m s = (f, s') \<Longrightarrow> unseal f s = (Inr m, s')"
    and unseal_only: "ok s \<Longrightarrow> unseal f s = (Inr m, s') \<Longrightarrow> seal m s = (f, s')"
    and seal_size: "ok s \<Longrightarrow> seal m s = (f, s') \<Longrightarrow> size_f f = size_m m \<and> ok s'"
begin

lemma in_order:
  "ok s \<Longrightarrow> map_state seal ms s = (fs, s') \<Longrightarrow> map_state unseal fs s = (map Inr ms, s')"
proof (induction ms arbitrary: s fs)
  case Nil
  then show ?case by simp
next
  case (Cons m ms)
  obtain f s1 where 1: "seal m s = (f, s1)" by (cases "seal m s")
  obtain fs' s2 where 2: "map_state seal ms s1 = (fs', s2)" by (cases "map_state seal ms s1")
  have "fs = f # fs'" "s' = s2" "ok s1" using Cons.prems 1 2 seal_size [OF _ 1] by auto
  then show ?case using unseal_seal [OF Cons.prems(1) 1] Cons.IH [of s1 fs'] 2 by simp
qed

text \<open>A run that opens without an error was sealed by the peer, frame by frame.\<close>

lemma no_forgery:
  "ok s \<Longrightarrow> map_state unseal fs s = (map Inr ms, s') \<Longrightarrow> map_state seal ms s = (fs, s')"
proof (induction fs arbitrary: s ms)
  case Nil
  then show ?case by simp
next
  case (Cons f fs)
  obtain x s1 where 1: "unseal f s = (x, s1)" by (cases "unseal f s")
  obtain ys s2 where 2: "map_state unseal fs s1 = (ys, s2)" by (cases "map_state unseal fs s1")
  have e: "x # ys = map Inr ms" "s2 = s'" using Cons.prems 1 2 by auto
  then obtain m ms' where m: "ms = m # ms'" "x = Inr m" "ys = map Inr ms'" by (cases ms) auto
  have 3: "seal m s = (f, s1)" using unseal_only Cons.prems(1) 1 m(2) by simp
  then have "ok s1" using seal_size Cons.prems(1) by blast
  then show ?case using Cons.IH [of s1 ms'] 2 3 m e by simp
qed

lemma sizes: "ok s \<Longrightarrow> map_state seal ms s = (fs, s') \<Longrightarrow> map size_f fs = map size_m ms"
proof (induction ms arbitrary: s fs)
  case Nil
  then show ?case by simp
next
  case (Cons m ms)
  obtain f s1 where 1: "seal m s = (f, s1)" by (cases "seal m s")
  obtain fs' s2 where 2: "map_state seal ms s1 = (fs', s2)" by (cases "map_state seal ms s1")
  show ?case using Cons 1 2 seal_size [OF Cons.prems(1) 1] by auto
qed

end

definition seal_frame :: "crypto_ops \<Rightarrow> byte \<times> bytes \<Rightarrow> frame_cipher \<Rightarrow> bytes \<times> frame_cipher" where
  "seal_frame C m c = cipher_seal C (fst m) (snd m) c"

lemma cipher_roundtrip:
  assumes "aead_ok C" "cipher_seal C kind cell c = (f, c')"
  shows "cipher_open C f c = (Inr (kind, cell), c')" "length f = enc_frame_len (length cell)"
  using assms
  by (auto simp: cipher_seal_def cipher_open_def next_nonce_def KIND_LEN_def aead_ok_def
      enc_frame_len_def TAG_LEN_def)

lemma cipher_open_sealed:
  assumes "aead_ok C" "cipher_open C f c = (Inr (kind, cell), c')"
  shows "cipher_seal C kind cell c = (f, c')"
proof -
  obtain pt where pt: "aead_open C (fc_key c) (fst (next_nonce c)) f = Some pt" "1 \<le> length pt"
      "kind = hd pt" "cell = drop 1 pt" "c' = snd (next_nonce c)"
    using assms(2)
    by (auto simp: cipher_open_def next_nonce_def KIND_LEN_def Let_def Suc_le_eq split: option.splits if_splits)
  have "kind # cell = pt" using pt(2-4) by (cases pt) auto
  moreover have "f = aead_seal C (fc_key c) (fst (next_nonce c)) pt"
    using assms(1) pt(1) by (simp add: aead_ok_def)
  ultimately show ?thesis using pt(5) by (simp add: cipher_seal_def case_prod_beta)
qed

lemma seal_frame_eq: "seal_frame C (kind, cell) c = cipher_seal C kind cell c"
  by (simp add: seal_frame_def)

text \<open>The frame cipher of any AEAD that satisfies its documentation.\<close>

interpretation channel: lockstep "\<lambda>_. aead_ok C" "seal_frame C" "cipher_open C" length
    "\<lambda>m. enc_frame_len (length (snd m))" for C :: crypto_ops
proof
  fix s s' :: frame_cipher and m :: "byte \<times> bytes" and f
  assume a: "aead_ok C"
  obtain kind cell where m: "m = (kind, cell)" by (cases m)
  show "seal_frame C m s = (f, s') \<Longrightarrow> cipher_open C f s = (Inr m, s')"
    unfolding m seal_frame_eq by (rule cipher_roundtrip(1) [OF a])
  show "cipher_open C f s = (Inr m, s') \<Longrightarrow> seal_frame C m s = (f, s')"
    unfolding m seal_frame_eq by (rule cipher_open_sealed [OF a])
  show "seal_frame C m s = (f, s') \<Longrightarrow> length f = enc_frame_len (length (snd m)) \<and> aead_ok C"
    unfolding m seal_frame_eq using cipher_roundtrip(2) [OF a] a by simp
qed

section \<open>Nonces\<close>

lemma u64_to_le_inj: "u64_to_le a = u64_to_le b \<Longrightarrow> a = b"
proof (rule bit_word_eqI)
  fix n
  assume e: "u64_to_le a = u64_to_le b" and n: "n < LENGTH(64)"
  have i: "n div 8 < 8" using n by simp
  have "u64_to_le a ! (n div 8) = u64_to_le b ! (n div 8)" using e by simp
  then have "(ucast (drop_bit (8 * (n div 8)) a) :: byte) = ucast (drop_bit (8 * (n div 8)) b)"
    using i by (simp add: u64_to_le_def)
  then have "bit (ucast (drop_bit (8 * (n div 8)) a) :: byte) (n mod 8)
      = bit (ucast (drop_bit (8 * (n div 8)) b) :: byte) (n mod 8)" by simp
  then show "bit a n \<longleftrightarrow> bit b n"
    by (simp add: bit_ucast_iff bit_drop_bit_eq)
qed

text \<open>The nonce of the \<open>i\<close>-th frame after the state \<open>c\<close>.\<close>

definition nth_nonce :: "frame_cipher \<Rightarrow> nat \<Rightarrow> bytes" where
  "nth_nonce c i = fst (next_nonce (c\<lparr>fc_counter := fc_counter c + of_nat i\<rparr>))"

lemma nonces_distinct:
  assumes "n \<le> 2 ^ 64"
  shows "distinct (map (nth_nonce c) [0..<n])"
proof -
  have "i = j" if "i < n" "j < n" "nth_nonce c i = nth_nonce c j" for i j
  proof -
    have "fc_counter c + of_nat i = fc_counter c + of_nat j"
      using that(3) by (intro u64_to_le_inj) (simp add: nth_nonce_def next_nonce_def)
    then have "(of_nat i :: u64) = of_nat j" by simp
    then have "i mod 2 ^ 64 = j mod 2 ^ 64" by (simp add: word_of_nat_eq_iff take_bit_eq_mod)
    then show ?thesis using that(1,2) assms by simp
  qed
  then show ?thesis by (auto simp: distinct_map intro: inj_onI)
qed

lemma seal_run_nonces:
  "map_state (seal_frame C) ms c = (fs, c') \<Longrightarrow>
     length fs = length ms \<and> fc_key c' = fc_key c \<and> fc_counter c' = fc_counter c + of_nat (length ms) \<and>
     (\<forall>i<length ms. fs ! i = aead_seal C (fc_key c) (nth_nonce c i) (fst (ms ! i) # snd (ms ! i)))"
proof (induction ms arbitrary: c fs)
  case Nil
  then show ?case by simp
next
  case (Cons m ms)
  let ?c1 = "c\<lparr>fc_counter := fc_counter c + 1\<rparr>"
  have step: "seal_frame C m c = (aead_seal C (fc_key c) (fst (next_nonce c)) (fst m # snd m), ?c1)"
    by (simp add: seal_frame_def cipher_seal_def next_nonce_def)
  obtain fs' where fs: "fs = aead_seal C (fc_key c) (fst (next_nonce c)) (fst m # snd m) # fs'"
      and r: "map_state (seal_frame C) ms ?c1 = (fs', c')"
    using Cons.prems step by (auto split: prod.splits)
  have n: "nth_nonce ?c1 i = nth_nonce c (Suc i)" for i
    by (simp add: nth_nonce_def next_nonce_def add.assoc)
  have z: "nth_nonce c 0 = fst (next_nonce c)" by (simp add: nth_nonce_def)
  show ?case using Cons.IH [OF r] fs n z by (auto simp: nth_Cons' less_Suc_eq_0_disj add.assoc)
qed

section \<open>Framing of a handshake message\<close>

lemma find_first:
  assumes "find P [0..<n] = Some k"
  shows "k < n" "P k" "\<forall>i<k. \<not> P i"
  using assms by (auto simp: find_Some_iff)

lemma find_subslice_Some:
  assumes "find_subslice hay needle = Some k"
  shows "take (length needle) (drop k hay) = needle" "k + length needle \<le> length hay"
    "\<forall>i<k. take (length needle) (drop i hay) \<noteq> needle"
proof -
  have ne: "needle \<noteq> []" "length needle \<le> length hay"
    and f: "find (\<lambda>i. take (length needle) (drop i hay) = needle) [0..<length hay - length needle + 1] = Some k"
    using assms by (auto simp: find_subslice_def split: if_splits)
  show "take (length needle) (drop k hay) = needle" "\<forall>i<k. take (length needle) (drop i hay) \<noteq> needle"
    using find_first [OF f] by blast+
  show "k + length needle \<le> length hay" using find_first(1) [OF f] ne by linarith
qed

lemma find_subslice_first:
  assumes "needle \<noteq> []" "take (length needle) (drop k hay) = needle"
    "\<forall>i<k. take (length needle) (drop i hay) \<noteq> needle"
  shows "find_subslice hay needle = Some k"
proof -
  have l: "length needle \<le> length hay - k"
    using arg_cong [OF assms(2), of length] by simp
  have n0: "0 < length needle" using assms(1) by simp
  have k: "k < length hay - length needle + 1" "length needle \<le> length hay"
    using l n0 by linarith+
  have "find (\<lambda>i. take (length needle) (drop i hay) = needle) [0..<length hay - length needle + 1] = Some k"
    using k(1) assms(2,3) by (subst find_Some_iff) (intro exI [of _ k], simp del: upt_Suc)
  then show ?thesis using k(2) assms(1) by (simp add: find_subslice_def)
qed

text \<open>
  A message \<open>prefix | pad | MARK | MAC\<close> whose MARK does not already occur in the padding, and
  whose MAC verifies at the reader's clock.
\<close>

definition marked_msg ::
  "crypto_ops \<Rightarrow> (nat \<Rightarrow> nat) \<Rightarrow> bytes \<Rightarrow> nat \<Rightarrow> bytes \<Rightarrow> bytes \<Rightarrow> bytes \<Rightarrow> bool" where
  "marked_msg C clk k plen prefix pad mac \<longleftrightarrow>
     (let mark = mark_value C k (take PUBKEY_LEN prefix)
      in length prefix = plen \<and> PUBKEY_LEN \<le> plen \<and> length mark = MARK_LEN \<and> length mac = MAC_LEN \<and>
         (\<forall>i<length pad. take MARK_LEN (drop i (pad @ mark)) \<noteq> mark) \<and>
         plen + length pad + MARK_LEN + MAC_LEN \<le> MAX_HANDSHAKE_LEN \<and>
         verify_mac_epochs C clk k (prefix @ pad @ mark) mac)"

definition marked_bytes :: "crypto_ops \<Rightarrow> bytes \<Rightarrow> bytes \<Rightarrow> bytes \<Rightarrow> bytes \<Rightarrow> bytes" where
  "marked_bytes C k prefix pad mac = prefix @ pad @ mark_value C k (take PUBKEY_LEN prefix) @ mac"

lemma take_drop_window:
  assumes "i + n \<le> length a"
  shows "take n (drop i (a @ b)) = take n (drop i a)"
  using assms by simp

lemma window_of_take: "i + n \<le> m \<Longrightarrow> take n (drop i (take m xs)) = take n (drop i xs)"
  by (simp add: drop_take min_def)

lemma marked_check_complete:
  assumes m: "marked_msg C clk k plen prefix pad mac"
    and b: "buf = marked_bytes C k prefix pad mac @ extra"
  shows "marked_check C clk k plen buf = Some True" "take plen buf = prefix"
proof -
  let ?mark = "mark_value C k (take PUBKEY_LEN prefix)"
  have p: "length prefix = plen" "32 \<le> plen" "length ?mark = 16" "length mac = 16"
    "\<forall>i<length pad. take 16 (drop i (pad @ ?mark)) \<noteq> ?mark"
    "verify_mac_epochs C clk k (prefix @ pad @ ?mark) mac"
    using m by (auto simp: marked_msg_def Let_def MARK_LEN_def MAC_LEN_def PUBKEY_LEN_def)
  have buf: "buf = prefix @ pad @ ?mark @ mac @ extra" using b by (simp add: marked_bytes_def)
  have hd: "take PUBKEY_LEN buf = take PUBKEY_LEN prefix" using p(1,2) by (simp add: buf PUBKEY_LEN_def)
  have dr: "drop plen buf = (pad @ ?mark) @ mac @ extra" using p(1) by (simp add: buf)
  have w: "take 16 (drop i ((pad @ ?mark) @ mac @ extra)) = take 16 (drop i (pad @ ?mark))" if "i \<le> length pad" for i
    using that p(3) by (intro take_drop_window) simp
  have f: "find_subslice (drop plen buf) ?mark = Some (length pad)"
  proof (rule find_subslice_first)
    show "?mark \<noteq> []" using p(3) by auto
    show "take (length ?mark) (drop (length pad) (drop plen buf)) = ?mark"
      unfolding dr p(3) using w [of "length pad"] p(3) by simp
    show "\<forall>i<length pad. take (length ?mark) (drop i (drop plen buf)) \<noteq> ?mark"
      unfolding dr p(3) using w p(5) by (metis less_imp_le)
  qed
  have len: "plen \<le> length buf" "\<not> length buf < plen + length pad + MARK_LEN + MAC_LEN"
    using p by (simp_all add: buf MARK_LEN_def MAC_LEN_def)
  have t: "take (plen + length pad + MARK_LEN) buf = prefix @ pad @ ?mark"
    using p by (simp add: buf MARK_LEN_def)
  have r: "drop (plen + length pad + MARK_LEN) (take (plen + length pad + MARK_LEN + MAC_LEN) buf) = mac"
    using p by (simp add: buf MARK_LEN_def MAC_LEN_def)
  show "marked_check C clk k plen buf = Some True"
    unfolding marked_check_def hd Let_def f using len t r p(6) by simp
  show "take plen buf = prefix" using p(1) by (simp add: buf)
qed

lemma marked_check_partial:
  assumes m: "marked_msg C clk k plen prefix pad mac"
    and b: "buf = take n (marked_bytes C k prefix pad mac)" "n < length (marked_bytes C k prefix pad mac)"
  shows "marked_check C clk k plen buf = None"
proof (cases "length buf < plen")
  case True
  then show ?thesis by (simp add: marked_check_def)
next
  case False
  let ?mark = "mark_value C k (take PUBKEY_LEN prefix)"
  have p: "length prefix = plen" "32 \<le> plen" "length ?mark = 16" "length mac = 16"
    "\<forall>i<length pad. take 16 (drop i (pad @ ?mark)) \<noteq> ?mark"
    using m by (auto simp: marked_msg_def Let_def MARK_LEN_def MAC_LEN_def PUBKEY_LEN_def)
  have ln: "length buf = n" using b by simp
  have np: "plen \<le> n" using False ln by simp
  have bl: "n < plen + length pad + 32" using b(2) p by (simp add: marked_bytes_def)
  have hd: "take PUBKEY_LEN buf = take PUBKEY_LEN prefix"
    using p(1,2) np by (simp add: b(1) marked_bytes_def PUBKEY_LEN_def)
  have dr: "drop plen buf = take (n - plen) ((pad @ ?mark) @ mac)"
    using p(1) np by (simp add: b(1) marked_bytes_def drop_take)
  show ?thesis
  proof (cases "find_subslice (drop plen buf) ?mark")
    case None
    then show ?thesis using False by (simp add: marked_check_def hd)
  next
    case (Some rel)
    have f: "take 16 (drop rel (drop plen buf)) = ?mark" "rel + 16 \<le> length (drop plen buf)"
      using find_subslice_Some(1,2) [OF Some] p(3) by simp_all
    have "length pad \<le> rel"
    proof (rule ccontr)
      assume "\<not> length pad \<le> rel"
      then have lt: "rel < length pad" by simp
      have "take 16 (drop rel (drop plen buf)) = take 16 (drop rel ((pad @ ?mark) @ mac))"
        unfolding dr by (rule window_of_take) (use f(2) ln in simp)
      also have "\<dots> = take 16 (drop rel (pad @ ?mark))"
        using lt p(3) by (intro take_drop_window) simp
      finally show False using f(1) p(5) lt by metis
    qed
    then have "length buf < plen + rel + MARK_LEN + MAC_LEN"
      using bl ln by (simp add: MARK_LEN_def MAC_LEN_def)
    then show ?thesis using False Some by (simp add: marked_check_def hd Let_def)
  qed
qed

text \<open>
  However the network cuts the message, the reader returns its prefix. It stops at the read that
  completes the message, and what that read brought beyond the MAC is lost: the rest of the
  stream starts with the next read.
\<close>

lemma append_long: "a @ b = c @ d \<Longrightarrow> length c \<le> length a \<Longrightarrow> \<exists>e. a = c @ e"
  by (auto simp: append_eq_append_conv2)

lemma append_short: "a @ b = c @ d \<Longrightarrow> length a \<le> length c \<Longrightarrow> a = take (length a) c"
  by (auto simp: append_eq_append_conv2)

lemma read_marked_complete:
  assumes m: "marked_msg C clk k plen prefix pad mac"
    and "\<forall>c\<in>set cs. c \<noteq> []"
    and "buf @ concat cs = marked_bytes C k prefix pad mac @ extra"
  shows "\<exists>j\<le>length cs. read_marked_loop C clk k plen buf (map RData cs @ evs) = (Inr prefix, map RData (drop j cs) @ evs) \<and>
    length (marked_bytes C k prefix pad mac) \<le> length (buf @ concat (take j cs)) \<and>
    (0 < j \<longrightarrow> length (buf @ concat (take (j - 1) cs)) < length (marked_bytes C k prefix pad mac))"
  using assms(2,3)
proof (induction cs arbitrary: buf)
  case Nil
  then have "buf = marked_bytes C k prefix pad mac @ extra" by simp
  from marked_check_complete [OF m this] this show ?case by (simp add: read_marked_loop.simps)
next
  case (Cons c cs)
  let ?msg = "marked_bytes C k prefix pad mac"
  show ?case
  proof (cases "length ?msg \<le> length buf")
    case True
    then obtain e where "buf = ?msg @ e"
      using append_long [OF Cons.prems(2)] by blast
    from marked_check_complete [OF m this] True show ?thesis
      by (intro exI [of _ 0]) (simp add: read_marked_loop.simps)
  next
    case False
    then have buf: "buf = take (length buf) ?msg"
      using append_short [OF Cons.prems(2)] by simp
    have n: "marked_check C clk k plen buf = None"
      using marked_check_partial [OF m, of buf "length buf"] buf False by simp
    have cap: "\<not> MAX_HANDSHAKE_LEN \<le> length buf"
      using False m by (auto simp: marked_msg_def marked_bytes_def Let_def)
    obtain j where j: "j \<le> length cs"
      "read_marked_loop C clk k plen (buf @ c) (map RData cs @ evs) = (Inr prefix, map RData (drop j cs) @ evs)"
      "length ?msg \<le> length ((buf @ c) @ concat (take j cs))"
      "0 < j \<longrightarrow> length ((buf @ c) @ concat (take (j - 1) cs)) < length ?msg"
      using Cons.IH [of "buf @ c"] Cons.prems by auto
    have l: "read_marked_loop C clk k plen buf (map RData (c # cs) @ evs)
        = read_marked_loop C clk k plen (buf @ c) (map RData cs @ evs)"
      using n cap Cons.prems(1) by (simp add: read_marked_loop.simps [of C clk k plen buf])
    have "length (buf @ concat (take (Suc j - 1) (c # cs))) < length ?msg"
      using j(4) False by (cases j) auto
    then show ?thesis
      using j l by (intro exI [of _ "Suc j"]) (auto simp: add.assoc)
  qed
qed

lemma read_marked_exact:
  assumes "marked_msg C clk k plen prefix pad mac" "\<forall>c\<in>set cs. c \<noteq> []"
    "concat cs = marked_bytes C k prefix pad mac"
  shows "read_marked_message C clk k plen (map RData cs @ evs) = (Inr prefix, evs)"
proof -
  obtain j where j: "j \<le> length cs"
    "read_marked_loop C clk k plen [] (map RData cs @ evs) = (Inr prefix, map RData (drop j cs) @ evs)"
    "length (marked_bytes C k prefix pad mac) \<le> length (concat (take j cs))"
    using read_marked_complete [OF assms(1,2), of "[]" "[]" evs] assms(3) by auto
  have "concat cs = concat (take j cs) @ concat (drop j cs)"
    by (metis append_take_drop_id concat_append)
  then have "length (concat (take j cs)) + length (concat (drop j cs)) = length (marked_bytes C k prefix pad mac)"
    using assms(3) by (metis length_append)
  then have "length (concat (drop j cs)) = 0" using j(3) by linarith
  then have e: "concat (drop j cs) = []" by (simp only: length_0_conv)
  have "drop j cs = []"
  proof (rule ccontr)
    assume "drop j cs \<noteq> []"
    then have "hd (drop j cs) \<in> set (drop j cs)" by (rule hd_in_set)
    then have "hd (drop j cs) \<in> set cs" "hd (drop j cs) = []" using e in_set_dropD by fastforce+
    then show False using assms(2) by blast
  qed
  then show ?thesis using j(2) by (simp add: read_marked_message_def)
qed

text \<open>Acceptance is proof of the identity key: somewhere in what was read there is a MARK of the
  leading representative followed by a MAC that verifies.\<close>

definition proves_identity :: "crypto_ops \<Rightarrow> (nat \<Rightarrow> nat) \<Rightarrow> bytes \<Rightarrow> nat \<Rightarrow> bytes \<Rightarrow> bool" where
  "proves_identity C clk k plen buf \<longleftrightarrow>
     (\<exists>pos\<le>length buf. plen \<le> pos \<and> pos + MARK_LEN + MAC_LEN \<le> length buf \<and>
        take (length (mark_value C k (take PUBKEY_LEN buf))) (drop pos buf) = mark_value C k (take PUBKEY_LEN buf) \<and>
        verify_mac_epochs C clk k (take (pos + MARK_LEN) buf)
          (drop (pos + MARK_LEN) (take (pos + MARK_LEN + MAC_LEN) buf)))"

lemma marked_check_True:
  assumes "marked_check C clk k plen buf = Some True"
  shows "proves_identity C clk k plen buf" "plen \<le> length buf"
proof -
  obtain rel where r: "\<not> length buf < plen"
      "find_subslice (drop plen buf) (mark_value C k (take PUBKEY_LEN buf)) = Some rel"
      "plen + rel + MARK_LEN + MAC_LEN \<le> length buf"
      "verify_mac_epochs C clk k (take (plen + rel + MARK_LEN) buf)
         (drop (plen + rel + MARK_LEN) (take (plen + rel + MARK_LEN + MAC_LEN) buf))"
    using assms by (auto simp: marked_check_def Let_def split: if_splits option.splits)
  show "plen \<le> length buf" using r(1) by simp
  show "proves_identity C clk k plen buf"
    unfolding proves_identity_def
    by (intro exI [of _ "plen + rel"])
      (use r find_subslice_Some(1) [OF r(2)] in \<open>simp add: add.commute\<close>)
qed

lemma read_marked_accepts:
  assumes "read_marked_loop C clk k plen buf evs = (Inr prefix, evs')"
  shows "\<exists>cs. evs = map RData cs @ evs' \<and> proves_identity C clk k plen (buf @ concat cs) \<and>
    prefix = take plen (buf @ concat cs) \<and> plen \<le> length (buf @ concat cs)"
  using assms
proof (induction C clk k plen buf evs rule: read_marked_loop.induct)
  case (1 C clk k plen buf evs)
  show ?case
  proof (cases "marked_check C clk k plen buf")
    case None
    then obtain bs evs1 where e: "evs = RData bs # evs1" "bs \<noteq> []" "\<not> MAX_HANDSHAKE_LEN \<le> length buf"
        and l: "read_marked_loop C clk k plen (buf @ bs) evs1 = (Inr prefix, evs')"
      using 1(2) by (subst (asm) read_marked_loop.simps)
        (auto split: if_splits list.splits read_event.splits)
    obtain cs where "evs1 = map RData cs @ evs'" "proves_identity C clk k plen ((buf @ bs) @ concat cs)"
        "prefix = take plen ((buf @ bs) @ concat cs)" "plen \<le> length ((buf @ bs) @ concat cs)"
      using 1(1) [OF None e(3,1) refl e(2) l] by blast
    then show ?thesis using e(1) by (intro exI [of _ "bs # cs"]) simp
  next
    case (Some b)
    then have "b" "prefix = take plen buf" "evs' = evs"
      using 1(2) by (cases b; simp add: read_marked_loop.simps [of C clk k plen buf evs])+
    then show ?thesis using marked_check_True [of C clk k plen buf] Some
      by (intro exI [of _ "[]"]) simp
  qed
qed

section \<open>The two roles\<close>

lemma repr_loop_Some:
  "repr_loop C R t n r = Some ((p, rp), r') \<Longrightarrow> to_representative C p t = Some rp"
  by (induction n arbitrary: r) (auto simp: Let_def split: prod.splits option.splits)

lemma gen_representable_Some:
  "gen_representable_ephemeral C R r = Some ((p, rp), r') \<Longrightarrow> \<exists>t. to_representative C p t = Some rp"
  by (auto simp: gen_representable_ephemeral_def dest: repr_loop_Some split: prod.splits)

text \<open>The hour of the sender is one of the three the reader tries.\<close>

definition epoch_seen :: "(nat \<Rightarrow> nat) \<Rightarrow> nat \<Rightarrow> bool" where
  "epoch_seen clk secs \<longleftrightarrow>
     int (clk 0 div 3600) = int (secs div 3600) \<or> int (clk 1 div 3600) - 1 = int (secs div 3600) \<or>
     int (clk 2 div 3600) + 1 = int (secs div 3600)"

text \<open>The MARK does not occur in the random padding before its place.\<close>

definition unique_mark :: "crypto_ops \<Rightarrow> bytes \<Rightarrow> nat \<Rightarrow> bytes \<Rightarrow> bool" where
  "unique_mark C k plen msg \<longleftrightarrow>
     find_subslice (drop plen msg) (mark_value C k (take PUBKEY_LEN msg)) = Some (length msg - plen - 32)"

lemma build_marked_ok:
  assumes "hash_ok C" "rng_ok R" "build_marked_message C R secs k prefix r = (msg, r')"
    "length prefix = plen" "32 \<le> plen" "plen \<le> 64" "unique_mark C k plen msg" "epoch_seen clk secs"
  shows "\<exists>pad mac. msg = marked_bytes C k prefix pad mac \<and> marked_msg C clk k plen prefix pad mac"
proof -
  let ?mark = "mark_value C k (take PUBKEY_LEN prefix)"
  obtain pad where pad: "random_pad R HS_MAX_PAD r = (pad, r')"
      "msg = (prefix @ pad @ ?mark) @ mac_with_epoch C secs k (prefix @ pad @ ?mark) 0"
    using assms(3) by (auto simp: build_marked_message_def Let_def split: prod.splits)
  define mac where "mac = mac_with_epoch C secs k (prefix @ pad @ ?mark) 0"
  have lp: "length pad \<le> 2048"
  proof -
    obtain n r1 where g: "gen_u32 R r = (n, r1)" "fill_bytes R r1 (n mod (HS_MAX_PAD + 1)) = (pad, r')"
      using pad(1) by (auto simp: random_pad_def split: prod.splits)
    have "n mod (HS_MAX_PAD + 1) < HS_MAX_PAD + 1" by (rule mod_less_divisor) simp
    then show ?thesis using rng_ok_fill [OF assms(2) g(2)] by (simp add: HS_MAX_PAD_def)
  qed
  have l: "length ?mark = 16" "length mac = 16"
    using assms(1) by (simp_all add: hash_ok_def mark_value_def keyed16_def mac_with_epoch_def mac_def)
  have msg: "msg = prefix @ (pad @ ?mark) @ mac" using pad(2) by (simp add: mac_def)
  have dr: "drop plen msg = (pad @ ?mark) @ mac" using assms(4) by (simp add: msg)
  have hd: "take PUBKEY_LEN msg = take PUBKEY_LEN prefix"
    using assms(4,5) by (simp add: msg PUBKEY_LEN_def)
  have "find_subslice ((pad @ ?mark) @ mac) ?mark = Some (length pad)"
    using assms(7) assms(4) l unfolding unique_mark_def dr hd by (simp add: msg)
  from find_subslice_Some(3) [OF this]
  have u: "take 16 (drop i ((pad @ ?mark) @ mac)) \<noteq> ?mark" if "i < length pad" for i
    using that l(1) by simp
  have "take 16 (drop i (pad @ ?mark)) \<noteq> ?mark" if "i < length pad" for i
    using u [OF that] take_drop_window [of i 16 "pad @ ?mark" mac] that l(1) by simp
  moreover have "verify_mac_epochs C clk k (prefix @ pad @ ?mark) mac"
    using assms(8)
    by (auto simp: verify_mac_epochs_def epoch_seen_def mac_def mac_with_epoch_def epoch_hour_bytes_def)
  ultimately have "marked_msg C clk k plen prefix pad mac"
    using assms(4-6) l lp
    by (simp add: marked_msg_def Let_def PUBKEY_LEN_def MARK_LEN_def MAC_LEN_def MAX_HANDSHAKE_LEN_def)
  moreover have "msg = marked_bytes C k prefix pad mac" using msg by (simp add: marked_bytes_def)
  ultimately show ?thesis by blast
qed

text \<open>What a server that answered must have gone through.\<close>

lemma server_answers:
  assumes "server_handshake C R clk kp r wr evs = Some (res, out, evs', r')" "out \<noteq> []"
  shows "\<exists>prefix x_point y_priv y_repr k_c2s k_s2c auth r1.
    read_marked_message C clk (identity_mac_key C (kp_public kp)) PUBKEY_LEN evs = (Inr prefix, evs') \<and>
    from_representative C (take PUBKEY_LEN prefix) = Some x_point \<and>
    gen_representable_ephemeral C R r = Some ((y_priv, y_repr), r1) \<and>
    \<not> dh_is_zero (mul_clamped C x_point y_priv) \<and> \<not> dh_is_zero (mul_clamped C x_point (kp_secret kp)) \<and>
    derive_session C (mul_clamped C x_point y_priv) (mul_clamped C x_point (kp_secret kp))
      (kp_public kp) (take PUBKEY_LEN prefix) y_repr = (k_c2s, k_s2c, auth) \<and>
    build_marked_message C R (clk 3) (identity_mac_key C (kp_public kp)) (y_repr @ auth) r1 = (out, r') \<and>
    res = (case wr of Some e \<Rightarrow> Inl (HsIo e) | None \<Rightarrow> Inr (cipher_new k_s2c, cipher_new k_c2s))"
proof -
  let ?k = "identity_mac_key C (kp_public kp)"
  obtain x evs1 where x: "read_marked_message C clk ?k PUBKEY_LEN evs = (x, evs1)"
    by (cases "read_marked_message C clk ?k PUBKEY_LEN evs")
  obtain prefix where p: "x = Inr prefix"
    using assms x by (cases x) (auto simp: server_handshake_def Let_def)
  obtain x_point where xp: "from_representative C (take PUBKEY_LEN prefix) = Some x_point"
    using assms x p by (cases "from_representative C (take PUBKEY_LEN prefix)")
      (auto simp: server_handshake_def Let_def)
  obtain y_priv y_repr r1 where y: "gen_representable_ephemeral C R r = Some ((y_priv, y_repr), r1)"
    using assms(1) x p xp by (cases "gen_representable_ephemeral C R r")
      (auto simp: server_handshake_def Let_def)
  have nz: "\<not> dh_is_zero (mul_clamped C x_point y_priv)" "\<not> dh_is_zero (mul_clamped C x_point (kp_secret kp))"
    using assms x p xp y by (auto simp: server_handshake_def Let_def split: if_splits)
  obtain k1 k2 a where d: "derive_session C (mul_clamped C x_point y_priv)
      (mul_clamped C x_point (kp_secret kp)) (kp_public kp) (take PUBKEY_LEN prefix) y_repr = (k1, k2, a)"
    by (cases "derive_session C (mul_clamped C x_point y_priv)
      (mul_clamped C x_point (kp_secret kp)) (kp_public kp) (take PUBKEY_LEN prefix) y_repr")
  obtain m r2 where b: "build_marked_message C R (clk 3) ?k (y_repr @ a) r1 = (m, r2)"
    by (cases "build_marked_message C R (clk 3) ?k (y_repr @ a) r1")
  have "evs' = evs1 \<and> out = m \<and> r' = r2 \<and>
      res = (case wr of Some e \<Rightarrow> Inl (HsIo e) | None \<Rightarrow> Inr (cipher_new k2, cipher_new k1))"
    using assms(1) x p xp y nz d b by (auto simp: server_handshake_def Let_def split: option.splits)
  then show ?thesis using x p xp y nz d b by blast
qed

lemma server_silent:
  assumes "server_handshake C R clk kp r wr evs = Some (res, out, evs', r')" "out \<noteq> []"
  shows "\<exists>cs. evs = map RData cs @ evs' \<and>
    proves_identity C clk (identity_mac_key C (kp_public kp)) PUBKEY_LEN (concat cs)"
proof -
  obtain prefix where "read_marked_message C clk (identity_mac_key C (kp_public kp)) PUBKEY_LEN evs = (Inr prefix, evs')"
    using server_answers [OF assms] by blast
  then show ?thesis using read_marked_accepts by (fastforce simp: read_marked_message_def)
qed

lemma derive_session_auth_length:
  "hash_ok C \<Longrightarrow> derive_session C a b c d e = (k1, k2, auth) \<Longrightarrow> length auth = 32"
  by (auto simp: derive_session_def Let_def hash_ok_def)

lemma handshake_agree:
  assumes C: "crypto_ok C" and R: "rng_ok R"
    and hello: "client_hello C R (cclk 0) (public_key C b) rc = Some (x_priv, x_repr, hello_msg, rc')"
    and um: "unique_mark C (identity_mac_key C (public_key C b)) PUBKEY_LEN hello_msg"
    and cs: "concat cs = hello_msg" "\<forall>c\<in>set cs. c \<noteq> []" "epoch_seen sclk (cclk 0)"
    and srv: "server_handshake C R sclk (from_secret_bytes C b) rs (None :: 'f option) (map RData cs)
      = Some (Inr (ssend, srecv), reply, evs, rs')"
    and ur: "unique_mark C (identity_mac_key C (public_key C b)) (PUBKEY_LEN + AUTH_LEN) reply"
    and ds: "concat ds = reply" "\<forall>d\<in>set ds. d \<noteq> []" "epoch_seen (\<lambda>i. cclk (i + 1)) (sclk 3)"
  shows "client_handshake C R cclk (public_key C b) rc (None :: 'e option) (map RData ds)
      = Some (Inr (srecv, ssend), hello_msg, [], rc')"
proof -
  let ?B = "public_key C b" and ?k = "identity_mac_key C (public_key C b)"
  have ok: "hash_ok C" "ecdh_ok C" using C by (simp_all add: crypto_ok_def)
  have kp: "kp_public (from_secret_bytes C b) = ?B" "kp_secret (from_secret_bytes C b) = b"
    by (simp_all add: from_secret_bytes_def)
  obtain r1 where x: "gen_representable_ephemeral C R rc = Some ((x_priv, x_repr), r1)"
      and bm: "build_marked_message C R (cclk 0) ?k x_repr r1 = (hello_msg, rc')"
    using hello by (auto simp: client_hello_def Let_def Option.bind_eq_Some_conv split: prod.splits)
  obtain tx where tx: "to_representative C x_priv tx = Some x_repr" using gen_representable_Some [OF x] by blast
  have lx: "length x_repr = 32" using ok(2) tx unfolding ecdh_ok_def by blast
  obtain pad mac where m: "hello_msg = marked_bytes C ?k x_repr pad mac"
      "marked_msg C sclk ?k PUBKEY_LEN x_repr pad mac"
    using build_marked_ok [OF ok(1) R bm _ _ _ um cs(3)] lx by (auto simp: PUBKEY_LEN_def)
  have rd: "read_marked_message C sclk ?k PUBKEY_LEN (map RData cs :: 'f read_event list) = (Inr x_repr, [])"
    using read_marked_exact [OF m(2) cs(2), of "[]"] cs(1) m(1) by simp
  have ne: "reply \<noteq> []"
    using ur by (auto simp: unique_mark_def find_subslice_def mark_value_def keyed16_def split: if_splits)
  obtain prefix X y_priv y_repr k1 k2 auth r2 where a:
    "read_marked_message C sclk ?k PUBKEY_LEN (map RData cs) = (Inr prefix, evs)"
    "from_representative C (take PUBKEY_LEN prefix) = Some X"
    "gen_representable_ephemeral C R rs = Some ((y_priv, y_repr), r2)"
    "\<not> dh_is_zero (mul_clamped C X y_priv)" "\<not> dh_is_zero (mul_clamped C X b)"
    "derive_session C (mul_clamped C X y_priv) (mul_clamped C X b) ?B (take PUBKEY_LEN prefix) y_repr = (k1, k2, auth)"
    "build_marked_message C R (sclk 3) ?k (y_repr @ auth) r2 = (reply, rs')"
    "ssend = cipher_new k2" "srecv = cipher_new k1"
    using server_answers [OF srv ne] unfolding kp by auto
  have px: "prefix = x_repr" "take PUBKEY_LEN prefix = x_repr"
    using a(1) rd lx by (auto simp: PUBKEY_LEN_def)
  obtain ty where ty: "to_representative C y_priv ty = Some y_repr" using gen_representable_Some [OF a(3)] by blast
  obtain Y where Y: "from_representative C y_repr = Some Y" and ly: "length y_repr = 32"
    using ok(2) ty unfolding ecdh_ok_def by blast
  have X: "from_representative C x_repr = Some X" using a(2) px by simp
  have dh: "mul_clamped C X y_priv = mul_clamped C Y x_priv" "mul_clamped C X b = mul_clamped C ?B x_priv"
    using ok(2) tx ty X Y unfolding ecdh_ok_def by (metis option.inject)+
  have la: "length auth = 32" by (rule derive_session_auth_length [OF ok(1) a(6)])
  obtain pad' mac' where m': "reply = marked_bytes C ?k (y_repr @ auth) pad' mac'"
      "marked_msg C (\<lambda>i. cclk (i + 1)) ?k (PUBKEY_LEN + AUTH_LEN) (y_repr @ auth) pad' mac'"
    using build_marked_ok [OF ok(1) R a(7) _ _ _ ur ds(3)] ly la by (auto simp: PUBKEY_LEN_def AUTH_LEN_def)
  have rd': "read_marked_message C (\<lambda>i. cclk (i + 1)) ?k (PUBKEY_LEN + AUTH_LEN) (map RData ds :: 'e read_event list)
      = (Inr (y_repr @ auth), [])"
    using read_marked_exact [OF m'(2) ds(2), of "[]"] ds(1) m'(1) by simp
  have "client_finish C ?B x_priv x_repr (y_repr @ auth) = (Inr (srecv, ssend) :: 'e handshake_error + _)"
    using Y ly la a(4-6,8,9) px(2) dh
    by (simp add: client_finish_def Let_def PUBKEY_LEN_def AUTH_LEN_def)
  then show ?thesis using hello rd' by (simp add: client_handshake_def)
qed

text \<open>Whatever else the read that completes the message carried is dropped.\<close>

lemma overread_lost:
  assumes "marked_msg C clk k plen prefix pad mac"
  shows "read_marked_message C clk k plen (RData (marked_bytes C k prefix pad mac @ extra) # evs) = (Inr prefix, evs)"
proof -
  let ?m = "marked_bytes C k prefix pad mac"
  have ne: "?m \<noteq> []" using assms by (auto simp: marked_msg_def marked_bytes_def PUBKEY_LEN_def Let_def)
  obtain j where j: "j \<le> length [?m @ extra]"
    "read_marked_loop C clk k plen [] (map RData [?m @ extra] @ evs) = (Inr prefix, map RData (drop j [?m @ extra]) @ evs)"
    "length ?m \<le> length (concat (take j [?m @ extra]))"
    using read_marked_complete [OF assms, of "[?m @ extra]" "[]" extra evs] ne by auto
  have "j = 1" using j(1,3) ne by (cases j) auto
  then show ?thesis using j(2) by (simp add: read_marked_message_def)
qed

section \<open>Properties\<close>

text \<open>Identity keys survive their text form: the hexadecimal rendering of a 32-byte key is 64 lower-case
  digits and parses back to the key. The parser is not total though: a string of 64 bytes whose
  characters do not fall on even byte positions makes it panic instead of being refused.\<close>
theorem key_hex_roundtrip:
  "(\<forall>bs. length bs = 32 \<longrightarrow> length (key_to_hex bs) = 64 \<and> key_from_hex (key_to_hex bs) = Some (Some bs)) \<and>
   key_from_hex (48 # 233 # replicate 61 48) = None"
proof
  show "\<forall>bs. length bs = 32 \<longrightarrow> length (key_to_hex bs) = 64 \<and> key_from_hex (key_to_hex bs) = Some (Some bs)"
    by (simp add: key_hex_roundtrip_lemma key_to_hex_length)
  show "key_from_hex (48 # 233 # replicate 61 48) = None"
    by code_simp
qed

theorem key_hex_roundtrip_witness:
  "key_from_hex (key_to_hex (replicate 32 171)) = Some (Some (replicate 32 171))"
  using key_hex_roundtrip [THEN conjunct1, THEN spec, of "replicate 32 171"] by simp

text \<open>The framed channel. A receiver that starts with the sender's key and counter opens the sealed
  frames, in order, to exactly the messages sent and ends with the sender's counter; frame sizes
  depend only on message sizes. Conversely, a sequence of frames the receiver accepts in full is the
  sequence the sender seals for those messages: a changed, dropped, repeated or reordered frame is not
  accepted as another message.\<close>
theorem channel_in_order:
  assumes "aead_ok C"
  shows "(\<forall>ms c. map_state (cipher_open C) (fst (map_state (seal_frame C) ms c)) c =
        (map Inr ms, snd (map_state (seal_frame C) ms c)) \<and>
      map length (fst (map_state (seal_frame C) ms c)) = map (\<lambda>m. enc_frame_len (length (snd m))) ms) \<and>
    (\<forall>fs ms c c'. map_state (cipher_open C) fs c = ((map Inr ms :: ('e handshake_error + byte \<times> bytes) list), c') \<longrightarrow>
       map_state (seal_frame C) ms c = (fs, c'))"
  using channel.in_order [OF assms surjective_pairing] channel.sizes [OF assms surjective_pairing]
    channel.no_forgery [OF assms]
  by blast

theorem channel_in_order_witness:
  "map_state (cipher_open toy_crypto) (fst (map_state (seal_frame toy_crypto) [(1, [65, 66]), (2, [0])] (cipher_new [5]))) (cipher_new [5])
    = ([Inr (1, [65, 66]), Inr (2, [0])] :: (unit handshake_error + byte \<times> bytes) list,
       snd (map_state (seal_frame toy_crypto) [(1, [65, 66]), (2, [0])] (cipher_new [5])))"
proof -
  have "aead_ok toy_crypto" using toy_crypto_ok by (simp add: crypto_ok_def)
  from channel_in_order [OF this, where 'e = unit, THEN conjunct1, rule_format,
      of "[(1, [65, 66]), (2, [0])]" "cipher_new [5]", THEN conjunct1]
  show ?thesis by (simp only: list.map)
qed

text \<open>C38: No nonce is used twice under one key: sealing at most \<open>2 ^ 64\<close> frames from any starting counter
  uses pairwise different nonces, one per frame, each the 12-byte little-endian encoding of the
  frame's position, and never changes the key.\<close>
theorem nonces_never_repeat:
  assumes "map_state (seal_frame C) ms c = (fs, c')" "length ms \<le> 2 ^ 64"
  shows "distinct (map (nth_nonce c) [0..<length ms]) \<and> length fs = length ms \<and> fc_key c' = fc_key c \<and>
    fc_counter c' = fc_counter c + of_nat (length ms) \<and>
    (\<forall>i<length ms. length (nth_nonce c i) = 12 \<and>
       fs ! i = aead_seal C (fc_key c) (nth_nonce c i) (fst (ms ! i) # snd (ms ! i)))"
  using nonces_distinct [OF assms(2)] seal_run_nonces [OF assms(1)]
  by (simp add: nth_nonce_def u64_to_le_def next_nonce_def)

theorem nonces_never_repeat_witness:
  "\<exists>fs c'. map_state (seal_frame toy_crypto) [(1, [65]), (2, [0])] (cipher_new [5]) = (fs, c') \<and>
    nth_nonce (cipher_new [5]) 0 \<noteq> nth_nonce (cipher_new [5]) 1 \<and> fc_counter c' = 2"
proof -
  obtain fs c' where f: "map_state (seal_frame toy_crypto) [(1, [65]), (2, [0])] (cipher_new [5]) = (fs, c')" by force
  have "length [(1 :: byte, [65 :: byte]), (2, [0])] = 2" by simp
  then show ?thesis using nonces_never_repeat [OF f] f by (auto simp del: map_state.simps simp: cipher_new_def)
qed

text \<open>Reading a handshake message does not depend on how the network splits it, but it forgets what
  follows. Whatever non-empty pieces a well-formed message arrives in, the reader returns its prefix
  and leaves the rest of the stream unread; but when the last piece also carries bytes sent after the
  message, the prefix is returned and those bytes are gone.\<close>
theorem handshake_framing:
  assumes "marked_msg C clk k plen pre pad mac"
  shows "(\<forall>cs evs. (\<forall>c\<in>set cs. c \<noteq> []) \<and> concat cs = marked_bytes C k pre pad mac \<longrightarrow>
      read_marked_message C clk k plen (map RData cs @ evs) = (Inr pre :: 'e handshake_error + bytes, evs)) \<and>
    (\<forall>extra evs. read_marked_message C clk k plen (RData (marked_bytes C k pre pad mac @ extra) # evs) =
      (Inr pre :: 'e handshake_error + bytes, evs))"
  using read_marked_exact [OF assms] overread_lost [OF assms] by blast

lemma toy_marked_msg:
  "marked_msg toy_crypto (\<lambda>_. 7200) (replicate 32 3) 32 (replicate 32 7) [1, 2]
     (mac_with_epoch toy_crypto 7200 (replicate 32 3)
        (replicate 32 7 @ [1, 2] @ mark_value toy_crypto (replicate 32 3) (replicate 32 7)) 0)"
  by code_simp

theorem handshake_framing_witness:
  "\<exists>m. read_marked_message toy_crypto (\<lambda>_. 7200) (replicate 32 3) 32 [RData (m @ [9, 9]), RFail ()] =
      (Inr (replicate 32 7), [RFail ()])"
  using handshake_framing [OF toy_marked_msg, where 'e = unit] by blast

text \<open>C4: A server never answers a probe. If the server role wrote anything at all, then the bytes it had
  read from the peer, over the reads it made, contain a MARK computed from the first 32 bytes under
  the key derived from its identity, followed by a MAC over everything before it that verifies for the
  hour of the server's clock or a neighbouring one. So whoever does not know the bridge key, or
  replays a message of a past epoch, gets a silent connection; and when the role fails before its
  reply, for whatever reason, nothing was written.\<close>
theorem silent_to_probes:
  assumes "server_handshake C R clk kp r wr evs = Some (res, out, evs', r')"
  shows "(out \<noteq> [] \<longrightarrow> (\<exists>cs. evs = map RData cs @ evs' \<and>
      proves_identity C clk (identity_mac_key C (kp_public kp)) PUBKEY_LEN (concat cs))) \<and>
    (isl res \<and> wr = None \<longrightarrow> out = [])"
proof (intro conjI impI)
  show "\<exists>cs. evs = map RData cs @ evs' \<and>
      proves_identity C clk (identity_mac_key C (kp_public kp)) PUBKEY_LEN (concat cs)" if "out \<noteq> []"
    using server_silent [OF assms that] .
  assume a: "isl res \<and> wr = None"
  show "out = []"
  proof (rule ccontr)
    assume "out \<noteq> []"
    then show False using server_answers [OF assms] a by auto
  qed
qed

text \<open>C5: Client and server agree. When a client opens a connection to the holder of a private key,
  and the network delivers both messages in any pieces within an hour of each other's clocks, the
  handshake succeeds on the client whenever it succeeds on the server, and the client's sending cipher
  is the server's receiving cipher and the reverse. The MARK is assumed not to occur by chance in the
  random padding.\<close>
theorem handshake_agreement:
  assumes "crypto_ok C" "rng_ok R"
    and "client_hello C R (cclk 0) (public_key C b) rc = Some (x_priv, x_repr, hello_msg, rc')"
    and "unique_mark C (identity_mac_key C (public_key C b)) PUBKEY_LEN hello_msg"
    and "concat cs = hello_msg" "\<forall>c\<in>set cs. c \<noteq> []" "epoch_seen sclk (cclk 0)"
    and "server_handshake C R sclk (from_secret_bytes C b) rs (None :: 'f option) (map RData cs)
      = Some (Inr (ssend, srecv), reply, evs, rs')"
    and "unique_mark C (identity_mac_key C (public_key C b)) (PUBKEY_LEN + AUTH_LEN) reply"
    and "concat ds = reply" "\<forall>d\<in>set ds. d \<noteq> []" "epoch_seen (\<lambda>i. cclk (i + 1)) (sclk 3)"
  shows "client_handshake C R cclk (public_key C b) rc (None :: 'e option) (map RData ds)
      = Some (Inr (srecv, ssend), hello_msg, [], rc')"
  by (rule handshake_agree [OF assms])

text \<open>The witness: the toy primitives and no padding, each message delivered in two pieces.\<close>

lemma least_repr: "gen_representable_ephemeral toy_crypto least_rng () = Some ((replicate 32 7, replicate 32 7), ())"
proof -
  have limit: "ELLIGATOR_RETRY_LIMIT = Suc 63" by (simp add: ELLIGATOR_RETRY_LIMIT_def)
  show ?thesis by (simp only: gen_representable_ephemeral_def limit repr_loop.simps) (simp add: least_rng_def toy_crypto_def)
qed

lemma least_build:
  "build_marked_message C least_rng secs k pre () =
    (pre @ mark_value C k (take PUBKEY_LEN pre) @ mac_with_epoch C secs k (pre @ mark_value C k (take PUBKEY_LEN pre)) 0, ())"
  by (simp add: build_marked_message_def random_pad_def least_rng_def Let_def)

lemma keyed16_length: "hash_ok C \<Longrightarrow> length (keyed16 C k d) = 16"
  by (simp add: keyed16_def hash_ok_def)

lemma least_unique:
  assumes "hash_ok C" "32 \<le> length pre"
  shows "unique_mark C k (length pre) (fst (build_marked_message C least_rng secs k pre ()))"
proof -
  let ?m = "mark_value C k (take PUBKEY_LEN pre)"
  have m: "length ?m = 16" "length (mac_with_epoch C secs k d 0) = 16" for d
    using keyed16_length [OF assms(1)] by (simp_all add: mark_value_def mac_with_epoch_def)
  have "find_subslice (?m @ x) ?m = Some 0" for x
    by (rule find_subslice_first) (use m in auto)
  then show ?thesis using assms(2) m by (simp add: unique_mark_def least_build PUBKEY_LEN_def)
qed

definition toy_key :: bytes where
  "toy_key = identity_mac_key toy_crypto (replicate 32 9)"

definition toy_hello :: bytes where
  "toy_hello = fst (build_marked_message toy_crypto least_rng 7200 toy_key (replicate 32 7) ())"

lemma toy_hello_facts:
  "client_hello toy_crypto least_rng 7200 (public_key toy_crypto (replicate 32 9)) () =
     Some (replicate 32 7, replicate 32 7, toy_hello, ())"
  "unique_mark toy_crypto (identity_mac_key toy_crypto (public_key toy_crypto (replicate 32 9))) PUBKEY_LEN toy_hello"
  "take 40 toy_hello \<noteq> []" "drop 40 toy_hello \<noteq> []"
proof -
  have pk: "public_key toy_crypto s = s" for s by (simp add: toy_crypto_def)
  have h: "hash_ok toy_crypto" using toy_crypto_ok by (simp add: crypto_ok_def)
  show "client_hello toy_crypto least_rng 7200 (public_key toy_crypto (replicate 32 9)) () =
     Some (replicate 32 7, replicate 32 7, toy_hello, ())"
    by (simp add: client_hello_def pk least_repr toy_hello_def toy_key_def case_prod_beta Let_def)
  show "unique_mark toy_crypto (identity_mac_key toy_crypto (public_key toy_crypto (replicate 32 9))) PUBKEY_LEN toy_hello"
    using least_unique [OF h, of "replicate 32 7" toy_key 7200] by (simp add: pk toy_hello_def toy_key_def PUBKEY_LEN_def)
  have "length toy_hello = 64"
    using keyed16_length [OF h] by (simp add: toy_hello_def least_build mark_value_def mac_with_epoch_def)
  then show "take 40 toy_hello \<noteq> []" "drop 40 toy_hello \<noteq> []" by auto
qed

lemma toy_server_run:
  "\<exists>ssend srecv auth. length auth = 32 \<and>
     server_handshake toy_crypto least_rng (\<lambda>_. 7300) (from_secret_bytes toy_crypto (replicate 32 9)) () (None :: unit option)
       (map RData [take 40 toy_hello, drop 40 toy_hello]) =
     Some (Inr (ssend, srecv), fst (build_marked_message toy_crypto least_rng 7300 toy_key (replicate 32 7 @ auth) ()), [], ())"
proof -
  have C: "crypto_ok toy_crypto" "hash_ok toy_crypto" using toy_crypto_ok by (simp_all add: crypto_ok_def)
  have kp: "from_secret_bytes toy_crypto (replicate 32 9) = \<lparr>kp_secret = replicate 32 9, kp_public = replicate 32 9\<rparr>"
    by (simp add: from_secret_bytes_def toy_crypto_def)
  have seen: "epoch_seen (\<lambda>_. 7300) 7200" by (simp add: epoch_seen_def)
  have u: "unique_mark toy_crypto toy_key PUBKEY_LEN toy_hello"
    using toy_hello_facts(2) by (simp add: toy_key_def toy_crypto_def)
  obtain pad mac where m: "toy_hello = marked_bytes toy_crypto toy_key (replicate 32 7) pad mac"
      "marked_msg toy_crypto (\<lambda>_. 7300) toy_key PUBKEY_LEN (replicate 32 7) pad mac"
    using build_marked_ok [OF C(2) least_rng_ok, of 7200 toy_key "replicate 32 7" "()" toy_hello "()" PUBKEY_LEN "\<lambda>_. 7300"] u seen
    by (auto simp: toy_hello_def PUBKEY_LEN_def least_build)
  have read: "read_marked_message toy_crypto (\<lambda>_. 7300) toy_key PUBKEY_LEN
      (map RData [take 40 toy_hello, drop 40 toy_hello] @ []) = (Inr (replicate 32 7) :: unit handshake_error + bytes, [])"
    by (rule read_marked_exact [OF m(2)]) (use toy_hello_facts m(1) in auto)
  obtain k1 k2 auth where d: "derive_session toy_crypto (replicate 32 14) (replicate 32 16) (replicate 32 9)
      (replicate 32 7) (replicate 32 7) = (k1, k2, auth)" by (metis prod_cases3)
  have dh: "mul_clamped toy_crypto (replicate 32 7) (replicate 32 7) = replicate 32 14"
      "mul_clamped toy_crypto (replicate 32 7) (replicate 32 9) = replicate 32 16"
    by (simp_all add: toy_crypto_def add_bytes_def zip_replicate)
  have z: "\<not> dh_is_zero (replicate 32 14)" "\<not> dh_is_zero (replicate 32 16)" by (simp_all add: dh_is_zero_def list_all_iff)
  have rep: "from_representative toy_crypto (replicate 32 7) = Some (replicate 32 7)" by (simp add: toy_crypto_def)
  have "server_handshake toy_crypto least_rng (\<lambda>_. 7300) (from_secret_bytes toy_crypto (replicate 32 9)) () (None :: unit option)
       (map RData [take 40 toy_hello, drop 40 toy_hello]) =
     Some (Inr (cipher_new k2, cipher_new k1),
       fst (build_marked_message toy_crypto least_rng 7300 toy_key (replicate 32 7 @ auth) ()), [], ())"
    using read by (simp add: server_handshake_def kp toy_key_def [symmetric] PUBKEY_LEN_def rep least_repr dh z d Let_def case_prod_beta)
  then show ?thesis using derive_session_auth_length [OF C(2) d] by blast
qed

theorem handshake_agreement_witness:
  "\<exists>ssend srecv reply. client_handshake toy_crypto least_rng (\<lambda>_. 7200) (public_key toy_crypto (replicate 32 9)) ()
      (None :: unit option) (map RData [take 70 reply, drop 70 reply]) = Some (Inr (srecv, ssend), toy_hello, [], ())"
proof -
  have C: "hash_ok toy_crypto" using toy_crypto_ok by (simp add: crypto_ok_def)
  obtain ssend srecv auth where s: "length auth = 32"
    "server_handshake toy_crypto least_rng (\<lambda>_. 7300) (from_secret_bytes toy_crypto (replicate 32 9)) () (None :: unit option)
       (map RData [take 40 toy_hello, drop 40 toy_hello]) =
     Some (Inr (ssend, srecv), fst (build_marked_message toy_crypto least_rng 7300 toy_key (replicate 32 7 @ auth) ()), [], ())"
    using toy_server_run by blast
  let ?reply = "fst (build_marked_message toy_crypto least_rng 7300 toy_key (replicate 32 7 @ auth) ())"
  have u: "unique_mark toy_crypto (identity_mac_key toy_crypto (public_key toy_crypto (replicate 32 9)))
      (PUBKEY_LEN + AUTH_LEN) ?reply"
    using least_unique [OF C, of "replicate 32 7 @ auth" toy_key 7300] s(1)
    by (simp add: toy_key_def toy_crypto_def PUBKEY_LEN_def AUTH_LEN_def)
  have "length ?reply = 96"
    using keyed16_length [OF C] s(1) by (simp add: least_build mark_value_def mac_with_epoch_def)
  then have ds: "concat [take 70 ?reply, drop 70 ?reply] = ?reply" "\<forall>d\<in>set [take 70 ?reply, drop 70 ?reply]. d \<noteq> []"
    by auto
  have cs: "concat [take 40 toy_hello, drop 40 toy_hello] = toy_hello"
      "\<forall>d\<in>set [take 40 toy_hello, drop 40 toy_hello]. d \<noteq> []"
    using toy_hello_facts(3,4) by auto
  have seen: "epoch_seen (\<lambda>_. 7300) 7200" "epoch_seen (\<lambda>i. 7200) 7300" by (simp_all add: epoch_seen_def)
  show ?thesis
    using handshake_agreement [OF toy_crypto_ok least_rng_ok toy_hello_facts(1,2) cs seen(1) s(2) u ds seen(2)] by blast
qed

theorem silent_to_probes_witness:
  "\<exists>res out evs'. server_handshake toy_crypto least_rng (\<lambda>_. 7300) (from_secret_bytes toy_crypto (replicate 32 9)) ()
      (None :: unit option) (map RData [take 40 toy_hello, drop 40 toy_hello]) = Some (res, out, evs', ()) \<and> out \<noteq> [] \<and>
    (\<exists>cs. map RData [take 40 toy_hello, drop 40 toy_hello] = map RData cs @ evs' \<and>
      proves_identity toy_crypto (\<lambda>_. 7300) (identity_mac_key toy_crypto (replicate 32 9)) PUBKEY_LEN (concat cs))"
proof -
  obtain ssend srecv auth where s:
    "server_handshake toy_crypto least_rng (\<lambda>_. 7300) (from_secret_bytes toy_crypto (replicate 32 9)) () (None :: unit option)
       (map RData [take 40 toy_hello, drop 40 toy_hello]) =
     Some (Inr (ssend, srecv), fst (build_marked_message toy_crypto least_rng 7300 toy_key (replicate 32 7 @ auth) ()), [], ())"
    using toy_server_run by blast
  have ne: "fst (build_marked_message toy_crypto least_rng 7300 toy_key (replicate 32 7 @ auth) ()) \<noteq> []"
    by (simp add: least_build)
  have kp: "kp_public (from_secret_bytes toy_crypto (replicate 32 9)) = replicate 32 9"
    by (simp add: from_secret_bytes_def toy_crypto_def)
  show ?thesis using silent_to_probes [OF s] ne s kp by fastforce
qed

end
