(* ===== verification/Emitter.thy ===== *)
theory Emitter
  imports Tail Handshake "HOL-Library.Multiset"
begin

text \<open>
  The shared emitter of \<open>src/src/transport.rs\<close>: a flow (its shaped session, cipher, unwritten bytes
  and tail), the service it gets at every tick, the round over all flows, and the receiving side
  that opens frames, drops dummies and forwards payloads. The environment of a service is its
  arguments: what the \<open>k\<close>-th \<open>try_recv\<close> on the reader channel returns, the readings of the clock
  (\<open>t i\<close> outside the loop, \<open>clk (7 k + i)\<close> in its \<open>k\<close>-th round), and what \<open>try_write\<close> returns.
  Task plumbing is not modelled; the frames a service returns are those it logs (\<open>FlowLog\<close>).
\<close>

section \<open>Flows\<close>

definition PENDING_CAP :: nat where
  "PENDING_CAP = 64 * 1024"

definition STEADY_CHANNEL_CAP :: nat where
  "STEADY_CHANNEL_CAP = 1024"

definition EMIT_TICK :: nanos where
  "EMIT_TICK = 1000000"

record 'r flow_slot =
  fl_session :: "'r shaped_session"
  fl_wire_seq :: nat
  fl_session_start :: nanos
  fl_pending :: bytes
  fl_reader_done :: bool
  fl_policy :: tail_policy
  fl_tail :: "(nanos \<times> nat) option"
  fl_finish_by :: "nanos option"
  fl_thresholds :: fuzzed_thresholds
  fl_real_hold_until :: nanos
  fl_real_bytes :: nat
  fl_cipher :: frame_cipher
  fl_clock_started :: bool

datatype 'g flow_error = FlowSeeds "'g seed_error" | FlowComposition composition_error

text \<open>
  What \<open>shaped_forward\<close> (\<open>gated\<close>) and \<open>register_shaped_flow\<close> (not gated) build before they
  register the flow; \<open>r_iat\<close> and \<open>r_th\<close> are the two generators seeded from entropy, \<open>G\<close> and \<open>os\<close>
  the operating system's.
\<close>

definition flow_open ::
  "'r rng_ops \<Rightarrow> (bytes \<Rightarrow> bytes \<Rightarrow> bytes) \<Rightarrow> ('os, 'g) os_random \<Rightarrow> 'os \<Rightarrow> 'r \<Rightarrow> 'r \<Rightarrow> (nat \<Rightarrow> nanos) \<Rightarrow> bool \<Rightarrow>
     tail_policy \<Rightarrow> frame_cipher \<Rightarrow> (('g flow_error + 'r flow_slot) \<times> 'os) option" where
  "flow_open R H G os r_iat r_th clk gated policy cipher = do {
     (iat_ms, _) \<leftarrow> gen_range_f64 R r_iat JITTER_IAT_MIN_MS JITTER_IAT_MAX_MS;
     (th, _) \<leftarrow> sample_thresholds R r_th;
     (case session_generate G os (clk 0) of
        (Inl e, os') \<Rightarrow> Some (Inl (FlowSeeds e), os')
      | (Inr seeds, os') \<Rightarrow> do {
          res \<leftarrow> shaped_new R H (\<lambda>i. clk (i + 2)) (burst_composition seeds) (shaped_composition_config iat_ms);
          (case res of
             Inl e \<Rightarrow> Some (Inl (FlowComposition e), os')
           | Inr session \<Rightarrow>
               let session_start = clk 1;
                   hold = (case policy of
                             TailEpoch clock \<Rightarrow> if gated then next_boundary clock session_start else session_start
                           | _ \<Rightarrow> session_start)
               in Some (Inr \<lparr>fl_session = session, fl_wire_seq = 0, fl_session_start = session_start,
                             fl_pending = [], fl_reader_done = False, fl_policy = policy, fl_tail = None,
                             fl_finish_by = None, fl_thresholds = th, fl_real_hold_until = hold,
                             fl_real_bytes = 0, fl_cipher = cipher, fl_clock_started = False\<rparr>, os'))
        })
   }"

definition encode_frame :: "crypto_ops \<Rightarrow> mixed_frame \<Rightarrow> frame_cipher \<Rightarrow> bytes \<times> frame_cipher" where
  "encode_frame C frame cipher =
     (let (kind, cell) = (case frame of RealFrame p \<Rightarrow> (KIND_REAL, packet_bytes p) | DummyFrame b \<Rightarrow> (KIND_DUMMY, b))
      in cipher_seal C kind cell cipher)"

section \<open>The service of a flow\<close>

datatype pull = Got bytes | ChannelEmpty | Disconnected

definition pull_cell ::
  "'r rng_ops \<Rightarrow> bool \<Rightarrow> (nat \<Rightarrow> nanos) \<Rightarrow> pull \<Rightarrow> 'r flow_slot \<Rightarrow> (bytes list \<times> 'r flow_slot) option" where
  "pull_cell R gate_open now recvd fl =
     (if \<not> fl_reader_done fl \<and> ss_has_queue_space (fl_session fl) \<and> gate_open then
        (case recvd of
           Got cell \<Rightarrow>
             let true_len = length (snd (decode_real_cell cell))
             in (case packet_new cell of
                   Inl _ \<Rightarrow> Some ([cell], fl)
                 | Inr packet \<Rightarrow> do {
                     (res, s) \<leftarrow> ss_inject_real R (now 1) (now 2) packet (fl_session fl);
                     let fl1 = fl\<lparr>fl_session := s\<rparr>;
                     Some ([cell], case res of
                        Inr _ \<Rightarrow> fl1\<lparr>fl_real_bytes := sat_add (fl_real_bytes fl1) true_len\<rparr>
                      | Inl _ \<Rightarrow> fl1)
                   })
         | ChannelEmpty \<Rightarrow> Some ([], fl)
         | Disconnected \<Rightarrow>
             let tail = tail_targets (fl_real_bytes fl) (fl_wire_seq fl) (fl_policy fl) (fl_thresholds fl)
                          (fl_session_start fl) (now 3);
                 backstop = (case tail of Some (dl, _) \<Rightarrow> dl + 5 * 1000000000
                             | None \<Rightarrow> now 4 + 5 * 1000000000)
             in Some ([], fl\<lparr>fl_reader_done := True, fl_tail := tail, fl_finish_by := Some backstop\<rparr>))
      else Some ([], fl))"

text \<open>The loop over due slots, with fuel; it returns the cells pulled and the frames emitted.\<close>

fun service_loop ::
  "nat \<Rightarrow> crypto_ops \<Rightarrow> 'r rng_ops \<Rightarrow> bool \<Rightarrow> (nat \<Rightarrow> nanos) \<Rightarrow> (nat \<Rightarrow> pull) \<Rightarrow> nat \<Rightarrow> 'r flow_slot \<Rightarrow>
     (bytes list \<times> mixed_frame list \<times> 'r flow_slot) option" where
  "service_loop 0 C R gate_open clk recv k fl = None"
| "service_loop (Suc fuel) C R gate_open clk recv k fl =
     (if ss_slot_ready (clk (7 * k)) (fl_session fl) \<and> length (fl_pending fl) < PENDING_CAP then do {
        (got, fl1) \<leftarrow> pull_cell R gate_open (\<lambda>i. clk (7 * k + i)) (recv k) fl;
        let (fo, s) = ss_tick R (clk (7 * k + 5)) (clk (7 * k + 6)) (fl_session fl1);
        let fl2 = fl1\<lparr>fl_session := s\<rparr>;
        let (out, fl3) =
          (case fo of
             None \<Rightarrow> ([], fl2)
           | Some frame \<Rightarrow>
               let (bs, c) = encode_frame C frame (fl_cipher fl2)
               in ([frame], fl2\<lparr>fl_cipher := c, fl_wire_seq := fl_wire_seq fl2 + 1,
                               fl_pending := fl_pending fl2 @ bs\<rparr>));
        (got', out', fl4) \<leftarrow> service_loop fuel C R gate_open clk recv (k + 1) fl3;
        Some (got @ got', out @ out', fl4)
      } else Some ([], [], fl))"

text \<open>124 frames of 531 bytes exceed \<open>PENDING_CAP\<close>; one more round ends the loop.\<close>

definition SERVICE_FUEL :: nat where
  "SERVICE_FUEL = 125"

datatype write_result = Wrote nat | WouldBlock | WriteError

record 'r service_result =
  sv_keep :: bool
  sv_written :: bytes
  sv_pulled :: "bytes list"
  sv_frames :: "mixed_frame list"
  sv_flow :: "'r flow_slot"

definition flow_finished :: "nanos \<Rightarrow> nanos \<Rightarrow> 'r flow_slot \<Rightarrow> bool" where
  "flow_finished t1 t2 fl \<longleftrightarrow>
     fl_reader_done fl \<and>
     (let drained = (ss_queue_depth (fl_session fl) = 0 \<and> fl_pending fl = []);
          tail_met = (case fl_tail fl of None \<Rightarrow> True
                      | Some (dl, vol) \<Rightarrow> dl \<le> t1 \<and> vol \<le> fl_wire_seq fl);
          past_deadline = (case fl_finish_by fl of None \<Rightarrow> False | Some d \<Rightarrow> d \<le> t2)
      in drained \<and> tail_met \<or> past_deadline)"

definition service_flow ::
  "crypto_ops \<Rightarrow> 'r rng_ops \<Rightarrow> (nat \<Rightarrow> nanos) \<Rightarrow> (nat \<Rightarrow> nanos) \<Rightarrow> (nat \<Rightarrow> pull) \<Rightarrow> write_result \<Rightarrow> 'r flow_slot \<Rightarrow>
     'r service_result option" where
  "service_flow C R t clk recv wr fl = do {
     let fl1 = (if fl_clock_started fl then fl
                else fl\<lparr>fl_session := ss_restart_clock R (t 0) (t 1) (fl_session fl), fl_clock_started := True\<rparr>);
     (got, out, fl2) \<leftarrow>
       (if length (fl_pending fl1) < PENDING_CAP then
          service_loop SERVICE_FUEL C R (fl_real_hold_until fl1 \<le> t 2) clk recv 0 fl1
        else Some ([], [], fl1));
     let (alive, written, fl3) =
       (if fl_pending fl2 = [] then (True, [], fl2)
        else case wr of
          Wrote n \<Rightarrow> if n = 0 then (False, [], fl2)
                     else (True, take n (fl_pending fl2), fl2\<lparr>fl_pending := drop n (fl_pending fl2)\<rparr>)
        | WouldBlock \<Rightarrow> (True, [], fl2)
        | WriteError \<Rightarrow> (False, [], fl2));
     Some \<lparr>sv_keep = (alive \<and> \<not> flow_finished (t 3) (t 4) fl3), sv_written = written,
           sv_pulled = got, sv_frames = out, sv_flow = fl3\<rparr>
   }"

section \<open>The round over all flows\<close>

text \<open>\<open>swap_remove(i)\<close>, and the \<open>while\<close> loop of \<open>run_emitter\<close> over a step that says whether to keep
  the flow.\<close>

definition swap_remove :: "nat \<Rightarrow> 'a list \<Rightarrow> 'a list" where
  "swap_remove i xs = butlast (xs[i := last xs])"

function service_round :: "('f \<Rightarrow> bool \<times> 'f) \<Rightarrow> nat \<Rightarrow> 'f list \<Rightarrow> 'f list" where
  "service_round step i flows =
     (if i < length flows then
        (let (keep, f) = step (flows ! i); flows1 = flows[i := f]
         in if keep then service_round step (i + 1) flows1
            else service_round step i (swap_remove i flows1))
      else flows)"
  by pat_completeness auto

termination
  by (relation "measure (\<lambda>(step, i, flows). length flows - i)") (auto simp: swap_remove_def)

declare service_round.simps [simp del]

text \<open>One turn of \<open>run_emitter\<close>: admit the flows that have registered, then serve all. \<open>None\<close> is
  the return of the task.\<close>

definition emitter_turn :: "('f \<Rightarrow> bool \<times> 'f) \<Rightarrow> 'f list \<Rightarrow> bool \<Rightarrow> 'f list \<Rightarrow> 'f list option" where
  "emitter_turn step admitted reg_open flows =
     (let flows1 = flows @ admitted
      in if \<not> reg_open \<and> flows1 = [] then None else Some (service_round step 0 flows1))"

section \<open>The receiving side\<close>

text \<open>The rest of a stream: its bytes and how it ends, by a close (\<open>None\<close>) or an error.\<close>

type_synonym 'e wire_in = "bytes \<times> 'e option"

datatype 'e recv_error = RecvIo 'e | RecvCrypto "'e handshake_error"

definition read_sealed_frame ::
  "crypto_ops \<Rightarrow> 'e wire_in \<Rightarrow> frame_cipher \<Rightarrow> ('e recv_error + (byte \<times> bytes) option) \<times> 'e wire_in \<times> frame_cipher" where
  "read_sealed_frame C w cipher =
     (let n = enc_frame_len CELL_BYTES
      in if length (fst w) < n then
           (case snd w of None \<Rightarrow> (Inr None, ([], None), cipher) | Some e \<Rightarrow> (Inl (RecvIo e), ([], Some e), cipher))
         else
           (case cipher_open C (take n (fst w)) cipher of
              (Inl e, cipher') \<Rightarrow> (Inl (RecvCrypto e), (drop n (fst w), snd w), cipher')
            | (Inr (kind, cell), cipher') \<Rightarrow> (Inr (Some (kind, cell)), (drop n (fst w), snd w), cipher')))"

text \<open>\<open>wr i\<close> is the outcome of the \<open>i\<close>-th write to the application.\<close>

function strip_loop ::
  "crypto_ops \<Rightarrow> (nat \<Rightarrow> 'e option) \<Rightarrow> nat \<Rightarrow> 'e wire_in \<Rightarrow> frame_cipher \<Rightarrow> ('e recv_error + unit) \<times> bytes" where
  "strip_loop C wr output_seq w cipher =
     (case read_sealed_frame C w cipher of
        (Inl e, _, _) \<Rightarrow> (Inl e, [])
      | (Inr None, _, _) \<Rightarrow> (Inr (), [])
      | (Inr (Some (kind, cell)), w', cipher') \<Rightarrow>
          if kind = KIND_REAL \<and> snd (decode_real_cell cell) \<noteq> [] then
            (case wr output_seq of
               Some e \<Rightarrow> (Inl (RecvIo e), [])
             | None \<Rightarrow> let (res, out) = strip_loop C wr (output_seq + 1) w' cipher'
                       in (res, snd (decode_real_cell cell) @ out))
          else strip_loop C wr output_seq w' cipher')"
  by pat_completeness auto

termination
  by (relation "measure (\<lambda>(C, wr, seq, w, c). length (fst w))")
    (auto simp: read_sealed_frame_def Let_def enc_frame_len_def KIND_LEN_def split: if_splits option.splits
      prod.splits sum.splits)

declare strip_loop.simps [simp del]

definition strip_and_forward ::
  "crypto_ops \<Rightarrow> (nat \<Rightarrow> 'e option) \<Rightarrow> 'e wire_in \<Rightarrow> frame_cipher \<Rightarrow> ('e recv_error + unit) \<times> bytes" where
  "strip_and_forward C wr w cipher = strip_loop C wr 0 w cipher"

end
