(* ===== verification/Mux.thy ===== *)
theory Mux
  imports Emitter "HOL-Library.Sublist"
begin

text \<open>
  The two multiplexers of \<open>src/src/transport.rs\<close>: the server routes the real cells of a wire to one
  relay per stream, the client routes the replies to one circuit per stream. A channel of the
  runtime has a queue of at most 256 messages and a receiver that may be gone; \<open>ch_taken\<close> is the
  history of what the receiver took. The tasks interleave as the steps of \<open>demux_step\<close> and
  \<open>wire_step\<close>; each handler of a cell is one step (it shares only the atomic counter and the
  locked map with other tasks). A \<open>HashMap\<close> is an association list with distinct keys.
\<close>

section \<open>Channels\<close>

definition CHANNEL_CAP :: nat where
  "CHANNEL_CAP = 256"

record channel =
  ch_stream :: u16
  ch_queue :: "bytes list"
  ch_open :: bool
  ch_taken :: "bytes list"

definition channel_new :: "u16 \<Rightarrow> channel" where
  "channel_new sid = \<lparr>ch_stream = sid, ch_queue = [], ch_open = True, ch_taken = []\<rparr>"

datatype send_result = SendOk | SendClosed | SendFull

definition try_send :: "bytes \<Rightarrow> channel \<Rightarrow> send_result \<times> channel" where
  "try_send data ch =
     (if \<not> ch_open ch then (SendClosed, ch)
      else if CHANNEL_CAP \<le> length (ch_queue ch) then (SendFull, ch)
      else (SendOk, ch\<lparr>ch_queue := ch_queue ch @ [data]\<rparr>))"

type_synonym stream_map = "(u16 \<times> nat) list"

definition map_remove :: "u16 \<Rightarrow> stream_map \<Rightarrow> stream_map" where
  "map_remove sid m = filter (\<lambda>(k, _). k \<noteq> sid) m"

text \<open>The tail of both handlers: route the data to channel \<open>i\<close>; a closed one leaves the map.\<close>

definition route_to :: "u16 \<Rightarrow> bytes \<Rightarrow> nat \<Rightarrow> stream_map \<Rightarrow> channel list \<Rightarrow> stream_map \<times> channel list" where
  "route_to sid data i m chans =
     (case try_send data (chans ! i) of
        (SendClosed, _) \<Rightarrow> (map_remove sid m, chans)
      | (_, ch) \<Rightarrow> (m, chans[i := ch]))"

section \<open>The server side\<close>

definition MAX_STREAMS_PER_WIRE :: nat where
  "MAX_STREAMS_PER_WIRE = 512"

definition MAX_GLOBAL_BRIDGE_STREAMS :: nat where
  "MAX_GLOBAL_BRIDGE_STREAMS = 4096"

definition EPOCH_HOLD_MAX_BYTES :: nat where
  "EPOCH_HOLD_MAX_BYTES = 256 * 1024"

text \<open>
  The state around \<open>mux_demux_to_bridges\<close>: its map, the channels of the relays it spawned, which
  relays still hold their \<open>BridgeStreamGuard\<close>, the gate each relay waits for, the cells sent into
  the downlink, the process-wide counter, the part of it that belongs to other wires, the padding
  generator, and the data cells read so far.
\<close>

record 'r demux_state =
  dx_map :: stream_map
  dx_chans :: "channel list"
  dx_guards :: "bool list"
  dx_gates :: "nanos list"
  dx_down :: "bytes list"
  dx_global :: nat
  dx_other :: nat
  dx_rng :: 'r
  dx_seen :: "(u16 \<times> bytes) list"

definition demux_cell ::
  "'r rng_ops \<Rightarrow> tail_policy \<Rightarrow> nanos \<Rightarrow> bytes \<Rightarrow> 'r demux_state \<Rightarrow> (string + unit) \<times> 'r demux_state" where
  "demux_cell R policy now cell st =
     (let (sid, data) = decode_real_cell cell
      in if data = [] then
           (let (close, r') = encode_close_cell R sid (dx_rng st)
            in (Inr (), st\<lparr>dx_map := map_remove sid (dx_map st), dx_down := dx_down st @ [close], dx_rng := r'\<rparr>))
         else
           (let st0 = st\<lparr>dx_seen := dx_seen st @ [(sid, data)]\<rparr>
            in case map_of (dx_map st0) sid of
                 Some i \<Rightarrow>
                   (let (m, cs) = route_to sid data i (dx_map st0) (dx_chans st0)
                    in (Inr (), st0\<lparr>dx_map := m, dx_chans := cs\<rparr>))
               | None \<Rightarrow>
                   if MAX_STREAMS_PER_WIRE \<le> length (dx_map st0) then
                     (Inl ''mux client exceeded per-wire stream cap'', st0)
                   else if MAX_GLOBAL_BRIDGE_STREAMS \<le> dx_global st0 then (Inr (), st0)
                   else
                     (let i = length (dx_chans st0);
                          gate = (case policy of TailEpoch clock \<Rightarrow> next_boundary clock now | _ \<Rightarrow> now);
                          (m, cs) = route_to sid data i ((sid, i) # dx_map st0) (dx_chans st0 @ [channel_new sid])
                      in (Inr (), st0\<lparr>dx_map := m, dx_chans := cs, dx_guards := dx_guards st0 @ [True],
                                      dx_gates := dx_gates st0 @ [gate], dx_global := dx_global st0 + 1\<rparr>))))"

text \<open>
  A relay takes a message, or ends, which drops its guard. Its two halves are spawned tasks: when
  one of them ends the relay returns and the other goes on without it, so the end of the relay, the
  end of the writer (which closes the channel) and the cells of the reader are separate steps.
\<close>

definition relay_take :: "nat \<Rightarrow> 'r demux_state \<Rightarrow> 'r demux_state" where
  "relay_take i st =
     (let ch = dx_chans st ! i
      in st\<lparr>dx_chans := (dx_chans st)[i := ch\<lparr>ch_queue := tl (ch_queue ch), ch_taken := ch_taken ch @ [hd (ch_queue ch)]\<rparr>]\<rparr>)"

definition relay_end :: "nat \<Rightarrow> 'r demux_state \<Rightarrow> 'r demux_state" where
  "relay_end i st = st\<lparr>dx_guards := (dx_guards st)[i := False], dx_global := dx_global st - 1\<rparr>"

definition writer_end :: "nat \<Rightarrow> 'r demux_state \<Rightarrow> 'r demux_state" where
  "writer_end i st = st\<lparr>dx_chans := (dx_chans st)[i := (dx_chans st ! i)\<lparr>ch_open := False\<rparr>]\<rparr>"

inductive demux_step :: "'r rng_ops \<Rightarrow> tail_policy \<Rightarrow> 'r demux_state \<Rightarrow> 'r demux_state \<Rightarrow> bool"
  for R :: "'r rng_ops" and policy :: tail_policy where
  step_cell: "demux_cell R policy now cell st = (res, st') \<Longrightarrow> demux_step R policy st st'"
| step_take: "i < length (dx_chans st) \<Longrightarrow> ch_open (dx_chans st ! i) \<Longrightarrow> ch_queue (dx_chans st ! i) \<noteq> [] \<Longrightarrow>
    demux_step R policy st (relay_take i st)"
| step_reply: "i < length (dx_chans st) \<Longrightarrow>
    encode_real_cell R (ch_stream (dx_chans st ! i)) chunk r = (cell, r') \<Longrightarrow>
    demux_step R policy st (st\<lparr>dx_down := dx_down st @ [cell]\<rparr>)"
| step_reply_close: "i < length (dx_chans st) \<Longrightarrow>
    encode_close_cell R (ch_stream (dx_chans st ! i)) r = (cell, r') \<Longrightarrow>
    demux_step R policy st (st\<lparr>dx_down := dx_down st @ [cell]\<rparr>)"
| step_writer_end: "i < length (dx_chans st) \<Longrightarrow> demux_step R policy st (writer_end i st)"
| step_end: "i < length (dx_guards st) \<Longrightarrow> dx_guards st ! i \<Longrightarrow> demux_step R policy st (relay_end i st)"
| step_other_open: "dx_global st < MAX_GLOBAL_BRIDGE_STREAMS \<Longrightarrow>
    demux_step R policy st (st\<lparr>dx_global := dx_global st + 1, dx_other := dx_other st + 1\<rparr>)"
| step_other_close: "0 < dx_other st \<Longrightarrow>
    demux_step R policy st (st\<lparr>dx_global := dx_global st - 1, dx_other := dx_other st - 1\<rparr>)"

inductive_cases demux_stepE: "demux_step R policy st st'"

definition demux_init :: "'r demux_state \<Rightarrow> bool" where
  "demux_init st \<longleftrightarrow> dx_map st = [] \<and> dx_chans st = [] \<and> dx_guards st = [] \<and> dx_gates st = [] \<and> dx_seen st = [] \<and>
     dx_global st = dx_other st \<and> dx_global st \<le> MAX_GLOBAL_BRIDGE_STREAMS"

text \<open>The hold phase of \<open>bridge_stream_relay\<close>: what ends a wait, in the order it happens. The result
  is the buffered messages and the unread rest, or \<open>None\<close> when the relay returns before it has
  connected.\<close>

datatype hold_event = HoldMsg bytes | HoldClosed | HoldDeadline

fun hold_loop :: "bytes list \<Rightarrow> nat \<Rightarrow> hold_event list \<Rightarrow> (bytes list \<times> hold_event list) option" where
  "hold_loop held held_bytes evs =
     (if EPOCH_HOLD_MAX_BYTES \<le> held_bytes then Some (held, evs)
      else case evs of
        HoldMsg d # evs' \<Rightarrow> hold_loop (held @ [d]) (held_bytes + length d) evs'
      | HoldDeadline # evs' \<Rightarrow> Some (held, evs')
      | HoldClosed # _ \<Rightarrow> None
      | [] \<Rightarrow> None)"

declare hold_loop.simps [simp del]

definition relay_hold :: "nanos \<Rightarrow> nanos \<Rightarrow> hold_event list \<Rightarrow> (bytes list \<times> hold_event list) option" where
  "relay_hold now gate_until evs = (if now < gate_until then hold_loop [] 0 evs else Some ([], evs))"

text \<open>\<open>bridge_stream_writer\<close>: the held messages, then those received, until the channel is closed
  or a write fails (\<open>wr i\<close> is the outcome of the \<open>i\<close>-th write).\<close>

fun write_all_msgs :: "(nat \<Rightarrow> 'e option) \<Rightarrow> nat \<Rightarrow> bytes list \<Rightarrow> ('e + unit) \<times> bytes" where
  "write_all_msgs wr i [] = (Inr (), [])"
| "write_all_msgs wr i (d # ds) =
     (case wr i of
        Some e \<Rightarrow> (Inl e, [])
      | None \<Rightarrow> let (res, out) = write_all_msgs wr (i + 1) ds in (res, d @ out))"

definition bridge_stream_writer :: "(nat \<Rightarrow> 'e option) \<Rightarrow> bytes list \<Rightarrow> bytes list \<Rightarrow> ('e + unit) \<times> bytes" where
  "bridge_stream_writer wr held msgs = write_all_msgs wr 0 (held @ msgs)"

text \<open>\<open>bridge_stream_reader\<close>, which \<open>mux_tor_reader\<close> repeats: every read becomes cells of the stream,
  the end of the stream a close cell. \<open>accepted\<close> is the number of cells after which the receiver
  of the channel is gone, if it ever is.\<close>

fun reader_cells :: "'r rng_ops \<Rightarrow> u16 \<Rightarrow> 'e read_event list \<Rightarrow> 'r \<Rightarrow> ('e + unit) \<times> bytes list" where
  "reader_cells R sid [] r = (Inr (), [fst (encode_close_cell R sid r)])"
| "reader_cells R sid (RFail e # evs) r = (Inl e, [])"
| "reader_cells R sid (RData bs # evs) r =
     (if bs = [] then (Inr (), [fst (encode_close_cell R sid r)])
      else let (cells, r') = encode_read R sid bs r; (res, rest) = reader_cells R sid evs r'
           in (res, cells @ rest))"

definition bridge_stream_reader ::
  "'r rng_ops \<Rightarrow> u16 \<Rightarrow> nat option \<Rightarrow> 'e read_event list \<Rightarrow> 'r \<Rightarrow> ('e + unit) \<times> bytes list" where
  "bridge_stream_reader R sid accepted evs r =
     (let (res, cells) = reader_cells R sid evs r
      in case accepted of
           None \<Rightarrow> (res, cells)
         | Some n \<Rightarrow> if n < length cells then (Inr (), take n cells) else (res, cells))"

section \<open>The client side\<close>

record mux_wire =
  mw_next_id :: u16
  mw_map :: stream_map
  mw_chans :: "channel list"
  mw_uplink_open :: bool
  mw_seen :: "(u16 \<times> bytes) list"

definition wire_new :: mux_wire where
  "wire_new = \<lparr>mw_next_id = 1, mw_map = [], mw_chans = [], mw_uplink_open = True, mw_seen = []\<rparr>"

definition is_alive :: "mux_wire \<Rightarrow> bool" where
  "is_alive w = mw_uplink_open w"

text \<open>The scan of \<open>add_stream\<close> with fuel; one turn of the counter, 65536 tries, is enough.\<close>

fun find_id :: "nat \<Rightarrow> u16 \<Rightarrow> stream_map \<Rightarrow> (u16 \<times> u16) option" where
  "find_id 0 nx m = None"
| "find_id (Suc fuel) nx m =
     (if nx \<noteq> STREAM_ID_SINGLE \<and> map_of m nx = None then Some (nx, nx + 1) else find_id fuel (nx + 1) m)"

text \<open>The outer \<open>None\<close> is a scan that does not end, the inner one a saturated wire.\<close>

definition add_stream :: "mux_wire \<Rightarrow> (u16 option \<times> mux_wire) option" where
  "add_stream w =
     (if 65535 - 1 \<le> length (mw_map w) then Some (None, w)
      else case find_id 65536 (mw_next_id w) (mw_map w) of
        None \<Rightarrow> None
      | Some (sid, nx) \<Rightarrow>
          Some (Some sid, w\<lparr>mw_next_id := nx, mw_map := (sid, length (mw_chans w)) # mw_map w,
                            mw_chans := mw_chans w @ [channel_new sid]\<rparr>))"

definition inbound_cell :: "bytes \<Rightarrow> mux_wire \<Rightarrow> mux_wire" where
  "inbound_cell cell w =
     (let (sid, data) = decode_real_cell cell
      in if data = [] then w\<lparr>mw_map := map_remove sid (mw_map w)\<rparr>
         else
           (let w0 = w\<lparr>mw_seen := mw_seen w @ [(sid, data)]\<rparr>
            in case map_of (mw_map w0) sid of
                 None \<Rightarrow> w0
               | Some i \<Rightarrow>
                   (let (m, cs) = route_to sid data i (mw_map w0) (mw_chans w0)
                    in w0\<lparr>mw_map := m, mw_chans := cs\<rparr>)))"

definition circuit_take :: "nat \<Rightarrow> mux_wire \<Rightarrow> mux_wire" where
  "circuit_take i w =
     (let ch = mw_chans w ! i
      in w\<lparr>mw_chans := (mw_chans w)[i := ch\<lparr>ch_queue := tl (ch_queue ch), ch_taken := ch_taken ch @ [hd (ch_queue ch)]\<rparr>]\<rparr>)"

definition circuit_end :: "nat \<Rightarrow> mux_wire \<Rightarrow> mux_wire" where
  "circuit_end i w = w\<lparr>mw_chans := (mw_chans w)[i := (mw_chans w ! i)\<lparr>ch_open := False\<rparr>]\<rparr>"

inductive wire_step :: "mux_wire \<Rightarrow> mux_wire \<Rightarrow> bool" where
  wire_add: "add_stream w = Some (res, w') \<Longrightarrow> wire_step w w'"
| wire_cell: "wire_step w (inbound_cell cell w)"
| wire_take: "i < length (mw_chans w) \<Longrightarrow> ch_open (mw_chans w ! i) \<Longrightarrow> ch_queue (mw_chans w ! i) \<noteq> [] \<Longrightarrow>
    wire_step w (circuit_take i w)"
| wire_end: "i < length (mw_chans w) \<Longrightarrow> wire_step w (circuit_end i w)"
| wire_uplink_gone: "wire_step w (w\<lparr>mw_uplink_open := False\<rparr>)"

inductive_cases wire_stepE: "wire_step w w'"

text \<open>\<open>get_or_connect_wire\<close>: the map of wires by server address, and the outcome of a connection
  attempt, which is made only when there is no live wire.\<close>

definition get_or_connect_wire ::
  "('addr \<times> mux_wire) list \<Rightarrow> 'addr \<Rightarrow> ('e + mux_wire) \<Rightarrow> ('e + mux_wire) \<times> ('addr \<times> mux_wire) list" where
  "get_or_connect_wire wires server attempt =
     (case map_of wires server of
        Some w \<Rightarrow> if is_alive w then (Inr w, wires)
                  else (case attempt of Inl e \<Rightarrow> (Inl e, wires) | Inr w' \<Rightarrow> (Inr w', (server, w') # wires))
      | None \<Rightarrow> (case attempt of Inl e \<Rightarrow> (Inl e, wires) | Inr w' \<Rightarrow> (Inr w', (server, w') # wires)))"

end
