(* ===== verification/Routing.thy ===== *)
theory Routing
  imports Mux
begin

text \<open>
  What the two multiplexers of \<open>Mux\<close> promise: every route leads to a channel of its stream, a
  channel only ever holds data of its stream in the order it arrived, the queues, the map of a wire
  and the process-wide counter stay bounded, and stream ids are fresh. The invariants are shown
  along every interleaving of the tasks.
\<close>

section \<open>Routes\<close>

definition stream_data :: "u16 \<Rightarrow> (u16 \<times> bytes) list \<Rightarrow> bytes list" where
  "stream_data sid seen = map snd (filter (\<lambda>(s, _). s = sid) seen)"

definition channel_ok :: "(u16 \<times> bytes) list \<Rightarrow> channel \<Rightarrow> bool" where
  "channel_ok seen ch \<longleftrightarrow> length (ch_queue ch) \<le> CHANNEL_CAP \<and>
     subseq (ch_taken ch @ ch_queue ch) (stream_data (ch_stream ch) seen)"

definition routes_ok :: "stream_map \<Rightarrow> channel list \<Rightarrow> (u16 \<times> bytes) list \<Rightarrow> bool" where
  "routes_ok m chans seen \<longleftrightarrow> distinct (map fst m) \<and>
     (\<forall>(sid, i)\<in>set m. i < length chans \<and> ch_stream (chans ! i) = sid) \<and>
     (\<forall>ch\<in>set chans. channel_ok seen ch)"

lemma stream_data_append [simp]:
  "stream_data sid (seen @ [(s, d)]) = stream_data sid seen @ (if s = sid then [d] else [])"
  by (simp add: stream_data_def)

lemma channel_ok_seen: "channel_ok seen ch \<Longrightarrow> channel_ok (seen @ [x]) ch"
  by (cases x) (auto simp: channel_ok_def intro: subseq_order.order_trans)

lemma channel_new_ok: "channel_ok seen (channel_new sid)"
  by (simp add: channel_ok_def channel_new_def)

lemma channel_fields [simp]:
  "ch_stream (channel_new sid) = sid" "ch_open (channel_new sid) = True" "ch_queue (channel_new sid) = []"
  by (simp_all add: channel_new_def)

lemma try_send_ok:
  assumes "channel_ok seen ch" "try_send data ch = (r, ch')"
  shows "channel_ok (seen @ [(ch_stream ch, data)]) ch'" "ch_stream ch' = ch_stream ch" "ch_open ch' = ch_open ch"
proof -
  have add: "channel_ok (seen @ [(ch_stream ch, data)]) (ch\<lparr>ch_queue := ch_queue ch @ [data]\<rparr>)"
    if "length (ch_queue ch) < CHANNEL_CAP"
    using that assms(1) list_emb_append_mono [of "(=)" "ch_taken ch @ ch_queue ch" _ "[data]" "[data]"]
    by (simp add: channel_ok_def)
  consider "ch' = ch" | "ch' = ch\<lparr>ch_queue := ch_queue ch @ [data]\<rparr>" "length (ch_queue ch) < CHANNEL_CAP"
    using assms(2) by (auto simp: try_send_def split: if_splits)
  then show "channel_ok (seen @ [(ch_stream ch, data)]) ch'" "ch_stream ch' = ch_stream ch" "ch_open ch' = ch_open ch"
    by (cases; use add channel_ok_seen [OF assms(1)] in simp)+
qed

lemma channel_take_ok:
  assumes "channel_ok seen ch" "ch_queue ch \<noteq> []"
  shows "channel_ok seen (ch\<lparr>ch_queue := tl (ch_queue ch), ch_taken := ch_taken ch @ [hd (ch_queue ch)]\<rparr>)"
  using assms by (auto simp: channel_ok_def)

lemma routes_seen: "routes_ok m chans seen \<Longrightarrow> routes_ok m chans (seen @ [x])"
  by (auto simp: routes_ok_def channel_ok_seen)

lemma routes_remove: "routes_ok m chans seen \<Longrightarrow> routes_ok (map_remove sid m) chans seen"
  by (auto simp: routes_ok_def map_remove_def distinct_map_filter)

lemma map_remove_length: "length (map_remove sid m) \<le> length m"
  by (simp add: map_remove_def)

lemma routes_update:
  assumes "routes_ok m chans seen" "i < length chans" "channel_ok seen ch" "ch_stream ch = ch_stream (chans ! i)"
  shows "routes_ok m (chans[i := ch]) seen"
  using assms set_update_subset_insert [of chans i ch] by (fastforce simp: routes_ok_def nth_list_update)

lemma routes_add:
  assumes "routes_ok m chans seen" "map_of m sid = None"
  shows "routes_ok ((sid, length chans) # m) (chans @ [channel_new sid]) seen"
  using assms by (fastforce simp: routes_ok_def nth_append channel_new_ok map_of_eq_None_iff)

lemma routes_lookup:
  assumes "routes_ok m chans seen" "map_of m sid = Some i"
  shows "i < length chans" "ch_stream (chans ! i) = sid"
  using assms map_of_SomeD [OF assms(2)] by (auto simp: routes_ok_def)

lemma open_update:
  assumes "i < length chans" "ch_open ch = ch_open (chans ! i)"
  shows "map ch_open (chans[i := ch]) = map ch_open chans"
  using assms by (simp add: map_update list_update_same_conv)

lemma route_to_ok:
  assumes "routes_ok m chans seen" "map_of m sid = Some i" "route_to sid data i m chans = (m', chans')"
  shows "routes_ok m' chans' (seen @ [(sid, data)])" "map ch_open chans' = map ch_open chans"
    "length m' \<le> length m" "length chans' = length chans"
proof -
  obtain r ch where t: "try_send data (chans ! i) = (r, ch)" by force
  have i: "i < length chans" "ch_stream (chans ! i) = sid" using routes_lookup [OF assms(1,2)] by simp_all
  have ch0: "channel_ok seen (chans ! i)" using assms(1) i by (simp add: routes_ok_def)
  have ch: "channel_ok (seen @ [(sid, data)]) ch" "ch_stream ch = sid" "ch_open ch = ch_open (chans ! i)"
    using try_send_ok [OF ch0 t] i by simp_all
  have up: "routes_ok m (chans[i := ch]) (seen @ [(sid, data)])"
    using routes_update [OF routes_seen [OF assms(1)] i(1) ch(1)] ch i by simp
  have "(m' = map_remove sid m \<and> chans' = chans) \<or> (m' = m \<and> chans' = chans[i := ch])"
    using assms(3) by (cases r) (simp_all add: route_to_def t)
  then show "routes_ok m' chans' (seen @ [(sid, data)])" "map ch_open chans' = map ch_open chans"
      "length m' \<le> length m" "length chans' = length chans"
    using up routes_remove [OF routes_seen [OF assms(1)]] open_update [OF i(1) ch(3)] map_remove_length
    by auto
qed

section \<open>The server side\<close>

definition live_relays :: "'r demux_state \<Rightarrow> nat" where
  "live_relays st = count_list (dx_guards st) True"

definition demux_inv :: "'r demux_state \<Rightarrow> bool" where
  "demux_inv st \<longleftrightarrow> routes_ok (dx_map st) (dx_chans st) (dx_seen st) \<and>
     length (dx_map st) \<le> MAX_STREAMS_PER_WIRE \<and> length (dx_gates st) = length (dx_chans st) \<and>
     length (dx_guards st) = length (dx_chans st) \<and>
     dx_global st = dx_other st + live_relays st \<and> dx_global st \<le> MAX_GLOBAL_BRIDGE_STREAMS"

lemma demux_inv_simps [simp]:
  "demux_inv (st\<lparr>dx_down := d\<rparr>) = demux_inv st" "demux_inv (st\<lparr>dx_rng := r\<rparr>) = demux_inv st"
  by (simp_all add: demux_inv_def live_relays_def)

lemma demux_init_inv: "demux_init st \<Longrightarrow> demux_inv st"
  by (simp add: demux_init_def demux_inv_def routes_ok_def live_relays_def)

lemma count_update:
  fixes xs :: "bool list"
  assumes "i < length xs" "xs ! i"
  shows "count_list (xs[i := False]) True + 1 = count_list xs True"
  using assms by (induction xs arbitrary: i) (auto simp: nth_Cons split: nat.splits)

lemma demux_cell_inv:
  assumes "demux_inv st" "demux_cell R policy now cell st = (res, st')"
  shows "demux_inv st'"
proof (cases "decode_real_cell cell")
  case (Pair sid data)
  let ?seen = "dx_seen st @ [(sid, data)]"
  consider "data = []" | i where "data \<noteq> []" "map_of (dx_map st) sid = Some i"
    | "data \<noteq> []" "map_of (dx_map st) sid = None" by (cases "map_of (dx_map st) sid") blast+
  then show ?thesis
  proof cases
    case 1
    then show ?thesis
      using assms Pair map_remove_length [of sid "dx_map st"]
      by (auto simp: demux_cell_def demux_inv_def live_relays_def routes_remove split: prod.splits)
  next
    case 2
    obtain m cs where r: "route_to sid data i (dx_map st) (dx_chans st) = (m, cs)" by force
    have "routes_ok (dx_map st) (dx_chans st) (dx_seen st)" using assms(1) by (simp add: demux_inv_def)
    note route = route_to_ok [OF this 2(2) r]
    show ?thesis
      using assms Pair 2 route by (auto simp: demux_cell_def r demux_inv_def live_relays_def)
  next
    case 3
    let ?m = "(sid, length (dx_chans st)) # dx_map st"
    obtain m cs where r: "route_to sid data (length (dx_chans st)) ?m (dx_chans st @ [channel_new sid]) = (m, cs)"
      by force
    have "routes_ok ?m (dx_chans st @ [channel_new sid]) (dx_seen st)"
      using assms(1) 3 by (intro routes_add) (simp_all add: demux_inv_def)
    note route = route_to_ok [OF this _ r, simplified]
    have "demux_inv (st\<lparr>dx_seen := ?seen\<rparr>)"
      using assms(1) by (simp add: demux_inv_def routes_seen live_relays_def)
    moreover have "demux_inv (st\<lparr>dx_seen := ?seen, dx_map := m, dx_chans := cs, dx_guards := dx_guards st @ [True], dx_gates := dx_gates st @ [g],
        dx_global := dx_global st + 1\<rparr>)"
      if "length (dx_map st) < MAX_STREAMS_PER_WIRE" "dx_global st < MAX_GLOBAL_BRIDGE_STREAMS" for g
      using assms(1) route that by (simp add: demux_inv_def live_relays_def)
    ultimately show ?thesis
      using assms(2) 3 by (auto simp: demux_cell_def Pair r Let_def not_le split: if_splits)
  qed
qed

lemma demux_step_inv:
  assumes "demux_inv st" "demux_step R policy st st'"
  shows "demux_inv st'"
  using assms(2)
proof (cases rule: demux_step.cases)
  case (step_cell now cell res)
  then show ?thesis using demux_cell_inv assms(1) by blast
next
  case (step_take i)
  then have "routes_ok (dx_map st) ((dx_chans st)[i := (dx_chans st ! i)\<lparr>ch_queue := tl (ch_queue (dx_chans st ! i)),
      ch_taken := ch_taken (dx_chans st ! i) @ [hd (ch_queue (dx_chans st ! i))]\<rparr>]) (dx_seen st)"
    using assms(1) by (intro routes_update channel_take_ok) (simp_all add: demux_inv_def routes_ok_def)
  then show ?thesis
    using assms(1) step_take open_update [OF step_take(2)]
    by (simp add: demux_inv_def relay_take_def live_relays_def Let_def)
next
  case (step_writer_end i)
  have "channel_ok (dx_seen st) (dx_chans st ! i)"
    using assms(1) step_writer_end by (simp add: demux_inv_def routes_ok_def)
  then have "routes_ok (dx_map st) ((dx_chans st)[i := (dx_chans st ! i)\<lparr>ch_open := False\<rparr>]) (dx_seen st)"
    using assms(1) step_writer_end by (intro routes_update) (simp_all add: demux_inv_def channel_ok_def)
  then show ?thesis
    using assms(1) step_writer_end by (simp add: demux_inv_def writer_end_def live_relays_def)
next
  case (step_end i)
  then show ?thesis
    using assms(1) count_update [of i "dx_guards st"]
    by (auto simp: demux_inv_def relay_end_def live_relays_def)
qed (use assms(1) in \<open>auto simp: demux_inv_def live_relays_def\<close>)

interpretation demux: invariant_system demux_init "demux_step R policy" demux_inv
  for R :: "'r rng_ops" and policy :: tail_policy
  by unfold_locales (auto intro: demux_init_inv demux_step_inv)

text \<open>A full queue or a closed channel loses the message; in every other case it is appended to the
  channel of its stream and no other channel changes.\<close>

lemma demux_cell_delivers:
  assumes "demux_inv st" "decode_real_cell cell = (sid, data)" "data \<noteq> []" "map_of (dx_map st) sid = Some i"
    "ch_open (dx_chans st ! i)" "length (ch_queue (dx_chans st ! i)) < CHANNEL_CAP"
  shows "demux_cell R policy now cell st =
    (Inr (), st\<lparr>dx_seen := dx_seen st @ [(sid, data)],
        dx_chans := (dx_chans st)[i := (dx_chans st ! i)\<lparr>ch_queue := ch_queue (dx_chans st ! i) @ [data]\<rparr>]\<rparr>)"
  using assms by (simp add: demux_cell_def route_to_def try_send_def)

lemma demux_cell_opens:
  assumes "decode_real_cell cell = (sid, data)" "data \<noteq> []" "map_of (dx_map st) sid = None"
    "length (dx_map st) < MAX_STREAMS_PER_WIRE" "dx_global st < MAX_GLOBAL_BRIDGE_STREAMS"
    "demux_cell R policy now cell st = (res, st')"
  shows "res = Inr ()" "map_of (dx_map st') sid = Some (length (dx_chans st))"
    "dx_chans st' = dx_chans st @ [(channel_new sid)\<lparr>ch_queue := [data]\<rparr>]"
    "dx_gates st' = dx_gates st @ [case policy of TailEpoch clock \<Rightarrow> next_boundary clock now | _ \<Rightarrow> now]"
  using assms by (auto simp: demux_cell_def route_to_def try_send_def CHANNEL_CAP_def Let_def)

section \<open>The client side\<close>

definition wire_inv :: "mux_wire \<Rightarrow> bool" where
  "wire_inv w \<longleftrightarrow> routes_ok (mw_map w) (mw_chans w) (mw_seen w) \<and> STREAM_ID_SINGLE \<notin> fst ` set (mw_map w) \<and>
     length (mw_map w) \<le> 65534"

lemma wire_new_inv: "wire_inv wire_new"
  by (simp add: wire_inv_def wire_new_def routes_ok_def)

text \<open>The scan looks at consecutive ids; within one turn of the counter it finds a free one.\<close>

lemma find_id_Some:
  "find_id n nx m = Some (sid, nx') \<Longrightarrow> sid \<noteq> STREAM_ID_SINGLE \<and> map_of m sid = None \<and> nx' = sid + 1"
  by (induction n nx m rule: find_id.induct) (auto split: if_splits)

lemma find_id_None:
  "find_id n nx m = None \<Longrightarrow> k < n \<Longrightarrow> nx + of_nat k \<in> insert STREAM_ID_SINGLE (fst ` set m)"
proof (induction n nx m arbitrary: k rule: find_id.induct)
  case (2 n nx m)
  then have "nx = STREAM_ID_SINGLE \<or> map_of m nx \<noteq> None" "find_id n (nx + 1) m = None"
    by (auto split: if_splits)
  then show ?case
    using 2 by (cases k) (auto simp: map_of_eq_None_iff add.assoc)
qed simp

lemma find_id_total:
  assumes "length m < 65534"
  shows "\<exists>sid nx'. find_id 65536 nx m = Some (sid, nx')"
proof (rule ccontr)
  assume "\<not> ?thesis"
  then have none: "find_id 65536 nx m = None" by (cases "find_id 65536 nx m") auto
  have "x \<in> insert STREAM_ID_SINGLE (fst ` set m)" for x :: u16
  proof -
    have "unat (x - nx) < 65536" using unsigned_less [of "x - nx"] by simp
    from find_id_None [OF none this] show ?thesis by simp
  qed
  then have "UNIV \<subseteq> insert STREAM_ID_SINGLE (fst ` set m)" by blast
  then have "card (UNIV :: u16 set) \<le> card (insert STREAM_ID_SINGLE (fst ` set m))"
    by (rule card_mono [rotated]) simp
  also have "\<dots> \<le> Suc (length m)"
    using card_length [of "map fst m"] card_insert_le_m1 by (simp add: card_insert_if le_SucI)
  finally show False using assms by (simp add: card_word)
qed

lemma add_stream_ok:
  assumes "wire_inv w"
  shows "\<exists>res w'. add_stream w = Some (res, w') \<and> wire_inv w' \<and>
    (case res of
       None \<Rightarrow> w' = w \<and> length (mw_map w) = 65534
     | Some sid \<Rightarrow> sid \<noteq> STREAM_ID_SINGLE \<and> map_of (mw_map w) sid = None \<and>
         map_of (mw_map w') sid = Some (length (mw_chans w)) \<and> mw_chans w' = mw_chans w @ [channel_new sid])"
proof (cases "65535 - 1 \<le> length (mw_map w)")
  case True
  then show ?thesis using assms by (simp add: add_stream_def wire_inv_def)
next
  case False
  then obtain sid nx where f: "find_id 65536 (mw_next_id w) (mw_map w) = Some (sid, nx)"
    using find_id_total [of "mw_map w"] by force
  note free = find_id_Some [OF f]
  show ?thesis
    using False f free assms routes_add [of "mw_map w" "mw_chans w" "mw_seen w" sid]
    by (auto simp: add_stream_def wire_inv_def)
qed

lemma inbound_cell_inv:
  assumes "wire_inv w"
  shows "wire_inv (inbound_cell cell w)"
proof (cases "decode_real_cell cell")
  case (Pair sid data)
  have ok: "routes_ok (mw_map w) (mw_chans w) (mw_seen w)" using assms by (simp add: wire_inv_def)
  have sub: "fst ` set (map_remove s m) \<subseteq> fst ` set m" for s and m :: stream_map
    by (auto simp: map_remove_def)
  show ?thesis
  proof (cases "data = [] \<or> map_of (mw_map w) sid = None")
    case True
    then show ?thesis
      using assms ok sub map_remove_length [of sid "mw_map w"] routes_remove routes_seen
      by (auto simp: inbound_cell_def Pair wire_inv_def split: prod.splits)
  next
    case False
    then obtain i where i: "map_of (mw_map w) sid = Some i" "data \<noteq> []" by blast
    obtain m cs where r: "route_to sid data i (mw_map w) (mw_chans w) = (m, cs)" by force
    have "m = mw_map w \<or> m = map_remove sid (mw_map w)"
      using r by (auto simp: route_to_def split: send_result.splits prod.splits)
    then show ?thesis
      using route_to_ok [OF ok i(1) r] assms i sub by (auto simp: inbound_cell_def Pair r wire_inv_def)
  qed
qed

lemma wire_step_inv:
  assumes "wire_inv w" "wire_step w w'"
  shows "wire_inv w'"
  using assms(2)
proof (cases rule: wire_step.cases)
  case (wire_add res)
  then show ?thesis using add_stream_ok [OF assms(1)] by auto
next
  case (wire_cell cell)
  then show ?thesis using inbound_cell_inv assms(1) by blast
next
  case (wire_take i)
  then have "routes_ok (mw_map w) ((mw_chans w)[i := (mw_chans w ! i)\<lparr>ch_queue := tl (ch_queue (mw_chans w ! i)),
      ch_taken := ch_taken (mw_chans w ! i) @ [hd (ch_queue (mw_chans w ! i))]\<rparr>]) (mw_seen w)"
    using assms(1) by (intro routes_update channel_take_ok) (simp_all add: wire_inv_def routes_ok_def)
  then show ?thesis using assms(1) wire_take by (simp add: wire_inv_def circuit_take_def Let_def)
next
  case (wire_end i)
  have "channel_ok (mw_seen w) (mw_chans w ! i)"
    using assms(1) wire_end by (simp add: wire_inv_def routes_ok_def)
  then have "routes_ok (mw_map w) ((mw_chans w)[i := (mw_chans w ! i)\<lparr>ch_open := False\<rparr>]) (mw_seen w)"
    using assms(1) wire_end by (intro routes_update) (simp_all add: wire_inv_def channel_ok_def)
  then show ?thesis using assms(1) wire_end by (simp add: wire_inv_def circuit_end_def)
qed (use assms(1) in \<open>auto simp: wire_inv_def\<close>)

interpretation wire: invariant_system "\<lambda>w. w = wire_new" wire_step wire_inv
  by unfold_locales (auto intro: wire_new_inv wire_step_inv)

lemma inbound_cell_delivers:
  assumes "wire_inv w" "decode_real_cell cell = (sid, data)" "data \<noteq> []" "map_of (mw_map w) sid = Some i"
    "ch_open (mw_chans w ! i)" "length (ch_queue (mw_chans w ! i)) < CHANNEL_CAP"
  shows "inbound_cell cell w =
    w\<lparr>mw_seen := mw_seen w @ [(sid, data)],
      mw_chans := (mw_chans w)[i := (mw_chans w ! i)\<lparr>ch_queue := ch_queue (mw_chans w ! i) @ [data]\<rparr>]\<rparr>"
  using assms by (simp add: inbound_cell_def route_to_def try_send_def)

section \<open>The tasks of a stream\<close>

text \<open>While it waits for its gate a relay buffers at most one message beyond the bound, and connects
  with exactly what it has received.\<close>

lemma hold_loop_ok:
  assumes "hold_loop held n evs = Some (held', rest)" "n = sum_list (map length held)"
    "\<forall>d. HoldMsg d \<in> set evs \<longrightarrow> length d \<le> b" "n < EPOCH_HOLD_MAX_BYTES + b"
  shows "\<exists>ms tail. evs = map HoldMsg ms @ tail \<and> held' = held @ ms \<and> (tail = rest \<or> tail = HoldDeadline # rest) \<and>
    sum_list (map length held') < EPOCH_HOLD_MAX_BYTES + b"
  using assms
proof (induction held n evs rule: hold_loop.induct)
  case (1 held n evs)
  show ?case
  proof (cases "EPOCH_HOLD_MAX_BYTES \<le> n")
    case True
    then show ?thesis using 1 by (intro exI [of _ "[]"] exI [of _ evs]) (simp add: hold_loop.simps)
  next
    case False
    show ?thesis
    proof (cases evs)
      case Nil
      then show ?thesis using 1 False by (simp add: hold_loop.simps)
    next
      case (Cons e evs')
      show ?thesis
      proof (cases e)
        case (HoldMsg d)
        then have "length d \<le> b" "\<forall>d. HoldMsg d \<in> set evs' \<longrightarrow> length d \<le> b"
            "hold_loop (held @ [d]) (n + length d) evs' = Some (held', rest)"
          using 1 Cons False by (auto simp: hold_loop.simps [of held])
        then obtain ms tail where "evs' = map HoldMsg ms @ tail" "held' = (held @ [d]) @ ms"
            "tail = rest \<or> tail = HoldDeadline # rest" "sum_list (map length held') < EPOCH_HOLD_MAX_BYTES + b"
          using 1 False Cons HoldMsg by fastforce
        then show ?thesis using Cons HoldMsg by (intro exI [of _ "d # ms"] exI [of _ tail]) simp
      next
        case HoldClosed
        then show ?thesis using 1 False Cons by (simp add: hold_loop.simps [of held])
      next
        case HoldDeadline
        then show ?thesis using 1 False Cons
          by (intro exI [of _ "[]"] exI [of _ evs]) (simp add: hold_loop.simps [of held])
      qed
    qed
  qed
qed

text \<open>Every byte read becomes the data of cells of the stream, in order, and a clean end of the input
  one close cell.\<close>

fun read_bytes :: "'e read_event list \<Rightarrow> bytes" where
  "read_bytes (RData bs # evs) = (if bs = [] then [] else bs @ read_bytes evs)"
| "read_bytes _ = []"

lemma reader_cells_ok:
  assumes "rng_ok R" "reader_cells R sid evs r = (res, cells)"
  shows "concat (map (snd \<circ> decode_real_cell) cells) = read_bytes evs"
    and "\<forall>c\<in>set cells. fst (decode_real_cell c) = sid \<and> length c = CELL_BYTES"
    and "length (filter (\<lambda>c. snd (decode_real_cell c) = []) cells) = (if isl res then 0 else 1)"
proof -
  have close: "decode_real_cell (fst (encode_close_cell R sid r)) = (sid, [])"
      "length (fst (encode_close_cell R sid r)) = CELL_BYTES" for r
    using decode_encode_close_cell [OF assms(1)] encode_close_cell_length [OF assms(1)]
    by (metis prod.collapse)+
  have "concat (map (snd \<circ> decode_real_cell) cells) = read_bytes evs \<and>
      (\<forall>c\<in>set cells. fst (decode_real_cell c) = sid \<and> length c = CELL_BYTES) \<and>
      length (filter (\<lambda>c. snd (decode_real_cell c) = []) cells) = (if isl res then 0 else 1)"
    using assms(2)
  proof (induction evs arbitrary: r res cells)
    case Nil
    then show ?case by (auto simp: close)
  next
    case (Cons e evs)
    show ?case
    proof (cases "\<exists>bs. e = RData bs \<and> bs \<noteq> []")
      case True
      then obtain bs where e: "e = RData bs" "bs \<noteq> []" by blast
      obtain cs r' where c: "encode_read R sid bs r = (cs, r')" by force
      obtain rs rest where i: "reader_cells R sid evs r' = (rs, rest)" by force
      note data = encode_read_decode [OF assms(1) c, unfolded comp_def]
      have "filter (\<lambda>c. snd (decode_real_cell c) = []) cs = []" using data(2) by (simp add: filter_empty_conv)
      then show ?thesis using Cons.IH [OF i] Cons.prems e data by (auto simp: c i comp_def)
    next
      case False
      then show ?thesis using Cons.prems by (cases e) (auto simp: close)
    qed
  qed
  then show "concat (map (snd \<circ> decode_real_cell) cells) = read_bytes evs"
      "\<forall>c\<in>set cells. fst (decode_real_cell c) = sid \<and> length c = CELL_BYTES"
      "length (filter (\<lambda>c. snd (decode_real_cell c) = []) cells) = (if isl res then 0 else 1)"
    by blast+
qed

section \<open>Properties\<close>


definition demux_start :: "unit demux_state" where
  "demux_start = \<lparr>dx_map = [], dx_chans = [], dx_guards = [], dx_gates = [], dx_down = [], dx_global = 3, dx_other = 3,
     dx_rng = (), dx_seen = []\<rparr>"

definition cell_for :: "u16 \<Rightarrow> bytes \<Rightarrow> bytes" where
  "cell_for sid data = fst (encode_real_cell least_rng sid data ())"

lemma cell_for_decode: "length data \<le> 510 \<Longrightarrow> decode_real_cell (cell_for sid data) = (sid, data)"
  using decode_encode_real_cell [OF least_rng_ok surjective_pairing, of sid data "()"] by (simp add: cell_for_def)


text \<open>C8: Circuits do not mix on the client. In every state of a wire reachable by any interleaving of new
  circuits, cells from the server, circuits taking messages and ending, what a circuit has taken or
  still has queued is, in order, data that arrived for its stream id, and only that; no two live
  circuits share an id and none has the reserved id.\<close>
theorem client_circuits_isolated:
  assumes "wire_step\<^sup>*\<^sup>* wire_new w"
  shows "(\<forall>ch\<in>set (mw_chans w). length (ch_queue ch) \<le> 256 \<and>
      subseq (ch_taken ch @ ch_queue ch) (map snd (filter (\<lambda>(s, _). s = ch_stream ch) (mw_seen w)))) \<and>
    distinct (map fst (mw_map w)) \<and> STREAM_ID_SINGLE \<notin> fst ` set (mw_map w) \<and>
    (\<forall>(sid, i)\<in>set (mw_map w). i < length (mw_chans w) \<and> ch_stream (mw_chans w ! i) = sid)"
  using wire.reach_inv [OF refl assms]
  by (auto simp: wire_inv_def routes_ok_def channel_ok_def stream_data_def CHANNEL_CAP_def)

text \<open>A wire with one circuit, which has received one message.\<close>

lemma sample_wire:
  "\<exists>sid w1. add_stream wire_new = Some (Some sid, w1) \<and> sid = 1 \<and> wire_step\<^sup>*\<^sup>* wire_new (inbound_cell (cell_for 1 [65]) w1) \<and>
     mw_chans (inbound_cell (cell_for 1 [65]) w1) = [(channel_new 1)\<lparr>ch_queue := [[65]]\<rparr>]"
proof -
  have turn: "(65536 :: nat) = Suc 65535" by simp
  have f: "find_id 65536 1 [] = Some (1, 2)" unfolding turn find_id.simps by (simp add: STREAM_ID_SINGLE_def)
  have a: "add_stream wire_new = Some (Some 1, wire_new\<lparr>mw_next_id := 2, mw_map := [(1, 0)], mw_chans := [channel_new 1]\<rparr>)"
    by (simp add: add_stream_def f wire_new_def)
  let ?w = "wire_new\<lparr>mw_next_id := 2, mw_map := [(1, 0)], mw_chans := [channel_new 1]\<rparr>"
  have "wire_step\<^sup>*\<^sup>* wire_new (inbound_cell (cell_for 1 [65]) ?w)"
    using wire_add [OF a] wire_cell [of ?w "cell_for 1 [65]"] by (meson rtranclp.rtrancl_into_rtrancl rtranclp.rtrancl_refl)
  moreover have "mw_chans (inbound_cell (cell_for 1 [65]) ?w) = [(channel_new 1)\<lparr>ch_queue := [[65]]\<rparr>]"
    by (simp add: inbound_cell_def cell_for_decode wire_new_def route_to_def try_send_def CHANNEL_CAP_def)
  ultimately show ?thesis using a by blast
qed

theorem client_circuits_isolated_witness:
  "\<exists>w. wire_step\<^sup>*\<^sup>* wire_new w \<and> map ch_queue (mw_chans w) = [[[65]]] \<and> STREAM_ID_SINGLE \<notin> fst ` set (mw_map w)"
proof -
  obtain w where w: "wire_step\<^sup>*\<^sup>* wire_new w" "mw_chans w = [(channel_new 1)\<lparr>ch_queue := [[65]]\<rparr>]"
    using sample_wire by blast
  show ?thesis using client_circuits_isolated [OF w(1)] w by auto
qed

text \<open>C14: A new circuit never reuses the id of a live one. In every reachable state the search for an id
  ends; it yields an id that is not reserved and has no route, and routes it to a new, empty channel,
  and it refuses only when all of the 65534 admitted ids are in use.\<close>
theorem fresh_stream_id:
  assumes "wire_step\<^sup>*\<^sup>* wire_new w"
  shows "\<exists>res w'. add_stream w = Some (res, w') \<and>
    (case res of
       None \<Rightarrow> w' = w \<and> length (mw_map w) = 65534
     | Some sid \<Rightarrow> sid \<noteq> STREAM_ID_SINGLE \<and> sid \<notin> fst ` set (mw_map w) \<and>
         map_of (mw_map w') sid = Some (length (mw_chans w)) \<and> mw_chans w' = mw_chans w @ [channel_new sid])"
  using add_stream_ok [OF wire.reach_inv [OF refl assms]] unfolding map_of_eq_None_iff by blast

theorem fresh_stream_id_witness:
  "\<exists>w sid w'. wire_step\<^sup>*\<^sup>* wire_new w \<and> length (mw_chans w) = 1 \<and> add_stream w = Some (sid, w')"
proof -
  obtain w where w: "wire_step\<^sup>*\<^sup>* wire_new w" "mw_chans w = [(channel_new 1)\<lparr>ch_queue := [[65]]\<rparr>]"
    using sample_wire by blast
  show ?thesis using fresh_stream_id [OF w(1)] w by auto
qed

text \<open>A cell reaches its stream. A data cell of a stream with a route, whose channel is open and has
  room, is appended to that channel and changes nothing else; a cell of an unknown stream below the
  limits opens a relay of that stream whose first message it is, gated to the next epoch boundary under
  the epoch policy.\<close>
theorem cell_reaches_stream:
  assumes "demux_inv st" "decode_real_cell cell = (sid, data)" "data \<noteq> []"
  shows "(\<forall>i. map_of (dx_map st) sid = Some i \<and> ch_open (dx_chans st ! i) \<and> length (ch_queue (dx_chans st ! i)) < 256 \<longrightarrow>
      demux_cell R policy now cell st = (Inr (), st\<lparr>dx_seen := dx_seen st @ [(sid, data)],
        dx_chans := (dx_chans st)[i := (dx_chans st ! i)\<lparr>ch_queue := ch_queue (dx_chans st ! i) @ [data]\<rparr>]\<rparr>)) \<and>
    (map_of (dx_map st) sid = None \<and> length (dx_map st) < 512 \<and> dx_global st < 4096 \<longrightarrow>
      (\<exists>st'. demux_cell R policy now cell st = (Inr (), st') \<and>
         map_of (dx_map st') sid = Some (length (dx_chans st)) \<and>
         dx_chans st' = dx_chans st @ [(channel_new sid)\<lparr>ch_queue := [data]\<rparr>] \<and>
         dx_gates st' = dx_gates st @ [case policy of TailEpoch clock \<Rightarrow> next_boundary clock now | _ \<Rightarrow> now]))"
proof (intro conjI allI impI)
  fix i
  assume "map_of (dx_map st) sid = Some i \<and> ch_open (dx_chans st ! i) \<and> length (ch_queue (dx_chans st ! i)) < 256"
  then show "demux_cell R policy now cell st = (Inr (), st\<lparr>dx_seen := dx_seen st @ [(sid, data)],
        dx_chans := (dx_chans st)[i := (dx_chans st ! i)\<lparr>ch_queue := ch_queue (dx_chans st ! i) @ [data]\<rparr>]\<rparr>)"
    using demux_cell_delivers [OF assms] by (simp add: CHANNEL_CAP_def)
next
  assume a: "map_of (dx_map st) sid = None \<and> length (dx_map st) < 512 \<and> dx_global st < 4096"
  obtain res st' where s: "demux_cell R policy now cell st = (res, st')" by force
  show "\<exists>st'. demux_cell R policy now cell st = (Inr (), st') \<and>
         map_of (dx_map st') sid = Some (length (dx_chans st)) \<and>
         dx_chans st' = dx_chans st @ [(channel_new sid)\<lparr>ch_queue := [data]\<rparr>] \<and>
         dx_gates st' = dx_gates st @ [case policy of TailEpoch clock \<Rightarrow> next_boundary clock now | _ \<Rightarrow> now]"
    using demux_cell_opens [OF assms(2,3) _ _ _ s] a s
    by (simp add: MAX_STREAMS_PER_WIRE_def MAX_GLOBAL_BRIDGE_STREAMS_def)
qed

theorem cell_reaches_stream_witness:
  "\<exists>st'. demux_cell least_rng TailByClass 5 (cell_for 7 [65, 66]) demux_start = (Inr (), st') \<and>
    dx_chans st' = [(channel_new 7)\<lparr>ch_queue := [[65, 66]]\<rparr>]"
proof -
  have "demux_inv demux_start"
    by (simp add: demux_init_inv demux_init_def demux_start_def MAX_GLOBAL_BRIDGE_STREAMS_def)
  from cell_reaches_stream [OF this cell_for_decode, of "[65, 66]" 7 least_rng TailByClass 5]
  show ?thesis by (auto simp: demux_start_def)
qed

text \<open>What a stream's socket yields is what its cells carry. For any sequence of reads the reader sends
  full-size cells of its stream whose payloads concatenate to the bytes read before the end or the
  error; it sends exactly one close cell if the input ended and none if it failed.\<close>
theorem reader_sends_all:
  assumes "rng_ok R" "bridge_stream_reader R sid None evs r = (res, cells)"
  shows "concat (map (\<lambda>c. snd (decode_real_cell c)) cells) = read_bytes evs \<and>
    (\<forall>c\<in>set cells. fst (decode_real_cell c) = sid \<and> length c = CELL_BYTES) \<and>
    length (filter (\<lambda>c. snd (decode_real_cell c) = []) cells) = (if isl res then 0 else 1)"
  using reader_cells_ok [OF assms(1), of sid evs r res cells] assms(2)
  by (simp add: bridge_stream_reader_def case_prod_beta comp_def)

theorem reader_sends_all_witness:
  "\<exists>res cells. bridge_stream_reader least_rng 7 None [RData [65, 66], RFail ()] () = (res, cells) \<and>
    concat (map (\<lambda>c. snd (decode_real_cell c)) cells) = [65, 66]"
proof -
  obtain res cells where r: "bridge_stream_reader least_rng 7 None [RData [65, 66], RFail ()] () = (res, cells)" by force
  show ?thesis using reader_sends_all [OF least_rng_ok r] r by auto
qed

text \<open>The epoch hold buffers a bounded amount and forwards it first. If the relay goes on to connect,
  what it has buffered is exactly what it received while waiting, in order, below the bound of 256 KiB
  plus one message, and the writer sends it before anything received later. But a stream that closes
  before its gate opens loses everything it had buffered.\<close>
theorem epoch_hold:
  assumes "\<forall>d. HoldMsg d \<in> set evs \<longrightarrow> length d \<le> 510"
  shows "(\<forall>held rest. relay_hold now gate evs = Some (held, rest) \<longrightarrow>
      (\<exists>later. evs = map HoldMsg held @ later) \<and> sum_list (map length held) < EPOCH_HOLD_MAX_BYTES + 510 \<and>
      (\<forall>msgs. bridge_stream_writer (\<lambda>_. None) held msgs = (Inr () :: 'e + unit, concat held @ concat msgs))) \<and>
    (now < gate \<and> length d \<le> 510 \<longrightarrow> relay_hold now gate [HoldMsg d, HoldClosed] = None)"
proof (intro conjI allI impI)
  fix held rest
  assume r: "relay_hold now gate evs = Some (held, rest)"
  have h: "\<exists>ms later. evs = map HoldMsg ms @ later \<and> held = ms \<and> sum_list (map length held) < EPOCH_HOLD_MAX_BYTES + 510"
  proof (cases "now < gate")
    case True
    then have "hold_loop [] 0 evs = Some (held, rest)" using r by (simp add: relay_hold_def)
    from hold_loop_ok [OF this _ assms] show ?thesis by (auto simp: EPOCH_HOLD_MAX_BYTES_def)
  next
    case False
    then show ?thesis using r by (simp add: relay_hold_def EPOCH_HOLD_MAX_BYTES_def)
  qed
  then show "\<exists>later. evs = map HoldMsg held @ later" "sum_list (map length held) < EPOCH_HOLD_MAX_BYTES + 510" by auto
  have "write_all_msgs (\<lambda>_. None) i ds = (Inr () :: 'e + unit, concat ds)" for i ds
    by (induction ds arbitrary: i) simp_all
  then show "bridge_stream_writer (\<lambda>_. None) held msgs = (Inr () :: 'e + unit, concat held @ concat msgs)" for msgs
    by (simp add: bridge_stream_writer_def)
next
  assume "now < gate \<and> length d \<le> 510"
  then show "relay_hold now gate [HoldMsg d, HoldClosed] = None"
    by (simp add: relay_hold_def hold_loop.simps EPOCH_HOLD_MAX_BYTES_def)
qed

theorem epoch_hold_witness:
  "\<exists>held rest. relay_hold 3 9 [HoldMsg [65], HoldMsg [66], HoldDeadline] = Some (held, rest) \<and>
    bridge_stream_writer (\<lambda>_. None) held [[67]] = (Inr () :: unit + unit, concat held @ [67])"
proof -
  have r: "relay_hold 3 9 [HoldMsg [65], HoldMsg [66], HoldDeadline] = Some ([[65], [66]], [])"
    by (simp add: relay_hold_def hold_loop.simps EPOCH_HOLD_MAX_BYTES_def)
  have "\<forall>d. HoldMsg d \<in> set [HoldMsg [65], HoldMsg [66], HoldDeadline] \<longrightarrow> length d \<le> 510" by auto
  from epoch_hold [OF this, where 'e = unit, THEN conjunct1, rule_format, OF r] r show ?thesis by auto
qed

end
