(* ===== verification/Flow.thy ===== *)
theory Flow
  imports Emitter
begin

text \<open>
  The proofs about \<open>Emitter\<close>: a service never gets stuck, keeps the bytes it buffers bounded, seals
  its frames in order, forwards what it pulls from the channel in order and closes only when the
  tail allows; a round serves every flow once; and the receiving side reproduces the payloads.
\<close>

section \<open>Sealed frames\<close>

definition frame_msg :: "mixed_frame \<Rightarrow> byte \<times> bytes" where
  "frame_msg f = (case f of RealFrame p \<Rightarrow> (KIND_REAL, packet_bytes p) | DummyFrame b \<Rightarrow> (KIND_DUMMY, b))"

lemma encode_frame_eq: "encode_frame C f c = seal_frame C (frame_msg f) c"
  by (cases f) (simp_all add: encode_frame_def seal_frame_def frame_msg_def)

lemma frame_msg_len: "length (snd (frame_msg f)) = frame_len f"
  by (cases f) (simp_all add: frame_msg_def packet_len_def)

lemma map_state_append:
  "map_state f (xs @ ys) s =
     (let (as, s1) = map_state f xs s; (bs, s2) = map_state f ys s1 in (as @ bs, s2))"
  by (induction xs arbitrary: s) (auto simp: Let_def split: prod.splits)

text \<open>The bytes of a run of frames, and the cipher after them.\<close>

definition wire_bytes :: "crypto_ops \<Rightarrow> mixed_frame list \<Rightarrow> frame_cipher \<Rightarrow> bytes" where
  "wire_bytes C fs c = concat (fst (map_state (seal_frame C) (map frame_msg fs) c))"

definition cipher_after :: "crypto_ops \<Rightarrow> mixed_frame list \<Rightarrow> frame_cipher \<Rightarrow> frame_cipher" where
  "cipher_after C fs c = snd (map_state (seal_frame C) (map frame_msg fs) c)"

lemma wire_bytes_Nil [simp]: "wire_bytes C [] c = []" "cipher_after C [] c = c"
  by (simp_all add: wire_bytes_def cipher_after_def)

lemma wire_bytes_Cons:
  assumes "encode_frame C f c = (bs, c')"
  shows "wire_bytes C (f # fs) c = bs @ wire_bytes C fs c'" "cipher_after C (f # fs) c = cipher_after C fs c'"
  using assms by (simp_all add: wire_bytes_def cipher_after_def encode_frame_eq case_prod_beta)

lemma wire_bytes_append:
  "wire_bytes C (fs @ gs) c = wire_bytes C fs c @ wire_bytes C gs (cipher_after C fs c)"
  "cipher_after C (fs @ gs) c = cipher_after C gs (cipher_after C fs c)"
  by (simp_all add: wire_bytes_def cipher_after_def map_state_append case_prod_beta)

lemma encode_frame_length:
  "aead_ok C \<Longrightarrow> encode_frame C f c = (bs, c') \<Longrightarrow> length bs = enc_frame_len (frame_len f)"
  by (cases f)
    (auto simp: encode_frame_def packet_len_def split: prod.splits dest: cipher_roundtrip(2))

lemma enc_cell_len: "enc_frame_len CELL_BYTES = 531"
  by (simp add: enc_frame_len_def KIND_LEN_def TAG_LEN_def CELL_BYTES_def)

section \<open>The loop over due slots\<close>

definition flow_inv :: "crypto_ops \<Rightarrow> 'r rng_ops \<Rightarrow> 'r flow_slot \<Rightarrow> bool" where
  "flow_inv C R fl \<longleftrightarrow> aead_ok C \<and> shaped_inv R (fl_session fl) \<and> ss_cell (fl_session fl) = CELL_BYTES \<and>
     length (fl_pending fl) < PENDING_CAP + 531"

text \<open>The reader channel carries cells.\<close>

definition recv_cells :: "(nat \<Rightarrow> pull) \<Rightarrow> bool" where
  "recv_cells recv \<longleftrightarrow> (\<forall>i c. recv i = Got c \<longrightarrow> length c = CELL_BYTES)"

lemma padded_exact: "padded_as (Some n) p q \<Longrightarrow> packet_len p = n \<Longrightarrow> q = p"
  by (cases p; cases q) (simp add: padded_as_def packet_len_def)

lemma ss_inject_cell:
  assumes "shaped_inv R s" "ss_cell s = packet_len p" "ss_has_queue_space s"
  shows "\<exists>s'. ss_inject_real R t1 t2 p s = Some (Inr (), s') \<and> shaped_inv R s' \<and> ss_cell s' = ss_cell s \<and>
    ss_queue s' = ss_queue s @ [p] \<and> (fixed_rate s \<longrightarrow> clock_view (ss_correlator s') = clock_view (ss_correlator s))"
proof -
  obtain s' q where a: "ss_inject_real R t1 t2 p s = Some (Inr (), s')" "shaped_inv R s'"
    "padded_as (Some (tc_cell_bytes (tc_conf (ss_correlator s)))) p q"
    "tc_conf (ss_correlator s') = tc_conf (ss_correlator s)"
    "real_queue (ss_correlator s') = real_queue (ss_correlator s) @ [q]"
    "\<not> adapt_rate (tc_conf (ss_correlator s)) \<longrightarrow> clock_view (ss_correlator s') = clock_view (ss_correlator s)"
    using ss_inject_real_ok [OF assms(1), of t1 t2 p] assms(3) by auto
  have "q = p" using padded_exact [OF a(3)] assms(2) by (simp add: ss_cell_def)
  then show ?thesis using a by (simp add: ss_cell_def ss_queue_def fixed_rate_def)
qed

text \<open>What a flow keeps whatever happens to it, and how its real bytes are counted.\<close>

definition same_flow :: "'r flow_slot \<Rightarrow> 'r flow_slot \<Rightarrow> bool" where
  "same_flow fl fl' \<longleftrightarrow> fl_session_start fl' = fl_session_start fl \<and> fl_policy fl' = fl_policy fl \<and>
     fl_thresholds fl' = fl_thresholds fl \<and> fl_real_hold_until fl' = fl_real_hold_until fl"

lemma same_flow_refl [simp]: "same_flow fl fl"
  by (simp add: same_flow_def)

lemma same_flow_trans: "same_flow a b \<Longrightarrow> same_flow b c \<Longrightarrow> same_flow a c"
  by (simp add: same_flow_def)

definition payload_len :: "bytes \<Rightarrow> nat" where
  "payload_len cell = length (snd (decode_real_cell cell))"

definition count_real :: "bytes list \<Rightarrow> nat \<Rightarrow> nat" where
  "count_real cells n = foldl (\<lambda>a c. sat_add a (payload_len c)) n cells"

lemma count_real_append: "count_real (xs @ ys) n = count_real ys (count_real xs n)"
  by (simp add: count_real_def)

lemma pull_cell_ok:
  assumes "flow_inv C R fl" "\<And>c. recvd = Got c \<Longrightarrow> length c = CELL_BYTES"
  shows "\<exists>got fl1. pull_cell R g now recvd fl = Some (got, fl1) \<and> flow_inv C R fl1 \<and> same_flow fl fl1 \<and>
    ss_queue (fl_session fl1) = ss_queue (fl_session fl) @ map Packet got \<and>
    fl_pending fl1 = fl_pending fl \<and> fl_cipher fl1 = fl_cipher fl \<and> fl_wire_seq fl1 = fl_wire_seq fl \<and>
    fl_real_bytes fl1 = count_real got (fl_real_bytes fl) \<and>
    (fixed_rate (fl_session fl) \<longrightarrow>
       clock_view (ss_correlator (fl_session fl1)) = clock_view (ss_correlator (fl_session fl))) \<and>
    next_departure (ss_correlator (fl_session fl1)) = next_departure (ss_correlator (fl_session fl)) \<and>
    (g \<or> got = [])"
proof (cases "\<not> fl_reader_done fl \<and> ss_has_queue_space (fl_session fl) \<and> g")
  case False
  then show ?thesis using assms(1) by (auto simp: pull_cell_def count_real_def)
next
  case True
  show ?thesis
  proof (cases recvd)
    case (Got cell)
    then have l: "length cell = CELL_BYTES" using assms(2) by blast
    then have p: "packet_new cell = Inr (Packet cell)" by (auto simp: packet_new_def CELL_BYTES_def)
    have c: "ss_cell (fl_session fl) = packet_len (Packet cell)"
      using assms(1) l by (simp add: flow_inv_def packet_len_def)
    obtain s' where s: "ss_inject_real R (now 1) (now 2) (Packet cell) (fl_session fl) = Some (Inr (), s')"
      "shaped_inv R s'" "ss_cell s' = ss_cell (fl_session fl)" "ss_queue s' = ss_queue (fl_session fl) @ [Packet cell]"
      "fixed_rate (fl_session fl) \<longrightarrow> clock_view (ss_correlator s') = clock_view (ss_correlator (fl_session fl))"
      using ss_inject_cell [OF _ c, of R "now 1" "now 2"] assms(1) True by (auto simp: flow_inv_def)
    have "next_departure (ss_correlator s') = next_departure (ss_correlator (fl_session fl))"
      using s(1) by (auto simp: ss_inject_real_def tc_inject_real_def Let_def Option.bind_eq_Some_conv
          split: prod.splits if_splits option.splits)
    then show ?thesis
      using True Got p s assms(1)
      by (simp add: pull_cell_def Let_def flow_inv_def same_flow_def count_real_def payload_len_def)
  next
    case ChannelEmpty
    then show ?thesis using True assms(1) by (simp add: pull_cell_def count_real_def)
  next
    case Disconnected
    then show ?thesis using True assms(1)
      by (simp add: pull_cell_def Let_def flow_inv_def same_flow_def count_real_def)
  qed
qed

text \<open>
  Within a round of the loop the clock does not go back (\<open>Instant\<close> is monotone). Then a slot found
  due emits a frame, and the fuel is enough.
\<close>

definition loop_clock :: "(nat \<Rightarrow> nanos) \<Rightarrow> bool" where
  "loop_clock clk \<longleftrightarrow> (\<forall>k. clk (7 * k) \<le> clk (7 * k + 5))"

lemma service_loop_ok:
  assumes "flow_inv C R fl" "recv_cells recv" "loop_clock clk"
    "0 < fuel" "PENDING_CAP \<le> length (fl_pending fl) + 531 * (fuel - 1)"
  shows "\<exists>got out fl'. service_loop fuel C R g clk recv k fl = Some (got, out, fl') \<and> flow_inv C R fl' \<and>
    same_flow fl fl' \<and>
    fl_pending fl' = fl_pending fl @ wire_bytes C out (fl_cipher fl) \<and>
    fl_cipher fl' = cipher_after C out (fl_cipher fl) \<and>
    fl_wire_seq fl' = fl_wire_seq fl + length out \<and>
    ss_queue (fl_session fl) @ map Packet got = concat (map frame_real out) @ ss_queue (fl_session fl') \<and>
    (\<forall>f\<in>set out. frame_len f = CELL_BYTES) \<and>
    fl_real_bytes fl' = count_real got (fl_real_bytes fl) \<and> (g \<or> got = [])"
  using assms(1,4,5)
proof (induction fuel arbitrary: fl k)
  case 0
  then show ?case by simp
next
  case (Suc fuel)
  show ?case
  proof (cases "ss_slot_ready (clk (7 * k)) (fl_session fl) \<and> length (fl_pending fl) < PENDING_CAP")
    case False
    then show ?thesis using Suc.prems(1) by (auto simp: count_real_def)
  next
    case True
    then have f0: "0 < fuel" using Suc.prems(3) by (cases fuel) auto
    obtain got fl1 where 1: "pull_cell R g (\<lambda>i. clk (7 * k + i)) (recv k) fl = Some (got, fl1)" "flow_inv C R fl1"
      "same_flow fl fl1" "ss_queue (fl_session fl1) = ss_queue (fl_session fl) @ map Packet got"
      "fl_pending fl1 = fl_pending fl" "fl_cipher fl1 = fl_cipher fl" "fl_wire_seq fl1 = fl_wire_seq fl"
      "fl_real_bytes fl1 = count_real got (fl_real_bytes fl)"
      "next_departure (ss_correlator (fl_session fl1)) = next_departure (ss_correlator (fl_session fl))"
      "g \<or> got = []"
      using pull_cell_ok [OF Suc.prems(1), of "recv k" g "\<lambda>i. clk (7 * k + i)"] assms(2)
      unfolding recv_cells_def by blast
    let ?t1 = "clk (7 * k + 5)" and ?t2 = "clk (7 * k + 6)"
    obtain fo s where t: "ss_tick R ?t1 ?t2 (fl_session fl1) = (fo, s)"
      by (cases "ss_tick R ?t1 ?t2 (fl_session fl1)")
    have si: "shaped_inv R (fl_session fl1)" using 1(2) by (simp add: flow_inv_def)
    have "clk (7 * k) \<le> ?t1" using assms(3) by (simp add: loop_clock_def)
    then have "tc_slot_ready ?t1 (ss_correlator (fl_session fl1))"
      using True 1(9) by (simp add: ss_slot_ready_def tc_slot_ready_def)
    then have "fo \<noteq> None"
      using tc_tick_emits_iff [of R ?t1 ?t2 "ss_correlator (fl_session fl1)"] ss_tick_frame [of R ?t1 ?t2 "fl_session fl1"] t
      by simp
    then obtain f where f: "fo = Some f" by blast
    note tk = ss_tick_ok [OF si t]
    obtain bs c where e: "encode_frame C f (fl_cipher fl1) = (bs, c)" by (cases "encode_frame C f (fl_cipher fl1)")
    have flen: "frame_len f = CELL_BYTES" using tk(4) f 1(2) by (simp add: flow_inv_def)
    have bl: "length bs = 531"
      using encode_frame_length [OF _ e] 1(2) flen by (simp add: flow_inv_def enc_cell_len)
    define fl3 where "fl3 = fl1\<lparr>fl_session := s, fl_cipher := c, fl_wire_seq := fl_wire_seq fl1 + 1,
        fl_pending := fl_pending fl1 @ bs\<rparr>"
    have i3: "flow_inv C R fl3"
      using 1(2,5) tk(1,3) bl True by (simp add: flow_inv_def fl3_def)
    have "PENDING_CAP \<le> length (fl_pending fl3) + 531 * (fuel - 1)"
      using Suc.prems(3) f0 1(5) bl by (cases fuel) (simp_all add: fl3_def)
    from Suc.IH [OF i3 f0 this, of "k + 1"] obtain got' out' fl' where 2:
      "service_loop fuel C R g clk recv (k + 1) fl3 = Some (got', out', fl')" "flow_inv C R fl'" "same_flow fl3 fl'"
      "fl_pending fl' = fl_pending fl3 @ wire_bytes C out' (fl_cipher fl3)"
      "fl_cipher fl' = cipher_after C out' (fl_cipher fl3)" "fl_wire_seq fl' = fl_wire_seq fl3 + length out'"
      "ss_queue (fl_session fl3) @ map Packet got' = concat (map frame_real out') @ ss_queue (fl_session fl')"
      "\<forall>f\<in>set out'. frame_len f = CELL_BYTES" "fl_real_bytes fl' = count_real got' (fl_real_bytes fl3)"
      "g \<or> got' = []"
      by blast
    have l: "service_loop (Suc fuel) C R g clk recv k fl = Some (got @ got', f # out', fl')"
      using True 1(1) t f e 2(1) by (simp add: fl3_def Let_def)
    have s3: "same_flow fl fl3" using 1(3) by (simp add: same_flow_def fl3_def)
    have q1: "ss_queue (fl_session fl) @ map Packet got = frame_real f @ ss_queue s"
      using 1(4) tk(2) f by simp
    have q2: "ss_queue s @ map Packet got' = concat (map frame_real out') @ ss_queue (fl_session fl')"
      using 2(7) by (simp add: fl3_def)
    have "(ss_queue (fl_session fl) @ map Packet got) @ map Packet got'
        = frame_real f @ concat (map frame_real out') @ ss_queue (fl_session fl')"
      unfolding q1 append_assoc q2 ..
    then have q: "ss_queue (fl_session fl) @ map Packet (got @ got')
        = concat (map frame_real (f # out')) @ ss_queue (fl_session fl')" by simp
    have e': "encode_frame C f (fl_cipher fl) = (bs, c)" using e 1(6) by simp
    show ?thesis
      using l 2 s3 q flen 1 same_flow_trans [OF s3 2(3)] wire_bytes_Cons [OF e', of out']
      by (simp add: fl3_def count_real_append) blast
  qed
qed

section \<open>A service\<close>

lemma restart_flow_inv:
  assumes "flow_inv C R fl"
  shows "flow_inv C R (fl\<lparr>fl_session := ss_restart_clock R a b (fl_session fl), fl_clock_started := True\<rparr>)"
    and "ss_queue (ss_restart_clock R a b (fl_session fl)) = ss_queue (fl_session fl)"
  using assms by (simp_all add: flow_inv_def shaped_inv_def ss_restart_clock_def tc_inv_def ss_cell_def ss_queue_def)

definition service_adm :: "(nat \<Rightarrow> nanos) \<Rightarrow> (nat \<Rightarrow> pull) \<Rightarrow> bool" where
  "service_adm clk recv \<longleftrightarrow> recv_cells recv \<and> loop_clock clk"

definition wire_failed :: "write_result \<Rightarrow> bool" where
  "wire_failed wr \<longleftrightarrow> wr = Wrote 0 \<or> wr = WriteError"

lemma service_flow_ok:
  assumes "flow_inv C R fl" "service_adm clk recv"
  shows "\<exists>r. service_flow C R t clk recv wr fl = Some r \<and> flow_inv C R (sv_flow r) \<and> same_flow fl (sv_flow r) \<and>
    fl_pending fl @ wire_bytes C (sv_frames r) (fl_cipher fl) = sv_written r @ fl_pending (sv_flow r) \<and>
    fl_cipher (sv_flow r) = cipher_after C (sv_frames r) (fl_cipher fl) \<and>
    fl_wire_seq (sv_flow r) = fl_wire_seq fl + length (sv_frames r) \<and>
    ss_queue (fl_session fl) @ map Packet (sv_pulled r) =
      concat (map frame_real (sv_frames r)) @ ss_queue (fl_session (sv_flow r)) \<and>
    (\<forall>f\<in>set (sv_frames r). frame_len f = CELL_BYTES) \<and>
    fl_real_bytes (sv_flow r) = count_real (sv_pulled r) (fl_real_bytes fl) \<and>
    (t 2 < fl_real_hold_until fl \<longrightarrow> sv_pulled r = []) \<and>
    (\<not> sv_keep r \<longrightarrow> wire_failed wr \<or> flow_finished (t 3) (t 4) (sv_flow r))"
proof -
  define fl1 where "fl1 = (if fl_clock_started fl then fl
      else fl\<lparr>fl_session := ss_restart_clock R (t 0) (t 1) (fl_session fl), fl_clock_started := True\<rparr>)"
  have 1: "flow_inv C R fl1" "ss_queue (fl_session fl1) = ss_queue (fl_session fl)" "same_flow fl fl1"
    "fl_pending fl1 = fl_pending fl" "fl_cipher fl1 = fl_cipher fl" "fl_wire_seq fl1 = fl_wire_seq fl"
    "fl_real_bytes fl1 = fl_real_bytes fl" "fl_real_hold_until fl1 = fl_real_hold_until fl"
    using assms(1) restart_flow_inv [OF assms(1)] by (simp_all add: fl1_def same_flow_def)
  let ?g = "fl_real_hold_until fl1 \<le> t 2"
  define lp where "lp = (if length (fl_pending fl1) < PENDING_CAP then
      service_loop SERVICE_FUEL C R ?g clk recv 0 fl1 else Some ([], [], fl1))"
  obtain got out fl2 where 2: "lp = Some (got, out, fl2)" "flow_inv C R fl2" "same_flow fl1 fl2"
    "fl_pending fl2 = fl_pending fl1 @ wire_bytes C out (fl_cipher fl1)"
    "fl_cipher fl2 = cipher_after C out (fl_cipher fl1)" "fl_wire_seq fl2 = fl_wire_seq fl1 + length out"
    "ss_queue (fl_session fl1) @ map Packet got = concat (map frame_real out) @ ss_queue (fl_session fl2)"
    "\<forall>f\<in>set out. frame_len f = CELL_BYTES" "fl_real_bytes fl2 = count_real got (fl_real_bytes fl1)"
    "?g \<or> got = []"
  proof (cases "length (fl_pending fl1) < PENDING_CAP")
    case True
    have f: "0 < SERVICE_FUEL" "PENDING_CAP \<le> length (fl_pending fl1) + 531 * (SERVICE_FUEL - 1)"
      by (simp_all add: SERVICE_FUEL_def PENDING_CAP_def)
    show thesis
      using that True service_loop_ok [OF 1(1) _ _ f, of recv clk ?g 0] assms(2)
      unfolding lp_def service_adm_def by auto
  next
    case False
    show thesis
      by (rule that [of "[]" "[]" fl1]) (use False 1(1) in \<open>simp_all add: lp_def count_real_def\<close>)
  qed
  define res where "res = (if fl_pending fl2 = [] then (True, [], fl2)
        else case wr of
          Wrote n \<Rightarrow> if n = 0 then (False, [], fl2)
                     else (True, take n (fl_pending fl2), fl2\<lparr>fl_pending := drop n (fl_pending fl2)\<rparr>)
        | WouldBlock \<Rightarrow> (True, [], fl2)
        | WriteError \<Rightarrow> (False, [], fl2))"
  obtain alive written fl3 where r: "res = (alive, written, fl3)" by (cases res)
  have 3: "written @ fl_pending fl3 = fl_pending fl2" "\<not> alive \<longrightarrow> wire_failed wr"
    "fl3 = fl2\<lparr>fl_pending := fl_pending fl3\<rparr>"
    using r by (auto simp: res_def wire_failed_def split: if_splits write_result.splits)
  have f3: "fl_session fl3 = fl_session fl2" "fl_cipher fl3 = fl_cipher fl2" "fl_wire_seq fl3 = fl_wire_seq fl2"
    "fl_real_bytes fl3 = fl_real_bytes fl2" "same_flow fl2 fl3"
    by (subst 3(3), simp add: same_flow_def)+
  have "length (fl_pending fl3) \<le> length (fl_pending fl2)" using arg_cong [OF 3(1), of length] by simp
  then have i3: "flow_inv C R fl3" using 2(2) f3(1) by (simp add: flow_inv_def)
  let ?r = "\<lparr>sv_keep = (alive \<and> \<not> flow_finished (t 3) (t 4) fl3), sv_written = written,
      sv_pulled = got, sv_frames = out, sv_flow = fl3\<rparr>"
  have s: "service_flow C R t clk recv wr fl = Some ?r"
    unfolding service_flow_def Let_def fl1_def [symmetric] lp_def [symmetric] 2(1)
    using r by (simp add: res_def)
  show ?thesis
  proof (intro exI conjI)
    show "service_flow C R t clk recv wr fl = Some ?r" by (rule s)
    show "fl_pending fl @ wire_bytes C (sv_frames ?r) (fl_cipher fl) = sv_written ?r @ fl_pending (sv_flow ?r)"
      using 1(4,5) 2(4) 3(1) by simp
    show "same_flow fl (sv_flow ?r)"
      using same_flow_trans [OF same_flow_trans [OF 1(3) 2(3)] f3(5)] by simp
  qed (use 1 2 3 f3 i3 in auto)
qed

text \<open>The flow as a pipeline stage: from the reader channel to the frames on the wire.\<close>

datatype flow_event = FlowService "nat \<Rightarrow> nanos" "nat \<Rightarrow> nanos" "nat \<Rightarrow> pull" write_result

fun flow_step ::
  "crypto_ops \<Rightarrow> 'r rng_ops \<Rightarrow> 'r flow_slot \<Rightarrow> flow_event \<Rightarrow> ('r flow_slot \<times> mixed_frame list) option" where
  "flow_step C R fl (FlowService t clk recv wr) =
     map_option (\<lambda>r. (sv_flow r, sv_frames r)) (service_flow C R t clk recv wr fl)"

fun flow_adm :: "'r flow_slot \<Rightarrow> flow_event \<Rightarrow> bool" where
  "flow_adm fl (FlowService t clk recv wr) = service_adm clk recv"

fun flow_taken :: "crypto_ops \<Rightarrow> 'r rng_ops \<Rightarrow> 'r flow_slot \<Rightarrow> flow_event \<Rightarrow> packet list" where
  "flow_taken C R fl (FlowService t clk recv wr) =
     (case service_flow C R t clk recv wr fl of None \<Rightarrow> [] | Some r \<Rightarrow> map Packet (sv_pulled r))"

interpretation flow: sized_stage "flow_inv C R" flow_adm "flow_step C R" "\<lambda>fl. ss_queue (fl_session fl)"
    "flow_taken C R" frame_real frame_len "\<lambda>_. CELL_BYTES" for C :: crypto_ops and R :: "'r rng_ops"
proof
  fix s :: "'r flow_slot" and e
  assume a: "flow_inv C R s" "flow_adm s e"
  obtain t clk recv wr where e: "e = FlowService t clk recv wr" by (cases e)
  show "\<exists>s' os. flow_step C R s e = Some (s', os) \<and> flow_inv C R s' \<and>
      ss_queue (fl_session s) @ flow_taken C R s e = concat (map frame_real os) @ ss_queue (fl_session s')"
    using service_flow_ok [OF a(1), of clk recv t wr] a(2) e by auto
next
  fix s s' :: "'r flow_slot" and e os
  assume a: "flow_inv C R s" "flow_adm s e" "flow_step C R s e = Some (s', os)"
  obtain t clk recv wr where e: "e = FlowService t clk recv wr" by (cases e)
  show "CELL_BYTES = CELL_BYTES \<and> (\<forall>x\<in>set os. frame_len x = CELL_BYTES)"
    using service_flow_ok [OF a(1), of clk recv t wr] a(2,3) e by auto
qed

section \<open>From the wire back to the payload\<close>

text \<open>All services of a flow until it is dropped: the bytes written to the wire, the frames sealed
  and the cells pulled.\<close>

fun flow_run ::
  "crypto_ops \<Rightarrow> 'r rng_ops \<Rightarrow> flow_event list \<Rightarrow> 'r flow_slot \<Rightarrow>
     (bytes \<times> mixed_frame list \<times> bytes list \<times> 'r flow_slot) option" where
  "flow_run C R [] fl = Some ([], [], [], fl)"
| "flow_run C R (FlowService t clk recv wr # es) fl = do {
     r \<leftarrow> service_flow C R t clk recv wr fl;
     (w, fs, got, fl') \<leftarrow> (if sv_keep r then flow_run C R es (sv_flow r) else Some ([], [], [], sv_flow r));
     Some (sv_written r @ w, sv_frames r @ fs, sv_pulled r @ got, fl')
   }"

lemma flow_run_ok:
  assumes "flow_inv C R fl" "\<forall>e\<in>set es. flow_adm fl e"
  shows "\<exists>w fs got fl'. flow_run C R es fl = Some (w, fs, got, fl') \<and> flow_inv C R fl' \<and>
    fl_pending fl @ wire_bytes C fs (fl_cipher fl) = w @ fl_pending fl' \<and>
    fl_cipher fl' = cipher_after C fs (fl_cipher fl) \<and>
    ss_queue (fl_session fl) @ map Packet got = concat (map frame_real fs) @ ss_queue (fl_session fl') \<and>
    (\<forall>f\<in>set fs. frame_len f = CELL_BYTES)"
  using assms
proof (induction es arbitrary: fl)
  case Nil
  then show ?case by simp
next
  case (Cons e es)
  obtain t clk recv wr where e: "e = FlowService t clk recv wr" by (cases e)
  obtain r where r: "service_flow C R t clk recv wr fl = Some r" "flow_inv C R (sv_flow r)"
    "fl_pending fl @ wire_bytes C (sv_frames r) (fl_cipher fl) = sv_written r @ fl_pending (sv_flow r)"
    "fl_cipher (sv_flow r) = cipher_after C (sv_frames r) (fl_cipher fl)"
    "ss_queue (fl_session fl) @ map Packet (sv_pulled r) =
      concat (map frame_real (sv_frames r)) @ ss_queue (fl_session (sv_flow r))"
    "\<forall>f\<in>set (sv_frames r). frame_len f = CELL_BYTES"
    using service_flow_ok [OF Cons.prems(1), of clk recv t wr] Cons.prems(2) e by auto
  show ?case
  proof (cases "sv_keep r")
    case False
    then show ?thesis using r e by simp
  next
    case True
    have "\<forall>e\<in>set es. flow_adm (sv_flow r) e"
      using Cons.prems(2) by (metis flow_adm.elims(1) flow_adm.simps list.set_intros(2))
    from Cons.IH [OF r(2) this] obtain w fs got fl' where 2: "flow_run C R es (sv_flow r) = Some (w, fs, got, fl')"
      "flow_inv C R fl'" "fl_pending (sv_flow r) @ wire_bytes C fs (fl_cipher (sv_flow r)) = w @ fl_pending fl'"
      "fl_cipher fl' = cipher_after C fs (fl_cipher (sv_flow r))"
      "ss_queue (fl_session (sv_flow r)) @ map Packet got = concat (map frame_real fs) @ ss_queue (fl_session fl')"
      "\<forall>f\<in>set fs. frame_len f = CELL_BYTES" by blast
    have "(fl_pending fl @ wire_bytes C (sv_frames r) (fl_cipher fl)) @ wire_bytes C fs (fl_cipher (sv_flow r))
        = sv_written r @ w @ fl_pending fl'"
      unfolding r(3) append_assoc 2(3) ..
    then have b: "fl_pending fl @ wire_bytes C (sv_frames r @ fs) (fl_cipher fl) = (sv_written r @ w) @ fl_pending fl'"
      using r(4) by (simp add: wire_bytes_append)
    have "(ss_queue (fl_session fl) @ map Packet (sv_pulled r)) @ map Packet got
        = concat (map frame_real (sv_frames r)) @ concat (map frame_real fs) @ ss_queue (fl_session fl')"
      unfolding r(5) append_assoc 2(5) ..
    then have q: "ss_queue (fl_session fl) @ map Packet (sv_pulled r @ got)
        = concat (map frame_real (sv_frames r @ fs)) @ ss_queue (fl_session fl')" by simp
    have "flow_run C R (e # es) fl = Some (sv_written r @ w, sv_frames r @ fs, sv_pulled r @ got, fl')"
      using True r(1) 2(1) e by simp
    then show ?thesis using b q 2(2,4,6) r(4,6) by (auto simp: wire_bytes_append)
  qed
qed

text \<open>What the frames carry for the application.\<close>

definition cell_payload :: "bytes \<Rightarrow> bytes" where
  "cell_payload cell = snd (decode_real_cell cell)"

definition msg_payload :: "byte \<times> bytes \<Rightarrow> bytes" where
  "msg_payload m = (if fst m = KIND_REAL then cell_payload (snd m) else [])"

lemma msg_payload_frame: "msg_payload (frame_msg f) = concat (map (\<lambda>p. cell_payload (packet_bytes p)) (frame_real f))"
  by (cases f) (simp_all add: msg_payload_def frame_msg_def KIND_REAL_def KIND_DUMMY_def)

lemma msg_payload_frames:
  "concat (map (\<lambda>f. msg_payload (frame_msg f)) fs) = concat (map (\<lambda>p. cell_payload (packet_bytes p)) (concat (map frame_real fs)))"
  by (induction fs) (simp_all add: msg_payload_frame)

lemma read_sealed_step:
  fixes e :: "'e option"
  assumes "aead_ok C" "encode_frame C f c = (bs, c')" "frame_len f = CELL_BYTES"
  shows "read_sealed_frame C (bs @ w, e) c = (Inr (Some (frame_msg f)), (w, e), c')"
proof -
  have l: "length bs = enc_frame_len CELL_BYTES" using encode_frame_length [OF assms(1,2)] assms(3) by simp
  have s: "cipher_seal C (fst (frame_msg f)) (snd (frame_msg f)) c = (bs, c')"
    using assms(2) by (simp add: encode_frame_eq seal_frame_def)
  have "cipher_open C bs c = (Inr (frame_msg f) :: 'e handshake_error + byte \<times> bytes, c')" using cipher_roundtrip(1) [OF assms(1) s] by simp
  then show ?thesis using l by (cases "frame_msg f") (simp add: read_sealed_frame_def Let_def)
qed

lemma strip_frames:
  assumes "aead_ok C" "\<forall>f\<in>set fs. frame_len f = CELL_BYTES" "length rest < enc_frame_len CELL_BYTES"
  shows "strip_loop C (\<lambda>_. None) k (wire_bytes C fs c @ rest, None) c
    = (Inr () :: 'e recv_error + unit, concat (map (\<lambda>f. msg_payload (frame_msg f)) fs))"
  using assms(2)
proof (induction fs arbitrary: c k)
  case Nil
  then show ?case using assms(3) by (simp add: strip_loop.simps read_sealed_frame_def Let_def)
next
  case (Cons f fs)
  obtain bs c' where e: "encode_frame C f c = (bs, c')" by (cases "encode_frame C f c")
  have r: "read_sealed_frame C (bs @ wire_bytes C fs c' @ rest, None :: 'e option) c
      = (Inr (Some (frame_msg f)), (wire_bytes C fs c' @ rest, None), c')"
    using read_sealed_step [OF assms(1) e] Cons.prems by simp
  have ih: "strip_loop C (\<lambda>_. None) k' (wire_bytes C fs c' @ rest, None) c'
      = (Inr () :: 'e recv_error + unit, concat (map (\<lambda>f. msg_payload (frame_msg f)) fs))" for k'
    using Cons.IH Cons.prems by simp
  show ?case
    by (cases "frame_msg f")
      (use r ih in \<open>auto simp: wire_bytes_Cons(1) [OF e] strip_loop.simps [of C "\<lambda>_. None" k]
         msg_payload_def cell_payload_def\<close>)
qed

text \<open>Whatever bytes arrive, what is forwarded was sealed by the peer, in this order.\<close>

lemma strip_authentic:
  fixes e :: "'e option"
  assumes "aead_ok C" "strip_loop C (\<lambda>_. None) k (w, e) c = (res, out)"
  shows "\<exists>ms rest. w = concat (fst (map_state (seal_frame C) ms c)) @ rest \<and> out = concat (map msg_payload ms)"
  using assms(2)
proof (induction "length w" arbitrary: w c k out rule: less_induct)
  case less
  show ?case
  proof (cases "\<exists>kind cell w' c'. read_sealed_frame C (w, e) c = (Inr (Some (kind, cell)), w', c')")
    case False
    then have "out = []"
      using less.prems
      by (subst (asm) strip_loop.simps) (auto split: prod.splits sum.splits option.splits)
    then show ?thesis by (intro exI [of _ "[]"] exI [of _ w]) simp
  next
    case True
    then obtain kind cell w' e' c' where r: "read_sealed_frame C (w, e) c = (Inr (Some (kind, cell)), (w', e'), c')"
      by auto
    let ?n = "enc_frame_len CELL_BYTES"
    have o: "?n \<le> length w" "w' = drop ?n w" "e' = e" "cipher_open C (take ?n w) c = (Inr (kind, cell) :: 'e handshake_error + byte \<times> bytes, c')"
      using r by (auto simp: read_sealed_frame_def Let_def split: if_splits option.splits prod.splits sum.splits)
    have s: "seal_frame C (kind, cell) c = (take ?n w, c')"
      using cipher_open_sealed [OF assms(1) o(4)] by (simp add: seal_frame_def)
    obtain k' out' where l: "strip_loop C (\<lambda>_. None) k' (w', e) c' = (res, out')"
        "out = msg_payload (kind, cell) @ out'"
      using less.prems r o(3)
      by (subst (asm) strip_loop.simps)
        (auto simp: msg_payload_def cell_payload_def split: if_splits prod.splits)
    have "length w' < length w" using o(1,2) by (simp add: enc_frame_len_def KIND_LEN_def)
    from less.hyps [OF this, of k' c' out'] l obtain ms rest where
      m: "w' = concat (fst (map_state (seal_frame C) ms c')) @ rest" "out' = concat (map msg_payload ms)"
      by blast
    have "w = concat (fst (map_state (seal_frame C) ((kind, cell) # ms) c)) @ rest"
      using s m(1) o(2) by (simp add: case_prod_beta) (metis append_take_drop_id)
    then show ?thesis using l(2) m(2) by (intro exI [of _ "(kind, cell) # ms"] exI [of _ rest]) simp
  qed
qed

section \<open>When a flow closes\<close>

text \<open>
  The tail of a flow: set once, when its reader ends, and then for the policies of production at
  least 30 s after the session started.
\<close>

definition long_lived :: "tail_policy \<Rightarrow> bool" where
  "long_lived p \<longleftrightarrow> (case p of TailByClass \<Rightarrow> True | TailEpoch _ \<Rightarrow> True | _ \<Rightarrow> False)"

lemma tail_targets_floor:
  assumes "long_lived p" "policy_adm p start now"
  shows "\<exists>d v. tail_targets n seq p th start now = Some (d, v) \<and> start + fst (class_targets_fuzzy n th) \<le> d"
proof (cases p)
  case TailByClass
  then show ?thesis by (simp add: tail_targets_def case_prod_beta)
next
  case (TailEpoch c)
  obtain fl v where f: "class_targets_fuzzy n th = (fl, v)" by (cases "class_targets_fuzzy n th")
  let ?a = "if now < start + fl then start + fl else now"
  have fl: "fl \<le> 7200 * 1000000000" using class_floor_le [of n th] f by simp
  have a: "0 < ec_period c" "ec_origin c \<le> ?a" "?a - ec_origin c + ec_period c \<le> u64_max"
    using assms(2) TailEpoch fl by (auto simp: policy_adm_def)
  have "?a < next_boundary c ?a" by (rule next_boundary_props(1) [OF a])
  moreover have "start + fl \<le> ?a" by simp
  ultimately have "start + fl \<le> next_boundary c ?a" by linarith
  then show ?thesis using TailEpoch f by (simp add: tail_targets_def Let_def)
qed (use assms(1) in \<open>simp_all add: long_lived_def\<close>)

definition tail_inv :: "'r flow_slot \<Rightarrow> bool" where
  "tail_inv fl \<longleftrightarrow> (fl_reader_done fl \<and> long_lived (fl_policy fl) \<longrightarrow>
     (\<exists>d v b. fl_tail fl = Some (d, v) \<and> fl_finish_by fl = Some b \<and> d \<le> b \<and>
        fl_session_start fl + 30 * 1000000000 \<le> d))"

text \<open>A step that leaves the tail alone.\<close>

definition same_tail :: "'r flow_slot \<Rightarrow> 'r flow_slot \<Rightarrow> bool" where
  "same_tail fl fl' \<longleftrightarrow> same_flow fl fl' \<and> fl_reader_done fl' = fl_reader_done fl \<and>
     fl_tail fl' = fl_tail fl \<and> fl_finish_by fl' = fl_finish_by fl"

lemma same_tail_inv: "same_tail fl fl' \<Longrightarrow> tail_inv fl' = tail_inv fl"
  by (simp add: same_tail_def same_flow_def tail_inv_def)

lemma same_tail_updates [simp]:
  "same_tail fl fl" "same_tail fl (fl\<lparr>fl_session := s\<rparr>)"
  "same_tail fl (fl\<lparr>fl_session := s, fl_real_bytes := n\<rparr>)"
  "same_tail fl (fl\<lparr>fl_session := s, fl_cipher := c, fl_wire_seq := n, fl_pending := p\<rparr>)"
  "same_tail fl (fl\<lparr>fl_pending := p\<rparr>)" "same_tail fl (fl\<lparr>fl_session := s, fl_clock_started := b\<rparr>)"
  by (simp_all add: same_tail_def same_flow_def)

lemma pull_cell_same_tail:
  assumes "pull_cell R g now recvd fl = Some (got, fl1)"
    "\<not> (recvd = Disconnected \<and> \<not> fl_reader_done fl \<and> ss_has_queue_space (fl_session fl) \<and> g)"
  shows "same_tail fl fl1"
proof (cases "\<not> fl_reader_done fl \<and> ss_has_queue_space (fl_session fl) \<and> g")
  case False
  then show ?thesis using assms(1) by (auto simp: pull_cell_def split: if_splits)
next
  case True
  show ?thesis
  proof (cases recvd)
    case (Got cell)
    show ?thesis
    proof (cases "packet_new cell")
      case (Inl e)
      then show ?thesis using True Got assms(1) by (auto simp: pull_cell_def)
    next
      case (Inr p)
      then obtain res s where "ss_inject_real R (now 1) (now 2) p (fl_session fl) = Some (res, s)"
        using True Got assms(1) by (auto simp: pull_cell_def Option.bind_eq_Some_conv)
      then show ?thesis using True Got Inr assms(1) by (cases res) (auto simp: pull_cell_def)
    qed
  next
    case ChannelEmpty
    then show ?thesis using True assms(1) by (auto simp: pull_cell_def)
  next
    case Disconnected
    then show ?thesis using True assms(2) by simp
  qed
qed

lemma pull_cell_tail:
  assumes "pull_cell R g now recvd fl = Some (got, fl1)" "tail_inv fl"
    "policy_adm (fl_policy fl) (fl_session_start fl) (now 3)"
  shows "tail_inv fl1 \<and> same_flow fl fl1"
proof (cases "recvd = Disconnected \<and> \<not> fl_reader_done fl \<and> ss_has_queue_space (fl_session fl) \<and> g")
  case False
  then have "same_tail fl fl1" using pull_cell_same_tail [OF assms(1)] by blast
  then show ?thesis using assms(2) same_tail_inv same_tail_def by blast
next
  case True
  let ?tail = "tail_targets (fl_real_bytes fl) (fl_wire_seq fl) (fl_policy fl) (fl_thresholds fl) (fl_session_start fl) (now 3)"
  have fl1: "fl1 = fl\<lparr>fl_reader_done := True, fl_tail := ?tail, fl_finish_by := Some
      (case ?tail of Some (dl, _) \<Rightarrow> dl + 5 * 1000000000 | None \<Rightarrow> now 4 + 5 * 1000000000)\<rparr>"
    using True assms(1) by (simp add: pull_cell_def Let_def)
  show ?thesis
  proof (cases "long_lived (fl_policy fl)")
    case False
    then show ?thesis by (simp add: tail_inv_def same_flow_def fl1)
  next
    case True
    obtain d v where d: "?tail = Some (d, v)"
        "fl_session_start fl + fst (class_targets_fuzzy (fl_real_bytes fl) (fl_thresholds fl)) \<le> d"
      using tail_targets_floor [OF True assms(3)] by blast
    have "fl_session_start fl + 30 * 1000000000 \<le> d"
      using d(2) class_floor [of "fl_real_bytes fl" "fl_thresholds fl"] by linarith
    then show ?thesis using d(1) by (simp add: tail_inv_def same_flow_def fl1)
  qed
qed

lemma service_loop_tail:
  assumes "service_loop fuel C R g clk recv k fl = Some (got, out, fl')" "tail_inv fl"
    "\<forall>i. policy_adm (fl_policy fl) (fl_session_start fl) (clk i)"
  shows "tail_inv fl' \<and> same_flow fl fl'"
  using assms
proof (induction fuel arbitrary: fl k got out)
  case 0
  then show ?case by simp
next
  case (Suc fuel)
  show ?case
  proof (cases "ss_slot_ready (clk (7 * k)) (fl_session fl) \<and> length (fl_pending fl) < PENDING_CAP")
    case False
    then show ?thesis using Suc.prems by auto
  next
    case True
    then obtain g1 fl1 where 1: "pull_cell R g (\<lambda>i. clk (7 * k + i)) (recv k) fl = Some (g1, fl1)"
      using Suc.prems(1) by (auto simp: Option.bind_eq_Some_conv)
    have t1: "tail_inv fl1" "same_flow fl fl1"
      using pull_cell_tail [OF 1 Suc.prems(2)] Suc.prems(3) by blast+
    obtain fo s where t: "ss_tick R (clk (7 * k + 5)) (clk (7 * k + 6)) (fl_session fl1) = (fo, s)"
      by (cases "ss_tick R (clk (7 * k + 5)) (clk (7 * k + 6)) (fl_session fl1)")
    define fl3 where "fl3 = (case fo of None \<Rightarrow> fl1\<lparr>fl_session := s\<rparr>
       | Some f \<Rightarrow> fl1\<lparr>fl_session := s, fl_cipher := snd (encode_frame C f (fl_cipher fl1)),
            fl_wire_seq := fl_wire_seq fl1 + 1, fl_pending := fl_pending fl1 @ fst (encode_frame C f (fl_cipher fl1))\<rparr>)"
    have s3: "same_tail fl1 fl3" by (simp add: fl3_def split: option.split)
    obtain got' out' where l: "service_loop fuel C R g clk recv (k + 1) fl3 = Some (got', out', fl')"
      using Suc.prems(1) True 1 t
      by (cases fo) (auto simp: fl3_def Let_def case_prod_beta Option.bind_eq_Some_conv)
    have t3: "tail_inv fl3" "same_flow fl1 fl3"
      using t1(1) same_tail_inv [OF s3] s3 by (simp_all add: same_tail_def)
    have p: "\<forall>i. policy_adm (fl_policy fl3) (fl_session_start fl3) (clk i)"
      using Suc.prems(3) t1(2) t3(2) by (simp add: same_flow_def)
    show ?thesis using Suc.IH [OF l t3(1) p] same_flow_trans t1(2) t3(2) by blast
  qed
qed

lemma service_flow_tail:
  assumes "service_flow C R t clk recv wr fl = Some r" "tail_inv fl"
    "\<forall>i. policy_adm (fl_policy fl) (fl_session_start fl) (clk i)"
  shows "tail_inv (sv_flow r)"
proof -
  define fl1 where "fl1 = (if fl_clock_started fl then fl
      else fl\<lparr>fl_session := ss_restart_clock R (t 0) (t 1) (fl_session fl), fl_clock_started := True\<rparr>)"
  have 1: "tail_inv fl1" "same_flow fl fl1" using assms(2) by (simp_all add: fl1_def tail_inv_def same_flow_def)
  have p: "\<forall>i. policy_adm (fl_policy fl1) (fl_session_start fl1) (clk i)"
    using assms(3) 1(2) by (simp add: same_flow_def)
  obtain got out fl2 where 2: "(if length (fl_pending fl1) < PENDING_CAP then
      service_loop SERVICE_FUEL C R (fl_real_hold_until fl1 \<le> t 2) clk recv 0 fl1 else Some ([], [], fl1))
      = Some (got, out, fl2)"
    using assms(1) unfolding service_flow_def Let_def fl1_def [symmetric]
    by (auto simp: Option.bind_eq_Some_conv)
  have t2: "tail_inv fl2"
    using 2 1(1) service_loop_tail [OF _ 1(1) p] by (auto split: if_splits)
  show ?thesis
    using assms(1) 2 t2 unfolding service_flow_def Let_def fl1_def [symmetric]
    by (auto simp: tail_inv_def split: if_splits write_result.splits prod.splits)
qed

text \<open>A flow that ends of its own accord has drained what it took in and waited for its tail, or is
  past the backstop.\<close>

lemma finished_after_floor:
  assumes "tail_inv fl" "long_lived (fl_policy fl)" "flow_finished t1 t2 fl"
  shows "fl_session_start fl + 30 * 1000000000 \<le> max t1 t2"
  using assms by (auto simp: tail_inv_def flow_finished_def split: option.splits)

lemma finished_drained:
  assumes "flow_finished t1 t2 fl" "\<forall>b. fl_finish_by fl = Some b \<longrightarrow> t2 < b"
  shows "fl_reader_done fl" "ss_queue (fl_session fl) = []" "fl_pending fl = []"
  using assms by (auto simp: flow_finished_def ss_queue_depth_def tc_queue_depth_def ss_queue_def
      Let_def split: option.splits)

section \<open>Every flow is served once in a round\<close>

lemma swap_remove_props:
  assumes "i < length xs"
  shows "length (swap_remove i xs) = length xs - 1" "take i (swap_remove i xs) = take i xs"
    "mset (drop i (swap_remove i xs)) = mset (drop (Suc i) xs)"
proof -
  obtain ys z where xs: "xs = ys @ [z]" using assms by (cases xs rule: rev_cases) auto
  show "length (swap_remove i xs) = length xs - 1" by (simp add: swap_remove_def)
  show "take i (swap_remove i xs) = take i xs"
    using assms by (simp add: swap_remove_def xs list_update_append butlast_append)
  show "mset (drop i (swap_remove i xs)) = mset (drop (Suc i) xs)"
  proof (cases "i < length ys")
    case True
    then have "swap_remove i xs = ys[i := z]"
      by (simp add: swap_remove_def xs list_update_append)
    then have "drop i (swap_remove i xs) = z # drop (Suc i) ys"
      using True by (simp add: drop_update_swap Cons_nth_drop_Suc [symmetric])
    then show ?thesis using True by (simp add: xs)
  next
    case False
    then have "i = length ys" using assms by (simp add: xs)
    then show ?thesis by (simp add: swap_remove_def xs)
  qed
qed

definition survivors :: "('f \<Rightarrow> bool \<times> 'f) \<Rightarrow> 'f list \<Rightarrow> 'f list" where
  "survivors step fs = map snd (filter fst (map step fs))"

lemma survivors_Cons: "survivors step (f # fs) = (if fst (step f) then [snd (step f)] else []) @ survivors step fs"
  by (simp add: survivors_def)

lemma survivors_mset: "mset fs = mset gs \<Longrightarrow> mset (survivors step fs) = mset (survivors step gs)"
  by (simp add: survivors_def)

lemma service_round_ok:
  "i \<le> length fs \<Longrightarrow>
     mset (service_round step i fs) = mset (take i fs) + mset (survivors step (drop i fs))"
proof (induction step i fs rule: service_round.induct)
  case (1 step i fs)
  show ?case
  proof (cases "i < length fs")
    case False
    then show ?thesis using 1(3) by (subst service_round.simps) (simp add: survivors_def)
  next
    case True
    obtain keep f where s: "step (fs ! i) = (keep, f)" by (cases "step (fs ! i)")
    let ?gs = "fs[i := f]"
    have d: "drop i fs = fs ! i # drop (Suc i) fs" using True by (simp add: Cons_nth_drop_Suc)
    show ?thesis
    proof (cases keep)
      case k: True
      have "mset (service_round step (i + 1) ?gs) = mset (take (i + 1) ?gs) + mset (survivors step (drop (i + 1) ?gs))"
        using 1(1) [OF True s [symmetric] refl refl k] True by simp
      moreover have "take (i + 1) ?gs = take i fs @ [f]" using True by (simp add: take_Suc_conv_app_nth)
      ultimately show ?thesis
        using True s k d by (simp add: service_round.simps [of step i fs] survivors_Cons)
    next
      case k: False
      have i: "i < length ?gs" using True by simp
      have "mset (service_round step i (swap_remove i ?gs))
          = mset (take i (swap_remove i ?gs)) + mset (survivors step (drop i (swap_remove i ?gs)))"
        using 1(2) [OF True s [symmetric] refl refl k] True swap_remove_props(1) [OF i] by simp
      moreover have "mset (survivors step (drop i (swap_remove i ?gs))) = mset (survivors step (drop (Suc i) fs))"
        using survivors_mset [OF swap_remove_props(3) [OF i]] by simp
      ultimately show ?thesis
        using True s k d swap_remove_props(2) [OF i]
        by (simp add: service_round.simps [of step i fs] survivors_Cons)
    qed
  qed
qed

section \<open>Opened flows\<close>

lemma flow_open_ok:
  assumes "rng_ok R" "aead_ok C" "session_generate G os (clk 0) = (Inr seeds, os')"
  shows "\<exists>fl. flow_open R H G os r_iat r_th clk gated policy cipher = Some (Inr fl, os') \<and> flow_inv C R fl \<and>
    tail_inv fl \<and> fixed_rate (fl_session fl) \<and> ss_queue (fl_session fl) = [] \<and> fl_pending fl = [] \<and>
    fl_cipher fl = cipher \<and> fl_policy fl = policy \<and> fl_session_start fl = clk 1 \<and> \<not> fl_reader_done fl \<and>
    fl_real_hold_until fl = (case policy of TailEpoch c \<Rightarrow> if gated then next_boundary c (clk 1) else clk 1 | _ \<Rightarrow> clk 1)"
proof -
  have "JITTER_IAT_MIN_MS \<le> JITTER_IAT_MAX_MS" by (simp add: JITTER_IAT_MIN_MS_def JITTER_IAT_MAX_MS_def)
  then obtain iat r' where iat: "gen_range_f64 R r_iat JITTER_IAT_MIN_MS JITTER_IAT_MAX_MS = Some (iat, r')"
      "JITTER_IAT_MIN_MS \<le> iat"
    using gen_range_f64_total [OF assms(1)] by blast
  obtain th r'' where th: "sample_thresholds R r_th = Some (th, r'')" using sample_thresholds_wf [OF assms(1)] by blast
  have pos: "0 < iat" using iat(2) by (simp add: JITTER_IAT_MIN_MS_def)
  note cfg = shaped_config_ok [OF pos]
  have role: "seed_role (burst_composition seeds) = BurstComposition"
    using generate_wf assms(3) by (fastforce simp: session_generate_def seeds_wf_def)
  obtain s where s: "shaped_new R H (\<lambda>i. clk (i + 2)) (burst_composition seeds) (shaped_composition_config iat) = Some (Inr s)"
      "shaped_inv R s" "real_queue (ss_correlator s) = []"
      "tc_conf (ss_correlator s) = shaped_tc_config CELL_BYTES (shaped_composition_config iat)"
    using shaped_new_ok [OF assms(1) cfg(1) role cfg(2,3)] by blast
  have cell: "ss_cell s = CELL_BYTES" using s(4) by (simp add: ss_cell_def shaped_tc_config_def)
  show ?thesis
    using s cell assms(2,3) cfg(4)
    by (simp add: flow_open_def iat(1) th Let_def flow_inv_def tail_inv_def fixed_rate_def ss_queue_def PENDING_CAP_def
      split: tail_policy.split)
qed

text \<open>What has been written so far is whole frames and a part of the next.\<close>

lemma wire_prefix_split:
  assumes "aead_ok C" "\<forall>f\<in>set fs. frame_len f = CELL_BYTES" "w @ p = wire_bytes C fs c"
  shows "\<exists>fs1 fs2 rest. fs = fs1 @ fs2 \<and> w = wire_bytes C fs1 c @ rest \<and> length rest < enc_frame_len CELL_BYTES"
  using assms(2,3)
proof (induction fs arbitrary: w c)
  case Nil
  then show ?case by (simp add: enc_frame_len_def KIND_LEN_def)
next
  case (Cons f fs)
  obtain bs c' where e: "encode_frame C f c = (bs, c')" by (cases "encode_frame C f c")
  note W = wire_bytes_Cons(1) [OF e]
  have l: "length bs = enc_frame_len CELL_BYTES" using encode_frame_length [OF assms(1) e] Cons.prems(1) by simp
  show ?case
  proof (cases "length w < length bs")
    case True
    then show ?thesis using l by (intro exI [of _ "[]"] exI [of _ "f # fs"] exI [of _ w]) simp
  next
    case False
    have "w @ p = bs @ wire_bytes C fs c'" using Cons.prems(2) W by simp
    then obtain w' where w': "w = bs @ w'" "w' @ p = wire_bytes C fs c'"
      using False by (auto simp: append_eq_append_conv2)
    then obtain fs1 fs2 rest where "fs = fs1 @ fs2" "w' = wire_bytes C fs1 c' @ rest" "length rest < enc_frame_len CELL_BYTES"
      using Cons.IH [OF _ w'(2)] Cons.prems(1) by auto
    then show ?thesis using w'(1) wire_bytes_Cons(1) [OF e] by (intro exI [of _ "f # fs1"] exI [of _ fs2]) auto
  qed
qed

section \<open>Properties\<close>

text \<open>C6: From the reader to the other end. A flow that was opened and then served any number of times,
  whatever the clocks read, whatever the channel delivered and however much each write took, never
  panics; a peer with the same key that strips the bytes written so far forwards a prefix of the
  payloads of the cells pulled, in order, with nothing added, and once nothing is queued or unwritten
  it has forwarded them all.\<close>
theorem delivered_in_order:
  assumes "rng_ok R" "aead_ok C" "session_generate G os (clk 0) = (Inr seeds, os')"
    and "flow_open R H G os r_iat r_th clk gated policy cipher = Some (Inr fl, os')"
    and "\<forall>e\<in>set es. flow_adm fl e"
  shows "\<exists>w fs got fl' out. flow_run C R es fl = Some (w, fs, got, fl') \<and>
    strip_and_forward C (\<lambda>_. None) (w, None) cipher = (Inr () :: 'e recv_error + unit, out) \<and>
    (\<exists>later. concat (map cell_payload got) = out @ later) \<and>
    (fl_pending fl' = [] \<and> ss_queue (fl_session fl') = [] \<longrightarrow> out = concat (map cell_payload got))"
proof -
  have fl: "flow_inv C R fl" "ss_queue (fl_session fl) = []" "fl_pending fl = []" "fl_cipher fl = cipher"
    using flow_open_ok [where clk = clk, OF assms(1-3), of H r_iat r_th gated policy cipher] assms(4) by auto
  obtain w fs got fl' where run: "flow_run C R es fl = Some (w, fs, got, fl')"
      "wire_bytes C fs cipher = w @ fl_pending fl'"
      "map Packet got = concat (map frame_real fs) @ ss_queue (fl_session fl')"
      "\<forall>f\<in>set fs. frame_len f = CELL_BYTES"
    using flow_run_ok [OF fl(1) assms(5)] fl by auto
  have pay: "concat (map (\<lambda>p. cell_payload (packet_bytes p)) (map Packet got)) = concat (map cell_payload got)"
    by (simp add: comp_def)
  obtain fs1 fs2 rest where s: "fs = fs1 @ fs2" "w = wire_bytes C fs1 cipher @ rest" "length rest < enc_frame_len CELL_BYTES"
    and last: "fl_pending fl' = [] \<Longrightarrow> fs2 = []"
  proof (cases "fl_pending fl' = []")
    case True
    then show thesis using that [of fs "[]" "[]"] run(2) by (simp add: enc_frame_len_def KIND_LEN_def)
  next
    case False
    then show thesis using that wire_prefix_split [OF assms(2) run(4) run(2) [symmetric]] by blast
  qed
  let ?out = "concat (map (\<lambda>f. msg_payload (frame_msg f)) fs1)"
  have strip: "strip_and_forward C (\<lambda>_. None) (w, None) cipher = (Inr () :: 'e recv_error + unit, ?out)"
    unfolding strip_and_forward_def s(2) using run(4) s by (intro strip_frames [OF assms(2)]) auto
  have "concat (map cell_payload got) = ?out @ concat (map (\<lambda>f. msg_payload (frame_msg f)) fs2) @
      concat (map (\<lambda>p. cell_payload (packet_bytes p)) (ss_queue (fl_session fl')))"
    unfolding pay [symmetric] run(3) s(1) by (simp add: msg_payload_frames)
  then show ?thesis using run(1) strip last by fastforce
qed

text \<open>C39: Whatever bytes an attacker puts on the wire, what the receiver forwards to the application was
  sealed by the holder of the key: the bytes accepted start with the frames a sender in the same state
  makes of some messages, and the output is exactly the payloads of the real ones, in that order; so
  a dummy never reaches the application and nothing is injected.\<close>
theorem stripped_is_authentic:
  assumes "aead_ok C" "strip_and_forward C (\<lambda>_. None) (w, e) c = (res :: 'e recv_error + unit, out)"
  shows "\<exists>ms rest. w = concat (fst (map_state (seal_frame C) ms c)) @ rest \<and>
    out = concat (map (\<lambda>(kind, cell). if kind = KIND_REAL then snd (decode_real_cell cell) else []) ms)"
proof -
  have "msg_payload = (\<lambda>(kind, cell). if kind = KIND_REAL then snd (decode_real_cell cell) else [])"
    by (auto simp: msg_payload_def cell_payload_def fun_eq_iff)
  then show ?thesis using strip_authentic [OF assms(1)] assms(2) unfolding strip_and_forward_def by metis
qed

text \<open>C16: One service of a flow ends, never panics and is bounded: it emits only cell-sized frames, less
  than 64 KiB plus one frame stays unwritten, every pulled cell is emitted in order or queued, and
  the bytes written continue the sealed stream where the last service stopped. Before the epoch gate
  no cell is pulled, and the flow is dropped only when the wire failed or it is finished.\<close>
theorem service_bounded:
  assumes "flow_inv C R fl" "service_adm clk recv"
  shows "\<exists>r. service_flow C R t clk recv wr fl = Some r \<and> flow_inv C R (sv_flow r) \<and>
    length (fl_pending (sv_flow r)) < 65536 + 531 \<and> (\<forall>f\<in>set (sv_frames r). frame_len f = CELL_BYTES) \<and>
    ss_queue (fl_session fl) @ map Packet (sv_pulled r) =
      concat (map frame_real (sv_frames r)) @ ss_queue (fl_session (sv_flow r)) \<and>
    fl_pending fl @ wire_bytes C (sv_frames r) (fl_cipher fl) = sv_written r @ fl_pending (sv_flow r) \<and>
    (t 2 < fl_real_hold_until fl \<longrightarrow> sv_pulled r = []) \<and>
    (\<not> sv_keep r \<longrightarrow> wire_failed wr \<or> flow_finished (t 3) (t 4) (sv_flow r))"
proof -
  obtain r where r: "service_flow C R t clk recv wr fl = Some r" "flow_inv C R (sv_flow r)"
    "fl_pending fl @ wire_bytes C (sv_frames r) (fl_cipher fl) = sv_written r @ fl_pending (sv_flow r)"
    "ss_queue (fl_session fl) @ map Packet (sv_pulled r) =
      concat (map frame_real (sv_frames r)) @ ss_queue (fl_session (sv_flow r))"
    "\<forall>f\<in>set (sv_frames r). frame_len f = CELL_BYTES" "t 2 < fl_real_hold_until fl \<longrightarrow> sv_pulled r = []"
    "\<not> sv_keep r \<longrightarrow> wire_failed wr \<or> flow_finished (t 3) (t 4) (sv_flow r)"
    using service_flow_ok [OF assms] by blast
  then show ?thesis by (intro exI [of _ r]) (simp add: flow_inv_def PENDING_CAP_def)
qed

text \<open>C17: No close before the floor. Under the production policies a flow whose wire works is closed only
  when its reader has ended, and not before 30 s after the session started, and, unless the five-second
  backstop has passed, only with nothing queued and nothing unwritten, whatever was sent through it.\<close>
theorem close_after_floor:
  assumes "flow_inv C R fl" "tail_inv fl" "long_lived (fl_policy fl)" "service_adm clk recv"
    "\<forall>i. policy_adm (fl_policy fl) (fl_session_start fl) (clk i)" "\<not> wire_failed wr"
  shows "\<exists>r. service_flow C R t clk recv wr fl = Some r \<and> tail_inv (sv_flow r) \<and>
    (\<not> sv_keep r \<longrightarrow> fl_reader_done (sv_flow r) \<and>
      fl_session_start fl + 30 * 1000000000 \<le> max (t 3) (t 4) \<and>
      ((\<forall>b. fl_finish_by (sv_flow r) = Some b \<longrightarrow> t 4 < b) \<longrightarrow>
         ss_queue (fl_session (sv_flow r)) = [] \<and> fl_pending (sv_flow r) = []))"
proof -
  obtain r where r: "service_flow C R t clk recv wr fl = Some r" "same_flow fl (sv_flow r)"
    "\<not> sv_keep r \<longrightarrow> wire_failed wr \<or> flow_finished (t 3) (t 4) (sv_flow r)"
    using service_flow_ok [OF assms(1,4)] by blast
  have inv: "tail_inv (sv_flow r)" using service_flow_tail [OF r(1) assms(2,5)] .
  have keep: "fl_session_start (sv_flow r) = fl_session_start fl" "fl_policy (sv_flow r) = fl_policy fl"
    using r(2) by (simp_all add: same_flow_def)
  have "fl_reader_done (sv_flow r) \<and> fl_session_start fl + 30 * 1000000000 \<le> max (t 3) (t 4) \<and>
      ((\<forall>b. fl_finish_by (sv_flow r) = Some b \<longrightarrow> t 4 < b) \<longrightarrow>
         ss_queue (fl_session (sv_flow r)) = [] \<and> fl_pending (sv_flow r) = [])" if "\<not> sv_keep r"
  proof -
    have fin: "flow_finished (t 3) (t 4) (sv_flow r)" using r(3) that assms(6) by blast
    then show ?thesis
      using finished_after_floor [OF inv _ fin] finished_drained [OF fin] assms(3) keep by (auto simp: flow_finished_def)
  qed
  then show ?thesis using r(1) inv by blast
qed

text \<open>Every flow gets exactly one service per turn of the emitter, although flows are dropped by
  swapping the last one into their place during the loop: the flows after a turn are those, and only
  those, that were registered or newly admitted and whose service kept them, each advanced by one
  service. The emitter stops only when it has no flow left and nobody can register one.\<close>
theorem one_service_per_turn:
  "(case emitter_turn step admitted reg_open flows of
      Some flows' \<Rightarrow> mset flows' = mset (map (snd \<circ> step) (filter (fst \<circ> step) (flows @ admitted)))
    | None \<Rightarrow> flows = [] \<and> admitted = [] \<and> \<not> reg_open)"
proof -
  have surv: "survivors step fs = map (snd \<circ> step) (filter (fst \<circ> step) fs)" for fs
    by (induction fs) (simp_all add: survivors_def)
  have "mset (service_round step 0 fs) = mset (map (snd \<circ> step) (filter (fst \<circ> step) fs))" for fs
    using service_round_ok [of 0 fs step] by (simp add: surv)
  then show ?thesis by (simp add: emitter_turn_def Let_def)
qed

section \<open>Witnesses\<close>

lemma sample_seeds: "\<exists>seeds. session_generate byte_source 7 now = (Inr seeds, 9)"
  by (simp add: session_generate_def generate_with_rotation_interval_def seed_generate_def byte_source_def
      SEED_LEN_def DEFAULT_ROTATION_INTERVAL_def list_all_iff)

definition sample_flow :: "unit flow_slot" where
  "sample_flow = (case flow_open least_rng (\<lambda>k d. d) byte_source 7 () () (\<lambda>i. i) True TailByClass (cipher_new [5]) of
     Some (Inr fl, _) \<Rightarrow> fl | _ \<Rightarrow> undefined)"

lemma toy_aead_ok: "aead_ok toy_crypto"
  using toy_crypto_ok by (simp add: crypto_ok_def)

lemma sample_flow_ok:
  "flow_open least_rng (\<lambda>k d. d) byte_source 7 () () (\<lambda>i. i) True TailByClass (cipher_new [5]) = Some (Inr sample_flow, 9)"
  "flow_inv toy_crypto least_rng sample_flow" "tail_inv sample_flow" "fl_policy sample_flow = TailByClass"
proof -
  obtain seeds where s: "session_generate byte_source 7 0 = (Inr seeds, 9)" using sample_seeds by blast
  show "flow_open least_rng (\<lambda>k d. d) byte_source 7 () () (\<lambda>i. i) True TailByClass (cipher_new [5]) = Some (Inr sample_flow, 9)"
    "flow_inv toy_crypto least_rng sample_flow" "tail_inv sample_flow" "fl_policy sample_flow = TailByClass"
    using flow_open_ok [where clk = "\<lambda>i. i", OF least_rng_ok toy_aead_ok s, of "\<lambda>k d. d" "()" "()" True TailByClass "cipher_new [5]"]
    unfolding sample_flow_def by auto
qed

lemma sample_adm: "service_adm (\<lambda>i. i) (\<lambda>k. if k = 0 then Got (replicate 514 1) else ChannelEmpty)"
  by (simp add: service_adm_def recv_cells_def loop_clock_def CELL_BYTES_def)

theorem delivered_in_order_witness:
  "\<exists>w fs got fl' out.
    flow_run toy_crypto least_rng [FlowService (\<lambda>i. i) (\<lambda>i. i) (\<lambda>k. if k = 0 then Got (replicate 514 1) else ChannelEmpty) (Wrote 100)]
      sample_flow = Some (w, fs, got, fl') \<and>
    strip_and_forward toy_crypto (\<lambda>_. None) (w, None) (cipher_new [5]) = (Inr () :: unit recv_error + unit, out) \<and>
    (\<exists>later. concat (map cell_payload got) = out @ later)"
proof -
  obtain seeds where s: "session_generate byte_source 7 0 = (Inr seeds, 9)" using sample_seeds by blast
  have adm: "\<forall>e\<in>set [FlowService (\<lambda>i. i) (\<lambda>i. i) (\<lambda>k. if k = 0 then Got (replicate 514 1) else ChannelEmpty) (Wrote 100)].
      flow_adm sample_flow e" using sample_adm by simp
  show ?thesis
    using delivered_in_order [where 'e = unit and clk = "\<lambda>i. i", OF least_rng_ok toy_aead_ok s sample_flow_ok(1) adm] by blast
qed

theorem stripped_is_authentic_witness:
  "\<exists>ms rest. [9, 9, 9] = concat (fst (map_state (seal_frame toy_crypto) ms (cipher_new [5]))) @ rest \<and>
    snd (strip_and_forward toy_crypto (\<lambda>_. None) ([9, 9, 9], None :: unit option) (cipher_new [5])) =
      concat (map (\<lambda>(kind, cell). if kind = KIND_REAL then snd (decode_real_cell cell) else []) ms)"
  by (rule stripped_is_authentic [OF toy_aead_ok surjective_pairing])

theorem service_bounded_witness:
  "\<exists>r. service_flow toy_crypto least_rng (\<lambda>i. i) (\<lambda>i. i) (\<lambda>k. if k = 0 then Got (replicate 514 1) else ChannelEmpty)
      (Wrote 100) sample_flow = Some r \<and> length (fl_pending (sv_flow r)) < 65536 + 531 \<and>
    (\<forall>f\<in>set (sv_frames r). frame_len f = CELL_BYTES)"
  using service_bounded [OF sample_flow_ok(2) sample_adm, of "\<lambda>i. i" "Wrote 100"] by blast

theorem close_after_floor_witness:
  "\<exists>r. service_flow toy_crypto least_rng (\<lambda>i. i) (\<lambda>i. i) (\<lambda>k. if k = 0 then Got (replicate 514 1) else ChannelEmpty)
      (Wrote 100) sample_flow = Some r \<and> sv_keep r"
proof -
  have p: "long_lived (fl_policy sample_flow)" "\<forall>i. policy_adm (fl_policy sample_flow) (fl_session_start sample_flow) i"
    by (simp_all add: sample_flow_ok(4) long_lived_def policy_adm_def)
  obtain r where r: "service_flow toy_crypto least_rng (\<lambda>i. i) (\<lambda>i. i) (\<lambda>k. if k = 0 then Got (replicate 514 1) else ChannelEmpty)
      (Wrote 100) sample_flow = Some r"
    "\<not> sv_keep r \<longrightarrow> fl_session_start sample_flow + 30 * 1000000000 \<le> max (3::nat) 4"
    using close_after_floor [OF sample_flow_ok(2,3) p(1) sample_adm p(2), of "Wrote 100" "\<lambda>i. i"]
    by (auto simp: wire_failed_def)
  then show ?thesis by auto
qed

end
