(* ===== verification/Timing.thy ===== *)
theory Timing
  imports Clumping
begin

text \<open>
  \<open>src/src/timing.rs\<close>: the scheduler that draws the delays between bursts from a regime, and
  switches regime once enough bytes or packets have passed. The distributions of the \<open>rand_distr\<close>
  crate are parameters: a field of \<open>dist_ops\<close> builds the distribution and samples it, \<open>None\<close> where
  the constructor refuses its parameters and the \<open>expect\<close> of the code panics; \<open>dist_ok\<close> states for
  which parameters the crate documents that it accepts. Nothing is assumed about the values drawn.
  The lemmas say that a scheduler never panics, that the counters stay below the thresholds of the
  regime, and that every delay lies in the configured window.
\<close>

record 'r dist_ops =
  poisson_sample :: "real \<Rightarrow> 'r \<Rightarrow> (real \<times> 'r) option"
  pareto_sample :: "real \<Rightarrow> real \<Rightarrow> 'r \<Rightarrow> (real \<times> 'r) option"
  exp_sample :: "real \<Rightarrow> 'r \<Rightarrow> (real \<times> 'r) option"

definition dist_ok :: "'r dist_ops \<Rightarrow> bool" where
  "dist_ok D \<longleftrightarrow>
     (\<forall>l r. 0 < l \<longrightarrow> poisson_sample D l r \<noteq> None) \<and>
     (\<forall>sc sh r. 0 < sc \<and> 0 < sh \<longrightarrow> pareto_sample D sc sh r \<noteq> None) \<and>
     (\<forall>l r. 0 \<le> l \<longrightarrow> exp_sample D l r \<noteq> None)"

text \<open>A concrete instance, for the witnesses.\<close>

definition mean_dist :: "nat dist_ops" where
  "mean_dist = \<lparr>
     poisson_sample = (\<lambda>l r. if 0 < l then Some (l, lcg_next r) else None),
     pareto_sample = (\<lambda>sc sh r. if 0 < sc \<and> 0 < sh then Some (sc * (1 + sh), lcg_next r) else None),
     exp_sample = (\<lambda>l r. if 0 \<le> l then Some (1 / l, lcg_next r) else None)\<rparr>"

lemma mean_dist_ok: "dist_ok mean_dist"
  by (simp add: dist_ok_def mean_dist_def)

section \<open>Configuration\<close>

datatype timing_distribution_kind =
  Poisson | Pareto | Bimodal | BurstAndSilence | Uniform | Exponential

record regime_switch_threshold =
  rst_bytes :: nat
  rst_packets :: nat

record timing_regime =
  tr_kind :: timing_distribution_kind
  switch_after :: regime_switch_threshold

record timing_decision =
  td_delay :: nanos
  td_regime :: timing_regime
  pool_thresholds :: cycle_thresholds

record timing_config =
  min_delay :: nanos
  max_delay :: nanos
  min_regime_bytes :: nat
  max_regime_bytes :: nat
  min_regime_packets :: nat
  max_regime_packets :: nat
  tmg_clumping :: clumping_config

datatype timing_error =
    TimingInvalidConfig string
  | InvalidClumpingConfig clumping_error
  | TimingWrongSeedRole seed_role seed_role

definition timing_default :: timing_config where
  "timing_default = \<lparr>min_delay = 4 * 1000000, max_delay = 240 * 1000000,
     min_regime_bytes = 24 * 1024, max_regime_bytes = 512 * 1024,
     min_regime_packets = 48, max_regime_packets = 1024, tmg_clumping = clumping_default\<rparr>"

definition timing_validate :: "timing_config \<Rightarrow> timing_error + timing_config" where
  "timing_validate c =
     (if min_delay c = 0 then Inl (TimingInvalidConfig ''minimum delay must be non-zero'')
      else if min_delay c > max_delay c then
        Inl (TimingInvalidConfig ''minimum delay cannot exceed maximum delay'')
      else if min_regime_bytes c = 0 \<or> min_regime_packets c = 0 then
        Inl (TimingInvalidConfig ''regime switch thresholds must be non-zero'')
      else if min_regime_bytes c > max_regime_bytes c then
        Inl (TimingInvalidConfig ''minimum regime bytes cannot exceed maximum regime bytes'')
      else if min_regime_packets c > max_regime_packets c then
        Inl (TimingInvalidConfig ''minimum regime packets cannot exceed maximum regime packets'')
      else case clumping_validate (tmg_clumping c) of
        Inl e \<Rightarrow> Inl (InvalidClumpingConfig e)
      | Inr _ \<Rightarrow> Inr c)"

definition timing_valid :: "timing_config \<Rightarrow> bool" where
  "timing_valid c \<longleftrightarrow> 0 < min_delay c \<and> min_delay c \<le> max_delay c \<and>
     0 < min_regime_bytes c \<and> 0 < min_regime_packets c \<and>
     min_regime_bytes c \<le> max_regime_bytes c \<and> min_regime_packets c \<le> max_regime_packets c \<and>
     clumping_valid (tmg_clumping c)"

interpretation timing_cfg: config_check timing_validate timing_valid
proof
  fix c
  show "timing_valid c \<Longrightarrow> timing_validate c = Inr c"
    by (auto simp: timing_valid_def timing_validate_def clump_cfg.validate_ok)
  show "\<not> timing_valid c \<Longrightarrow> \<exists>e. timing_validate c = Inl e"
    using clump_cfg.validate_err [of "tmg_clumping c"]
    by (auto simp: timing_valid_def timing_validate_def split: sum.split)
qed

section \<open>The scheduler\<close>

record 'r timing_scheduler =
  ts_config :: timing_config
  ts_rng :: 'r
  ts_regime :: timing_regime
  bytes_in_regime :: nat
  packets_in_regime :: nat

definition timing_kind_of :: "nat \<Rightarrow> timing_distribution_kind" where
  "timing_kind_of n =
     (if n = 0 then Poisson else if n = 1 then Pareto else if n = 2 then Bimodal
      else if n = 3 then BurstAndSilence else if n = 4 then Uniform else Exponential)"

definition timing_next_regime ::
  "'r rng_ops \<Rightarrow> timing_config \<Rightarrow> 'r \<Rightarrow> (timing_regime \<times> 'r) option" where
  "timing_next_regime R c r = do {
     (k, r1) \<leftarrow> gen_range R r 0 5;
     (bs, r2) \<leftarrow> gen_range R r1 (min_regime_bytes c) (max_regime_bytes c);
     (ps, r3) \<leftarrow> gen_range R r2 (min_regime_packets c) (max_regime_packets c);
     Some (\<lparr>tr_kind = timing_kind_of k, switch_after = \<lparr>rst_bytes = bs, rst_packets = ps\<rparr>\<rparr>, r3)
   }"

definition scheduler_with_config ::
  "'r rng_ops \<Rightarrow> (bytes \<Rightarrow> bytes \<Rightarrow> bytes) \<Rightarrow> ephemeral_seed \<Rightarrow> timing_config \<Rightarrow>
     (timing_error + 'r timing_scheduler) option" where
  "scheduler_with_config R H seed config =
     (if seed_role seed \<noteq> TimingAndPool then
        Some (Inl (TimingWrongSeedRole TimingAndPool (seed_role seed)))
      else case timing_validate config of
        Inl e \<Rightarrow> Some (Inl e)
      | Inr c \<Rightarrow> do {
          let r = from_seed R (derive_rng_seed H seed (bytes_of ''mixtor.timing.v1''));
          (regime, r') \<leftarrow> timing_next_regime R c r;
          Some (Inr \<lparr>ts_config = c, ts_rng = r', ts_regime = regime,
                     bytes_in_regime = 0, packets_in_regime = 0\<rparr>)
        })"

definition observe_burst ::
  "'r rng_ops \<Rightarrow> nat \<Rightarrow> nat \<Rightarrow> 'r timing_scheduler \<Rightarrow> 'r timing_scheduler option" where
  "observe_burst R nbytes npackets s =
     (let s1 = s\<lparr>bytes_in_regime := sat_add (bytes_in_regime s) nbytes,
                 packets_in_regime := sat_add (packets_in_regime s) npackets\<rparr>
      in if rst_bytes (switch_after (ts_regime s1)) \<le> bytes_in_regime s1 \<or>
            rst_packets (switch_after (ts_regime s1)) \<le> packets_in_regime s1
         then do {
           (regime, r') \<leftarrow> timing_next_regime R (ts_config s1) (ts_rng s1);
           Some (s1\<lparr>ts_regime := regime, ts_rng := r', bytes_in_regime := 0, packets_in_regime := 0\<rparr>)
         }
         else Some s1)"

definition sampled_ms ::
  "'r rng_ops \<Rightarrow> 'r dist_ops \<Rightarrow> timing_distribution_kind \<Rightarrow> real \<Rightarrow> real \<Rightarrow> 'r \<Rightarrow> (real \<times> 'r) option" where
  "sampled_ms R D kind min_ms max_ms r =
     (case kind of
        Poisson \<Rightarrow> do {
          (g, r1) \<leftarrow> gen_range_f64 R r min_ms max_ms;
          poisson_sample D (max g 1) r1
        }
      | Pareto \<Rightarrow> do {
          (scale, r1) \<leftarrow> gen_range_f64 R r min_ms (max (max_ms / 3) min_ms);
          (shape, r2) \<leftarrow> gen_range_f64 R r1 (12 / 10) (28 / 10);
          pareto_sample D scale shape r2
        }
      | Bimodal \<Rightarrow>
          (case gen_coin R r (68 / 100) of
             (True, r1) \<Rightarrow> gen_range_f64 R r1 min_ms (max (max_ms * (30 / 100)) min_ms)
           | (False, r1) \<Rightarrow> gen_range_f64 R r1 (max (max_ms * (55 / 100)) min_ms) max_ms)
      | BurstAndSilence \<Rightarrow>
          (case gen_coin R r (82 / 100) of
             (True, r1) \<Rightarrow> gen_range_f64 R r1 min_ms (max (max_ms * (18 / 100)) min_ms)
           | (False, r1) \<Rightarrow> gen_range_f64 R r1 (max (max_ms * (60 / 100)) min_ms) max_ms)
      | Uniform \<Rightarrow> gen_range_f64 R r min_ms max_ms
      | Exponential \<Rightarrow> do {
          (g, r1) \<leftarrow> gen_range_f64 R r min_ms max_ms;
          exp_sample D (1 / max g 1) r1
        })"

definition timing_next_delay ::
  "'r rng_ops \<Rightarrow> 'r dist_ops \<Rightarrow> 'r timing_scheduler \<Rightarrow> (nanos \<times> 'r timing_scheduler) option" where
  "timing_next_delay R D s = do {
     let min_ms = real (min_delay (ts_config s) div 1000000);
     let max_ms = real (max_delay (ts_config s) div 1000000);
     (x, r') \<leftarrow> sampled_ms R D (tr_kind (ts_regime s)) min_ms max_ms (ts_rng s);
     Some (as_u64 (clampf min_ms max_ms (of_int (roundf x))) * 1000000, s\<lparr>ts_rng := r'\<rparr>)
   }"

definition next_pool_thresholds ::
  "'r rng_ops \<Rightarrow> 'r timing_scheduler \<Rightarrow> (cycle_thresholds \<times> 'r timing_scheduler) option" where
  "next_pool_thresholds R s = do {
     let c = tmg_clumping (ts_config s);
     (mp, r1) \<leftarrow> gen_range R (ts_rng s) (min_packets_per_burst c) (max_packets_per_burst c);
     let min_micros = trunc64 (min_timeout c div 1000);
     let max_micros = trunc64 (max_timeout c div 1000);
     (t, r2) \<leftarrow> gen_range R r1 min_micros max_micros;
     Some (\<lparr>ct_max_packets = mp, ct_timeout = t * 1000\<rparr>, s\<lparr>ts_rng := r2\<rparr>)
   }"

definition next_decision ::
  "'r rng_ops \<Rightarrow> 'r dist_ops \<Rightarrow> 'r timing_scheduler \<Rightarrow> (timing_decision \<times> 'r timing_scheduler) option" where
  "next_decision R D s = do {
     (delay, s1) \<leftarrow> timing_next_delay R D s;
     (th, s2) \<leftarrow> next_pool_thresholds R s1;
     Some (\<lparr>td_delay = delay, td_regime = ts_regime s1, pool_thresholds = th\<rparr>, s2)
   }"

section \<open>Invariant\<close>

text \<open>
  A delay of less than a millisecond passes \<open>validate\<close> and is zero for the scheduler, whose Pareto
  regime could then draw the scale 0, which the crate refuses: the invariant asks for a
  millisecond. It also bounds the counters by the thresholds of the current regime.
\<close>

definition timing_cfg_ok :: "timing_config \<Rightarrow> bool" where
  "timing_cfg_ok c \<longleftrightarrow> timing_valid c \<and> 1000000 \<le> min_delay c \<and>
     max_delay c div 1000000 \<le> u64_max \<and> clump_cfg_ok (tmg_clumping c)"

definition regime_in :: "timing_config \<Rightarrow> timing_regime \<Rightarrow> bool" where
  "regime_in c g \<longleftrightarrow>
     min_regime_bytes c \<le> rst_bytes (switch_after g) \<and> rst_bytes (switch_after g) \<le> max_regime_bytes c \<and>
     min_regime_packets c \<le> rst_packets (switch_after g) \<and> rst_packets (switch_after g) \<le> max_regime_packets c"

definition scheduler_inv :: "'r timing_scheduler \<Rightarrow> bool" where
  "scheduler_inv s \<longleftrightarrow> timing_cfg_ok (ts_config s) \<and> regime_in (ts_config s) (ts_regime s) \<and>
     bytes_in_regime s < rst_bytes (switch_after (ts_regime s)) \<and>
     packets_in_regime s < rst_packets (switch_after (ts_regime s))"

lemma timing_next_regime_ok:
  assumes "rng_ok R" "timing_valid c"
  shows "\<exists>g r'. timing_next_regime R c r = Some (g, r') \<and> regime_in c g"
proof -
  obtain k r1 where 1: "gen_range R r 0 5 = Some (k, r1)"
    using gen_range_total [OF assms(1), of 0 5] by blast
  obtain bs r2 where 2: "gen_range R r1 (min_regime_bytes c) (max_regime_bytes c) = Some (bs, r2)"
      "min_regime_bytes c \<le> bs" "bs \<le> max_regime_bytes c"
    using gen_range_total [OF assms(1), of "min_regime_bytes c" "max_regime_bytes c"] assms(2)
    unfolding timing_valid_def by metis
  obtain ps r3 where 3: "gen_range R r2 (min_regime_packets c) (max_regime_packets c) = Some (ps, r3)"
      "min_regime_packets c \<le> ps" "ps \<le> max_regime_packets c"
    using gen_range_total [OF assms(1), of "min_regime_packets c" "max_regime_packets c"] assms(2)
    unfolding timing_valid_def by metis
  from 1 2 3 show ?thesis by (simp add: timing_next_regime_def regime_in_def)
qed

lemma scheduler_new_ok:
  assumes "rng_ok R" "timing_cfg_ok c" "seed_role seed = TimingAndPool"
  shows "\<exists>s. scheduler_with_config R H seed c = Some (Inr s) \<and> scheduler_inv s \<and> ts_config s = c"
proof -
  have v: "timing_valid c" using assms(2) by (simp add: timing_cfg_ok_def)
  obtain g r' where "timing_next_regime R c
      (from_seed R (derive_rng_seed H seed (bytes_of ''mixtor.timing.v1''))) = Some (g, r')"
      "regime_in c g"
    using timing_next_regime_ok [OF assms(1) v] by blast
  then show ?thesis
    using assms v by (auto simp: scheduler_with_config_def timing_cfg.validate_ok scheduler_inv_def
        regime_in_def timing_valid_def Let_def)
qed

lemma observe_burst_ok:
  assumes "rng_ok R" "scheduler_inv s"
  shows "\<exists>s'. observe_burst R nb np s = Some s' \<and> scheduler_inv s' \<and> ts_config s' = ts_config s"
proof -
  have v: "timing_valid (ts_config s)" using assms(2) by (simp add: scheduler_inv_def timing_cfg_ok_def)
  obtain g r' where g: "timing_next_regime R (ts_config s) (ts_rng s) = Some (g, r')" "regime_in (ts_config s) g"
    using timing_next_regime_ok [OF assms(1) v] by blast
  then show ?thesis
    using assms(2) v
    by (auto simp: observe_burst_def Let_def scheduler_inv_def regime_in_def timing_valid_def)
qed

lemma sampled_ms_total:
  assumes "rng_ok R" "dist_ok D" "0 < lo" "lo \<le> hi"
  shows "sampled_ms R D kind lo hi r \<noteq> None"
proof -
  have g: "\<exists>x r'. gen_range_f64 R r a b = Some (x, r') \<and> a \<le> x \<and> x \<le> b" if "a \<le> b" for a b r
    using gen_range_f64_total [OF assms(1) that] by metis
  have mx: "max (hi * q) lo \<le> hi" if "0 \<le> q" "q \<le> 1" for q :: real
    using that assms(3,4) by (simp add: mult_left_le)
  show ?thesis
  proof (cases kind)
    case Poisson
    obtain x r1 where "gen_range_f64 R r lo hi = Some (x, r1)" using g [OF assms(4)] by blast
    then show ?thesis using Poisson assms(2) by (simp add: sampled_ms_def dist_ok_def)
  next
    case Pareto
    obtain sc r1 where 1: "gen_range_f64 R r lo (max (hi / 3) lo) = Some (sc, r1)" "lo \<le> sc"
      using g [of lo "max (hi / 3) lo" r] by auto
    obtain sh r2 where 2: "gen_range_f64 R r1 (12 / 10) (28 / 10) = Some (sh, r2)" "12 / 10 \<le> sh"
      using g [of "12 / 10" "28 / 10" r1] by auto
    show ?thesis using Pareto 1 2 assms(2,3) by (simp add: sampled_ms_def dist_ok_def)
  next
    case Bimodal
    then show ?thesis using mx [of "55 / 100"]
      by (auto simp: sampled_ms_def gen_range_f64_def split: prod.split bool.split)
  next
    case BurstAndSilence
    then show ?thesis using mx [of "60 / 100"]
      by (auto simp: sampled_ms_def gen_range_f64_def split: prod.split bool.split)
  next
    case Uniform
    then show ?thesis using assms(4) by (simp add: sampled_ms_def gen_range_f64_def)
  next
    case Exponential
    obtain x r1 where 1: "gen_range_f64 R r lo hi = Some (x, r1)" using g [OF assms(4)] by blast
    have "0 \<le> 1 / max x 1" by simp
    then show ?thesis using Exponential 1 assms(2) by (simp add: sampled_ms_def dist_ok_def)
  qed
qed

lemma delay_ms_bounds:
  fixes x :: real
  assumes "a \<le> b" "b \<le> u64_max"
  shows "a \<le> as_u64 (clampf (real a) (real b) x)" "as_u64 (clampf (real a) (real b) x) \<le> b"
  using as_u64_mono [OF clampf_ge [of "real a" "real b" x]]
    as_u64_mono [OF clampf_le [of "real a" "real b" x]] assms
  by (simp_all add: as_u64_of_nat)

lemma timing_next_delay_ok:
  assumes "rng_ok R" "dist_ok D" "scheduler_inv s"
  shows "\<exists>d r'. timing_next_delay R D s = Some (d, s\<lparr>ts_rng := r'\<rparr>) \<and>
    min_delay (ts_config s) div 1000000 * 1000000 \<le> d \<and> d \<le> max_delay (ts_config s)"
proof -
  let ?a = "min_delay (ts_config s) div 1000000" and ?b = "max_delay (ts_config s) div 1000000"
  have c: "timing_cfg_ok (ts_config s)" using assms(3) by (simp add: scheduler_inv_def)
  have ab: "?a \<le> ?b" "?b \<le> u64_max" "0 < ?a"
    using c div_le_mono [of 1000000 "min_delay (ts_config s)" 1000000]
    by (auto simp: timing_cfg_ok_def timing_valid_def div_le_mono)
  have "sampled_ms R D (tr_kind (ts_regime s)) (real ?a) (real ?b) (ts_rng s) \<noteq> None"
    using sampled_ms_total [OF assms(1,2), of "real ?a" "real ?b"] ab by simp
  then obtain x r' where x: "sampled_ms R D (tr_kind (ts_regime s)) (real ?a) (real ?b) (ts_rng s) = Some (x, r')"
    by auto
  have b: "?a \<le> as_u64 (clampf (real ?a) (real ?b) (of_int (roundf x)))"
      "as_u64 (clampf (real ?a) (real ?b) (of_int (roundf x))) \<le> ?b"
    by (rule delay_ms_bounds [OF ab(1,2)])+
  have "?b * 1000000 \<le> max_delay (ts_config s)" by (rule div_times_less_eq_dividend)
  then have "as_u64 (clampf (real ?a) (real ?b) (of_int (roundf x))) * 1000000 \<le> max_delay (ts_config s)"
    using mult_le_mono1 [OF b(2), of 1000000] by linarith
  then show ?thesis using x b(1)
    by (intro exI [of _ "as_u64 (clampf (real ?a) (real ?b) (of_int (roundf x))) * 1000000"] exI [of _ r'])
      (simp add: timing_next_delay_def)
qed

lemma next_pool_thresholds_eq:
  "next_pool_thresholds R s =
     map_option (\<lambda>(th, r). (th, s\<lparr>ts_rng := r\<rparr>)) (next_thresholds R (tmg_clumping (ts_config s)) (ts_rng s))"
  by (auto simp: next_pool_thresholds_def next_thresholds_def Let_def map_option_case
      split: Option.bind_splits)

lemma next_decision_ok:
  assumes "rng_ok R" "dist_ok D" "scheduler_inv s"
  shows "\<exists>d s'. next_decision R D s = Some (d, s') \<and> scheduler_inv s' \<and> ts_config s' = ts_config s \<and>
    td_regime d = ts_regime s \<and> thresholds_in (tmg_clumping (ts_config s)) (pool_thresholds d) \<and>
    min_delay (ts_config s) div 1000000 * 1000000 \<le> td_delay d \<and> td_delay d \<le> max_delay (ts_config s)"
proof -
  obtain d r where d: "timing_next_delay R D s = Some (d, s\<lparr>ts_rng := r\<rparr>)"
      "min_delay (ts_config s) div 1000000 * 1000000 \<le> d" "d \<le> max_delay (ts_config s)"
    using timing_next_delay_ok [OF assms] by blast
  have "clump_cfg_ok (tmg_clumping (ts_config s))"
    using assms(3) by (simp add: scheduler_inv_def timing_cfg_ok_def)
  then obtain th r2 where th: "next_thresholds R (tmg_clumping (ts_config s)) r = Some (th, r2)"
      "thresholds_in (tmg_clumping (ts_config s)) th"
    using next_thresholds_ok [OF assms(1)] by metis
  show ?thesis using d th assms(3) by (simp add: next_decision_def next_pool_thresholds_eq scheduler_inv_def)
qed

section \<open>Properties\<close>

text \<open>Every decision of the timing scheduler is defined and within the configuration: for a valid
  configuration, whatever the generator and the samplers return within their contracts, the delay is
  between the configured delays (to the millisecond), the thresholds handed to the pool are within
  its ranges, and the decision belongs to the regime in force, which it does not change.\<close>
theorem decision_in_bounds:
  assumes "rng_ok R" "dist_ok D" "timing_cfg_ok c" "seed_role seed = TimingAndPool"
  shows "\<exists>s. scheduler_with_config R H seed c = Some (Inr s) \<and>
    (\<exists>d s'. next_decision R D s = Some (d, s') \<and> scheduler_inv s' \<and> ts_regime s' = ts_regime s \<and>
       td_regime d = ts_regime s \<and> thresholds_in (tmg_clumping c) (pool_thresholds d) \<and>
       min_delay c div 1000000 * 1000000 \<le> td_delay d \<and> td_delay d \<le> max_delay c)"
proof -
  obtain s where s: "scheduler_with_config R H seed c = Some (Inr s)" "scheduler_inv s" "ts_config s = c"
    using scheduler_new_ok [OF assms(1,3,4)] by blast
  obtain d s' where d: "next_decision R D s = Some (d, s')" "scheduler_inv s'"
      "td_regime d = ts_regime s" "thresholds_in (tmg_clumping c) (pool_thresholds d)"
      "min_delay c div 1000000 * 1000000 \<le> td_delay d" "td_delay d \<le> max_delay c"
    using next_decision_ok [OF assms(1,2) s(2)] s(3) by blast
  have "ts_regime s' = ts_regime s"
    using d(1) by (auto simp: next_decision_def timing_next_delay_def next_pool_thresholds_eq Let_def
        Option.bind_eq_Some_conv split: prod.splits)
  then show ?thesis using s d by blast
qed

theorem decision_in_bounds_witness:
  "\<exists>s. scheduler_with_config lcg (\<lambda>k d. d) \<lparr>seed_role = TimingAndPool, seed_bytes = [9]\<rparr> timing_default = Some (Inr s) \<and>
    (\<exists>d s'. next_decision lcg mean_dist s = Some (d, s') \<and> scheduler_inv s' \<and> ts_regime s' = ts_regime s \<and>
       td_regime d = ts_regime s \<and> thresholds_in (tmg_clumping timing_default) (pool_thresholds d) \<and>
       min_delay timing_default div 1000000 * 1000000 \<le> td_delay d \<and> td_delay d \<le> max_delay timing_default)"
  by (rule decision_in_bounds [OF lcg_ok mean_dist_ok])
    (simp_all add: timing_cfg_ok_def timing_valid_def timing_default_def clump_cfg_ok_def clumping_valid_def
      clumping_default_def u64_max_def)

text \<open>The regime switches on traffic volume alone. A burst switches it exactly when it takes the bytes
  or the packets seen in the regime to the threshold drawn for it; then both counters restart and
  the new thresholds are within the configured ranges; otherwise the regime is unchanged, the counters
  advance by the burst and stay below the thresholds.\<close>
theorem regime_switches_on_volume:
  assumes "rng_ok R" "scheduler_inv s"
  shows "\<exists>s'. observe_burst R nb np s = Some s' \<and> scheduler_inv s' \<and> regime_in (ts_config s) (ts_regime s') \<and>
    (if rst_bytes (switch_after (ts_regime s)) \<le> sat_add (bytes_in_regime s) nb \<or>
        rst_packets (switch_after (ts_regime s)) \<le> sat_add (packets_in_regime s) np
     then bytes_in_regime s' = 0 \<and> packets_in_regime s' = 0
     else s' = s\<lparr>bytes_in_regime := sat_add (bytes_in_regime s) nb,
                 packets_in_regime := sat_add (packets_in_regime s) np\<rparr>)"
proof -
  obtain s' where s': "observe_burst R nb np s = Some s'" "scheduler_inv s'" "ts_config s' = ts_config s"
    using observe_burst_ok [OF assms] by blast
  then have "regime_in (ts_config s) (ts_regime s')" by (simp add: scheduler_inv_def)
  then show ?thesis
    using s' by (auto simp: observe_burst_def Let_def Option.bind_eq_Some_conv split: if_splits)
qed

theorem regime_switches_on_volume_witness:
  "\<exists>s. scheduler_with_config lcg (\<lambda>k d. d) \<lparr>seed_role = TimingAndPool, seed_bytes = [9]\<rparr> timing_default = Some (Inr s) \<and>
    (\<exists>s'. observe_burst lcg 2000 3 s = Some s' \<and> scheduler_inv s')"
proof -
  have "timing_cfg_ok timing_default"
    by (simp add: timing_cfg_ok_def timing_valid_def timing_default_def clump_cfg_ok_def clumping_valid_def
      clumping_default_def u64_max_def)
  then obtain s where "scheduler_with_config lcg (\<lambda>k d. d) \<lparr>seed_role = TimingAndPool, seed_bytes = [9]\<rparr> timing_default
      = Some (Inr s)" "scheduler_inv s"
    using scheduler_new_ok [OF lcg_ok, of timing_default "\<lparr>seed_role = TimingAndPool, seed_bytes = [9]\<rparr>" "\<lambda>k d. d"] by auto
  then show ?thesis using regime_switches_on_volume [OF lcg_ok, of s 2000 3] by blast
qed

end
