(* ===== verification/Stats.thy ===== *)
theory Stats
  imports Prelude
begin

text \<open>
  The statistics helpers of \<open>src/src/correlation_attack.rs\<close>: moments, the correlation coefficients,
  the Kolmogorov-Smirnov statistic, the best size threshold, ranks and the median. Every loop is
  translated as the loop it is; the lemmas give each its closed form (the supremum of the gap of
  two distribution functions, the fractional rank, the inequality of Cauchy and Schwarz).
\<close>

section \<open>Moments and correlation\<close>

definition mean :: "real list \<Rightarrow> real" where
  "mean xs = (if xs = [] then 0 else sum_list xs / real (length xs))"

definition variance :: "real list \<Rightarrow> real" where
  "variance xs =
     (if xs = [] then 0
      else let m = mean xs in sum_list (map (\<lambda>x. (x - m) * (x - m)) xs) / real (length xs))"

definition pearson :: "real list \<Rightarrow> real list \<Rightarrow> real" where
  "pearson a b =
     (let n = min (length a) (length b)
      in if n < 2 then 0
         else let a = take n a;
                  b = take n b;
                  ma = mean a;
                  mb = mean b;
                  num = sum_list (map (\<lambda>(x, y). (x - ma) * (y - mb)) (zip a b));
                  da2 = sum_list (map (\<lambda>(x, y). (x - ma) * (x - ma)) (zip a b));
                  db2 = sum_list (map (\<lambda>(x, y). (y - mb) * (y - mb)) (zip a b));
                  den = sqrt da2 * sqrt db2
              in if den = 0 then 0 else num / den)"

definition shifted_pearson :: "real list \<Rightarrow> real list \<Rightarrow> int \<Rightarrow> real" where
  "shifted_pearson a b lag =
     (let n = int (min (length a) (length b));
          is = filter (\<lambda>i. 0 \<le> i - lag \<and> i - lag < n) [0..n - 1]
      in pearson (map (\<lambda>i. a ! nat i) is) (map (\<lambda>i. b ! nat (i - lag)) is))"

definition peak_step ::
  "real list \<Rightarrow> real list \<Rightarrow> nat \<Rightarrow> nat \<Rightarrow> int \<Rightarrow> int \<times> real \<Rightarrow> int \<times> real" where
  "peak_step a b n min_overlap lag best =
     (let overlap = n - nat \<bar>lag\<bar>
      in if overlap < min_overlap then best
         else let c = \<bar>shifted_pearson a b lag\<bar> in if c > snd best then (lag, c) else best)"

definition peak_cross_correlation :: "real list \<Rightarrow> real list \<Rightarrow> nat \<Rightarrow> int \<times> real" where
  "peak_cross_correlation a b max_lag =
     (let n = min (length a) (length b);
          min_overlap = max (n div 2) 3;
          max_lag = min max_lag (n - min_overlap)
      in fold (peak_step a b n min_overlap) [- int max_lag..int max_lag] (0, 0))"

section \<open>The two-sample Kolmogorov-Smirnov statistic\<close>

text \<open>The inner loop: step past the values up to \<open>x\<close>.\<close>

function advance :: "real \<Rightarrow> real list \<Rightarrow> nat \<Rightarrow> nat" where
  "advance x xs i = (if i < length xs \<and> xs ! i \<le> x then advance x xs (i + 1) else i)"
  by pat_completeness auto
termination by (relation "measure (\<lambda>(x, xs, i). length xs - i)") auto

declare advance.simps [simp del]

lemma advance_ge: "i \<le> advance x xs i"
proof (induction x xs i rule: advance.induct)
  case (1 x xs i)
  then show ?case by (cases "i < length xs \<and> xs ! i \<le> x") (auto simp: advance.simps [of x xs i])
qed

lemma advance_gt: "i < length xs \<Longrightarrow> xs ! i \<le> x \<Longrightarrow> i < advance x xs i"
  using advance_ge [of "i + 1" x xs] by (subst advance.simps) simp

definition next_value :: "real list \<Rightarrow> real list \<Rightarrow> nat \<Rightarrow> nat \<Rightarrow> real" where
  "next_value a b ia ib =
     (if ia < length a then (if ib < length b then min (a ! ia) (b ! ib) else a ! ia) else b ! ib)"

function ks_loop :: "real list \<Rightarrow> real list \<Rightarrow> nat \<Rightarrow> nat \<Rightarrow> real \<Rightarrow> real" where
  "ks_loop a b ia ib max_diff =
     (if ia < length a \<or> ib < length b then
        let x = next_value a b ia ib;
            ia' = advance x a ia;
            ib' = advance x b ib
        in ks_loop a b ia' ib'
             (max max_diff \<bar>real ia' / real (length a) - real ib' / real (length b)\<bar>)
      else max_diff)"
  by pat_completeness auto
termination
proof (relation "measure (\<lambda>(a, b, ia, ib, m). (length a - ia) + (length b - ib))", goal_cases)
  case (2 a b ia ib m x ia' ib')
  have ge: "ia \<le> ia'" "ib \<le> ib'" using 2 advance_ge by simp_all
  have "ia < ia' \<and> ia < length a \<or> ib < ib' \<and> ib < length b"
    using 2 advance_gt [of ia a x] advance_gt [of ib b x]
    by (auto simp: next_value_def min_def split: if_splits)
  then show ?case using ge by auto
qed simp

declare ks_loop.simps [simp del]

definition ks_statistic :: "real list \<Rightarrow> real list \<Rightarrow> real" where
  "ks_statistic a b =
     (if a = [] \<or> b = [] then 0 else ks_loop (sort a) (sort b) 0 0 0)"

section \<open>The best size threshold\<close>

definition threshold_accuracy :: "real list \<Rightarrow> real list \<Rightarrow> real \<Rightarrow> real" where
  "threshold_accuracy xs ys t =
     (let real_correct = real (length (filter (\<lambda>x. x \<le> t) xs)) / real (length xs);
          dummy_correct = real (length (filter (\<lambda>x. x > t) ys)) / real (length ys)
      in 1 / 2 * (real_correct + dummy_correct))"

definition best_threshold_accuracy :: "real list \<Rightarrow> real list \<Rightarrow> real" where
  "best_threshold_accuracy xs ys =
     (let candidates = remdups_adj (sort (xs @ ys))
      in foldl (\<lambda>best t. let acc_a = threshold_accuracy xs ys t in max (max best acc_a) (1 - acc_a))
           (1 / 2) candidates)"

section \<open>Ranks and the median\<close>

function tie_end :: "real list \<Rightarrow> nat list \<Rightarrow> nat \<Rightarrow> nat \<Rightarrow> nat" where
  "tie_end xs idx i j =
     (if j + 1 < length xs \<and> xs ! (idx ! (j + 1)) = xs ! (idx ! i) then tie_end xs idx i (j + 1) else j)"
  by pat_completeness auto
termination by (relation "measure (\<lambda>(xs, idx, i, j). length xs - j)") auto

declare tie_end.simps [simp del]

lemma tie_end_ge: "j \<le> tie_end xs idx i j"
proof (induction xs idx i j rule: tie_end.induct)
  case (1 xs idx i j)
  then show ?case
    by (cases "j + 1 < length xs \<and> xs ! (idx ! (j + 1)) = xs ! (idx ! i)")
      (auto simp: tie_end.simps [of xs idx i j])
qed

function rank_loop :: "real list \<Rightarrow> nat list \<Rightarrow> nat \<Rightarrow> real list \<Rightarrow> real list" where
  "rank_loop xs idx i r =
     (if i < length xs then
        let j = tie_end xs idx i i;
            avg = real (i + j) / 2
        in rank_loop xs idx (j + 1) (fold (\<lambda>k r. r[k := avg]) (drop i (take (j + 1) idx)) r)
      else r)"
  by pat_completeness auto
termination
proof (relation "measure (\<lambda>(xs, idx, i, r). length xs - i)", goal_cases)
  case (2 xs idx i r j avg)
  then show ?case using tie_end_ge [of i xs idx i] by simp
qed simp

declare rank_loop.simps [simp del]

definition ranks :: "real list \<Rightarrow> real list" where
  "ranks xs =
     (let n = length xs;
          idx = sort_key (\<lambda>i. xs ! i) [0..<n]
      in rank_loop xs idx 0 (replicate n 0))"

definition spearman :: "real list \<Rightarrow> real list \<Rightarrow> real" where
  "spearman a b =
     (let n = min (length a) (length b)
      in if n < 2 then 0 else pearson (ranks (take n a)) (ranks (take n b)))"

definition median :: "real list \<Rightarrow> real" where
  "median xs =
     (if xs = [] then 0
      else let xs = sort xs; n = length xs
           in if n mod 2 = 1 then xs ! (n div 2) else 1 / 2 * (xs ! (n div 2 - 1) + xs ! (n div 2)))"

section \<open>The correlation coefficient\<close>

lemma cauchy_schwarz_list:
  fixes f g :: "'a \<Rightarrow> real"
  shows "(\<Sum>z\<leftarrow>zs. f z * g z)\<^sup>2 \<le> (\<Sum>z\<leftarrow>zs. f z * f z) * (\<Sum>z\<leftarrow>zs. g z * g z)"
proof -
  define A B C where "A = (\<Sum>z\<leftarrow>zs. f z * f z)" and "B = (\<Sum>z\<leftarrow>zs. f z * g z)"
    and "C = (\<Sum>z\<leftarrow>zs. g z * g z)"
  have expand: "(\<Sum>z\<leftarrow>zs. (s * f z - t * g z)\<^sup>2) = s\<^sup>2 * A - 2 * s * t * B + t\<^sup>2 * C" for s t
    unfolding A_def B_def C_def
    by (induction zs) (simp_all add: power2_eq_square algebra_simps)
  have nonneg: "0 \<le> s\<^sup>2 * A - 2 * s * t * B + t\<^sup>2 * C" for s t
    unfolding expand [symmetric] by (rule sum_list_nonneg) auto
  have "0 \<le> A" using nonneg [of 1 0] by simp
  have "0 \<le> C" using nonneg [of 0 1] by simp
  show ?thesis
  proof (cases "C = 0")
    case True
    have "B = 0"
    proof (rule ccontr)
      assume "B \<noteq> 0"
      have "0 \<le> A - 2 * ((A + 1) / (2 * B)) * B" using nonneg [of 1 "(A + 1) / (2 * B)"] True by simp
      then show False using \<open>B \<noteq> 0\<close> by simp
    qed
    then show ?thesis using True by (simp flip: B_def C_def)
  next
    case False
    then have "0 < C" using \<open>0 \<le> C\<close> by simp
    have "0 \<le> C\<^sup>2 * A - 2 * C * B * B + B\<^sup>2 * C" by (rule nonneg)
    also have "\<dots> = C * (A * C - B\<^sup>2)" by (simp add: power2_eq_square algebra_simps)
    finally have "B\<^sup>2 \<le> A * C" using \<open>0 < C\<close> by (simp add: zero_le_mult_iff)
    then show ?thesis by (simp add: A_def B_def C_def)
  qed
qed

lemma abs_le_sqrt_mult:
  assumes "(p::real)\<^sup>2 \<le> q * r" "0 \<le> q" "0 \<le> r"
  shows "\<bar>p\<bar> \<le> sqrt q * sqrt r"
  using real_sqrt_le_mono [OF assms(1)] by (simp add: real_sqrt_mult)

lemma pearson_bounded: "\<bar>pearson a b\<bar> \<le> 1"
proof -
  define n where "n = min (length a) (length b)"
  define zs where "zs = zip (take n a) (take n b)"
  define f where "f = (\<lambda>z :: real \<times> real. fst z - mean (take n a))"
  define g where "g = (\<lambda>z :: real \<times> real. snd z - mean (take n b))"
  define A B C where "A = (\<Sum>z\<leftarrow>zs. f z * f z)" and "B = (\<Sum>z\<leftarrow>zs. f z * g z)"
    and "C = (\<Sum>z\<leftarrow>zs. g z * g z)"
  have eq: "pearson a b = (if n < 2 then 0 else if sqrt A * sqrt C = 0 then 0 else B / (sqrt A * sqrt C))"
    unfolding pearson_def Let_def n_def [symmetric] A_def B_def C_def f_def g_def zs_def
    by (simp add: case_prod_unfold)
  have "0 \<le> A" "0 \<le> C" unfolding A_def C_def by (auto intro!: sum_list_nonneg)
  then have "\<bar>B\<bar> \<le> sqrt A * sqrt C"
    using cauchy_schwarz_list [of f g zs] by (intro abs_le_sqrt_mult) (simp_all add: A_def B_def C_def)
  then show ?thesis
    unfolding eq using \<open>0 \<le> A\<close> \<open>0 \<le> C\<close> by (auto simp: abs_mult abs_divide divide_le_eq zero_less_mult_iff)
qed

lemma sum_list_const_on: "\<forall>x\<in>set xs. x = (c::real) \<Longrightarrow> sum_list xs = real (length xs) * c"
  by (induction xs) (simp_all add: algebra_simps)

lemma mean_const: "xs \<noteq> [] \<Longrightarrow> \<forall>x\<in>set xs. x = c \<Longrightarrow> mean xs = c"
  by (simp add: mean_def sum_list_const_on)

lemma sum_list_zero_on: "\<forall>z\<in>set zs. f z = (0::real) \<Longrightarrow> sum_list (map f zs) = 0"
  by (induction zs) simp_all

lemma pearson_const:
  assumes "\<forall>x\<in>set a. x = c"
  shows "pearson a b = 0"
proof -
  define n where "n = min (length a) (length b)"
  have "mean (take n a) = c" if "2 \<le> n"
    using assms that by (intro mean_const) (auto simp: n_def dest: in_set_takeD)
  then have "(\<Sum>(x, y)\<leftarrow>zip (take n a) (take n b). (x - mean (take n a)) * (x - mean (take n a))) = 0" if "2 \<le> n"
    using that assms by (intro sum_list_zero_on) (auto dest!: set_zip_leftD in_set_takeD)
  then show ?thesis unfolding pearson_def Let_def n_def [symmetric] by simp
qed

lemma sum_squares_pos:
  assumes "x \<in> set xs" "f x \<noteq> (0::real)"
  shows "0 < (\<Sum>x\<leftarrow>xs. f x * f x)"
proof -
  obtain ys zs where "xs = ys @ x # zs" using assms(1) split_list by metis
  moreover have "0 \<le> (\<Sum>x\<leftarrow>ys. f x * f x)" "0 \<le> (\<Sum>x\<leftarrow>zs. f x * f x)" by (auto intro!: sum_list_nonneg)
  moreover have "0 < f x * f x" using assms(2) by (simp add: zero_less_mult_iff) linarith
  ultimately show ?thesis by simp
qed

lemma pearson_self:
  assumes "x \<in> set a" "y \<in> set a" "x \<noteq> y"
  shows "pearson a a = 1"
proof -
  define S where "S = (\<Sum>x\<leftarrow>a. (x - mean a) * (x - mean a))"
  have "2 \<le> length a" using assms by (cases a; cases "tl a") auto
  moreover have zip: "(\<Sum>(x, y)\<leftarrow>zip a a. h x y) = (\<Sum>x\<leftarrow>a. h x x)" for h :: "real \<Rightarrow> real \<Rightarrow> real"
    by (simp add: zip_same_conv_map comp_def)
  moreover have "0 < S"
    unfolding S_def using sum_squares_pos [of _ a "\<lambda>x. x - mean a"] assms by (metis diff_0_right eq_iff_diff_eq_0)
  ultimately show ?thesis
    unfolding pearson_def Let_def by (simp add: zip flip: S_def)
qed

subsection \<open>Cross-correlation\<close>

lemma shifted_pearson_const:
  assumes "\<forall>x\<in>set a. x = c"
  shows "shifted_pearson a b lag = 0"
  unfolding shifted_pearson_def Let_def using assms by (intro pearson_const [of _ c]) auto

lemma map_nth_upto:
  assumes "n \<le> length xs"
  shows "map (\<lambda>i. xs ! nat i) [0..int n - 1] = take n xs"
  using assms by (intro nth_equalityI) simp_all

lemma pearson_take: "pearson (take (min (length a) (length b)) a) (take (min (length a) (length b)) b) = pearson a b"
  unfolding pearson_def Let_def by (simp add: min_def)

lemma shifted_pearson_0: "shifted_pearson a b 0 = pearson a b"
proof -
  define n where "n = min (length a) (length b)"
  have "filter (\<lambda>i. 0 \<le> i - 0 \<and> i - 0 < int n) [0..int n - 1] = [0..int n - 1]"
    by (simp add: filter_id_conv)
  then have "shifted_pearson a b 0 = pearson (take n a) (take n b)"
    unfolding shifted_pearson_def Let_def n_def [symmetric] by (simp add: map_nth_upto n_def)
  then show ?thesis using pearson_take [of a b] by (simp add: n_def)
qed

lemma peak_fold_invariant:
  assumes "0 \<le> snd best" "snd best \<le> 1" "\<bar>fst best\<bar> \<le> k" "\<forall>l\<in>set lags. \<bar>l\<bar> \<le> k"
  shows "0 \<le> snd (fold (peak_step a b n mo) lags best) \<and> snd (fold (peak_step a b n mo) lags best) \<le> 1 \<and>
    \<bar>fst (fold (peak_step a b n mo) lags best)\<bar> \<le> k \<and> snd best \<le> snd (fold (peak_step a b n mo) lags best)"
  using assms
proof (induction lags arbitrary: best)
  case Nil
  then show ?case by simp
next
  case (Cons l lags)
  define best' where "best' = peak_step a b n mo l best"
  have "\<bar>shifted_pearson a b l\<bar> \<le> 1" by (simp add: shifted_pearson_def Let_def pearson_bounded)
  then have "0 \<le> snd best'" "snd best' \<le> 1" "\<bar>fst best'\<bar> \<le> k" "snd best \<le> snd best'"
    using Cons.prems by (auto simp: best'_def peak_step_def Let_def)
  then show ?case using Cons.IH [of best'] Cons.prems by (auto simp: best'_def)
qed

lemma peak_bounds:
  "0 \<le> snd (peak_cross_correlation a b m) \<and> snd (peak_cross_correlation a b m) \<le> 1 \<and>
   \<bar>fst (peak_cross_correlation a b m)\<bar> \<le> int m"
proof -
  define n mo where "n = min (length a) (length b)" and "mo = max (n div 2) 3"
  have "\<forall>l\<in>set [- int (min m (n - mo))..int (min m (n - mo))]. \<bar>l\<bar> \<le> int m" by auto
  from peak_fold_invariant [OF _ _ _ this, of "(0, 0)" a b n mo]
  show ?thesis by (simp add: peak_cross_correlation_def Let_def flip: n_def mo_def)
qed

lemma peak_const:
  assumes "\<forall>x\<in>set a. x = c"
  shows "peak_cross_correlation a b m = (0, 0)"
proof -
  have "peak_step a b n mo l (0, 0) = (0, 0)" for n mo l
    using assms by (simp add: peak_step_def shifted_pearson_const)
  then have "fold (peak_step a b n mo) lags (0, 0) = (0, 0)" for n mo lags
    by (induction lags) simp_all
  then show ?thesis by (simp add: peak_cross_correlation_def Let_def)
qed

lemma peak_ge_pearson:
  assumes "3 \<le> min (length a) (length b)"
  shows "\<bar>pearson a b\<bar> \<le> snd (peak_cross_correlation a b m)"
proof -
  define n where "n = min (length a) (length b)"
  define mo where "mo = max (n div 2) 3"
  define k where "k = min m (n - mo)"
  have split: "[- int k..int k] = [- int k..- 1] @ 0 # [1..int k]"
    using upto_split3 [of "- int k" 0 "int k"] by simp
  define s where "s = fold (peak_step a b n mo) [- int k..- 1] (0, 0)"
  have s: "0 \<le> snd s" "snd s \<le> 1" "\<bar>fst s\<bar> \<le> int k"
    using peak_fold_invariant [of "(0, 0)" "int k" "[- int k..- 1]" a b n mo] by (auto simp: s_def)
  define t where "t = peak_step a b n mo 0 s"
  have "mo \<le> n" using assms by (auto simp: mo_def n_def)
  then have t: "\<bar>pearson a b\<bar> \<le> snd t" "0 \<le> snd t" "snd t \<le> 1" "\<bar>fst t\<bar> \<le> int k"
    using s pearson_bounded [of a b] by (auto simp: t_def peak_step_def Let_def shifted_pearson_0)
  have "snd t \<le> snd (fold (peak_step a b n mo) [1..int k] t)"
    using peak_fold_invariant [of t "int k" "[1..int k]" a b n mo] t by auto
  then show ?thesis
    using t(1) by (simp add: peak_cross_correlation_def Let_def split s_def t_def flip: n_def mo_def k_def)
qed

section \<open>The Kolmogorov-Smirnov loop computes the supremum\<close>

definition ecdf :: "real list \<Rightarrow> real \<Rightarrow> real" where
  "ecdf xs t = real (length (filter (\<lambda>x. x \<le> t) xs)) / real (length xs)"

definition ecdf_gap :: "real list \<Rightarrow> real list \<Rightarrow> real \<Rightarrow> real" where
  "ecdf_gap a b t = \<bar>ecdf a t - ecdf b t\<bar>"

lemma ecdf_range: "0 \<le> ecdf xs t \<and> ecdf xs t \<le> 1"
proof -
  have "length (filter (\<lambda>x. x \<le> t) xs) \<le> length xs" by simp
  then show ?thesis unfolding ecdf_def by (cases "xs = []") (simp_all add: divide_le_eq)
qed

lemma ecdf_sort [simp]: "ecdf (sort xs) t = ecdf xs t"
proof -
  have "length (filter P (sort xs)) = length (filter P xs)" for P :: "real \<Rightarrow> bool"
    by (simp add: filter_sort)
  then show ?thesis by (simp add: ecdf_def)
qed

text \<open>After stepping past \<open>x\<close>, the index counts the values up to \<open>x\<close>.\<close>

lemma advance_count:
  assumes "sorted xs" "i \<le> length xs" "\<forall>y\<in>set (take i xs). y \<le> x"
  shows "advance x xs i = length (filter (\<lambda>y. y \<le> x) xs)"
  using assms
proof (induction x xs i rule: advance.induct)
  case (1 x xs i)
  show ?case
  proof (cases "i < length xs \<and> xs ! i \<le> x")
    case True
    then have "\<forall>y\<in>set (take (i + 1) xs). y \<le> x" using 1(4) by (auto simp: take_Suc_conv_app_nth)
    then show ?thesis using 1(1) [OF True] 1(2) True by (simp add: advance.simps [of x xs i])
  next
    case False
    have "filter (\<lambda>y. y \<le> x) (drop i xs) = []"
    proof (cases "i < length xs")
      case True
      have "xs ! i \<le> y" if "y \<in> set (drop i xs)" for y
        using that 1(2) by (auto simp: in_set_conv_nth sorted_iff_nth_mono)
      then show ?thesis using False True by (fastforce simp: filter_empty_conv)
    qed simp
    moreover have "filter (\<lambda>y. y \<le> x) (take i xs) = take i xs" using 1(4) by (simp add: filter_id_conv)
    ultimately have "filter (\<lambda>y. y \<le> x) xs = take i xs"
      by (metis append.right_neutral append_take_drop_id filter_append)
    then show ?thesis using False 1(3) by (auto simp: advance.simps [of x xs i])
  qed
qed

lemma filter_gt_drop:
  assumes "sorted xs"
  shows "drop (length (filter (\<lambda>y. y \<le> x) xs)) xs = filter (\<lambda>y. (x::real) < y) xs"
  using assms
proof (induction xs)
  case (Cons y ys)
  show ?case
  proof (cases "y \<le> x")
    case False
    then have "filter (\<lambda>y. y \<le> x) ys = []" "filter (\<lambda>y. x < y) ys = ys"
      using Cons.prems by (auto simp: filter_empty_conv filter_id_conv)
    then show ?thesis using False by simp
  qed (use Cons in simp)
qed simp

lemma filter_le_take:
  assumes "sorted xs"
  shows "take (length (filter (\<lambda>y. y \<le> x) xs)) xs = filter (\<lambda>y. y \<le> (x::real)) xs"
  using assms
proof (induction xs)
  case (Cons y ys)
  show ?case
  proof (cases "y \<le> x")
    case False
    then have "filter (\<lambda>y. y \<le> x) ys = []" using Cons.prems by (auto simp: filter_empty_conv)
    then show ?thesis using False by simp
  qed (use Cons in simp)
qed simp

lemma nth_least_drop:
  assumes "sorted xs" "i < length xs"
  shows "xs ! i \<in> set (drop i xs)" "\<forall>z\<in>set (drop i xs). xs ! i \<le> z"
  using assms sorted_wrt_drop [of "(\<le>)" xs i] by (simp_all flip: Cons_nth_drop_Suc)

lemma next_value_least:
  assumes "sorted a" "sorted b" "ia < length a \<or> ib < length b"
  shows "next_value a b ia ib \<in> set (drop ia a) \<union> set (drop ib b) \<and>
    (\<forall>z\<in>set (drop ia a) \<union> set (drop ib b). next_value a b ia ib \<le> z)"
proof -
  consider "ia < length a" "ib < length b" | "ia < length a" "drop ib b = []" "\<not> ib < length b"
    | "drop ia a = []" "\<not> ia < length a" "ib < length b" using assms(3) by fastforce
  then show ?thesis
  proof cases
    case 1
    note a = nth_least_drop [OF assms(1) 1(1)] and b = nth_least_drop [OF assms(2) 1(2)]
    show ?thesis
      unfolding next_value_def min_def using 1 a b by (simp split: if_splits) (meson UnE linear order_trans)
  next
    case 2
    then show ?thesis using nth_least_drop [OF assms(1) 2(1)] by (simp add: next_value_def)
  next
    case 3
    then show ?thesis using nth_least_drop [OF assms(2) 3(3)] by (simp add: next_value_def)
  qed
qed

lemma ks_loop_sup:
  assumes "sorted a" "sorted b" "ia \<le> length a" "ib \<le> length b"
    and "\<forall>y\<in>set (take ia a) \<union> set (take ib b). \<forall>z\<in>set (drop ia a) \<union> set (drop ib b). y < z"
  shows "m \<le> ks_loop a b ia ib m \<and>
    (\<forall>z\<in>set (drop ia a) \<union> set (drop ib b). ecdf_gap a b z \<le> ks_loop a b ia ib m) \<and>
    (ks_loop a b ia ib m = m \<or>
     (\<exists>z\<in>set (drop ia a) \<union> set (drop ib b). ks_loop a b ia ib m = ecdf_gap a b z))"
  using assms
proof (induction a b ia ib m rule: ks_loop.induct)
  case (1 a b ia ib m)
  show ?case
  proof (cases "ia < length a \<or> ib < length b")
    case False
    then show ?thesis by (auto simp: ks_loop.simps [of a b ia ib m])
  next
    case True
    define x where "x = next_value a b ia ib"
    define R where "R = set (drop ia a) \<union> set (drop ib b)"
    have x: "x \<in> R" "\<forall>z\<in>R. x \<le> z"
      using next_value_least [OF 1(2,3) True] by (auto simp: x_def R_def)
    define ja jb where "ja = advance x a ia" and "jb = advance x b ib"
    have ja: "ja = length (filter (\<lambda>y. y \<le> x) a)" and jb: "jb = length (filter (\<lambda>y. y \<le> x) b)"
      using 1(2-6) x(1) by (auto simp: ja_def jb_def R_def intro!: advance_count intro: less_imp_le)
    have gap: "\<bar>real ja / real (length a) - real jb / real (length b)\<bar> = ecdf_gap a b x"
      by (simp add: ecdf_gap_def ecdf_def ja jb)
    have rest: "set (drop ja a) = {y \<in> set a. x < y}" "set (drop jb b) = {y \<in> set b. x < y}"
      using 1(2,3) by (simp_all add: ja jb filter_gt_drop)
    have taken: "set (take ja a) \<subseteq> {y. y \<le> x}" "set (take jb b) \<subseteq> {y. y \<le> x}"
      using 1(2,3) by (auto simp: ja jb filter_le_take)
    have R: "z \<in> R \<longleftrightarrow> z = x \<or> z \<in> set (drop ja a) \<union> set (drop jb b)" for z
    proof
      assume "z \<in> R"
      moreover from this have "z \<in> set a \<union> set b" by (auto simp: R_def dest: in_set_dropD)
      ultimately show "z = x \<or> z \<in> set (drop ja a) \<union> set (drop jb b)" using x(2) rest by fastforce
    next
      assume z: "z = x \<or> z \<in> set (drop ja a) \<union> set (drop jb b)"
      show "z \<in> R"
      proof (rule ccontr)
        assume "z \<notin> R"
        then have "z \<in> set (take ia a) \<union> set (take ib b)"
          using z x(1) rest by (auto simp: R_def) (metis Un_iff append_take_drop_id set_append)+
        then have "z < x" using 1(6) x(1) by (auto simp: R_def)
        then show False using z rest by auto
      qed
    qed
    have IH: "max m (ecdf_gap a b x) \<le> ks_loop a b ja jb (max m (ecdf_gap a b x)) \<and>
      (\<forall>z\<in>set (drop ja a) \<union> set (drop jb b). ecdf_gap a b z \<le> ks_loop a b ja jb (max m (ecdf_gap a b x))) \<and>
      (ks_loop a b ja jb (max m (ecdf_gap a b x)) = max m (ecdf_gap a b x) \<or>
       (\<exists>z\<in>set (drop ja a) \<union> set (drop jb b). ks_loop a b ja jb (max m (ecdf_gap a b x)) = ecdf_gap a b z))"
      using 1(1) [OF True x_def ja_def jb_def] 1(2,3) taken rest
      unfolding gap by (force simp: ja jb)
    moreover have "ks_loop a b ia ib m = ks_loop a b ja jb (max m (ecdf_gap a b x))"
      using True gap by (simp add: ks_loop.simps [of a b ia ib m] Let_def flip: x_def ja_def jb_def)
    moreover have "R = insert x (set (drop ja a) \<union> set (drop jb b))" using R by blast
    ultimately show ?thesis unfolding R_def [symmetric] by (simp add: max_def split: if_splits; blast)
  qed
qed

lemma ecdf_gap_nonneg: "0 \<le> ecdf_gap a b t"
  by (simp add: ecdf_gap_def)

lemma ecdf_gap_attained:
  assumes "a \<noteq> []" "b \<noteq> []" and le: "\<forall>z\<in>set a \<union> set b. ecdf_gap a b z \<le> m" and "0 \<le> m"
  shows "ecdf_gap a b t \<le> m"
proof (cases "\<exists>y\<in>set a \<union> set b. y \<le> t")
  case False
  then have "filter (\<lambda>x. x \<le> t) a = []" "filter (\<lambda>x. x \<le> t) b = []" by (auto simp: filter_empty_conv)
  then show ?thesis using assms(4) by (simp add: ecdf_gap_def ecdf_def)
next
  case True
  define t' where "t' = Max {y \<in> set a \<union> set b. y \<le> t}"
  have fin: "finite {y \<in> set a \<union> set b. y \<le> t}" by simp
  have "{y \<in> set a \<union> set b. y \<le> t} \<noteq> {}" using True by blast
  from Max_in [OF fin this] have t': "t' \<in> set a \<union> set b" "t' \<le> t" by (simp_all add: t'_def)
  have same: "y \<le> t \<longleftrightarrow> y \<le> t'" if "y \<in> set a \<union> set b" for y
    using t' Max_ge [OF fin, of y] that by (auto simp: t'_def)
  have "ecdf a t = ecdf a t'" "ecdf b t = ecdf b t'"
    using same by (auto simp: ecdf_def intro!: arg_cong [where f = length] filter_cong)
  then have "ecdf_gap a b t = ecdf_gap a b t'" by (simp add: ecdf_gap_def)
  then show ?thesis using le t'(1) by auto
qed

lemma ks_sup:
  assumes "a \<noteq> []" "b \<noteq> []"
  shows "ecdf_gap a b t \<le> ks_statistic a b"
    and "\<exists>t\<in>set a \<union> set b. ks_statistic a b = ecdf_gap a b t"
proof -
  define r where "r = ks_loop (sort a) (sort b) 0 0 0"
  have gap: "ecdf_gap (sort a) (sort b) = ecdf_gap a b" by (simp add: ecdf_gap_def fun_eq_iff)
  have r: "0 \<le> r" "\<forall>z\<in>set a \<union> set b. ecdf_gap a b z \<le> r"
    "r = 0 \<or> (\<exists>z\<in>set a \<union> set b. r = ecdf_gap a b z)"
    using ks_loop_sup [of "sort a" "sort b" 0 0 0] unfolding gap by (simp_all flip: r_def)
  have ks: "ks_statistic a b = r" using assms by (simp add: ks_statistic_def r_def)
  show "ecdf_gap a b t \<le> ks_statistic a b" using ecdf_gap_attained [OF assms r(2,1)] by (simp add: ks)
  show "\<exists>t\<in>set a \<union> set b. ks_statistic a b = ecdf_gap a b t"
  proof (cases "r = 0")
    case True
    obtain z where "z \<in> set a" using assms(1) by (cases a) auto
    moreover from this have "ecdf_gap a b z = 0" using r(2) True ecdf_gap_nonneg [of a b z] by (intro antisym) auto
    ultimately show ?thesis using True ks by (intro bexI [of _ z]) auto
  qed (use r(3) ks in auto)
qed

lemma ks_range: "0 \<le> ks_statistic a b \<and> ks_statistic a b \<le> 1"
proof (cases "a = [] \<or> b = []")
  case False
  then obtain t where "ks_statistic a b = ecdf_gap a b t" using ks_sup(2) by blast
  then show ?thesis using ecdf_range [of a t] ecdf_range [of b t] by (simp add: ecdf_gap_def abs_le_iff)
qed (auto simp: ks_statistic_def)

section \<open>The best threshold\<close>

lemma foldl_max:
  fixes h :: "'a \<Rightarrow> real"
  shows "m \<le> foldl (\<lambda>m t. max m (h t)) m ts \<and> (\<forall>t\<in>set ts. h t \<le> foldl (\<lambda>m t. max m (h t)) m ts) \<and>
    (foldl (\<lambda>m t. max m (h t)) m ts = m \<or> (\<exists>t\<in>set ts. foldl (\<lambda>m t. max m (h t)) m ts = h t))"
proof (induction ts arbitrary: m)
  case (Cons t ts)
  show ?case using Cons [of "max m (h t)"] by (auto simp: max_def split: if_splits)
qed simp

lemma threshold_accuracy_ecdf:
  assumes "ys \<noteq> []"
  shows "threshold_accuracy xs ys t = 1 / 2 + (ecdf xs t - ecdf ys t) / 2"
proof -
  have "length (filter (\<lambda>x. x \<le> t) ys) + length (filter (\<lambda>x. \<not> x \<le> t) ys) = length ys"
    by (rule sum_length_filter_compl)
  then have "real (length (filter (\<lambda>x. x > t) ys)) = real (length ys) - real (length (filter (\<lambda>x. x \<le> t) ys))"
    by (simp add: not_le flip: of_nat_add)
  then show ?thesis using assms by (simp add: threshold_accuracy_def ecdf_def diff_divide_distrib)
qed

lemma best_threshold_ks:
  assumes "xs \<noteq> []" "ys \<noteq> []"
  shows "best_threshold_accuracy xs ys = 1 / 2 + ks_statistic xs ys / 2"
proof -
  define h where "h = (\<lambda>t. 1 / 2 + ecdf_gap xs ys t / 2)"
  define r where "r = foldl (\<lambda>m t. max m (h t)) (1 / 2) (remdups_adj (sort (xs @ ys)))"
  have step: "max (max m (threshold_accuracy xs ys t)) (1 - threshold_accuracy xs ys t) = max m (h t)" for m t
    using assms(2) by (simp add: threshold_accuracy_ecdf h_def ecdf_gap_def max_def abs_if field_simps)
  have r: "best_threshold_accuracy xs ys = r"
    by (simp add: best_threshold_accuracy_def Let_def step r_def)
  have set: "set (remdups_adj (sort (xs @ ys))) = set xs \<union> set ys" by simp
  have fold: "\<forall>t\<in>set xs \<union> set ys. h t \<le> r" "r = 1 / 2 \<or> (\<exists>t\<in>set xs \<union> set ys. r = h t)" "1 / 2 \<le> r"
    using foldl_max [of "1 / 2" h "remdups_adj (sort (xs @ ys))"] unfolding set r_def by auto
  obtain t where t: "t \<in> set xs \<union> set ys" "ks_statistic xs ys = ecdf_gap xs ys t" using ks_sup(2) [OF assms] by blast
  have "r \<le> 1 / 2 + ks_statistic xs ys / 2"
    using fold(2) ks_sup(1) [OF assms] ks_range [of xs ys] by (auto simp: h_def)
  moreover have "1 / 2 + ks_statistic xs ys / 2 \<le> r" using fold(1) t by (simp add: h_def)
  ultimately show ?thesis using r by simp
qed

section \<open>Fractional ranks\<close>

definition fractional_rank :: "real list \<Rightarrow> real \<Rightarrow> real" where
  "fractional_rank xs x =
     (real (length (filter (\<lambda>y. y < x) xs)) + real (length (filter (\<lambda>y. y \<le> x) xs)) - 1) / 2"

lemma tie_end_spec:
  assumes "j < length xs" "i \<le> j" "\<forall>p\<in>{i..j}. xs ! (idx ! p) = c"
  shows "tie_end xs idx i j < length xs \<and> (\<forall>p\<in>{i..tie_end xs idx i j}. xs ! (idx ! p) = c) \<and>
    (tie_end xs idx i j + 1 < length xs \<longrightarrow> xs ! (idx ! (tie_end xs idx i j + 1)) \<noteq> c)"
  using assms
proof (induction xs idx i j rule: tie_end.induct)
  case (1 xs idx i j)
  have c: "xs ! (idx ! i) = c" using 1(3,4) by simp
  show ?case
  proof (cases "j + 1 < length xs \<and> xs ! (idx ! (j + 1)) = xs ! (idx ! i)")
    case True
    then have "\<forall>p\<in>{i..j + 1}. xs ! (idx ! p) = c"
      using 1(3,4) c by (simp add: atLeastAtMostSuc_conv)
    moreover have "tie_end xs idx i j = tie_end xs idx i (j + 1)" using True by (subst tie_end.simps) simp
    ultimately show ?thesis using 1(1) [OF True] 1(3) True by simp
  next
    case False
    then have "tie_end xs idx i j = j" by (auto simp: tie_end.simps [of xs idx i j])
    then show ?thesis using False 1(2,4) c by auto
  qed
qed

lemma fold_update:
  "length (fold (\<lambda>k r. r[k := v]) ks r) = length r \<and>
   (j < length r \<longrightarrow> fold (\<lambda>k r. r[k := v]) ks r ! j = (if j \<in> set ks then v else r ! j))"
  by (induction ks arbitrary: r) (simp_all add: nth_list_update)

lemma set_slice:
  assumes "i \<le> j" "j < length xs"
  shows "set (drop i (take (j + 1) xs)) = (\<lambda>p. xs ! p) ` {i..j}"
proof -
  have len: "length (drop i (take (j + 1) xs)) = j + 1 - i" using assms by simp
  have nth: "drop i (take (j + 1) xs) ! p = xs ! (i + p)" if "p < j + 1 - i" for p using that assms by simp
  show ?thesis
  proof (intro equalityI subsetI)
    fix x assume "x \<in> set (drop i (take (j + 1) xs))"
    then obtain p where "p < j + 1 - i" "x = xs ! (i + p)" unfolding in_set_conv_nth using len nth by metis
    then show "x \<in> (\<lambda>p. xs ! p) ` {i..j}" by (intro image_eqI [of _ _ "i + p"]) auto
  next
    fix x assume "x \<in> (\<lambda>p. xs ! p) ` {i..j}"
    then obtain p where "i \<le> p" "p \<le> j" "x = xs ! p" by auto
    then show "x \<in> set (drop i (take (j + 1) xs))"
      unfolding in_set_conv_nth using len nth [of "p - i"] by (intro exI [of _ "p - i"]) simp
  qed
qed

lemma filter_prefix_count:
  assumes "i \<le> length ys" "\<forall>p<i. P (ys ! p)" "\<forall>p. i \<le> p \<and> p < length ys \<longrightarrow> \<not> P (ys ! p)"
  shows "length (filter P ys) = i"
proof -
  have "filter P (take i ys) = take i ys" using assms(1,2) by (auto simp: filter_id_conv in_set_conv_nth)
  moreover have "filter P (drop i ys) = []" using assms(1,3) by (auto simp: filter_empty_conv in_set_conv_nth)
  ultimately have "filter P ys = take i ys" by (metis append_Nil2 append_take_drop_id filter_append)
  then show ?thesis using assms(1) by simp
qed

text \<open>The order in which \<open>ranks\<close> visits the positions.\<close>

definition rank_order :: "real list \<Rightarrow> nat list" where
  "rank_order xs = sort_key (\<lambda>i. xs ! i) [0..<length xs]"

lemma rank_order_facts:
  "length (rank_order xs) = length xs" "set (rank_order xs) = {0..<length xs}"
  "distinct (rank_order xs)" "sorted (map (\<lambda>i. xs ! i) (rank_order xs))"
  by (simp_all add: rank_order_def)

lemma rank_order_mono:
  "p \<le> q \<Longrightarrow> q < length xs \<Longrightarrow> xs ! (rank_order xs ! p) \<le> xs ! (rank_order xs ! q)"
  using sorted_nth_mono [OF rank_order_facts(4), of p q xs] by (simp add: rank_order_facts(1))

lemma rank_order_count:
  "length (filter P (map (\<lambda>i. xs ! i) (rank_order xs))) = length (filter P xs)"
proof -
  have "filter P xs = filter P (map (\<lambda>i. xs ! i) [0..<length xs])" by (simp add: map_nth)
  then show ?thesis by (simp add: rank_order_def filter_map filter_sort)
qed

lemma rank_at:
  assumes "i \<le> j" "j < length xs" "\<forall>p\<in>{i..j}. xs ! (rank_order xs ! p) = c"
    and "\<forall>p<i. xs ! (rank_order xs ! p) < c"
    and "j + 1 < length xs \<longrightarrow> xs ! (rank_order xs ! (j + 1)) \<noteq> c"
  shows "fractional_rank xs c = real (i + j) / 2"
proof -
  let ?ys = "map (\<lambda>i. xs ! i) (rank_order xs)"
  have above: "c < xs ! (rank_order xs ! p)" if "j < p" "p < length xs" for p
  proof -
    have "c \<le> xs ! (rank_order xs ! (j + 1))" using assms(1-3) that rank_order_mono [of j "j + 1" xs] by auto
    moreover have "xs ! (rank_order xs ! (j + 1)) \<le> xs ! (rank_order xs ! p)"
      using that by (intro rank_order_mono) auto
    ultimately show ?thesis using assms(5) that by force
  qed
  have le: "c \<le> xs ! (rank_order xs ! p)" if "i \<le> p" "p < length xs" for p
    using assms(3) above [of p] that by (cases "p \<le> j") auto
  have ge: "xs ! (rank_order xs ! p) \<le> c" if "p < j + 1" for p
    using assms(3,4) that by (cases "p < i") (auto intro: less_imp_le)
  have "length (filter (\<lambda>y. y < c) ?ys) = i"
    using assms(1,2,4) le by (intro filter_prefix_count) (auto simp: rank_order_facts(1) not_less)
  moreover have "length (filter (\<lambda>y. y \<le> c) ?ys) = j + 1"
  proof (rule filter_prefix_count)
    show "\<forall>p<j + 1. ?ys ! p \<le> c"
      using ge assms(2) by (simp add: rank_order_facts(1))
    show "\<forall>p. j + 1 \<le> p \<and> p < length ?ys \<longrightarrow> \<not> ?ys ! p \<le> c"
      using above by (simp add: rank_order_facts(1) not_le)
  qed (use assms in \<open>simp add: rank_order_facts(1)\<close>)
  ultimately show ?thesis unfolding fractional_rank_def rank_order_count by simp
qed

lemma rank_loop_spec:
  assumes "i \<le> length xs" "length r = length xs"
    and "\<forall>p q. p < i \<and> i \<le> q \<and> q < length xs \<longrightarrow> xs ! (rank_order xs ! p) < xs ! (rank_order xs ! q)"
    and "\<forall>p<i. r ! (rank_order xs ! p) = fractional_rank xs (xs ! (rank_order xs ! p))"
  shows "length (rank_loop xs (rank_order xs) i r) = length xs \<and>
    (\<forall>p<length xs. rank_loop xs (rank_order xs) i r ! (rank_order xs ! p) =
       fractional_rank xs (xs ! (rank_order xs ! p)))"
  using assms
proof (induction xs "rank_order xs" i r rule: rank_loop.induct)
  case (1 xs i r)
  let ?o = "rank_order xs"
  show ?case
  proof (cases "i < length xs")
    case False
    then have "rank_loop xs ?o i r = r" "i = length xs" using 1(2) by (subst rank_loop.simps, simp_all)
    then show ?thesis using 1(3,5) by simp
  next
    case True
    define j where "j = tie_end xs ?o i i"
    define r' where "r' = fold (\<lambda>k r. r[k := real (i + j) / 2]) (drop i (take (j + 1) ?o)) r"
    define c where "c = xs ! (?o ! i)"
    have "\<forall>p\<in>{i..i}. xs ! (?o ! p) = c" by (simp add: c_def)
    note spec = tie_end_spec [OF True order_refl this, folded j_def]
    have j: "i \<le> j" "j < length xs" "\<forall>p\<in>{i..j}. xs ! (?o ! p) = c"
      "j + 1 < length xs \<longrightarrow> xs ! (?o ! (j + 1)) \<noteq> c"
      using spec tie_end_ge [of i xs ?o i] by (simp_all add: j_def)
    have "\<forall>p<i. xs ! (?o ! p) < c" using 1(4) True by (simp add: c_def)
    with j have rank: "fractional_rank xs c = real (i + j) / 2" by (intro rank_at) simp_all
    have slice: "set (drop i (take (j + 1) ?o)) = (\<lambda>p. ?o ! p) ` {i..j}"
      using j by (intro set_slice) (simp_all add: rank_order_facts(1))
    have r': "r' ! (?o ! p) = fractional_rank xs (xs ! (?o ! p))" if "p < j + 1" for p
    proof -
      have lt: "?o ! p < length xs" using rank_order_facts(1,2) [of xs] that j(2)
        by (metis Suc_eq_plus1 atLeastLessThan_iff less_Suc_eq_le nth_mem order_le_less_trans)
      have mem: "?o ! p \<in> set (drop i (take (j + 1) ?o)) \<longleftrightarrow> i \<le> p"
        unfolding slice using that j(2) rank_order_facts(1,3) [of xs] by (auto simp: nth_eq_iff_index_eq)
      show ?thesis
        using mem lt that j(3) rank 1(3,5) by (cases "i \<le> p") (simp_all add: r'_def fold_update)
    qed
    have sep: "xs ! (?o ! p) < xs ! (?o ! q)" if "p < j + 1" "j + 1 \<le> q" "q < length xs" for p q
    proof -
      have "xs ! (?o ! p) \<le> xs ! (?o ! j)" "xs ! (?o ! j) \<le> xs ! (?o ! (j + 1))" "xs ! (?o ! (j + 1)) \<le> xs ! (?o ! q)"
        using that by (auto intro!: rank_order_mono)
      moreover have "xs ! (?o ! j) \<noteq> xs ! (?o ! (j + 1))" using j that by auto
      ultimately show ?thesis by simp
    qed
    have "length (rank_loop xs ?o (j + 1) r') = length xs \<and>
      (\<forall>p<length xs. rank_loop xs ?o (j + 1) r' ! (?o ! p) = fractional_rank xs (xs ! (?o ! p)))"
    proof (rule 1(1) [OF True j_def refl, folded r'_def])
      show "j + 1 \<le> length xs" "length r' = length xs" using j(2) 1(3) by (simp_all add: r'_def fold_update)
    qed (use r' sep in blast)+
    moreover have "rank_loop xs ?o i r = rank_loop xs ?o (j + 1) r'"
      unfolding r'_def j_def using True by (subst rank_loop.simps) (simp only: if_True Let_def)
    ultimately show ?thesis by simp
  qed
qed

lemma ranks_reference: "ranks xs = map (fractional_rank xs) xs"
proof (rule nth_equalityI)
  have spec: "length (ranks xs) = length xs \<and>
    (\<forall>p<length xs. ranks xs ! (rank_order xs ! p) = fractional_rank xs (xs ! (rank_order xs ! p)))"
    using rank_loop_spec [of 0 xs "replicate (length xs) 0"] by (simp add: ranks_def Let_def flip: rank_order_def)
  then show "length (ranks xs) = length (map (fractional_rank xs) xs)" by simp
  fix k assume "k < length (ranks xs)"
  then have k: "k < length xs" using spec by simp
  then obtain p where "p < length xs" "rank_order xs ! p = k"
    using rank_order_facts(1,2) [of xs] by (metis atLeastLessThan_iff in_set_conv_nth less_eq_nat.simps(1))
  then show "ranks xs ! k = map (fractional_rank xs) xs ! k" using spec k by auto
qed

lemma ranks_monotone:
  assumes "strict_mono_on (set xs) f"
  shows "ranks (map f xs) = ranks xs"
proof -
  have "f y < f x \<longleftrightarrow> y < x" "f y \<le> f x \<longleftrightarrow> y \<le> x" if "x \<in> set xs" "y \<in> set xs" for x y
    using assms that by (auto simp: strict_mono_on_less strict_mono_on_less_eq)
  then have "fractional_rank (map f xs) (f x) = fractional_rank xs x" if "x \<in> set xs" for x
    using that by (simp add: fractional_rank_def filter_map comp_def cong: filter_cong)
  then show ?thesis by (simp add: ranks_reference)
qed

lemma spearman_bounded: "\<bar>spearman a b\<bar> \<le> 1"
  by (simp add: spearman_def Let_def pearson_bounded)

lemma spearman_monotone:
  assumes "strict_mono_on (set a) f"
  shows "spearman (map f a) b = spearman a b"
proof -
  have "ranks (take n (map f a)) = ranks (take n a)" for n
    using assms set_take_subset [of n a] by (simp add: take_map ranks_monotone monotone_on_subset)
  then show ?thesis by (simp add: spearman_def Let_def)
qed

section \<open>The median\<close>

lemma length_filter_sort: "length (filter P (sort xs)) = length (filter P xs)"
  by (simp add: filter_sort)

lemma count_prefix: "\<forall>p<k. P (ys ! p) \<Longrightarrow> k \<le> length ys \<Longrightarrow> k \<le> length (filter P ys)"
proof -
  assume a: "\<forall>p<k. P (ys ! p)" "k \<le> length ys"
  have "filter P (take k ys) = take k ys" using a by (auto simp: filter_id_conv in_set_conv_nth)
  then have "length (filter P ys) = k + length (filter P (drop k ys))"
    using a(2) by (metis append_take_drop_id filter_append length_append length_take min.absorb2)
  then show ?thesis by simp
qed

lemma count_suffix:
  "\<forall>p. k \<le> p \<and> p < length ys \<longrightarrow> P (ys ! p) \<Longrightarrow> length ys - k \<le> length (filter P ys)"
proof -
  assume a: "\<forall>p. k \<le> p \<and> p < length ys \<longrightarrow> P (ys ! p)"
  have "filter P (drop k ys) = drop k ys" using a by (auto simp: filter_id_conv in_set_conv_nth)
  then have "length (filter P ys) = length (filter P (take k ys)) + (length ys - k)"
    by (metis append_take_drop_id filter_append length_append length_drop)
  then show ?thesis by simp
qed

text \<open>At least half of the values lie on either side of the median, and it is between the extremes.\<close>

lemma median_halves:
  assumes "xs \<noteq> []"
  shows "length xs \<le> 2 * length (filter (\<lambda>x. x \<le> median xs) xs)"
    and "length xs \<le> 2 * length (filter (\<lambda>x. median xs \<le> x) xs)"
proof -
  define ys where "ys = sort xs"
  define n where "n = length xs"
  have n: "length ys = n" "0 < n" using assms by (simp_all add: ys_def n_def)
  have mono: "ys ! p \<le> ys ! q" if "p \<le> q" "q < n" for p q
    using that by (intro sorted_nth_mono) (simp_all add: ys_def n_def)
  have med: "median xs = (if n mod 2 = 1 then ys ! (n div 2) else (ys ! (n div 2 - 1) + ys ! (n div 2)) / 2)"
    using assms by (simp add: median_def Let_def ys_def n_def)
  have hi: "median xs \<le> ys ! p" if "n div 2 \<le> p" "p < n" for p
    using mono [of "n div 2" p] mono [of "n div 2 - 1" "n div 2"] that n(2) by (auto simp: med)
  have lo: "ys ! p \<le> median xs" if "p < n - n div 2" for p
  proof (cases "even n")
    case True
    then have "p \<le> n div 2 - 1" "p \<le> n div 2" "n div 2 < n" using that n(2) by presburger+
    then have "ys ! p \<le> ys ! (n div 2 - 1)" "ys ! p \<le> ys ! (n div 2)" by (auto intro!: mono)
    then show ?thesis using True by (simp add: med even_iff_mod_2_eq_zero)
  next
    case False
    then have "p \<le> n div 2" "n div 2 < n" using that n(2) by presburger+
    then show ?thesis using False mono [of p "n div 2"] by (simp add: med odd_iff_mod_2_eq_one)
  qed
  have "n - n div 2 \<le> length (filter (\<lambda>x. x \<le> median xs) ys)"
    using lo n by (intro count_prefix) auto
  then show "length xs \<le> 2 * length (filter (\<lambda>x. x \<le> median xs) xs)"
    by (simp add: ys_def length_filter_sort flip: n_def)
  have "n - n div 2 \<le> length (filter (\<lambda>x. median xs \<le> x) ys)"
    using hi n count_suffix [of "n div 2" ys "\<lambda>x. median xs \<le> x"] by simp
  then show "length xs \<le> 2 * length (filter (\<lambda>x. median xs \<le> x) xs)"
    by (simp add: ys_def length_filter_sort flip: n_def)
qed

section \<open>Properties\<close>

text \<open>C34: The size attack measures what it says: for two samples the loop over the sorted values
  returns the largest gap between their empirical distribution functions, over all thresholds, and
  the best threshold classifier's accuracy is one half plus half of that distance.\<close>

theorem ks_distance:
  assumes "a \<noteq> []" "b \<noteq> []"
  shows "(\<forall>t. \<bar>ecdf a t - ecdf b t\<bar> \<le> ks_statistic a b) \<and>
    (\<exists>t\<in>set a \<union> set b. ks_statistic a b = \<bar>ecdf a t - ecdf b t\<bar>) \<and>
    best_threshold_accuracy a b = 1 / 2 + ks_statistic a b / 2"
  using ks_sup [OF assms] best_threshold_ks [OF assms] by (simp add: ecdf_gap_def)

theorem ks_distance_witness:
  "best_threshold_accuracy [500, 500, 40] [500, 40, 40] = 1 / 2 + ks_statistic [500, 500, 40] [500, 40, 40] / 2 \<and>
   1 / 3 \<le> ks_statistic [500, 500, 40] [500, 40, 40]"
proof -
  have "\<bar>ecdf [500, 500, 40] 100 - ecdf [500, 40, 40] 100\<bar> = 1 / 3" by (simp add: ecdf_def)
  then show ?thesis using ks_distance [of "[500, 500, 40]" "[500, 40, 40]"] by (metis list.distinct(1))
qed

text \<open>The correlation coefficients are on their scale: Pearson and Spearman lie in [-1, 1], the
  peak over the lags lies in [0, 1] at a lag within the window and is no smaller than the
  coefficient at lag zero, a constant series correlates with nothing, and a series that is not
  constant correlates perfectly with itself.\<close>

theorem correlation_scale:
  "\<bar>pearson a b\<bar> \<le> 1 \<and> \<bar>spearman a b\<bar> \<le> 1 \<and>
   0 \<le> snd (peak_cross_correlation a b m) \<and> snd (peak_cross_correlation a b m) \<le> 1 \<and>
   \<bar>fst (peak_cross_correlation a b m)\<bar> \<le> int m \<and>
   (3 \<le> length a \<and> 3 \<le> length b \<longrightarrow> \<bar>pearson a b\<bar> \<le> snd (peak_cross_correlation a b m)) \<and>
   pearson (replicate n c) b = 0 \<and> peak_cross_correlation (replicate n c) b m = (0, 0) \<and>
   (1 < card (set a) \<longrightarrow> pearson a a = 1)"
proof -
  have "pearson a a = 1" if "1 < card (set a)"
  proof -
    have "\<not> card (set a) \<le> Suc 0" using that by simp
    then obtain x y where "x \<in> set a" "y \<in> set a" "x \<noteq> y"
      unfolding card_le_Suc0_iff_eq [OF finite_set] by blast
    then show ?thesis by (rule pearson_self)
  qed
  then show ?thesis
    using pearson_bounded spearman_bounded peak_bounds [of a b m] peak_ge_pearson [of a b m]
      pearson_const [of "replicate n c" c b] peak_const [of "replicate n c" c b m] by simp
qed

theorem correlation_scale_witness:
  "\<bar>pearson [1, 2, 4] [2, 5, 3]\<bar> \<le> snd (peak_cross_correlation [1, 2, 4] [2, 5, 3] 20)"
  using correlation_scale [of "[1, 2, 4]" "[2, 5, 3]" 20] by simp

text \<open>The rank loop, which walks a sorted index and averages over ties, gives every value the
  rank that counting gives: the number of smaller values plus half of the other equal ones. So
  Spearman's coefficient does not change under a strictly increasing map of the totals, such as
  a padding that keeps their order.\<close>

theorem ranks_by_counting:
  "ranks xs = map (\<lambda>x. (real (length (filter (\<lambda>y. y < x) xs)) + real (length (filter (\<lambda>y. y \<le> x) xs)) - 1) / 2) xs \<and>
   (strict_mono_on (set xs) f \<longrightarrow> spearman (map f xs) ys = spearman xs ys)"
  using ranks_reference [of xs] spearman_monotone [of xs f ys] by (simp add: fractional_rank_def)

theorem ranks_by_counting_witness:
  "ranks [30, 10, 30] = [3 / 2, 0, 3 / 2] \<and>
   spearman (map (\<lambda>x. 2 * x + 5) [30, 10, 30]) [1, 2, 3] = spearman [30, 10, 30] [1, 2, 3]"
proof -
  have "strict_mono_on (set [30, 10, 30 :: real]) (\<lambda>x. 2 * x + 5)" by (auto simp: strict_mono_on_def)
  then show ?thesis
    using ranks_by_counting [of "[30, 10, 30]" "\<lambda>x. 2 * x + 5" "[1, 2, 3]"] by simp
qed

end
