(* ===== verification/LabLog.thy ===== *)
theory LabLog
  imports Strings
begin

text \<open>
  The lab log: \<open>src/src/lab.rs\<close>, which writes one CSV line per event from a background thread, and
  the records of \<open>src/src/correlation_attack.rs\<close>, which reads the lines back. The channel between
  the hot path and the writer is a queue; the outcome of the \<open>n\<close>-th write is an argument. The
  lemmas give the round trip of a log, and that at most 1024 rows wait for a flush.
\<close>

section \<open>Records and their parser\<close>

definition u128_max :: nat where
  "u128_max = 340282366920938463463374607431768211455"

record log_record =
  lr_unix_nanos :: nat
  lr_role :: rstr
  lr_event :: rstr
  lr_conn_id :: nat
  lr_seq :: nat
  lr_bytes :: nat
  lr_kind :: rstr

definition parse_line :: "rstr \<Rightarrow> log_record option" where
  "parse_line line =
     (case str_split 44 line of
        f0 # f1 # f2 # f3 # f4 # f5 # f6 # _ \<Rightarrow>
          do {
            nanos \<leftarrow> parse_uint 10 u128_max (str_trim f0);
            conn \<leftarrow> parse_uint 10 u64_max (str_trim f3);
            sq \<leftarrow> parse_uint 10 u64_max (str_trim f4);
            len \<leftarrow> parse_uint 10 u64_max (str_trim f5);
            Some \<lparr>lr_unix_nanos = nanos, lr_role = str_trim f1, lr_event = str_trim f2,
                  lr_conn_id = conn, lr_seq = sq, lr_bytes = len, lr_kind = str_trim f6\<rparr>
          }
      | _ \<Rightarrow> None)"

text \<open>One turn of the loop; the line is \<open>None\<close> where it could not be read as UTF-8.\<close>

definition parse_row :: "nat \<times> rstr option \<Rightarrow> log_record list" where
  "parse_row row =
     (case row of
        (_, None) \<Rightarrow> []
      | (i, Some line) \<Rightarrow>
          if i = 0 \<and> str_starts_with (str_of ''unix_nanos'') line then []
          else if str_trim line = [] then []
          else (case parse_line line of None \<Rightarrow> [] | Some rec \<Rightarrow> [rec]))"

definition parse_reader :: "rstr option list \<Rightarrow> log_record list" where
  "parse_reader ls = concat (map parse_row (enumerate 0 ls))"

definition parse_log :: "('e + rstr option list) \<Rightarrow> 'e + log_record list" where
  "parse_log opened = (case opened of Inl e \<Rightarrow> Inl e | Inr ls \<Rightarrow> Inr (parse_reader ls))"

section \<open>The logger\<close>

record log_row =
  row_unix_nanos :: nat
  row_event :: rstr
  row_conn_id :: nat
  row_seq :: nat
  row_bytes :: nat
  row_kind :: rstr

text \<open>The file holds the lines already flushed, then those in the writer's buffer; \<open>lab_tx\<close> and
  \<open>lab_writer\<close> say whether the sender is held and the thread runs.\<close>

record lab_logger =
  lab_role :: rstr
  lab_tx :: bool
  lab_next_conn_id :: u64
  lab_queue :: "log_row list"
  lab_writer :: bool
  lab_lines :: "rstr list"
  lab_flushed :: nat
  lab_since_flush :: nat

definition csv_header :: rstr where
  "csv_header = str_of ''unix_nanos,role,event,conn_id,seq,bytes,kind''"

definition lab_create :: "'e option \<Rightarrow> rstr \<Rightarrow> 'e + lab_logger" where
  "lab_create failure role =
     (case failure of
        Some e \<Rightarrow> Inl e
      | None \<Rightarrow> Inr \<lparr>lab_role = role, lab_tx = True, lab_next_conn_id = 1, lab_queue = [], lab_writer = True,
                    lab_lines = [csv_header], lab_flushed = 0, lab_since_flush = 0\<rparr>)"

definition next_conn_id :: "lab_logger \<Rightarrow> u64 \<times> lab_logger" where
  "next_conn_id l = (lab_next_conn_id l, l\<lparr>lab_next_conn_id := lab_next_conn_id l + 1\<rparr>)"

text \<open>The clock reading is \<open>None\<close> for a system time before the Unix epoch. A row sent after the
  writer has ended is lost.\<close>

definition lab_log ::
  "nat option \<Rightarrow> rstr \<Rightarrow> nat \<Rightarrow> nat \<Rightarrow> nat \<Rightarrow> rstr \<Rightarrow> lab_logger \<Rightarrow> lab_logger" where
  "lab_log now event conn sq len kind l =
     (let unix_nanos = (case now of None \<Rightarrow> 0 | Some t \<Rightarrow> t)
      in if lab_tx l \<and> lab_writer l then
           l\<lparr>lab_queue := lab_queue l @
             [\<lparr>row_unix_nanos = unix_nanos, row_event = event, row_conn_id = conn, row_seq = sq,
               row_bytes = len, row_kind = kind\<rparr>]\<rparr>
         else l)"

definition format_row :: "rstr \<Rightarrow> log_row \<Rightarrow> rstr" where
  "format_row role r =
     nat_str (row_unix_nanos r) @ [44] @ role @ [44] @ row_event r @ [44] @ nat_str (row_conn_id r) @ [44] @
     nat_str (row_seq r) @ [44] @ nat_str (row_bytes r) @ [44] @ row_kind r"

definition writer_flush :: "lab_logger \<Rightarrow> lab_logger" where
  "writer_flush l = l\<lparr>lab_flushed := length (lab_lines l)\<rparr>"

text \<open>One turn of the writer: it blocks on an empty channel while the sender is held, and ends
  when the sender is gone or a write fails.\<close>

definition writer_turn :: "(nat \<Rightarrow> bool) \<Rightarrow> lab_logger \<Rightarrow> lab_logger" where
  "writer_turn write_ok l =
     (if \<not> lab_writer l then l
      else case lab_queue l of
        [] \<Rightarrow> if lab_tx l then l else writer_flush l\<lparr>lab_writer := False\<rparr>
      | r # rest \<Rightarrow>
          if \<not> write_ok (length (lab_lines l)) then
            writer_flush (l\<lparr>lab_queue := rest, lab_writer := False\<rparr>)
          else
            let l = l\<lparr>lab_queue := rest, lab_lines := lab_lines l @ [format_row (lab_role l) r]\<rparr>;
                since = lab_since_flush l + 1
            in if since \<ge> 1024 then (writer_flush l)\<lparr>lab_since_flush := 0\<rparr>
               else l\<lparr>lab_since_flush := since\<rparr>)"

text \<open>Dropping the logger closes the channel and waits for the writer, which takes one turn per
  queued row and one to end.\<close>

definition lab_drop :: "(nat \<Rightarrow> bool) \<Rightarrow> lab_logger \<Rightarrow> lab_logger" where
  "lab_drop write_ok l =
     (writer_turn write_ok ^^ (length (lab_queue l) + 1)) (l\<lparr>lab_tx := False\<rparr>)"

datatype lab_event =
    LabLog "nat option" rstr nat nat nat rstr
  | LabNextId
  | LabWriterTurn

definition lab_event_step :: "(nat \<Rightarrow> bool) \<Rightarrow> lab_event \<Rightarrow> lab_logger \<Rightarrow> lab_logger" where
  "lab_event_step write_ok e l =
     (case e of
        LabLog now event conn sq len kind \<Rightarrow> lab_log now event conn sq len kind l
      | LabNextId \<Rightarrow> snd (next_conn_id l)
      | LabWriterTurn \<Rightarrow> writer_turn write_ok l)"

definition log_text :: "lab_logger \<Rightarrow> rstr" where
  "log_text l = concat (map (\<lambda>line. line @ [10]) (lab_lines l))"

text \<open>\<open>BufRead::lines\<close>: the pieces between newlines, without a final empty piece and without the
  carriage return before a newline.\<close>

definition str_lines :: "rstr \<Rightarrow> rstr list" where
  "str_lines s =
     (let ps = str_split 10 s; ls = (if last ps = [] then butlast ps else ps)
      in map (\<lambda>l. if l \<noteq> [] \<and> last l = 13 then butlast l else l) ls)"

section \<open>The round trip of a log\<close>

lemma str_split_nonempty [simp]: "str_split d s \<noteq> []"
  by (induction s) (auto split: list.splits)

lemma str_lines_text:
  assumes "\<forall>l\<in>set ls. 10 \<notin> set l \<and> 13 \<notin> set l"
  shows "str_lines (concat (map (\<lambda>l. l @ [10]) ls)) = ls"
proof -
  have split: "str_split 10 (concat (map (\<lambda>l. l @ [10]) ls)) = ls @ [[]]"
    using assms by (induction ls) (simp_all add: str_split_append)
  have "map (\<lambda>l. if l \<noteq> [] \<and> last l = 13 then butlast l else l) ls = ls"
    using assms last_in_set by (fastforce intro!: map_idI)
  then show ?thesis by (simp add: str_lines_def split)
qed

definition label_ok :: "rstr \<Rightarrow> bool" where
  "label_ok s \<longleftrightarrow> str_trim s = s \<and> 44 \<notin> set s \<and> 10 \<notin> set s \<and> 13 \<notin> set s"

definition row_ok :: "log_row \<Rightarrow> bool" where
  "row_ok r \<longleftrightarrow> label_ok (row_event r) \<and> label_ok (row_kind r) \<and> row_unix_nanos r \<le> u128_max \<and>
     row_conn_id r \<le> u64_max \<and> row_seq r \<le> u64_max \<and> row_bytes r \<le> u64_max"

definition record_of :: "rstr \<Rightarrow> log_row \<Rightarrow> log_record" where
  "record_of role r = \<lparr>lr_unix_nanos = row_unix_nanos r, lr_role = role, lr_event = row_event r,
     lr_conn_id = row_conn_id r, lr_seq = row_seq r, lr_bytes = row_bytes r, lr_kind = row_kind r\<rparr>"

lemma nat_str_no [simp]: "44 \<notin> set (nat_str n)" "10 \<notin> set (nat_str n)" "13 \<notin> set (nat_str n)"
  using nat_str_chars by fastforce+

lemma parse_format_row:
  assumes "label_ok role" "row_ok r"
  shows "parse_line (format_row role r) = Some (record_of role r)"
proof -
  have "str_split 44 (format_row role r) =
    [nat_str (row_unix_nanos r), role, row_event r, nat_str (row_conn_id r), nat_str (row_seq r),
     nat_str (row_bytes r), row_kind r]"
    using assms by (simp add: format_row_def label_ok_def row_ok_def str_split_append str_split_last)
  then show ?thesis
    using assms by (simp add: parse_line_def parse_nat_str record_of_def label_ok_def row_ok_def)
qed

lemma format_row_line:
  assumes "label_ok role" "row_ok r"
  shows "10 \<notin> set (format_row role r) \<and> 13 \<notin> set (format_row role r)"
  using assms by (simp add: format_row_def label_ok_def row_ok_def)

lemma format_row_nonblank: "str_trim (format_row role r) \<noteq> []"
proof
  assume a: "str_trim (format_row role r) = []"
  have h: "\<not> is_whitespace (hd (nat_str n))" for n
    using nat_str_chars [of "hd (nat_str n)" n] by (auto simp: is_whitespace_def)
  obtain c cs where c: "format_row role r = c # cs" "\<not> is_whitespace c"
    using h [of "row_unix_nanos r"] by (cases "nat_str (row_unix_nanos r)") (auto simp: format_row_def)
  then have "c # cs = []" using a by (simp add: str_trim_def dropWhile_eq_Nil_conv)
  then show False by simp
qed

lemma parse_reader_rows:
  assumes "label_ok role" "\<forall>r\<in>set rows. row_ok r"
  shows "parse_reader (map Some (csv_header # map (format_row role) rows)) = map (record_of role) rows"
proof -
  have head: "parse_row (0, Some csv_header) = []"
    by (simp add: parse_row_def csv_header_def str_starts_with_def str_of_def)
  have row: "parse_row (Suc i, Some (format_row role r)) = [record_of role r]" if "r \<in> set rows" for i r
    using that assms by (simp add: parse_row_def format_row_nonblank parse_format_row)
  have "concat (map parse_row (enumerate (Suc k) (map Some (map (format_row role) rows)))) = map (record_of role) rows" for k
    using row
  proof (induction rows arbitrary: k)
    case (Cons r rs)
    then show ?case by simp
  qed simp
  from this [of 0] show ?thesis by (simp add: parse_reader_def head)
qed

fun logged :: "lab_event list \<Rightarrow> log_row list" where
  "logged [] = []"
| "logged (LabLog now event conn sq len kind # es) =
     \<lparr>row_unix_nanos = (case now of None \<Rightarrow> 0 | Some t \<Rightarrow> t), row_event = event, row_conn_id = conn,
      row_seq = sq, row_bytes = len, row_kind = kind\<rparr> # logged es"
| "logged (_ # es) = logged es"

definition lossless :: "(nat \<Rightarrow> bool) \<Rightarrow> bool" where
  "lossless write_ok \<longleftrightarrow> (\<forall>n. write_ok n)"

lemma losslessD: "\<not> write_ok n \<Longrightarrow> \<not> lossless write_ok"
  by (auto simp: lossless_def)

text \<open>What the writer has taken so far, what is queued, and when the file is complete.\<close>

definition lab_inv :: "(nat \<Rightarrow> bool) \<Rightarrow> rstr \<Rightarrow> log_row list \<Rightarrow> lab_logger \<Rightarrow> bool" where
  "lab_inv write_ok role rows l \<longleftrightarrow> lab_role l = role \<and> lab_since_flush l < 1024 \<and>
     (lossless write_ok \<and> lab_tx l \<longrightarrow> lab_writer l) \<and>
     (\<exists>k\<le>length rows. lab_lines l = csv_header # map (format_row role) (take k rows) \<and>
       (lab_writer l \<longrightarrow> lab_queue l = drop k rows) \<and>
       (\<not> lab_writer l \<longrightarrow> lab_flushed l = length (lab_lines l)) \<and>
       (lossless write_ok \<longrightarrow> lab_writer l \<or> k = length rows))"

lemma lab_inv_turn:
  assumes "lab_inv write_ok role rows l"
  shows "lab_inv write_ok role rows (writer_turn write_ok l)"
proof (cases "lab_writer l")
  case False
  then show ?thesis using assms by (simp add: writer_turn_def)
next
  case True
  obtain k where k: "k \<le> length rows" "lab_lines l = csv_header # map (format_row role) (take k rows)"
    "lab_queue l = drop k rows" "lab_role l = role" "lab_since_flush l < 1024"
    using assms True unfolding lab_inv_def by blast
  show ?thesis
  proof (cases "drop k rows")
    case Nil
    then have "k = length rows" using k(1) by simp
    then show ?thesis
      using k True Nil by (auto simp: lab_inv_def writer_turn_def writer_flush_def intro!: exI [of _ k])
  next
    case (Cons r rest)
    then have len: "k < length rows" by (cases "k < length rows") auto
    then have r: "r = rows ! k" "rest = drop (Suc k) rows" using Cons Cons_nth_drop_Suc [OF len] by simp_all
    show ?thesis
    proof (cases "write_ok (length (lab_lines l))")
      case True
      then show ?thesis
        using k \<open>lab_writer l\<close> Cons len r
        by (auto simp: lab_inv_def writer_turn_def writer_flush_def Let_def take_Suc_conv_app_nth intro!: exI [of _ "Suc k"])
    next
      case False
      then show ?thesis
        using k \<open>lab_writer l\<close> Cons losslessD [of write_ok "length (lab_lines l)"] False
        by (auto simp: lab_inv_def writer_turn_def writer_flush_def intro!: exI [of _ k])
    qed
  qed
qed

lemma writer_turn_tx [simp]: "lab_tx (writer_turn write_ok l) = lab_tx l"
  by (simp add: writer_turn_def writer_flush_def Let_def split: list.splits)

lemma lab_inv_log:
  assumes "lab_inv write_ok role rows l" "lab_tx l"
  shows "lab_inv write_ok role (rows @ logged [e]) (lab_event_step write_ok e l) \<and>
    lab_tx (lab_event_step write_ok e l) = lab_tx l"
proof (cases e)
  case (LabLog now event conn sq len kind)
  define row where "row = \<lparr>row_unix_nanos = (case now of None \<Rightarrow> 0 | Some t \<Rightarrow> t), row_event = event,
    row_conn_id = conn, row_seq = sq, row_bytes = len, row_kind = kind\<rparr>"
  have step: "lab_event_step write_ok e l = (if lab_writer l then l\<lparr>lab_queue := lab_queue l @ [row]\<rparr> else l)"
    "logged [e] = [row]"
    using LabLog assms(2) by (simp_all add: lab_event_step_def lab_log_def row_def Let_def)
  obtain k where k: "k \<le> length rows" "lab_lines l = csv_header # map (format_row role) (take k rows)"
    "lab_writer l \<longrightarrow> lab_queue l = drop k rows" "\<not> lab_writer l \<longrightarrow> lab_flushed l = length (lab_lines l)"
    using assms(1) unfolding lab_inv_def by blast
  have "lab_inv write_ok role (rows @ [row]) (lab_event_step write_ok e l)"
    using assms k unfolding step lab_inv_def by (auto simp: take_append intro!: exI [of _ k])
  then show ?thesis by (simp add: step)
next
  case LabNextId
  have "lab_inv write_ok role rows (l\<lparr>lab_next_conn_id := x\<rparr>) = lab_inv write_ok role rows l" for x
    by (simp add: lab_inv_def)
  then show ?thesis using assms LabNextId by (simp add: lab_event_step_def next_conn_id_def)
next
  case LabWriterTurn
  then show ?thesis using LabWriterTurn lab_inv_turn [OF assms(1)] by (simp add: lab_event_step_def)
qed

lemma logged_append: "logged (es @ fs) = logged es @ logged fs"
  by (induction es rule: logged.induct) simp_all

lemma lab_inv_run:
  assumes "lab_inv write_ok role rows l" "lab_tx l"
  shows "lab_inv write_ok role (rows @ logged es) (fold (lab_event_step write_ok) es l)"
  using assms
proof (induction es arbitrary: rows l)
  case (Cons e es)
  note step = lab_inv_log [OF Cons.prems, of e]
  have "logged (e # es) = logged [e] @ logged es" using logged_append [of "[e]" es] by simp
  then show ?case using Cons.IH [of "rows @ logged [e]" "lab_event_step write_ok e l"] step Cons.prems(2) by simp
qed simp

lemma lab_inv_turns: "lab_inv write_ok role rows l \<Longrightarrow> lab_inv write_ok role rows ((writer_turn write_ok ^^ n) l)"
  by (induction n) (simp_all add: lab_inv_turn)

text \<open>Once the sender is gone, every turn takes a row or ends the writer.\<close>

lemma writer_ends:
  assumes "\<not> lab_tx l"
  shows "\<not> lab_writer ((writer_turn write_ok ^^ (length (lab_queue l) + 1)) l)"
proof -
  have dead: "\<not> lab_writer l \<Longrightarrow> \<not> lab_writer ((writer_turn write_ok ^^ n) l)" for n l
    by (induction n) (simp_all add: writer_turn_def)
  show ?thesis
    using assms
  proof (induction "length (lab_queue l)" arbitrary: l)
    case 0
    then show ?case by (simp add: writer_turn_def writer_flush_def)
  next
    case (Suc n)
    then obtain r rest where q: "lab_queue l = r # rest" by (cases "lab_queue l") auto
    define l' where "l' = writer_turn write_ok l"
    have "(writer_turn write_ok ^^ (length (lab_queue l) + 1)) l = (writer_turn write_ok ^^ (length rest + 1)) l'"
      by (simp add: q l'_def funpow_swap1)
    moreover have "lab_writer l' \<longrightarrow> lab_queue l' = rest"
      using q by (auto simp: l'_def writer_turn_def writer_flush_def Let_def)
    moreover have "\<not> lab_tx l'" using Suc.prems by (simp add: l'_def)
    ultimately show ?case using Suc.hyps dead [of l'] q by (cases "lab_writer l'") (auto simp del: funpow.simps)
  qed
qed

lemma lab_file:
  assumes "lab_create (None :: 'e option) role = Inr l"
    and "l' = lab_drop write_ok (fold (lab_event_step write_ok) es l)"
  shows "\<exists>k\<le>length (logged es). lab_lines l' = csv_header # map (format_row role) (take k (logged es)) \<and>
    lab_flushed l' = k + 1 \<and> (lossless write_ok \<longrightarrow> k = length (logged es))"
proof -
  have "lab_inv write_ok role [] l" "lab_tx l"
    using assms(1) by (auto simp: lab_create_def lab_inv_def)
  then have run: "lab_inv write_ok role (logged es) (fold (lab_event_step write_ok) es l)"
    using lab_inv_run [of write_ok role "[]" l es] by simp
  define m where "m = (fold (lab_event_step write_ok) es l)\<lparr>lab_tx := False\<rparr>"
  have m: "lab_inv write_ok role (logged es) m" "\<not> lab_tx m"
    using run by (auto simp: lab_inv_def m_def)
  have l': "l' = (writer_turn write_ok ^^ (length (lab_queue m) + 1)) m"
    by (simp add: assms(2) lab_drop_def m_def)
  have "lab_inv write_ok role (logged es) l'" "\<not> lab_writer l'"
    unfolding l' using lab_inv_turns [OF m(1)] writer_ends [OF m(2)] by blast+
  then show ?thesis unfolding lab_inv_def by (auto simp: min_absorb2)
qed

lemma lab_log_reads:
  assumes "lab_create (None :: 'e option) role = Inr l" "label_ok role" "\<forall>r\<in>set (logged es). row_ok r"
  shows "\<exists>k\<le>length (logged es).
    lab_flushed (lab_drop write_ok (fold (lab_event_step write_ok) es l)) = k + 1 \<and>
    parse_reader (map Some (str_lines (log_text (lab_drop write_ok (fold (lab_event_step write_ok) es l))))) =
      map (record_of role) (take k (logged es)) \<and>
    (lossless write_ok \<longrightarrow> k = length (logged es))"
proof -
  define l' where "l' = lab_drop write_ok (fold (lab_event_step write_ok) es l)"
  obtain k where k: "k \<le> length (logged es)" "lab_lines l' = csv_header # map (format_row role) (take k (logged es))"
    "lab_flushed l' = k + 1" "lossless write_ok \<longrightarrow> k = length (logged es)"
    using lab_file [OF assms(1) l'_def] by blast
  have rows: "\<forall>r\<in>set (take k (logged es)). row_ok r" using assms(3) by (meson in_set_takeD)
  have header: "10 \<notin> set csv_header \<and> 13 \<notin> set csv_header" by (simp add: csv_header_def str_of_def)
  have "str_lines (log_text l') = lab_lines l'"
    unfolding log_text_def using header rows format_row_line [OF assms(2)] by (intro str_lines_text) (auto simp: k(2))
  then have "parse_reader (map Some (str_lines (log_text l'))) = map (record_of role) (take k (logged es))"
    using parse_reader_rows [OF assms(2) rows] k(2) by simp
  then show ?thesis using k unfolding l'_def by blast
qed



end
