(* ===== verification/Attack.thy ===== *)
theory Attack
  imports Stats LabLog
begin

text \<open>
  The adversary of \<open>src/src/correlation_attack.rs\<close>: the attacks a passive observer runs over a lab
  log and the report that scores them. A result of type \<open>'a option option\<close> is \<open>None\<close> where the code
  panics. The lemmas say what the verdicts mean: the series conserve the bytes of the log, traffic
  sent in the clear is flagged, and a perfect cover defeats every scored attack.
\<close>

section \<open>Configuration\<close>

record event_names =
  ev_wire :: rstr
  ev_real :: rstr

definition events_server :: event_names where
  "events_server = \<lparr>ev_wire = str_of ''server_wire_input'', ev_real = str_of ''server_real_output''\<rparr>"

definition events_client :: event_names where
  "events_client = \<lparr>ev_wire = str_of ''client_wire_output'', ev_real = str_of ''client_input''\<rparr>"

definition events_server_return :: event_names where
  "events_server_return = \<lparr>ev_wire = str_of ''server_wire_return'', ev_real = str_of ''server_bridge_reply''\<rparr>"

definition events_client_return :: event_names where
  "events_client_return = \<lparr>ev_wire = str_of ''client_wire_return'', ev_real = str_of ''client_inbound_real''\<rparr>"

record attack_config =
  bin_ms :: real
  max_lag_bins :: nat
  volume_corr_threshold :: real
  size_ks_threshold :: real
  min_bins :: nat

definition attack_default :: attack_config where
  "attack_default = \<lparr>bin_ms = 100, max_lag_bins = 20, volume_corr_threshold = 1 / 2,
     size_ks_threshold = 15 / 100, min_bins = 3\<rparr>"

section \<open>Reports\<close>

record size_report =
  sa_real_frames :: nat
  sa_dummy_frames :: nat
  sa_ks_statistic :: real
  sa_best_threshold_accuracy :: real
  sa_distinguishable :: bool

record volume_report =
  va_flow :: nat
  va_bins :: nat
  va_pearson :: real
  va_peak_cross_corr :: real
  va_peak_lag_bins :: int
  va_leaks :: bool

record total_volume_report =
  tv_flows :: nat
  tv_pearson_total :: real
  tv_spearman_total :: real
  tv_wire_cv :: real
  tv_totals :: "(nat \<times> real \<times> real) list"
  tv_leaks :: bool

record duration_report =
  dl_spans :: "(nat \<times> real \<times> real) list"
  dl_median_rel_gap :: real
  dl_leaks :: bool

record linking_report =
  la_flows :: nat
  la_linking_accuracy :: real
  la_chance :: real
  la_matches :: "(nat \<times> nat \<times> bool) list"
  la_beats_chance :: bool

record adversary_report =
  ar_size_attack :: "size_report option"
  ar_volume_attack :: "volume_report option"
  ar_volume_coarse :: "(real \<times> volume_report) list"
  ar_total_volume_attack :: "total_volume_report option"
  ar_duration_leak :: "duration_report option"
  ar_linking_attack :: "linking_report option"
  ar_conn_ids :: "nat list"
  ar_config :: attack_config

definition is_some_and :: "'a option \<Rightarrow> ('a \<Rightarrow> bool) \<Rightarrow> bool" where
  "is_some_and x P = (case x of None \<Rightarrow> False | Some a \<Rightarrow> P a)"

definition adversary_won :: "adversary_report \<Rightarrow> bool" where
  "adversary_won rep \<longleftrightarrow>
     is_some_and (ar_size_attack rep) sa_distinguishable \<or>
     is_some_and (ar_volume_attack rep) va_leaks \<or>
     list_ex (\<lambda>(_, a). va_leaks a) (ar_volume_coarse rep) \<or>
     is_some_and (ar_total_volume_attack rep) tv_leaks \<or>
     is_some_and (ar_linking_attack rep) la_beats_chance"

lemma is_some_and_iff: "is_some_and x P \<longleftrightarrow> (\<exists>a. x = Some a \<and> P a)"
  by (simp add: is_some_and_def split: option.splits)

section \<open>The attacks\<close>

definition relevant_event :: "event_names \<Rightarrow> log_record \<Rightarrow> bool" where
  "relevant_event ev r \<longleftrightarrow> lr_event r = ev_wire ev \<or> lr_event r = ev_real ev"

definition distinct_conn_ids :: "log_record list \<Rightarrow> event_names \<Rightarrow> nat list" where
  "distinct_conn_ids records ev =
     remdups_adj (sort (map lr_conn_id (filter (relevant_event ev) records)))"

definition sizes_of :: "log_record list \<Rightarrow> event_names \<Rightarrow> rstr \<Rightarrow> real list" where
  "sizes_of records ev kind =
     map (\<lambda>r. real (lr_bytes r)) (filter (\<lambda>r. lr_event r = ev_wire ev \<and> lr_kind r = kind) records)"

definition size_attack :: "log_record list \<Rightarrow> event_names \<Rightarrow> attack_config \<Rightarrow> size_report option" where
  "size_attack records ev cfg =
     (let real_sizes = sizes_of records ev (str_of ''real'');
          dummy_sizes = sizes_of records ev (str_of ''dummy'')
      in if real_sizes = [] \<or> dummy_sizes = [] then None
         else let ks = ks_statistic real_sizes dummy_sizes;
                  accuracy = best_threshold_accuracy real_sizes dummy_sizes
              in Some \<lparr>sa_real_frames = length real_sizes, sa_dummy_frames = length dummy_sizes,
                       sa_ks_statistic = ks, sa_best_threshold_accuracy = accuracy,
                       sa_distinguishable = ks > size_ks_threshold cfg\<rparr>)"

definition as_u128 :: "real \<Rightarrow> nat" where
  "as_u128 x = min (nat \<lfloor>x\<rfloor>) u128_max"

text \<open>\<open>v[idx] += x\<close>.\<close>

definition add_at :: "nat \<Rightarrow> real \<Rightarrow> real list \<Rightarrow> real list option" where
  "add_at idx x v = (if idx < length v then Some (v[idx := v ! idx + x]) else None)"

text \<open>\<open>((t_end - t0) / bin_ns) as usize + 1\<close>; the addition overflows at the last value of \<open>usize\<close>.\<close>

definition bin_count :: "nat \<Rightarrow> nat \<Rightarrow> nat \<Rightarrow> nat option" where
  "bin_count t0 t_end bin_ns =
     (let q = trunc64 ((t_end - t0) div bin_ns) in if q = u64_max then None else Some (q + 1))"

fun bin_records ::
  "event_names \<Rightarrow> nat \<Rightarrow> nat \<Rightarrow> log_record list \<Rightarrow> real list \<times> real list \<Rightarrow> (real list \<times> real list) option" where
  "bin_records ev t0 bin_ns [] series = Some series"
| "bin_records ev t0 bin_ns (r # rs) (wire, real_s) =
     (let idx = trunc64 ((lr_unix_nanos r - t0) div bin_ns)
      in if lr_event r = ev_wire ev then
           (case add_at idx (real (lr_bytes r)) wire of
              None \<Rightarrow> None
            | Some wire' \<Rightarrow> bin_records ev t0 bin_ns rs (wire', real_s))
         else
           (case add_at idx (real (lr_bytes r)) real_s of
              None \<Rightarrow> None
            | Some real' \<Rightarrow> bin_records ev t0 bin_ns rs (wire, real')))"

definition conn_relevant :: "event_names \<Rightarrow> nat option \<Rightarrow> log_record \<Rightarrow> bool" where
  "conn_relevant ev conn r \<longleftrightarrow> relevant_event ev r \<and> (case conn of None \<Rightarrow> True | Some i \<Rightarrow> lr_conn_id r = i)"

definition aligned_series ::
  "log_record list \<Rightarrow> event_names \<Rightarrow> real \<Rightarrow> nat option \<Rightarrow> (real list \<times> real list) option option" where
  "aligned_series records ev width conn =
     (let bin_ns = as_u128 (width * 1000000)
      in if bin_ns = 0 then Some None
         else
           let relevant = filter (conn_relevant ev conn) records
           in if relevant = [] then Some None
              else
                let t0 = Min (set (map lr_unix_nanos relevant));
                    t_end = Max (set (map lr_unix_nanos relevant))
                in case bin_count t0 t_end bin_ns of
                     None \<Rightarrow> None
                   | Some n_bins \<Rightarrow>
                       map_option Some
                         (bin_records ev t0 bin_ns relevant (replicate n_bins 0, replicate n_bins 0)))"

definition volume_candidate :: "attack_config \<Rightarrow> nat \<Rightarrow> real list \<Rightarrow> real list \<Rightarrow> volume_report" where
  "volume_candidate cfg i wire_series real_series =
     (let p = pearson wire_series real_series;
          (peak_lag, peak) = peak_cross_correlation wire_series real_series (max_lag_bins cfg)
      in \<lparr>va_flow = i, va_bins = length wire_series, va_pearson = p, va_peak_cross_corr = peak,
          va_peak_lag_bins = peak_lag,
          va_leaks = \<bar>peak\<bar> > volume_corr_threshold cfg \<or> \<bar>p\<bar> > volume_corr_threshold cfg\<rparr>)"

fun volume_loop ::
  "log_record list \<Rightarrow> event_names \<Rightarrow> attack_config \<Rightarrow> nat list \<Rightarrow> volume_report option \<Rightarrow>
   volume_report option option" where
  "volume_loop records ev cfg [] worst = Some worst"
| "volume_loop records ev cfg (i # is) worst =
     (case aligned_series records ev (bin_ms cfg) (Some i) of
        None \<Rightarrow> None
      | Some None \<Rightarrow> volume_loop records ev cfg is worst
      | Some (Some (wire_series, real_series)) \<Rightarrow>
          if length wire_series < max (min_bins cfg) 3 then volume_loop records ev cfg is worst
          else
            let cand = volume_candidate cfg i wire_series real_series
            in volume_loop records ev cfg is
                 (case worst of
                    None \<Rightarrow> Some cand
                  | Some w \<Rightarrow> if va_peak_cross_corr cand > va_peak_cross_corr w then Some cand else worst))"

definition volume_attack ::
  "log_record list \<Rightarrow> event_names \<Rightarrow> attack_config \<Rightarrow> nat list \<Rightarrow> volume_report option option" where
  "volume_attack records ev cfg conn_ids = volume_loop records ev cfg conn_ids None"

fun link_records ::
  "event_names \<Rightarrow> nat \<Rightarrow> nat \<Rightarrow> nat \<Rightarrow> log_record list \<Rightarrow>
   (nat \<rightharpoonup> real list) \<times> (nat \<rightharpoonup> real list) \<Rightarrow> ((nat \<rightharpoonup> real list) \<times> (nat \<rightharpoonup> real list)) option" where
  "link_records ev t0 bin_ns n_bins [] flows = Some flows"
| "link_records ev t0 bin_ns n_bins (r # rs) (wire, real_m) =
     (if lr_unix_nanos r < t0 then link_records ev t0 bin_ns n_bins rs (wire, real_m)
      else
        let idx = min (trunc64 ((lr_unix_nanos r - t0) div bin_ns)) (n_bins - 1); c = lr_conn_id r
        in if lr_event r = ev_wire ev then
             (case wire c of
                None \<Rightarrow> link_records ev t0 bin_ns n_bins rs (wire, real_m)
              | Some v \<Rightarrow>
                  (case add_at idx (real (lr_bytes r)) v of
                     None \<Rightarrow> None
                   | Some v' \<Rightarrow> link_records ev t0 bin_ns n_bins rs (wire(c \<mapsto> v'), real_m)))
           else if lr_event r = ev_real ev then
             (case real_m c of
                None \<Rightarrow> link_records ev t0 bin_ns n_bins rs (wire, real_m)
              | Some v \<Rightarrow>
                  (case add_at idx (real (lr_bytes r)) v of
                     None \<Rightarrow> None
                   | Some v' \<Rightarrow> link_records ev t0 bin_ns n_bins rs (wire, real_m(c \<mapsto> v'))))
           else link_records ev t0 bin_ns n_bins rs (wire, real_m))"

text \<open>The inner loop, with \<open>None\<close> for the negative infinity the best score starts from.\<close>

fun link_guess ::
  "nat \<Rightarrow> real list \<Rightarrow> (nat \<rightharpoonup> real list) \<Rightarrow> nat list \<Rightarrow> nat \<times> real option \<Rightarrow> nat option" where
  "link_guess lags wire_series real_m [] best = Some (fst best)"
| "link_guess lags wire_series real_m (i # is) best =
     (case real_m i of
        None \<Rightarrow> None
      | Some real_series \<Rightarrow>
          let score = snd (peak_cross_correlation wire_series real_series lags)
          in link_guess lags wire_series real_m is
               (if (case snd best of None \<Rightarrow> True | Some b \<Rightarrow> score > b) then (i, Some score) else best))"

fun link_matches ::
  "nat \<Rightarrow> (nat \<rightharpoonup> real list) \<Rightarrow> (nat \<rightharpoonup> real list) \<Rightarrow> nat list \<Rightarrow> nat list \<Rightarrow>
   (nat \<times> nat \<times> bool) list option" where
  "link_matches lags wire real_m conn_ids [] = Some []"
| "link_matches lags wire real_m conn_ids (i # is) =
     (case wire i of
        None \<Rightarrow> None
      | Some wire_series \<Rightarrow>
          (case link_guess lags wire_series real_m conn_ids (hd conn_ids, None) of
             None \<Rightarrow> None
           | Some best_id \<Rightarrow>
               map_option (\<lambda>ms. (i, best_id, best_id = i) # ms) (link_matches lags wire real_m conn_ids is)))"

definition link_series ::
  "log_record list \<Rightarrow> event_names \<Rightarrow> nat \<Rightarrow> nat list \<Rightarrow>
   ((nat \<rightharpoonup> real list) \<times> (nat \<rightharpoonup> real list)) option option" where
  "link_series records ev bin_ns conn_ids =
     (let relevant = filter (relevant_event ev) records
      in if relevant = [] then Some None
         else
           let t0 = Min (set (map lr_unix_nanos relevant));
               t_end = Max (set (map lr_unix_nanos relevant))
           in case bin_count t0 t_end bin_ns of
                None \<Rightarrow> None
              | Some n_bins \<Rightarrow>
                  let empty_m = (\<lambda>i. if i \<in> set conn_ids then Some (replicate n_bins 0) else None)
                  in map_option Some (link_records ev t0 bin_ns n_bins records (empty_m, empty_m)))"

definition linking_score :: "(nat \<times> nat \<times> bool) list \<Rightarrow> linking_report" where
  "linking_score matches =
     (let flows = length matches;
          correct = length (filter (\<lambda>(_, _, c). c) matches);
          accuracy = real correct / real flows;
          chance = 1 / real flows
      in \<lparr>la_flows = flows, la_linking_accuracy = accuracy, la_chance = chance, la_matches = matches,
          la_beats_chance = accuracy > chance + 1 / 1000000000 \<and> accuracy > 1 / 2\<rparr>)"

definition linking_attack ::
  "log_record list \<Rightarrow> event_names \<Rightarrow> attack_config \<Rightarrow> nat list \<Rightarrow> linking_report option option" where
  "linking_attack records ev cfg conn_ids =
     (let bin_ns = as_u128 (bin_ms cfg * 1000000)
      in if length conn_ids < 2 \<or> bin_ns = 0 then Some None
         else
           case link_series records ev bin_ns conn_ids of
             None \<Rightarrow> None
           | Some None \<Rightarrow> Some None
           | Some (Some (wire, real_m)) \<Rightarrow>
               map_option (Some \<circ> linking_score)
                 (link_matches (max_lag_bins cfg) wire real_m conn_ids conn_ids))"

definition flow_total :: "log_record list \<Rightarrow> event_names \<Rightarrow> nat \<Rightarrow> real \<times> real" where
  "flow_total records ev i =
     (let rs = filter (\<lambda>r. lr_conn_id r = i) records
      in ((\<Sum>r\<leftarrow>filter (\<lambda>r. lr_event r = ev_wire ev) rs. real (lr_bytes r)),
          (\<Sum>r\<leftarrow>filter (\<lambda>r. lr_event r \<noteq> ev_wire ev \<and> lr_event r = ev_real ev) rs. real (lr_bytes r))))"

definition MIN_DISTINGUISHABLE_CV :: real where
  "MIN_DISTINGUISHABLE_CV = 5 / 100"

definition total_volume_attack ::
  "log_record list \<Rightarrow> event_names \<Rightarrow> attack_config \<Rightarrow> nat list \<Rightarrow> total_volume_report option" where
  "total_volume_attack records ev cfg conn_ids =
     (if length conn_ids < 3 then None
      else
        let totals = filter (\<lambda>(_, _, real_t). real_t > 0)
              (map (\<lambda>i. let (wire, real_t) = flow_total records ev i in (i, wire, real_t)) conn_ids);
            wire_v = map (\<lambda>(_, wire, _). wire) totals;
            real_v = map (\<lambda>(_, _, real_t). real_t) totals
        in if length totals < 3 then None
           else
             let pearson_total = pearson wire_v real_v;
                 spearman_total = spearman wire_v real_v;
                 wire_mean = mean wire_v;
                 wire_cv = (if wire_mean > 0 then sqrt (variance wire_v) / wire_mean else 0);
                 correlated = \<bar>pearson_total\<bar> > volume_corr_threshold cfg \<or>
                              \<bar>spearman_total\<bar> > volume_corr_threshold cfg
             in Some \<lparr>tv_flows = length totals, tv_pearson_total = pearson_total,
                      tv_spearman_total = spearman_total, tv_wire_cv = wire_cv, tv_totals = totals,
                      tv_leaks = wire_cv \<ge> MIN_DISTINGUISHABLE_CV \<and> correlated\<rparr>)"

definition event_times :: "log_record list \<Rightarrow> rstr \<Rightarrow> nat \<Rightarrow> nat list" where
  "event_times records event i =
     map lr_unix_nanos (filter (\<lambda>r. lr_conn_id r = i \<and> lr_event r = event) records)"

definition span_ms :: "nat list \<Rightarrow> real" where
  "span_ms ts = real (Max (set ts) - Min (set ts)) / 1000000"

definition duration_leak ::
  "log_record list \<Rightarrow> event_names \<Rightarrow> nat list \<Rightarrow> duration_report option" where
  "duration_leak records ev conn_ids =
     (let spans = map (\<lambda>i. (i, span_ms (event_times records (ev_wire ev) i), span_ms (event_times records (ev_real ev) i)))
            (filter (\<lambda>i. \<not> (length (event_times records (ev_wire ev) i) < 2 \<or>
                            length (event_times records (ev_real ev) i) < 2)) conn_ids);
          rel_gaps = map (\<lambda>(_, wire_span, real_span). \<bar>wire_span - real_span\<bar> / real_span)
            (filter (\<lambda>(_, _, real_span). real_span > 0) spans)
      in if spans = [] then None
         else
           let had_gaps = rel_gaps \<noteq> [];
               median_rel_gap = median rel_gaps
           in Some \<lparr>dl_spans = spans, dl_median_rel_gap = median_rel_gap,
                    dl_leaks = had_gaps \<and> median_rel_gap < 20 / 100\<rparr>)"

section \<open>The driver\<close>

definition coarse_config :: "attack_config \<Rightarrow> real \<Rightarrow> attack_config" where
  "coarse_config cfg scale = cfg\<lparr>bin_ms := scale, min_bins := 30, max_lag_bins := 0\<rparr>"

fun coarse_loop ::
  "log_record list \<Rightarrow> event_names \<Rightarrow> attack_config \<Rightarrow> nat list \<Rightarrow> real list \<Rightarrow> (real \<times> volume_report) list option" where
  "coarse_loop records ev cfg conn_ids [] = Some []"
| "coarse_loop records ev cfg conn_ids (scale # scales) =
     (if scale \<le> bin_ms cfg * (3 / 2) then coarse_loop records ev cfg conn_ids scales
      else
        case volume_attack records ev (coarse_config cfg scale) conn_ids of
          None \<Rightarrow> None
        | Some None \<Rightarrow> coarse_loop records ev cfg conn_ids scales
        | Some (Some a) \<Rightarrow> map_option ((#) (scale, a)) (coarse_loop records ev cfg conn_ids scales))"

definition run_adversary ::
  "log_record list \<Rightarrow> event_names \<Rightarrow> attack_config \<Rightarrow> adversary_report option" where
  "run_adversary records ev cfg =
     (let conn_ids = distinct_conn_ids records ev
      in do {
        volume_coarse \<leftarrow> coarse_loop records ev cfg conn_ids [1000, 5000];
        volume \<leftarrow> volume_attack records ev cfg conn_ids;
        linking \<leftarrow> linking_attack records ev cfg conn_ids;
        Some \<lparr>ar_size_attack = size_attack records ev cfg, ar_volume_attack = volume,
              ar_volume_coarse = volume_coarse,
              ar_total_volume_attack = total_volume_attack records ev cfg conn_ids,
              ar_duration_leak = duration_leak records ev conn_ids,
              ar_linking_attack = linking, ar_conn_ids = conn_ids, ar_config = cfg\<rparr>
      })"

section \<open>The series conserve the bytes of the log\<close>

lemma add_at_in: "idx < length v \<Longrightarrow> add_at idx x v = Some (v[idx := v ! idx + x])"
  by (simp add: add_at_def)

lemma sum_list_bump: "idx < length v \<Longrightarrow> sum_list (v[idx := v ! idx + (x::real)]) = sum_list v + x"
  by (induction v arbitrary: idx) (auto simp: nth_Cons split: nat.splits)

lemma bin_records_conserve:
  assumes "\<forall>r\<in>set rs. trunc64 ((lr_unix_nanos r - t0) div bin_ns) < n" "length wire = n" "length real_s = n"
  shows "\<exists>w v. bin_records ev t0 bin_ns rs (wire, real_s) = Some (w, v) \<and> length w = n \<and> length v = n \<and>
    sum_list w = sum_list wire + (\<Sum>r\<leftarrow>filter (\<lambda>r. lr_event r = ev_wire ev) rs. real (lr_bytes r)) \<and>
    sum_list v = sum_list real_s + (\<Sum>r\<leftarrow>filter (\<lambda>r. lr_event r \<noteq> ev_wire ev) rs. real (lr_bytes r))"
  using assms
proof (induction rs arbitrary: wire real_s)
  case (Cons r rs)
  let ?i = "trunc64 ((lr_unix_nanos r - t0) div bin_ns)"
  have i: "?i < n" using Cons.prems by simp
  show ?case
  proof (cases "lr_event r = ev_wire ev")
    case True
    show ?thesis
      using Cons.IH [of "wire[?i := wire ! ?i + real (lr_bytes r)]" real_s] Cons.prems i True
      by (auto simp: add_at_in sum_list_bump Let_def)
  next
    case False
    show ?thesis
      using Cons.IH [of wire "real_s[?i := real_s ! ?i + real (lr_bytes r)]"] Cons.prems i False
      by (auto simp: add_at_in sum_list_bump Let_def)
  qed
qed simp

text \<open>Timestamps that fit in 64 bits of nanoseconds (until the year 2554).\<close>

definition times_ok :: "log_record list \<Rightarrow> bool" where
  "times_ok records \<longleftrightarrow> (\<forall>r\<in>set records. lr_unix_nanos r < u64_max)"

lemma div_le_self: "(n::nat) div b \<le> n"
  by simp

lemma bin_count_ok:
  assumes "t_end < u64_max"
  shows "bin_count t0 t_end b = Some ((t_end - t0) div b + 1)"
proof -
  have "(t_end - t0) div b < u64_max" using assms div_le_self [of "t_end - t0" b] by linarith
  then show ?thesis by (simp add: bin_count_def trunc64_id Let_def)
qed

lemma bin_index_ok:
  assumes "t_end < u64_max" "t \<le> t_end"
  shows "trunc64 ((t - t0) div b) < (t_end - t0) div b + 1"
proof -
  have "(t - t0) div b \<le> (t_end - t0) div b" using assms(2) by (intro div_le_mono) simp
  moreover have "(t_end - t0) div b < u64_max" using assms(1) div_le_self [of "t_end - t0" b] by linarith
  ultimately show ?thesis by (simp add: trunc64_id)
qed

lemma aligned_series_conserve:
  assumes "times_ok records"
  shows "aligned_series records ev width conn = Some None \<or>
    (\<exists>w v. aligned_series records ev width conn = Some (Some (w, v)) \<and> length w = length v \<and> w \<noteq> [] \<and>
      sum_list w = (\<Sum>r\<leftarrow>filter (\<lambda>r. conn_relevant ev conn r \<and> lr_event r = ev_wire ev) records. real (lr_bytes r)) \<and>
      sum_list v = (\<Sum>r\<leftarrow>filter (\<lambda>r. conn_relevant ev conn r \<and> lr_event r \<noteq> ev_wire ev) records. real (lr_bytes r)))"
proof -
  define b where "b = as_u128 (width * 1000000)"
  define rel where "rel = filter (conn_relevant ev conn) records"
  define t0 t_end where "t0 = Min (set (map lr_unix_nanos rel))" and "t_end = Max (set (map lr_unix_nanos rel))"
  define n where "n = (t_end - t0) div b + 1"
  show ?thesis
  proof (cases "b = 0 \<or> rel = []")
    case True
    then show ?thesis unfolding aligned_series_def rel_def [symmetric] b_def [symmetric] by (auto simp: Let_def)
  next
    case False
    have le: "lr_unix_nanos r \<le> t_end" if "r \<in> set rel" for r using that by (simp add: t_end_def)
    have "t_end \<in> set (map lr_unix_nanos rel)" using False unfolding t_end_def by (intro Max_in) auto
    then have te: "t_end < u64_max" using assms by (auto simp: times_ok_def rel_def)
    have idx: "\<forall>r\<in>set rel. trunc64 ((lr_unix_nanos r - t0) div b) < n"
      using bin_index_ok [OF te] le by (simp add: n_def)
    obtain w v where wv: "bin_records ev t0 b rel (replicate n 0, replicate n 0) = Some (w, v)"
      "length w = n" "length v = n"
      "sum_list w = (\<Sum>r\<leftarrow>filter (\<lambda>r. lr_event r = ev_wire ev) rel. real (lr_bytes r))"
      "sum_list v = (\<Sum>r\<leftarrow>filter (\<lambda>r. lr_event r \<noteq> ev_wire ev) rel. real (lr_bytes r))"
      using bin_records_conserve [OF idx, of "replicate n 0" "replicate n 0" ev] by (auto simp: sum_list_replicate)
    have "aligned_series records ev width conn = Some (Some (w, v))"
      unfolding aligned_series_def rel_def [symmetric] b_def [symmetric]
      using False wv(1) bin_count_ok [OF te, of t0 b] by (simp add: Let_def n_def t0_def t_end_def)
    moreover have "w \<noteq> []" using wv(2) by (auto simp: n_def)
    ultimately show ?thesis using wv by (simp add: rel_def filter_filter conj_commute)
  qed
qed

section \<open>The volume attack\<close>

lemma volume_loop_total:
  assumes "times_ok records"
  shows "\<exists>res. volume_loop records ev cfg is worst = Some res"
proof (induction "is" arbitrary: worst)
  case (Cons i "is")
  show ?case
    using aligned_series_conserve [OF assms, of ev "bin_ms cfg" "Some i"] Cons by (auto simp: Let_def)
qed simp

text \<open>The reported flow is a candidate, and no candidate has a higher peak.\<close>

definition volume_scored :: "log_record list \<Rightarrow> event_names \<Rightarrow> attack_config \<Rightarrow> nat \<Rightarrow> volume_report \<Rightarrow> bool" where
  "volume_scored records ev cfg i v \<longleftrightarrow>
     (\<exists>w s. aligned_series records ev (bin_ms cfg) (Some i) = Some (Some (w, s)) \<and>
       max (min_bins cfg) 3 \<le> length w \<and> v = volume_candidate cfg i w s)"

lemma volume_loop_worst:
  assumes "volume_loop records ev cfg is worst = Some res"
  shows "(res = worst \<or> (\<exists>i\<in>set is. \<exists>v. res = Some v \<and> volume_scored records ev cfg i v)) \<and>
    (\<forall>i\<in>set is. \<forall>v. volume_scored records ev cfg i v \<longrightarrow>
       (\<exists>u. res = Some u \<and> va_peak_cross_corr v \<le> va_peak_cross_corr u)) \<and>
    (\<forall>v. worst = Some v \<longrightarrow> (\<exists>u. res = Some u \<and> va_peak_cross_corr v \<le> va_peak_cross_corr u))"
  using assms
proof (induction "is" arbitrary: worst)
  case (Cons i "is")
  show ?case
  proof (cases "\<exists>v. volume_scored records ev cfg i v")
    case False
    then have skip: "volume_loop records ev cfg is worst = Some res"
      using Cons.prems by (auto simp: volume_scored_def split: option.splits if_splits)
    show ?thesis using Cons.IH [OF skip] False by auto
  next
    case True
    then obtain w s where ws: "aligned_series records ev (bin_ms cfg) (Some i) = Some (Some (w, s))"
      "max (min_bins cfg) 3 \<le> length w" by (auto simp: volume_scored_def)
    define cand where "cand = volume_candidate cfg i w s"
    have scored: "volume_scored records ev cfg i v \<longleftrightarrow> v = cand" for v
      using ws by (auto simp: volume_scored_def cand_def)
    define worst' where "worst' = (case worst of None \<Rightarrow> Some cand
      | Some u \<Rightarrow> if va_peak_cross_corr cand > va_peak_cross_corr u then Some cand else worst)"
    have step: "volume_loop records ev cfg is worst' = Some res"
      using Cons.prems ws by (simp add: worst'_def flip: cand_def)
    have w': "worst' = worst \<or> worst' = Some cand"
      "\<exists>u. worst' = Some u \<and> va_peak_cross_corr cand \<le> va_peak_cross_corr u"
      "\<And>v. worst = Some v \<Longrightarrow> \<exists>u. worst' = Some u \<and> va_peak_cross_corr v \<le> va_peak_cross_corr u"
      by (auto simp: worst'_def split: option.splits)
    note IH = Cons.IH [OF step]
    have up: "\<exists>u. res = Some u \<and> va_peak_cross_corr v \<le> va_peak_cross_corr u"
      if vu: "\<exists>u. worst' = Some u \<and> va_peak_cross_corr v \<le> va_peak_cross_corr u" for v
    proof -
      obtain u where u: "worst' = Some u" "va_peak_cross_corr v \<le> va_peak_cross_corr u" using vu by blast
      then obtain u' where "res = Some u'" "va_peak_cross_corr u \<le> va_peak_cross_corr u'" using IH by blast
      then show ?thesis using u(2) by (intro exI [of _ u']) simp
    qed
    have "res = worst \<or> (\<exists>i\<in>set (i # is). \<exists>v. res = Some v \<and> volume_scored records ev cfg i v)"
      using IH w'(1) scored [of cand] by auto
    moreover have "\<forall>j\<in>set (i # is). \<forall>v. volume_scored records ev cfg j v \<longrightarrow>
       (\<exists>u. res = Some u \<and> va_peak_cross_corr v \<le> va_peak_cross_corr u)"
      using IH up [OF w'(2)] scored by simp
    ultimately show ?thesis using up w'(3) by blast
  qed
qed simp

lemma volume_attack_spec:
  assumes "volume_attack records ev cfg ids = Some res"
  shows "res = None \<longrightarrow> (\<forall>i\<in>set ids. \<forall>v. \<not> volume_scored records ev cfg i v)"
    and "res = Some u \<longrightarrow> (\<exists>i\<in>set ids. volume_scored records ev cfg i u)"
    and "res = Some u \<and> i \<in> set ids \<and> volume_scored records ev cfg i v \<longrightarrow>
      va_peak_cross_corr v \<le> va_peak_cross_corr u"
  using volume_loop_worst [OF assms [unfolded volume_attack_def]] by auto

lemma candidate_constant:
  assumes "\<forall>x\<in>set w. x = c" "0 \<le> volume_corr_threshold cfg"
  shows "\<not> va_leaks (volume_candidate cfg i w s)"
  using assms by (simp add: volume_candidate_def peak_const [OF assms(1)] pearson_const [OF assms(1)])

lemma candidate_peak:
  "va_peak_cross_corr (volume_candidate cfg i w s) = snd (peak_cross_correlation w s (max_lag_bins cfg))"
  "va_leaks (volume_candidate cfg i w s) \<longleftrightarrow>
     volume_corr_threshold cfg < snd (peak_cross_correlation w s (max_lag_bins cfg)) \<or>
     volume_corr_threshold cfg < \<bar>pearson w s\<bar>"
  using peak_bounds [of w s "max_lag_bins cfg"]
  by (simp_all add: volume_candidate_def Let_def case_prod_beta)

lemma volume_constant:
  assumes "volume_attack records ev cfg ids = Some (Some u)" "0 \<le> volume_corr_threshold cfg"
    and "\<And>i w s. i \<in> set ids \<Longrightarrow> aligned_series records ev (bin_ms cfg) (Some i) = Some (Some (w, s)) \<Longrightarrow>
      \<exists>c. \<forall>x\<in>set w. x = c"
  shows "\<not> va_leaks u"
proof -
  obtain i where "i \<in> set ids" "volume_scored records ev cfg i u" using volume_attack_spec(2) [OF assms(1)] by auto
  then show ?thesis unfolding volume_scored_def using assms(2,3) candidate_constant by metis
qed

lemma volume_exposed:
  assumes "volume_attack records ev cfg ids = Some res" "volume_corr_threshold cfg < 1"
    and "i \<in> set ids" "aligned_series records ev (bin_ms cfg) (Some i) = Some (Some (w, w))"
    and "max (min_bins cfg) 3 \<le> length w" "x \<in> set w" "y \<in> set w" "x \<noteq> y"
  shows "\<exists>u. res = Some u \<and> va_leaks u"
proof -
  have scored: "volume_scored records ev cfg i (volume_candidate cfg i w w)"
    using assms(4,5) by (auto simp: volume_scored_def)
  have "1 \<le> snd (peak_cross_correlation w w (max_lag_bins cfg))"
    using peak_ge_pearson [of w w "max_lag_bins cfg"] pearson_self [OF assms(6-8)] assms(5) by simp
  then have one: "1 \<le> va_peak_cross_corr (volume_candidate cfg i w w)" by (simp add: candidate_peak)
  obtain u where u: "res = Some u"
    using volume_attack_spec(1) [OF assms(1)] scored assms(3) by (cases res) auto
  have "1 \<le> va_peak_cross_corr u"
    using volume_attack_spec(3) [OF assms(1)] u scored assms(3) one order_trans by blast
  moreover obtain j w' s' where "u = volume_candidate cfg j w' s'"
    using volume_attack_spec(2) [OF assms(1), of u] u unfolding volume_scored_def by blast
  ultimately show ?thesis using u assms(2) by (auto simp: candidate_peak)
qed

section \<open>The linking attack\<close>

definition series_map :: "nat \<Rightarrow> nat list \<Rightarrow> (nat \<rightharpoonup> real list) \<Rightarrow> bool" where
  "series_map n ids m \<longleftrightarrow> dom m = set ids \<and> (\<forall>i v. m i = Some v \<longrightarrow> length v = n)"

lemma series_map_update:
  "series_map n ids m \<Longrightarrow> m c = Some v \<Longrightarrow> series_map n ids (m(c \<mapsto> v[k := x]))"
  by (auto simp: series_map_def)

definition conn_wire_bytes :: "log_record list \<Rightarrow> event_names \<Rightarrow> nat \<Rightarrow> real" where
  "conn_wire_bytes rs ev i = (\<Sum>r\<leftarrow>filter (\<lambda>r. lr_conn_id r = i \<and> lr_event r = ev_wire ev) rs. real (lr_bytes r))"

lemma link_records_spec:
  assumes "series_map n ids wire" "series_map n ids real_m" "0 < n"
    and "\<forall>r\<in>set rs. lr_event r = ev_wire ev \<longrightarrow> t0 \<le> lr_unix_nanos r"
  shows "\<exists>w v. link_records ev t0 b n rs (wire, real_m) = Some (w, v) \<and> series_map n ids w \<and> series_map n ids v \<and>
    (\<forall>i\<in>set ids. sum_list (the (w i)) = sum_list (the (wire i)) + conn_wire_bytes rs ev i)"
  using assms
proof (induction rs arbitrary: wire real_m)
  case Nil
  then show ?case by (simp add: conn_wire_bytes_def)
next
  case (Cons r rs)
  let ?c = "lr_conn_id r" and ?k = "min (trunc64 ((lr_unix_nanos r - t0) div b)) (n - 1)"
  have k: "?k < n" using Cons.prems(3) by simp
  have later: "\<forall>r\<in>set rs. lr_event r = ev_wire ev \<longrightarrow> t0 \<le> lr_unix_nanos r" using Cons.prems(4) by simp
  have in_map: "m c = Some v \<Longrightarrow> c \<in> set ids \<and> length v = n" if "series_map n ids m" for m c v
    using that by (auto simp: series_map_def)
  show ?case
  proof (cases "lr_event r = ev_wire ev")
    case True
    then have t: "\<not> lr_unix_nanos r < t0" using Cons.prems(4) by auto
    show ?thesis
    proof (cases "wire ?c")
      case None
      then have "?c \<notin> set ids" using Cons.prems(1) by (auto simp: series_map_def)
      then show ?thesis using Cons.IH [OF Cons.prems(1-3) later] None True t
        by (auto simp: Let_def conn_wire_bytes_def)
    next
      case (Some v)
      note len = in_map [OF Cons.prems(1) Some]
      define v' where "v' = v[?k := v ! ?k + real (lr_bytes r)]"
      have m': "series_map n ids (wire(?c \<mapsto> v'))"
        unfolding v'_def using Cons.prems(1) Some by (rule series_map_update)
      have s': "sum_list v' = sum_list v + real (lr_bytes r)" using k len by (simp add: v'_def sum_list_bump)
      have step: "link_records ev t0 b n (r # rs) (wire, real_m) = link_records ev t0 b n rs (wire(?c \<mapsto> v'), real_m)"
        using True t Some k len by (simp add: add_at_in v'_def Let_def)
      obtain w u where wu: "link_records ev t0 b n rs (wire(?c \<mapsto> v'), real_m) = Some (w, u)"
        "series_map n ids w" "series_map n ids u"
        "\<forall>i\<in>set ids. sum_list (the (w i)) = sum_list (the ((wire(?c \<mapsto> v')) i)) + conn_wire_bytes rs ev i"
        using Cons.IH [OF m' Cons.prems(2,3) later] by blast
      have bytes: "conn_wire_bytes (r # rs) ev i = (if i = ?c then real (lr_bytes r) else 0) + conn_wire_bytes rs ev i" for i
        using True by (simp add: conn_wire_bytes_def)
      have "\<forall>i\<in>set ids. sum_list (the (w i)) = sum_list (the (wire i)) + conn_wire_bytes (r # rs) ev i"
        using wu(4) s' Some by (simp add: bytes)
      then show ?thesis unfolding step using wu by blast
    qed
  next
    case False
    have bytes: "conn_wire_bytes (r # rs) ev i = conn_wire_bytes rs ev i" for i using False by (simp add: conn_wire_bytes_def)
    show ?thesis
    proof (cases "lr_unix_nanos r < t0 \<or> lr_event r \<noteq> ev_real ev \<or> real_m ?c = None")
      case True
      then have "link_records ev t0 b n (r # rs) (wire, real_m) = link_records ev t0 b n rs (wire, real_m)"
        using False by (auto simp: Let_def)
      then show ?thesis using Cons.IH [OF Cons.prems(1-3) later] bytes by simp
    next
      case act: False
      then obtain v where v: "real_m ?c = Some v" by auto
      define v' where "v' = v[?k := v ! ?k + real (lr_bytes r)]"
      have m': "series_map n ids (real_m(?c \<mapsto> v'))"
        unfolding v'_def using Cons.prems(2) v by (rule series_map_update)
      have step: "link_records ev t0 b n (r # rs) (wire, real_m) = link_records ev t0 b n rs (wire, real_m(?c \<mapsto> v'))"
        using False act v k in_map [OF Cons.prems(2) v] by (simp add: add_at_in v'_def Let_def)
      show ?thesis unfolding step bytes using Cons.IH [OF Cons.prems(1) m' Cons.prems(3) later] by blast
    qed
  qed
qed

lemma link_series_spec:
  assumes "times_ok records"
  shows "link_series records ev b ids = Some None \<or>
    (\<exists>n w v. link_series records ev b ids = Some (Some (w, v)) \<and> series_map n ids w \<and> series_map n ids v \<and>
      (\<forall>i\<in>set ids. sum_list (the (w i)) = conn_wire_bytes records ev i))"
proof -
  define rel where "rel = filter (relevant_event ev) records"
  define t0 t_end where "t0 = Min (set (map lr_unix_nanos rel))" and "t_end = Max (set (map lr_unix_nanos rel))"
  define n where "n = (t_end - t0) div b + 1"
  define m0 where "m0 = (\<lambda>i. if i \<in> set ids then Some (replicate n (0::real)) else None)"
  show ?thesis
  proof (cases "rel = []")
    case True
    then show ?thesis unfolding link_series_def rel_def [symmetric] by simp
  next
    case False
    have "t_end \<in> set (map lr_unix_nanos rel)" using False unfolding t_end_def by (intro Max_in) auto
    then have te: "t_end < u64_max" using assms by (auto simp: times_ok_def rel_def)
    have t0: "\<forall>r\<in>set records. lr_event r = ev_wire ev \<longrightarrow> t0 \<le> lr_unix_nanos r"
      by (auto simp: t0_def rel_def relevant_event_def)
    have m0: "series_map n ids m0" by (auto simp: series_map_def m0_def dom_def)
    obtain w v where wv: "link_records ev t0 b n records (m0, m0) = Some (w, v)" "series_map n ids w" "series_map n ids v"
      "\<forall>i\<in>set ids. sum_list (the (w i)) = sum_list (the (m0 i)) + conn_wire_bytes records ev i"
      using link_records_spec [OF m0 m0 _ t0, of b] by (auto simp: n_def)
    have "link_series records ev b ids = Some (Some (w, v))"
      unfolding link_series_def Let_def rel_def [symmetric] t0_def [symmetric] t_end_def [symmetric]
      using False wv(1) bin_count_ok [OF te, of t0 b, folded n_def] by (simp flip: m0_def)
    then show ?thesis using wv by (auto simp: m0_def sum_list_replicate)
  qed
qed

lemma link_guess_total:
  assumes "set is \<subseteq> dom real_m"
  shows "\<exists>g. link_guess lags ws real_m is best = Some g \<and> (g = fst best \<or> g \<in> set is)"
  using assms
proof (induction "is" arbitrary: best)
  case (Cons i "is")
  obtain rs where "real_m i = Some rs" using Cons.prems by auto
  then show ?case
    using Cons.IH [of "if (case snd best of None \<Rightarrow> True | Some b \<Rightarrow> snd (peak_cross_correlation ws rs lags) > b)
      then (i, Some (snd (peak_cross_correlation ws rs lags))) else best"] Cons.prems
    by (auto simp: Let_def split: if_splits)
qed simp

lemma link_matches_total:
  assumes "set is \<subseteq> dom wire" "set ids \<subseteq> dom real_m"
  shows "\<exists>ms. link_matches lags wire real_m ids is = Some ms \<and> map fst ms = is \<and>
    (\<forall>(i, g, c)\<in>set ms. c = (g = i) \<and> link_guess lags (the (wire i)) real_m ids (hd ids, None) = Some g)"
  using assms
proof (induction "is")
  case (Cons i "is")
  obtain ws where "wire i = Some ws" using Cons.prems(1) by auto
  moreover obtain g where "link_guess lags ws real_m ids (hd ids, None) = Some g"
    using link_guess_total [OF assms(2), of lags ws "(hd ids, None)"] by auto
  moreover obtain ms where "link_matches lags wire real_m ids is = Some ms" "map fst ms = is"
    "\<forall>(i, g, c)\<in>set ms. c = (g = i) \<and> link_guess lags (the (wire i)) real_m ids (hd ids, None) = Some g"
    using Cons by auto
  ultimately show ?case by (intro exI [of _ "(i, g, g = i) # ms"]) simp
qed simp

text \<open>When every flow looks the same on the wire, every flow gets the same guess.\<close>

lemma same_guess_once:
  assumes "distinct (map fst ms)" "g \<in> fst ` set ms" "\<forall>(i, h, c)\<in>set ms. h = g \<and> c = (h = i)"
  shows "length (filter (\<lambda>(_, _, c). c) ms) = (1::nat)"
proof -
  have eq: "filter (\<lambda>(_, _, c). c) ms = filter (\<lambda>m. fst m = g) ms"
    using assms(3) by (intro filter_cong) auto
  obtain p where p: "p < length ms" "fst (ms ! p) = g" using assms(2) by (auto simp: in_set_conv_nth)
  have "{q. q < length ms \<and> fst (ms ! q) = g} = {p}"
    using p assms(1) by (auto simp: distinct_conv_nth)
  then show ?thesis by (simp add: eq length_filter_conv_card)
qed

section \<open>The other attacks and the driver\<close>

lemma distinct_conn_ids_distinct: "distinct (distinct_conn_ids records ev)"
proof -
  have "sorted xs \<Longrightarrow> distinct (remdups_adj xs)" for xs :: "nat list"
    by (induction xs rule: remdups_adj.induct) (auto simp: order_le_less)
  then show ?thesis by (simp add: distinct_conn_ids_def)
qed

lemma size_uniform:
  assumes "\<forall>r\<in>set records. lr_event r = ev_wire ev \<longrightarrow> lr_bytes r = s" "0 \<le> size_ks_threshold cfg"
    and "size_attack records ev cfg = Some u"
  shows "\<not> sa_distinguishable u"
proof -
  define a b where "a = sizes_of records ev (str_of ''real'')" and "b = sizes_of records ev (str_of ''dummy'')"
  have ab: "a \<noteq> []" "b \<noteq> []" "set a \<subseteq> {real s}" "set b \<subseteq> {real s}"
    using assms(1,3) by (auto simp: size_attack_def a_def b_def sizes_of_def Let_def split: if_splits)
  have full: "ecdf xs (real s) = 1" if "xs \<noteq> []" "set xs \<subseteq> {real s}" for xs
  proof -
    have "filter (\<lambda>x. x \<le> real s) xs = xs" using that(2) by (auto simp: filter_id_conv)
    then show ?thesis using that(1) by (simp add: ecdf_def)
  qed
  obtain t where "t \<in> set a \<union> set b" "ks_statistic a b = ecdf_gap a b t" using ks_sup(2) [OF ab(1,2)] by blast
  moreover from this have "t = real s" using ab by auto
  ultimately have "ks_statistic a b = 0" using ab full by (simp add: ecdf_gap_def)
  then show ?thesis using assms(2,3) ab(1,2) by (auto simp: size_attack_def Let_def simp flip: a_def b_def)
qed

lemma flow_total_wire: "fst (flow_total records ev i) = conn_wire_bytes records ev i"
  by (simp add: flow_total_def conn_wire_bytes_def Let_def conj_commute)

lemma variance_const: "\<forall>x\<in>set xs. x = c \<Longrightarrow> variance xs = 0"
  using mean_const [of xs c] by (auto simp: variance_def Let_def intro!: sum_list_zero_on)

lemma total_volume_uniform:
  assumes "\<forall>i\<in>set ids. conn_wire_bytes records ev i = W" "total_volume_attack records ev cfg ids = Some u"
  shows "\<not> tv_leaks u"
proof -
  define totals where "totals = filter (\<lambda>(_, _, real_t). real_t > 0)
    (map (\<lambda>i. let (wire, real_t) = flow_total records ev i in (i, wire, real_t)) ids)"
  have "\<forall>x\<in>set (map (\<lambda>(_, wire, _). wire) totals). x = W"
    using assms(1) unfolding totals_def flow_total_wire [symmetric]
    by (auto simp: case_prod_unfold) (metis fst_conv)
  then have "variance (map (\<lambda>(_, wire, _). wire) totals) = 0" by (rule variance_const)
  then show ?thesis
    using assms(2) unfolding total_volume_attack_def Let_def totals_def [unfolded Let_def, symmetric]
    by (auto simp: MIN_DISTINGUISHABLE_CV_def split: if_splits)
qed

lemma coarse_loop_total:
  assumes "times_ok records"
  shows "\<exists>res. coarse_loop records ev cfg ids scales = Some res \<and>
    (\<forall>(scale, a)\<in>set res. scale \<in> set scales \<and>
       volume_attack records ev (coarse_config cfg scale) ids = Some (Some a))"
proof (induction scales)
  case (Cons scale scales)
  obtain v where "volume_attack records ev (coarse_config cfg scale) ids = Some v"
    using volume_loop_total [OF assms] unfolding volume_attack_def by blast
  then show ?case using Cons by (cases v) auto
qed simp

lemma linking_total:
  assumes "times_ok records"
  shows "linking_attack records ev cfg ids = Some None \<or>
    (\<exists>wire real_m ms. link_series records ev (as_u128 (bin_ms cfg * 1000000)) ids = Some (Some (wire, real_m)) \<and>
       linking_attack records ev cfg ids = Some (Some (linking_score ms)) \<and> map fst ms = ids \<and> 2 \<le> length ids \<and>
       set ids = dom wire \<and> set ids = dom real_m \<and>
       (\<forall>(i, g, c)\<in>set ms. c = (g = i) \<and>
          link_guess (max_lag_bins cfg) (the (wire i)) real_m ids (hd ids, None) = Some g))"
proof (cases "length ids < 2 \<or> as_u128 (bin_ms cfg * 1000000) = 0 \<or>
    link_series records ev (as_u128 (bin_ms cfg * 1000000)) ids = Some None")
  case True
  then show ?thesis by (auto simp: linking_attack_def Let_def)
next
  case False
  then obtain n wire real_m where s: "link_series records ev (as_u128 (bin_ms cfg * 1000000)) ids = Some (Some (wire, real_m))"
    "series_map n ids wire" "series_map n ids real_m"
    using link_series_spec [OF assms, of ev "as_u128 (bin_ms cfg * 1000000)" ids] by auto
  then have dom: "set ids = dom wire" "set ids = dom real_m" by (simp_all add: series_map_def)
  obtain ms where "link_matches (max_lag_bins cfg) wire real_m ids ids = Some ms" "map fst ms = ids"
    "\<forall>(i, g, c)\<in>set ms. c = (g = i) \<and>
       link_guess (max_lag_bins cfg) (the (wire i)) real_m ids (hd ids, None) = Some g"
    using link_matches_total [of ids wire ids real_m] dom by blast
  then show ?thesis using s(1) dom False by (intro disjI2 exI conjI) (auto simp: linking_attack_def Let_def)
qed

lemma linking_score_beats:
  assumes "2 \<le> length ms"
  shows "la_beats_chance (linking_score ms) \<longleftrightarrow> length ms < 2 * length (filter (\<lambda>(_, _, c). c) ms)"
proof -
  define k n where "k = real (length (filter (\<lambda>(_, _, c). c) ms))" and "n = real (length ms)"
  have n: "2 \<le> n" "n \<in> \<nat>" using assms by (simp_all add: n_def)
  have "1 / n + 1 / 1000000000 < k / n" if "n < 2 * k"
  proof (cases "n = 2")
    case True
    then have "2 \<le> k" using that by (simp add: k_def)
    then show ?thesis using True by simp
  next
    case False
    then have "3 \<le> n" using assms by (simp add: n_def)
    then have "1 / n \<le> 1 / 3" by simp
    moreover have "1 / 2 < k / n" using that n by (simp add: field_simps)
    ultimately show ?thesis by linarith
  qed
  moreover have "1 / 2 < k / n \<longleftrightarrow> n < 2 * k" using n by (simp add: field_simps)
  ultimately have "la_beats_chance (linking_score ms) \<longleftrightarrow> n < 2 * k"
    by (auto simp: linking_score_def Let_def simp flip: k_def n_def)
  then show ?thesis unfolding k_def n_def by linarith
qed

lemma linking_uniform:
  assumes "times_ok records" "distinct ids" "linking_attack records ev cfg ids = Some (Some u)"
    and "\<And>wire real_m. link_series records ev (as_u128 (bin_ms cfg * 1000000)) ids = Some (Some (wire, real_m)) \<Longrightarrow>
      \<exists>ws. \<forall>i\<in>set ids. wire i = Some ws"
  shows "\<not> la_beats_chance u \<and> la_linking_accuracy u = la_chance u"
proof -
  obtain wire real_m ms where s: "link_series records ev (as_u128 (bin_ms cfg * 1000000)) ids = Some (Some (wire, real_m))"
    "u = linking_score ms" "map fst ms = ids" "2 \<le> length ids" "set ids = dom real_m"
    "\<forall>(i, g, c)\<in>set ms. c = (g = i) \<and> link_guess (max_lag_bins cfg) (the (wire i)) real_m ids (hd ids, None) = Some g"
    using linking_total [OF assms(1), of ev cfg ids] assms(3) by auto
  obtain ws where ws: "\<forall>i\<in>set ids. wire i = Some ws" using assms(4) [OF s(1)] by blast
  obtain g where g: "link_guess (max_lag_bins cfg) ws real_m ids (hd ids, None) = Some g" "g = hd ids \<or> g \<in> set ids"
    using link_guess_total [of ids real_m "max_lag_bins cfg" ws "(hd ids, None)"] s(5) by auto
  have "ids \<noteq> []" using s(4) by auto
  have "g \<in> fst ` set ms" using g(2) \<open>ids \<noteq> []\<close> s(3) by (metis list.set_map hd_in_set)
  moreover have "\<forall>(i, h, c)\<in>set ms. h = g \<and> c = (h = i)"
  proof (clarify)
    fix i h c assume m: "(i, h, c) \<in> set ms"
    then have "i \<in> set ids" using s(3) by force
    then show "h = g \<and> c = (h = i)" using m s(6) ws g(1) by fastforce
  qed
  ultimately have one: "length (filter (\<lambda>(_, _, c). c) ms) = 1" using assms(2) s(3) by (intro same_guess_once) auto
  have len: "length ms = length ids" using s(3) by (metis length_map)
  then have "\<not> la_beats_chance u" using linking_score_beats [of ms] s(2,4) one by simp
  moreover have "la_linking_accuracy u = la_chance u" using one s(2) by (simp add: linking_score_def Let_def)
  ultimately show ?thesis by simp
qed

section \<open>Properties\<close>

definition perfect_cover :: "log_record list \<Rightarrow> event_names \<Rightarrow> attack_config \<Rightarrow> bool" where
  "perfect_cover records ev cfg \<longleftrightarrow>
     (\<exists>s. \<forall>r\<in>set records. lr_event r = ev_wire ev \<longrightarrow> lr_bytes r = s) \<and>
     (\<forall>i\<in>set (distinct_conn_ids records ev). \<forall>width\<in>{bin_ms cfg, 1000, 5000}. \<forall>w s.
        aligned_series records ev width (Some i) = Some (Some (w, s)) \<longrightarrow> (\<exists>c. \<forall>x\<in>set w. x = c)) \<and>
     (\<forall>wire real_m.
        link_series records ev (as_u128 (bin_ms cfg * 1000000)) (distinct_conn_ids records ev) =
          Some (Some (wire, real_m)) \<longrightarrow>
        (\<exists>ws. \<forall>i\<in>set (distinct_conn_ids records ev). wire i = Some ws)) \<and>
     (\<exists>W. \<forall>i\<in>set (distinct_conn_ids records ev). conn_wire_bytes records ev i = W)"

lemma cover_defeats:
  assumes "times_ok records" "perfect_cover records ev cfg"
    and "0 \<le> size_ks_threshold cfg" "0 \<le> volume_corr_threshold cfg"
  shows "\<exists>rep. run_adversary records ev cfg = Some rep \<and> \<not> adversary_won rep"
proof -
  define ids where "ids = distinct_conn_ids records ev"
  note cover = assms(2) [unfolded perfect_cover_def, folded ids_def]
  note flat = cover [THEN conjunct2, THEN conjunct1, rule_format]
  obtain coarse where coarse: "coarse_loop records ev cfg ids [1000, 5000] = Some coarse"
    "\<forall>(scale, a)\<in>set coarse. scale \<in> {1000, 5000} \<and>
       volume_attack records ev (coarse_config cfg scale) ids = Some (Some a)"
    using coarse_loop_total [OF assms(1)] by fastforce
  obtain vol where vol: "volume_attack records ev cfg ids = Some vol"
    using volume_loop_total [OF assms(1)] unfolding volume_attack_def by blast
  obtain link where link: "linking_attack records ev cfg ids = Some link"
    using linking_total [OF assms(1), of ev cfg ids] by blast
  have run: "\<exists>rep. run_adversary records ev cfg = Some rep \<and> ar_size_attack rep = size_attack records ev cfg \<and>
    ar_volume_attack rep = vol \<and> ar_volume_coarse rep = coarse \<and>
    ar_total_volume_attack rep = total_volume_attack records ev cfg ids \<and> ar_linking_attack rep = link"
    using coarse(1) vol link by (simp add: run_adversary_def ids_def Let_def)
  have "\<not> sa_distinguishable u" if "size_attack records ev cfg = Some u" for u
    using cover [THEN conjunct1] size_uniform [OF _ assms(3) that] by blast
  moreover have "\<not> va_leaks u" if "vol = Some u" for u
  proof (rule volume_constant [OF _ assms(4)])
    show "volume_attack records ev cfg ids = Some (Some u)" using vol that by simp
  qed (rule flat [of _ "bin_ms cfg"], auto)
  moreover have "\<not> va_leaks a" if m: "(scale, a) \<in> set coarse" for scale a
  proof (rule volume_constant [of records ev "coarse_config cfg scale" ids])
    show "volume_attack records ev (coarse_config cfg scale) ids = Some (Some a)" using coarse(2) m by auto
    show "0 \<le> volume_corr_threshold (coarse_config cfg scale)" using assms(4) by (simp add: coarse_config_def)
    have "scale \<in> {1000, 5000}" using coarse(2) m by auto
    then show "\<exists>c. \<forall>x\<in>set w. x = c"
      if "i \<in> set ids" "aligned_series records ev (bin_ms (coarse_config cfg scale)) (Some i) = Some (Some (w, s))"
      for i w s using flat [of i scale w s] that by (auto simp: coarse_config_def)
  qed
  moreover have "\<not> tv_leaks u" if "total_volume_attack records ev cfg ids = Some u" for u
    using cover [THEN conjunct2, THEN conjunct2, THEN conjunct2] total_volume_uniform [OF _ that] by blast
  moreover have "\<not> la_beats_chance u" if "link = Some u" for u
    using cover [THEN conjunct2, THEN conjunct2, THEN conjunct1] link that distinct_conn_ids_distinct [of records ev]
      linking_uniform [OF assms(1), of ids ev cfg u] unfolding ids_def [symmetric] by blast
  moreover obtain rep where rep: "run_adversary records ev cfg = Some rep"
    "ar_size_attack rep = size_attack records ev cfg" "ar_volume_attack rep = vol" "ar_volume_coarse rep = coarse"
    "ar_total_volume_attack rep = total_volume_attack records ev cfg ids" "ar_linking_attack rep = link"
    using run by blast
  ultimately have "\<not> adversary_won rep" by (auto simp: adversary_won_def is_some_and_iff list_ex_iff)
  then show ?thesis using rep(1) by blast
qed


definition log_rec :: "nat \<Rightarrow> string \<Rightarrow> nat \<Rightarrow> nat \<Rightarrow> string \<Rightarrow> log_record" where
  "log_rec ms event conn len kind = \<lparr>lr_unix_nanos = ms * 1000000, lr_role = str_of ''server'',
     lr_event = str_of event, lr_conn_id = conn, lr_seq = 0, lr_bytes = len, lr_kind = str_of kind\<rparr>"

definition cover_log :: "log_record list" where
  "cover_log =
     [log_rec 0 ''server_wire_input'' 7 500 ''real'', log_rec 0 ''server_wire_input'' 8 500 ''dummy'',
      log_rec 100 ''server_wire_input'' 7 500 ''dummy'', log_rec 100 ''server_wire_input'' 8 500 ''dummy'',
      log_rec 150 ''server_real_output'' 7 300 ''real'',
      log_rec 200 ''server_wire_input'' 7 500 ''dummy'', log_rec 200 ''server_wire_input'' 8 500 ''real'',
      log_rec 250 ''server_real_output'' 8 40 ''real'']"

lemma log_rec_sel:
  "lr_unix_nanos (log_rec t e i n k) = t * 1000000" "lr_bytes (log_rec t e i n k) = n"
  "lr_conn_id (log_rec t e i n k) = i" "lr_event (log_rec t e i n k) = str_of e"
  by (simp_all add: log_rec_def)

lemma server_events:
  "ev_wire events_server = str_of ''server_wire_input''" "ev_real events_server = str_of ''server_real_output''"
  "str_of ''server_real_output'' \<noteq> str_of ''server_wire_input''"
  by (simp_all add: events_server_def str_of_def)

lemma cover_log_conn:
  "filter (conn_relevant events_server (Some 7)) cover_log =
     [log_rec 0 ''server_wire_input'' 7 500 ''real'', log_rec 100 ''server_wire_input'' 7 500 ''dummy'',
      log_rec 150 ''server_real_output'' 7 300 ''real'', log_rec 200 ''server_wire_input'' 7 500 ''dummy'']"
  "filter (conn_relevant events_server (Some 8)) cover_log =
     [log_rec 0 ''server_wire_input'' 8 500 ''dummy'', log_rec 100 ''server_wire_input'' 8 500 ''dummy'',
      log_rec 200 ''server_wire_input'' 8 500 ''real'', log_rec 250 ''server_real_output'' 8 40 ''real'']"
  "filter (relevant_event events_server) cover_log = cover_log"
  by (simp_all add: conn_relevant_def relevant_event_def cover_log_def log_rec_sel server_events)

lemma sample_widths:
  "as_u128 100000000 = 100000000" "as_u128 1000000000 = 1000000000" "as_u128 5000000000 = 5000000000"
  by (simp_all add: as_u128_def u128_max_def)

lemma sample_bins:
  "bin_count 0 200000000 100000000 = Some 3" "bin_count 0 250000000 100000000 = Some 3"
  "bin_count 0 200000000 1000000000 = Some 1" "bin_count 0 250000000 1000000000 = Some 1"
  "bin_count 0 200000000 5000000000 = Some 1" "bin_count 0 250000000 5000000000 = Some 1"
  by (simp_all add: bin_count_def trunc64_def u64_max_def)

lemma three_bins: "replicate 3 (0::real) = [0, 0, 0]"
  by (simp add: numeral_3_eq_3)

lemma cover_log_ids: "distinct_conn_ids cover_log events_server = [7, 8]"
  unfolding distinct_conn_ids_def cover_log_conn by (simp add: cover_log_def log_rec_sel)

lemmas sample_simps = cover_log_conn log_rec_sel server_events sample_widths sample_bins three_bins trunc64_def add_at_def

lemma cover_log_series:
  "aligned_series cover_log events_server 100 (Some 7) = Some (Some ([500, 500, 500], [0, 300, 0]))"
  "aligned_series cover_log events_server 100 (Some 8) = Some (Some ([500, 500, 500], [0, 0, 40]))"
  "aligned_series cover_log events_server 1000 (Some 7) = Some (Some ([1500], [300]))"
  "aligned_series cover_log events_server 1000 (Some 8) = Some (Some ([1500], [40]))"
  "aligned_series cover_log events_server 5000 (Some 7) = Some (Some ([1500], [300]))"
  "aligned_series cover_log events_server 5000 (Some 8) = Some (Some ([1500], [40]))"
  by (simp_all add: aligned_series_def sample_simps)

lemma cover_log_links:
  "\<exists>w v. link_series cover_log events_server 100000000 [7, 8] = Some (Some (w, v)) \<and>
    w 7 = Some [500, 500, 500] \<and> w 8 = Some [500, 500, 500]"
  unfolding link_series_def cover_log_conn
  by (simp add: cover_log_def log_rec_sel server_events sample_bins three_bins trunc64_def add_at_def Let_def)

lemma cover_log_bytes: "conn_wire_bytes cover_log events_server 7 = 1500" "conn_wire_bytes cover_log events_server 8 = 1500"
  by (simp_all add: conn_wire_bytes_def cover_log_def log_rec_sel server_events)

lemma cover_log_perfect: "perfect_cover cover_log events_server attack_default"
proof -
  have "\<forall>r\<in>set cover_log. lr_event r = ev_wire events_server \<longrightarrow> lr_bytes r = 500"
    by (simp add: cover_log_def log_rec_sel server_events)
  moreover have "\<exists>ws. \<forall>i\<in>set [7, 8]. w i = Some ws"
    if "link_series cover_log events_server 100000000 [7, 8] = Some (Some (w, v))" for w v
    using cover_log_links that by auto
  ultimately show ?thesis
    unfolding perfect_cover_def cover_log_ids
    by (auto simp: attack_default_def cover_log_series cover_log_bytes sample_widths)
qed


lemma clear_flow_exposed:
  assumes "times_ok records" "volume_corr_threshold cfg < 1" "i \<in> set (distinct_conn_ids records ev)"
    and "aligned_series records ev (bin_ms cfg) (Some i) = Some (Some (w, w))"
    and "max (min_bins cfg) 3 \<le> length w" "x \<in> set w" "y \<in> set w" "x \<noteq> y"
  shows "\<exists>rep. run_adversary records ev cfg = Some rep \<and> adversary_won rep"
proof -
  define ids where "ids = distinct_conn_ids records ev"
  obtain coarse where coarse: "coarse_loop records ev cfg ids [1000, 5000] = Some coarse"
    using coarse_loop_total [OF assms(1), of ev cfg ids "[1000, 5000]"] by blast
  obtain vol where vol: "volume_attack records ev cfg ids = Some vol"
    using volume_loop_total [OF assms(1)] unfolding volume_attack_def by blast
  obtain link where link: "linking_attack records ev cfg ids = Some link"
    using linking_total [OF assms(1), of ev cfg ids] by blast
  obtain u where "vol = Some u" "va_leaks u"
    using volume_exposed [OF vol assms(2) _ assms(4-8)] assms(3) by (auto simp: ids_def)
  then show ?thesis
    using coarse vol link by (simp add: run_adversary_def adversary_won_def is_some_and_iff ids_def Let_def)
qed

lemma run_adversary_total:
  assumes "times_ok records"
  shows "\<exists>rep. run_adversary records ev cfg = Some rep"
proof -
  define ids where "ids = distinct_conn_ids records ev"
  obtain coarse where coarse: "coarse_loop records ev cfg ids [1000, 5000] = Some coarse"
    using coarse_loop_total [OF assms, of ev cfg ids "[1000, 5000]"] by blast
  obtain vol where vol: "volume_attack records ev cfg ids = Some vol"
    using volume_loop_total [OF assms] unfolding volume_attack_def by blast
  obtain link where link: "linking_attack records ev cfg ids = Some link"
    using linking_total [OF assms, of ev cfg ids] by blast
  show ?thesis using coarse vol link by (simp add: run_adversary_def ids_def Let_def)
qed

text \<open>C27: The evaluation does not miss a leak: when the bytes a flow shows on the wire in each bin
  are those of its real traffic, and the flow has enough bins and is not constant, the report says
  that the adversary won, whatever the other flows do.\<close>

theorem clear_traffic_detected:
  assumes "times_ok records" "volume_corr_threshold cfg < 1" "i \<in> set (distinct_conn_ids records ev)"
    and "aligned_series records ev (bin_ms cfg) (Some i) = Some (Some (w, w))"
    and "max (min_bins cfg) 3 \<le> length w" "x \<in> set w" "y \<in> set w" "x \<noteq> y"
  shows "\<exists>rep. run_adversary records ev cfg = Some rep \<and> adversary_won rep"
  by (rule clear_flow_exposed [OF assms])

definition clear_log :: "log_record list" where
  "clear_log =
     [log_rec 0 ''server_wire_input'' 7 500 ''real'', log_rec 10 ''server_real_output'' 7 500 ''real'',
      log_rec 100 ''server_wire_input'' 7 40 ''real'', log_rec 110 ''server_real_output'' 7 40 ''real'',
      log_rec 200 ''server_wire_input'' 7 90 ''real'', log_rec 210 ''server_real_output'' 7 90 ''real'']"

lemma clear_log_series:
  "aligned_series clear_log events_server 100 (Some 7) = Some (Some ([500, 40, 90], [500, 40, 90]))"
proof -
  have "filter (conn_relevant events_server (Some 7)) clear_log = clear_log"
    by (simp add: conn_relevant_def relevant_event_def clear_log_def log_rec_sel server_events)
  moreover have "bin_count 0 210000000 100000000 = Some 3"
    by (simp add: bin_count_def trunc64_def u64_max_def)
  ultimately show ?thesis
    by (simp add: aligned_series_def clear_log_def log_rec_sel server_events sample_widths three_bins trunc64_def add_at_def)
qed

lemma clear_log_ids: "distinct_conn_ids clear_log events_server = [7]"
  by (simp add: distinct_conn_ids_def relevant_event_def clear_log_def log_rec_sel server_events)

theorem clear_traffic_detected_witness:
  "\<exists>rep. run_adversary clear_log events_server attack_default = Some rep \<and> adversary_won rep"
proof (rule clear_traffic_detected)
  show "times_ok clear_log" by (simp add: times_ok_def clear_log_def log_rec_sel u64_max_def)
  show "aligned_series clear_log events_server (bin_ms attack_default) (Some 7) =
    Some (Some ([500, 40, 90], [500, 40, 90]))"
    by (simp add: clear_log_series attack_default_def)
  show "7 \<in> set (distinct_conn_ids clear_log events_server)" by (simp add: clear_log_ids)
  show "500 \<in> set [500, 40, 90 :: real]" "40 \<in> set [500, 40, 90 :: real]" "(500 :: real) \<noteq> 40" by simp_all
qed (simp_all add: attack_default_def)

text \<open>The series an attack correlates hold exactly the bytes of the log: on sane timestamps
  binning never indexes outside of the series, both have the same length, and each sums to the
  bytes of the selected connection's events.\<close>

theorem series_conserve_bytes:
  assumes "times_ok records"
  shows "aligned_series records ev width conn \<noteq> None \<and>
    (\<forall>w v. aligned_series records ev width conn = Some (Some (w, v)) \<longrightarrow> length w = length v \<and> w \<noteq> [] \<and>
      sum_list w = (\<Sum>r\<leftarrow>filter (\<lambda>r. conn_relevant ev conn r \<and> lr_event r = ev_wire ev) records. real (lr_bytes r)) \<and>
      sum_list v = (\<Sum>r\<leftarrow>filter (\<lambda>r. conn_relevant ev conn r \<and> lr_event r \<noteq> ev_wire ev) records. real (lr_bytes r)))"
  using aligned_series_conserve [OF assms, of ev width conn] by auto

theorem series_conserve_bytes_witness:
  "sum_list [500, 500, 500 :: real] = (\<Sum>r\<leftarrow>filter (\<lambda>r. conn_relevant events_server (Some 7) r \<and>
     lr_event r = ev_wire events_server) cover_log. real (lr_bytes r))"
proof -
  have "times_ok cover_log" by (simp add: times_ok_def cover_log_def log_rec_sel u64_max_def)
  from series_conserve_bytes [OF this, of events_server 100 "Some 7"] show ?thesis
    unfolding cover_log_series by simp
qed

text \<open>The linking verdict means a majority: its accuracy is the share of flows whose guess is
  right, a win is declared exactly when more than half of them are, and flows with equal wire
  series are linked no better than by chance.\<close>

theorem linking_verdict:
  assumes "times_ok records" "linking_attack records ev cfg (distinct_conn_ids records ev) = Some (Some u)"
  shows "map fst (la_matches u) = distinct_conn_ids records ev \<and>
    (\<forall>(i, g, c)\<in>set (la_matches u). c = (g = i)) \<and>
    (la_beats_chance u \<longleftrightarrow> length (la_matches u) < 2 * length (filter (\<lambda>(_, _, c). c) (la_matches u))) \<and>
    la_linking_accuracy u = real (length (filter (\<lambda>(_, _, c). c) (la_matches u))) / real (length (la_matches u)) \<and>
    ((\<forall>wire real_m. link_series records ev (as_u128 (bin_ms cfg * 1000000)) (distinct_conn_ids records ev) =
        Some (Some (wire, real_m)) \<longrightarrow> (\<exists>ws. \<forall>i\<in>set (distinct_conn_ids records ev). wire i = Some ws)) \<longrightarrow>
     la_linking_accuracy u = la_chance u \<and> \<not> la_beats_chance u)"
proof -
  define ids where "ids = distinct_conn_ids records ev"
  obtain wire real_m ms where s: "u = linking_score ms" "map fst ms = ids" "2 \<le> length ids"
    "\<forall>(i, g, c)\<in>set ms. c = (g = i) \<and> link_guess (max_lag_bins cfg) (the (wire i)) real_m ids (hd ids, None) = Some g"
    using linking_total [OF assms(1), of ev cfg ids] assms(2) by (auto simp: ids_def)
  have m: "la_matches u = ms" by (simp add: s(1) linking_score_def Let_def)
  have "length ms = length ids" using s(2) by (metis length_map)
  then have "la_beats_chance u \<longleftrightarrow> length ms < 2 * length (filter (\<lambda>(_, _, c). c) ms)"
    using linking_score_beats [of ms] s(1,3) by simp
  moreover have "la_linking_accuracy u = real (length (filter (\<lambda>(_, _, c). c) ms)) / real (length ms)"
    by (simp add: s(1) linking_score_def Let_def)
  moreover have "\<forall>(i, g, c)\<in>set ms. c = (g = i)" using s(4) by auto
  ultimately show ?thesis
    using s(2) m linking_uniform [OF assms(1), of ids ev cfg u] assms(2) distinct_conn_ids_distinct [of records ev]
    by (auto simp: ids_def)
qed

end
