(* ===== verification/Socks.thy ===== *)
theory Socks
  imports Crypto
begin

text \<open>
  \<open>src/src/socks.rs\<close>: the SOCKS5 front end through which the local Tor reaches the client. The
  connection holds the bytes the peer will send before it closes, the bytes written so far, and how
  many writes succeed before the connection breaks; every operation returns a result and the
  connection. The lemmas say exactly which byte streams are accepted, with which result, and that
  the certificate search works on any bytes.
\<close>

section \<open>The connection\<close>

record sock =
  sk_in :: bytes
  sk_out :: bytes
  sk_writes :: nat

datatype socks_error =
    SocksIo
  | DomainTargetRejected
  | NoSupportedAuthMethod
  | UnsupportedAddressKind byte
  | UnsupportedCommand byte
  | UnsupportedVersion byte

text \<open>An operation may also panic, which is the outer \<open>None\<close>.\<close>

type_synonym 'a socks = "sock \<Rightarrow> ((socks_error + 'a) \<times> sock) option"

definition socks_return :: "'a \<Rightarrow> 'a socks" where
  "socks_return a s = Some (Inr a, s)"

definition socks_fail :: "socks_error \<Rightarrow> 'a socks" where
  "socks_fail e s = Some (Inl e, s)"

definition socks_bind :: "'a socks \<Rightarrow> ('a \<Rightarrow> 'b socks) \<Rightarrow> 'b socks" where
  "socks_bind m f s =
     (case m s of
        None \<Rightarrow> None
      | Some (Inl e, s') \<Rightarrow> Some (Inl e, s')
      | Some (Inr a, s') \<Rightarrow> f a s')"

definition read_exact :: "nat \<Rightarrow> bytes socks" where
  "read_exact n s =
     (if n \<le> length (sk_in s) then Some (Inr (take n (sk_in s)), s\<lparr>sk_in := drop n (sk_in s)\<rparr>)
      else Some (Inl SocksIo, s\<lparr>sk_in := []\<rparr>))"

definition write_all :: "bytes \<Rightarrow> unit socks" where
  "write_all bs s =
     (case sk_writes s of
        0 \<Rightarrow> Some (Inl SocksIo, s)
      | Suc n \<Rightarrow> Some (Inr (), s\<lparr>sk_out := sk_out s @ bs, sk_writes := n\<rparr>))"

section \<open>Constants\<close>

definition SOCKS_VERSION :: byte where "SOCKS_VERSION = 5"
definition NO_AUTH :: byte where "NO_AUTH = 0"
definition USERPASS_AUTH :: byte where "USERPASS_AUTH = 2"
definition USERPASS_VERSION :: byte where "USERPASS_VERSION = 1"
definition SOCKS_CONNECT :: byte where "SOCKS_CONNECT = 1"
definition ATYP_IPV4 :: byte where "ATYP_IPV4 = 1"
definition ATYP_DOMAIN :: byte where "ATYP_DOMAIN = 3"
definition ATYP_IPV6 :: byte where "ATYP_IPV6 = 4"

lemmas socks_consts = SOCKS_VERSION_def NO_AUTH_def USERPASS_AUTH_def USERPASS_VERSION_def
  SOCKS_CONNECT_def ATYP_IPV4_def ATYP_DOMAIN_def ATYP_IPV6_def

section \<open>The certificate argument\<close>

record client_args =
  ca_cert :: "bytes option"

definition args_default :: client_args where
  "args_default = \<lparr>ca_cert = None\<rparr>"

text \<open>\<open>String::from_utf8_lossy\<close>: each maximal prefix of an ill-formed sequence becomes U+FFFD.\<close>

definition utf8_cont :: "byte \<Rightarrow> bool" where
  "utf8_cont b \<longleftrightarrow> 128 \<le> b \<and> b \<le> 191"

definition utf8_second_ok :: "byte \<Rightarrow> byte \<Rightarrow> bool" where
  "utf8_second_ok b c \<longleftrightarrow>
     (if b = 224 then 160 \<le> c \<and> c \<le> 191
      else if b = 237 then 128 \<le> c \<and> c \<le> 159
      else if b = 240 then 144 \<le> c \<and> c \<le> 191
      else if b = 244 then 128 \<le> c \<and> c \<le> 143
      else utf8_cont c)"

definition utf8_width :: "byte \<Rightarrow> nat" where
  "utf8_width b = (if b < 128 then 1 else if 194 \<le> b \<and> b \<le> 223 then 2
     else if 224 \<le> b \<and> b \<le> 239 then 3 else if 240 \<le> b \<and> b \<le> 244 then 4 else 0)"

text \<open>How many bytes the next character takes, and its value.\<close>

definition utf8_step :: "byte \<Rightarrow> bytes \<Rightarrow> nat \<times> nat" where
  "utf8_step b bs =
     (let low = (\<lambda>c :: byte. unat c mod 64)
      in if utf8_width b = 1 then (1, unat b)
         else if utf8_width b = 0 then (1, 65533)
         else case bs of
           [] \<Rightarrow> (1, 65533)
         | c # cs \<Rightarrow>
             if \<not> utf8_second_ok b c then (1, 65533)
             else if utf8_width b = 2 then (2, (unat b mod 32) * 64 + low c)
             else case cs of
               [] \<Rightarrow> (2, 65533)
             | d # ds \<Rightarrow>
                 if \<not> utf8_cont d then (2, 65533)
                 else if utf8_width b = 3 then (3, (unat b mod 16) * 4096 + low c * 64 + low d)
                 else case ds of
                   [] \<Rightarrow> (3, 65533)
                 | e # es \<Rightarrow>
                     if \<not> utf8_cont e then (3, 65533)
                     else (4, (unat b mod 8) * 262144 + low c * 4096 + low d * 64 + low e))"

lemma utf8_step_pos: "0 < fst (utf8_step b bs)"
  by (simp add: utf8_step_def Let_def split: list.splits)

function utf8_lossy :: "bytes \<Rightarrow> rstr" where
  "utf8_lossy [] = []"
| "utf8_lossy (b # bs) = snd (utf8_step b bs) # utf8_lossy (drop (fst (utf8_step b bs)) (b # bs))"
  by pat_completeness auto
termination
proof (relation "measure length", goal_cases)
  case (2 b bs)
  then show ?case using utf8_step_pos [of b bs] by simp
qed simp

text \<open>\<open>find(pat)\<close> followed by the slice behind the occurrence.\<close>

fun str_after :: "rstr \<Rightarrow> rstr \<Rightarrow> rstr option" where
  "str_after p [] = (if p = [] then Some [] else None)"
| "str_after p (c # cs) =
     (if str_starts_with p (c # cs) then Some (drop (length p) (c # cs)) else str_after p cs)"

definition is_ascii_hexdigit :: "nat \<Rightarrow> bool" where
  "is_ascii_hexdigit c \<longleftrightarrow> 48 \<le> c \<and> c \<le> 57 \<or> 97 \<le> c \<and> c \<le> 102 \<or> 65 \<le> c \<and> c \<le> 70"

definition extract_cert :: "bytes \<Rightarrow> bytes option option" where
  "extract_cert params =
     (case str_after (str_of ''cert='') (utf8_lossy params) of
        None \<Rightarrow> Some None
      | Some rest \<Rightarrow> key_from_hex (take 64 (takeWhile is_ascii_hexdigit rest)))"

section \<open>Negotiation\<close>

definition read_userpass_args :: "client_args socks" where
  "read_userpass_args =
     socks_bind (read_exact 1) (\<lambda>ver.
     if hd ver \<noteq> USERPASS_VERSION then socks_fail (UnsupportedVersion (hd ver))
     else
       socks_bind (read_exact 1) (\<lambda>ulen.
       socks_bind (read_exact (unat (hd ulen))) (\<lambda>uname.
       socks_bind (read_exact 1) (\<lambda>plen.
       socks_bind (read_exact (unat (hd plen))) (\<lambda>passwd.
       socks_bind (write_all [USERPASS_VERSION, 0]) (\<lambda>_. \<lambda>s.
         case extract_cert (uname @ passwd) of
           None \<Rightarrow> None
         | Some cert \<Rightarrow> socks_return \<lparr>ca_cert = cert\<rparr> s))))))"

definition negotiate :: "client_args socks" where
  "negotiate =
     socks_bind (read_exact 2) (\<lambda>header.
     if header ! 0 \<noteq> SOCKS_VERSION then socks_fail (UnsupportedVersion (header ! 0))
     else if unat (header ! 1) = 0 then socks_fail NoSupportedAuthMethod
     else
       socks_bind (read_exact (unat (header ! 1))) (\<lambda>methods.
       if USERPASS_AUTH \<in> set methods then
         socks_bind (write_all [SOCKS_VERSION, USERPASS_AUTH]) (\<lambda>_. read_userpass_args)
       else if NO_AUTH \<in> set methods then
         socks_bind (write_all [SOCKS_VERSION, NO_AUTH]) (\<lambda>_. socks_return args_default)
       else
         socks_bind (write_all [SOCKS_VERSION, 255]) (\<lambda>_. socks_fail NoSupportedAuthMethod)))"

section \<open>The target\<close>

datatype ip_addr = IpV4 bytes | IpV6 bytes

record socket_addr =
  sa_ip :: ip_addr
  sa_port :: u16

definition be_u16 :: "bytes \<Rightarrow> u16" where
  "be_u16 bs = of_nat (unat (bs ! 0) * 256 + unat (bs ! 1))"

definition read_connect_target :: "socket_addr socks" where
  "read_connect_target =
     socks_bind (read_exact 4) (\<lambda>header.
     if header ! 0 \<noteq> SOCKS_VERSION then socks_fail (UnsupportedVersion (header ! 0))
     else if header ! 1 \<noteq> SOCKS_CONNECT then socks_fail (UnsupportedCommand (header ! 1))
     else
       socks_bind
         (if header ! 3 = ATYP_IPV4 then socks_bind (read_exact 4) (\<lambda>octets. socks_return (IpV4 octets))
          else if header ! 3 = ATYP_IPV6 then socks_bind (read_exact 16) (\<lambda>octets. socks_return (IpV6 octets))
          else if header ! 3 = ATYP_DOMAIN then
            socks_bind (read_exact 1) (\<lambda>len.
            socks_bind (read_exact (unat (hd len) + 2)) (\<lambda>_. socks_fail DomainTargetRejected))
          else socks_fail (UnsupportedAddressKind (header ! 3)))
         (\<lambda>ip. socks_bind (read_exact 2) (\<lambda>port. socks_return \<lparr>sa_ip = ip, sa_port = be_u16 port\<rparr>)))"

definition SUCCESS_REPLY :: bytes where
  "SUCCESS_REPLY = [SOCKS_VERSION, 0, 0, ATYP_IPV4, 0, 0, 0, 0, 0, 0]"

definition accept_socks5_connect :: "(socket_addr \<times> client_args) socks" where
  "accept_socks5_connect =
     socks_bind negotiate (\<lambda>args.
     socks_bind read_connect_target (\<lambda>target.
     socks_bind (write_all SUCCESS_REPLY) (\<lambda>_.
     socks_return (target, args))))"

section \<open>The certificate search works on any bytes\<close>

lemma utf8_lossy_ascii: "b < 128 \<Longrightarrow> utf8_lossy (b # bs) = unat b # utf8_lossy bs"
  by (simp add: utf8_step_def utf8_width_def)

lemma word_ge_unat: "(k :: byte) \<le> b \<Longrightarrow> unat k \<le> unat b"
  by (simp add: word_le_nat_alt)

lemma utf8_two_big: "utf8_width b = 2 \<Longrightarrow> 128 \<le> (unat b mod 32) * 64 + n"
proof -
  assume "utf8_width b = 2"
  then have "194 \<le> unat b" "unat b \<le> 223"
    by (auto simp: utf8_width_def word_le_nat_alt split: if_splits)
  then have "2 \<le> unat b mod 32" by presburger
  then show ?thesis by simp
qed

lemma low_six_bits: "128 \<le> n \<Longrightarrow> n \<le> 191 \<Longrightarrow> n mod 64 = n - (128::nat)"
  by (simp add: le_mod_geq)

lemma utf8_second_low:
  assumes "utf8_second_ok b c"
  shows "128 \<le> unat c" "b = 224 \<Longrightarrow> 32 \<le> unat c mod 64" "b = 240 \<Longrightarrow> 16 \<le> unat c mod 64"
proof -
  show "128 \<le> unat c"
    using assms by (simp add: utf8_second_ok_def utf8_cont_def word_le_nat_alt split: if_splits)
  show "32 \<le> unat c mod 64" if "b = 224"
  proof -
    have "160 \<le> unat c" "unat c \<le> 191" using assms that by (simp_all add: utf8_second_ok_def word_le_nat_alt)
    then show ?thesis using low_six_bits [of "unat c"] by linarith
  qed
  show "16 \<le> unat c mod 64" if "b = 240"
  proof -
    have "144 \<le> unat c" "unat c \<le> 191" using assms that by (simp_all add: utf8_second_ok_def word_le_nat_alt)
    then show ?thesis using low_six_bits [of "unat c"] by linarith
  qed
qed

lemma utf8_three_big:
  assumes "utf8_width b = 3" "utf8_second_ok b c"
  shows "128 \<le> (unat b mod 16) * 4096 + (unat c mod 64 * 64 + n)"
proof (cases "b = 224")
  case True
  then show ?thesis using utf8_second_low(2) [OF assms(2)] by simp
next
  case False
  have "224 \<le> unat b" "unat b \<le> 239"
    using assms(1) by (simp_all add: utf8_width_def word_le_nat_alt split: if_splits)
  moreover have "unat b \<noteq> 224" using False by (simp add: word_unat_eq_iff)
  ultimately have "1 \<le> unat b mod 16" by presburger
  then show ?thesis by simp
qed

lemma utf8_four_big:
  assumes "utf8_width b = 4" "utf8_second_ok b c"
  shows "128 \<le> (unat b mod 8) * 262144 + (unat c mod 64 * 4096 + n)"
proof (cases "b = 240")
  case True
  then show ?thesis using utf8_second_low(3) [OF assms(2)] by simp
next
  case False
  have "240 \<le> unat b" "unat b \<le> 244"
    using assms(1) by (simp_all add: utf8_width_def word_le_nat_alt split: if_splits)
  moreover have "unat b \<noteq> 240" using False by (simp add: word_unat_eq_iff)
  ultimately have "1 \<le> unat b mod 8" by presburger
  then show ?thesis by simp
qed

lemma utf8_width_cases: "\<not> b < 128 \<Longrightarrow> utf8_width b \<in> {0, 2, 3, 4}"
  by (simp add: utf8_width_def)

lemma utf8_step_wide:
  assumes "\<not> b < 128"
  shows "128 \<le> snd (utf8_step b bs) \<and> (\<forall>x\<in>set (take (fst (utf8_step b bs)) (b # bs)). \<not> x < 128) \<and>
    fst (utf8_step b bs) \<le> length (b # bs)"
proof -
  have cont: "\<not> c < 128" if "utf8_cont c" for c using that by (simp add: utf8_cont_def not_less)
  have second: "\<not> c < 128" if "utf8_second_ok b c" for c
    using utf8_second_low(1) [OF that] by (simp add: not_less word_le_nat_alt)
  show ?thesis
    using utf8_width_cases [OF assms] assms cont second utf8_two_big [of b] utf8_three_big [of b] utf8_four_big [of b]
    unfolding utf8_step_def Let_def
    by (simp split: list.splits) (auto simp: add.assoc numeral_2_eq_2 numeral_3_eq_3)
qed

text \<open>The same search over the raw bytes, which the specification uses.\<close>

fun bytes_after :: "rstr \<Rightarrow> bytes \<Rightarrow> bytes option" where
  "bytes_after p [] = (if p = [] then Some [] else None)"
| "bytes_after p (b # bs) =
     (if str_starts_with p (map unat (b # bs)) then Some (drop (length p) (b # bs)) else bytes_after p bs)"

definition ascii_str :: "rstr \<Rightarrow> bool" where
  "ascii_str p \<longleftrightarrow> (\<forall>c\<in>set p. c < 128)"

lemma unat_wide: "\<not> (b :: byte) < 128 \<Longrightarrow> 128 \<le> unat b"
  by (simp add: word_less_nat_alt)

lemma starts_Nil [simp]: "str_starts_with [] s"
  by (simp add: str_starts_with_def)

lemma starts_Cons [simp]: "str_starts_with (c # p) (d # s) \<longleftrightarrow> c = d \<and> str_starts_with p s"
  by (auto simp: str_starts_with_def)

lemma starts_empty [simp]: "str_starts_with (c # p) [] \<longleftrightarrow> False"
  by (simp add: str_starts_with_def)

lemma lossy_starts:
  assumes "ascii_str p"
  shows "(str_starts_with p (utf8_lossy bs) \<longleftrightarrow> str_starts_with p (map unat bs)) \<and>
    (str_starts_with p (map unat bs) \<longrightarrow> drop (length p) (utf8_lossy bs) = utf8_lossy (drop (length p) bs))"
  using assms
proof (induction p arbitrary: bs)
  case (Cons c p)
  show ?case
  proof (cases bs)
    case bs: (Cons b bs')
    show ?thesis
    proof (cases "b < 128")
      case True
      then show ?thesis using Cons bs by (simp add: utf8_lossy_ascii ascii_str_def del: utf8_lossy.simps(2))
    next
      case False
      have "c < 128" using Cons.prems by (simp add: ascii_str_def)
      then show ?thesis using utf8_step_wide [OF False, of bs'] unat_wide [OF False] bs by auto
    qed
  qed simp
qed simp

lemma bytes_after_skip:
  assumes "ascii_str p" "p \<noteq> []" "\<forall>x\<in>set us. \<not> x < 128"
  shows "bytes_after p (us @ bs) = bytes_after p bs"
  using assms(3)
proof (induction us)
  case (Cons u us)
  obtain c q where "p = c # q" "c < 128" using assms(1,2) by (cases p) (auto simp: ascii_str_def)
  then show ?case using Cons unat_wide [of u] by auto
qed simp

lemma lossy_after:
  assumes "ascii_str p" "p \<noteq> []"
  shows "str_after p (utf8_lossy bs) = map_option utf8_lossy (bytes_after p bs)"
proof (induction bs rule: utf8_lossy.induct)
  case (2 b bs)
  note starts = lossy_starts [OF assms(1), of "b # bs"]
  show ?case
  proof (cases "str_starts_with p (map unat (b # bs))")
    case True
    then show ?thesis using starts by simp
  next
    case no: False
    let ?k = "fst (utf8_step b bs)"
    have "str_after p (utf8_lossy (b # bs)) = str_after p (utf8_lossy (drop ?k (b # bs)))"
      using starts no by simp
    also have "\<dots> = map_option utf8_lossy (bytes_after p (drop ?k (b # bs)))" by (rule 2)
    also have "bytes_after p (drop ?k (b # bs)) = bytes_after p (b # bs)"
    proof (cases "b < 128")
      case True
      then have "?k = 1" by (simp add: utf8_step_def utf8_width_def)
      then show ?thesis using no by simp
    next
      case False
      then have "\<forall>x\<in>set (take ?k (b # bs)). \<not> x < 128" using utf8_step_wide by blast
      then show ?thesis using bytes_after_skip [OF assms] by (metis append_take_drop_id)
    qed
    finally show ?thesis .
  qed
qed (use assms in simp)

lemma lossy_takeWhile:
  assumes "\<And>c. P c \<Longrightarrow> c < 128"
  shows "takeWhile P (utf8_lossy bs) = takeWhile P (map unat bs)"
proof (induction bs)
  case (Cons b bs)
  show ?case
  proof (cases "b < 128")
    case True
    then show ?thesis using Cons by (simp add: utf8_lossy_ascii del: utf8_lossy.simps(2))
  next
    case False
    then show ?thesis using assms [of "unat b"] assms [of "snd (utf8_step b bs)"] utf8_step_wide [OF False, of bs] unat_wide [OF False]
      by fastforce
  qed
qed simp

text \<open>A run of 64 hexadecimal digits is a key; a shorter one is none.\<close>

fun hex_pairs :: "rstr \<Rightarrow> bytes" where
  "hex_pairs (a # b # s) = of_nat (the (to_digit 16 a) * 16 + the (to_digit 16 b)) # hex_pairs s"
| "hex_pairs s = []"

lemma hexdigit_props:
  assumes "is_ascii_hexdigit c"
  shows "c < 128" "c \<noteq> 43" "\<not> is_whitespace c" "\<exists>d<16. to_digit 16 c = Some d"
  using assms by (auto simp: is_ascii_hexdigit_def is_whitespace_def to_digit_def Let_def)

lemma parse_hex_digits:
  assumes "is_ascii_hexdigit a" "is_ascii_hexdigit b"
  shows "parse_uint 16 255 [a, b] = Some (the (to_digit 16 a) * 16 + the (to_digit 16 b))"
  using hexdigit_props(2,4) [OF assms(1)] hexdigit_props(4) [OF assms(2)]
  by (auto simp: parse_uint_def)

lemma hex_bytes_pairs:
  assumes "\<forall>c\<in>set s. is_ascii_hexdigit c" "length s = 2 * (i + n)"
  shows "hex_bytes i n s = Some (Some (hex_pairs (drop (2 * i) s)))"
  using assms(2)
proof (induction n arbitrary: i)
  case (Suc n)
  have ascii: "\<forall>c\<in>set s. c < 128" using assms(1) hexdigit_props(1) by blast
  have lt: "2 * i + 1 < length s" using Suc.prems by simp
  define a b where "a = s ! (2 * i)" and "b = s ! (2 * i + 1)"
  have ab: "is_ascii_hexdigit a" "is_ascii_hexdigit b" using assms(1) lt by (auto simp: a_def b_def)
  have d: "drop (2 * i) s = a # b # drop (2 * (i + 1)) s"
    using lt by (simp add: a_def b_def Cons_nth_drop_Suc)
  have "str_slice (2 * i) (2 * i + 2) s = Some (drop (2 * i) (take (2 * i + 2) s))"
    using ascii lt by (intro str_slice_ascii) auto
  also have "drop (2 * i) (take (2 * i + 2) s) = take 2 (drop (2 * i) s)" by (simp add: drop_take)
  also have "\<dots> = [a, b]" by (simp add: d)
  finally show ?case using Suc.IH [of "i + 1"] Suc.prems parse_hex_digits [OF ab] d by simp
qed simp

lemma key_from_hex_digits:
  assumes "\<forall>c\<in>set s. is_ascii_hexdigit c"
  shows "key_from_hex s = Some (if length s = 64 then Some (hex_pairs s) else None)"
proof -
  have "str_trim s = s" using assms hexdigit_props(3) by (intro str_trim_id) blast
  moreover have "str_len s = length s" using assms hexdigit_props(1) by (intro str_len_ascii) blast
  ultimately show ?thesis using hex_bytes_pairs [OF assms, of 0 32] by (simp add: key_from_hex_def)
qed

definition cert_in_bytes :: "bytes \<Rightarrow> bytes option" where
  "cert_in_bytes params =
     (case bytes_after (str_of ''cert='') params of
        None \<Rightarrow> None
      | Some rest \<Rightarrow>
          let digits = take 64 (takeWhile is_ascii_hexdigit (map unat rest))
          in if length digits = 64 then Some (hex_pairs digits) else None)"

lemma extract_cert_spec: "extract_cert params = Some (cert_in_bytes params)"
proof -
  have "ascii_str (str_of ''cert='')" "str_of ''cert='' \<noteq> []" by (simp_all add: ascii_str_def str_of_def)
  note after = lossy_after [OF this, of params]
  have tw: "takeWhile is_ascii_hexdigit (utf8_lossy bs) = takeWhile is_ascii_hexdigit (map unat bs)" for bs
    using hexdigit_props(1) by (rule lossy_takeWhile)
  have "\<forall>c\<in>set (take 64 (takeWhile is_ascii_hexdigit s)). is_ascii_hexdigit c" for s
    by (meson in_set_takeD set_takeWhileD)
  then show ?thesis
    by (simp add: extract_cert_def cert_in_bytes_def after tw key_from_hex_digits Let_def split: option.splits)
qed

section \<open>What an operation consumes and writes\<close>

text \<open>From \<open>s\<close> to \<open>t\<close> the bytes \<open>c\<close> are consumed and the messages \<open>ws\<close> written.\<close>

definition exchange :: "sock \<Rightarrow> bytes \<Rightarrow> bytes list \<Rightarrow> sock \<Rightarrow> bool" where
  "exchange s c ws t \<longleftrightarrow> sk_in s = c @ sk_in t \<and> sk_out t = sk_out s @ concat ws \<and>
     sk_writes s = length ws + sk_writes t"

lemma exchange_trans: "exchange s c ws u \<Longrightarrow> exchange u d vs t \<Longrightarrow> exchange s (c @ d) (ws @ vs) t"
  by (auto simp: exchange_def)

lemma exchange_split:
  assumes "exchange s (c @ d) (ws @ vs) t"
  shows "\<exists>u. exchange s c ws u \<and> exchange u d vs t"
  using assms
  by (intro exI [of _ "\<lparr>sk_in = d @ sk_in t, sk_out = sk_out s @ concat ws, sk_writes = length vs + sk_writes t\<rparr>"])
    (auto simp: exchange_def)

lemma exchange_refl: "exchange s [] [] t \<longleftrightarrow> s = t"
  by (auto simp: exchange_def)

text \<open>An operation succeeds with exactly the results, inputs and outputs of a relation.\<close>

definition succeeds :: "'a socks \<Rightarrow> ('a \<Rightarrow> bytes \<Rightarrow> bytes list \<Rightarrow> bool) \<Rightarrow> bool" where
  "succeeds m P \<longleftrightarrow> (\<forall>s a t. m s = Some (Inr a, t) \<longleftrightarrow> (\<exists>c ws. P a c ws \<and> exchange s c ws t))"

lemma succeeds_return: "succeeds (socks_return a) (\<lambda>b c ws. b = a \<and> c = [] \<and> ws = [])"
  by (auto simp: succeeds_def socks_return_def exchange_refl)

lemma succeeds_fail: "succeeds (socks_fail e) (\<lambda>_ _ _. False)"
  by (simp add: succeeds_def socks_fail_def)

lemma succeeds_read: "succeeds (read_exact n) (\<lambda>bs c ws. length bs = n \<and> c = bs \<and> ws = [])"
proof -
  have "(read_exact n s = Some (Inr bs, t)) = (length bs = n \<and> exchange s bs [] t)" for s bs t
  proof
    assume "read_exact n s = Some (Inr bs, t)"
    then show "length bs = n \<and> exchange s bs [] t"
      by (auto simp: read_exact_def exchange_def split: if_splits)
  next
    assume "length bs = n \<and> exchange s bs [] t"
    then show "read_exact n s = Some (Inr bs, t)" by (auto simp: read_exact_def exchange_def)
  qed
  then show ?thesis by (auto simp: succeeds_def)
qed

lemma succeeds_write: "succeeds (write_all bs) (\<lambda>_ c ws. c = [] \<and> ws = [bs])"
  by (auto simp: succeeds_def write_all_def exchange_def split: nat.splits)

definition then_rel ::
  "('a \<Rightarrow> bytes \<Rightarrow> bytes list \<Rightarrow> bool) \<Rightarrow> ('a \<Rightarrow> 'b \<Rightarrow> bytes \<Rightarrow> bytes list \<Rightarrow> bool) \<Rightarrow> 'b \<Rightarrow> bytes \<Rightarrow> bytes list \<Rightarrow> bool" where
  "then_rel P Q b c ws \<longleftrightarrow>
     (\<exists>a c1 w1 c2 w2. P a c1 w1 \<and> Q a b c2 w2 \<and> c = c1 @ c2 \<and> ws = w1 @ w2)"

lemma succeeds_bind:
  assumes "succeeds m P" "\<And>a. succeeds (f a) (Q a)"
  shows "succeeds (socks_bind m f) (then_rel P Q)"
proof -
  have bind: "socks_bind m f s = Some (Inr b, t) \<longleftrightarrow> (\<exists>a u. m s = Some (Inr a, u) \<and> f a u = Some (Inr b, t))" for s b t
    by (auto simp: socks_bind_def split: option.splits sum.splits)
  have m: "m s = Some (Inr a, t) \<longleftrightarrow> (\<exists>c ws. P a c ws \<and> exchange s c ws t)" for s a t
    using assms(1) by (simp add: succeeds_def)
  have f: "f a s = Some (Inr b, t) \<longleftrightarrow> (\<exists>c ws. Q a b c ws \<and> exchange s c ws t)" for s a b t
    using assms(2) by (simp add: succeeds_def)
  show ?thesis
    unfolding succeeds_def
  proof (intro allI iffI)
    fix s b t assume "socks_bind m f s = Some (Inr b, t)"
    then obtain a u c1 w1 c2 w2 where "P a c1 w1" "exchange s c1 w1 u" "Q a b c2 w2" "exchange u c2 w2 t"
      unfolding bind m f by blast
    then show "\<exists>c ws. then_rel P Q b c ws \<and> exchange s c ws t"
      unfolding then_rel_def using exchange_trans by blast
  next
    fix s b t assume "\<exists>c ws. then_rel P Q b c ws \<and> exchange s c ws t"
    then obtain a c1 w1 c2 w2 where "P a c1 w1" "Q a b c2 w2" "exchange s (c1 @ c2) (w1 @ w2) t"
      unfolding then_rel_def by blast
    then show "socks_bind m f s = Some (Inr b, t)"
      unfolding bind m f using exchange_split by blast
  qed
qed

lemma succeeds_if:
  assumes "b \<Longrightarrow> succeeds m P" "\<not> b \<Longrightarrow> succeeds n Q"
  shows "succeeds (if b then m else n) (\<lambda>a c ws. if b then P a c ws else Q a c ws)"
  using assms by (cases b) simp_all

lemma succeeds_args:
  "succeeds (\<lambda>s. case extract_cert params of None \<Rightarrow> None | Some cert \<Rightarrow> socks_return \<lparr>ca_cert = cert\<rparr> s)
     (\<lambda>b c ws. b = \<lparr>ca_cert = cert_in_bytes params\<rparr> \<and> c = [] \<and> ws = [])"
  using succeeds_return by (simp add: extract_cert_spec)

lemma succeeds_cong: "succeeds m P \<Longrightarrow> (\<And>a c ws. P a c ws \<longleftrightarrow> Q a c ws) \<Longrightarrow> succeeds m Q"
  by (simp add: succeeds_def)

lemmas succeeds_intros = succeeds_bind succeeds_if succeeds_read succeeds_write succeeds_return succeeds_fail succeeds_args

section \<open>What is accepted\<close>

text \<open>A request as the client of RFC 1928 sends it, with the sub-negotiation of RFC 1929 when it is
  chosen.\<close>

record socks_request =
  rq_methods :: bytes
  rq_auth :: "(bytes \<times> bytes) option"
  rq_reserved :: byte
  rq_ip :: ip_addr
  rq_port :: bytes

definition encode_auth :: "(bytes \<times> bytes) option \<Rightarrow> bytes" where
  "encode_auth auth =
     (case auth of
        None \<Rightarrow> []
      | Some (u, p) \<Rightarrow> 1 # of_nat (length u) # u @ of_nat (length p) # p)"

definition encode_ip :: "ip_addr \<Rightarrow> bytes" where
  "encode_ip ip = (case ip of IpV4 octets \<Rightarrow> 1 # octets | IpV6 octets \<Rightarrow> 4 # octets)"

definition encode_request :: "socks_request \<Rightarrow> bytes" where
  "encode_request rq =
     5 # of_nat (length (rq_methods rq)) # rq_methods rq @ encode_auth (rq_auth rq) @
     5 # 1 # rq_reserved rq # encode_ip (rq_ip rq) @ rq_port rq"

definition request_ok :: "socks_request \<Rightarrow> bool" where
  "request_ok rq \<longleftrightarrow>
     0 < length (rq_methods rq) \<and> length (rq_methods rq) < 256 \<and>
     (case rq_auth rq of
        None \<Rightarrow> 2 \<notin> set (rq_methods rq) \<and> 0 \<in> set (rq_methods rq)
      | Some (u, p) \<Rightarrow> 2 \<in> set (rq_methods rq) \<and> length u < 256 \<and> length p < 256) \<and>
     (case rq_ip rq of IpV4 octets \<Rightarrow> length octets = 4 | IpV6 octets \<Rightarrow> length octets = 16) \<and>
     length (rq_port rq) = 2"

definition request_args :: "socks_request \<Rightarrow> client_args" where
  "request_args rq = \<lparr>ca_cert = (case rq_auth rq of None \<Rightarrow> None | Some (u, p) \<Rightarrow> cert_in_bytes (u @ p))\<rparr>"

definition request_replies :: "socks_request \<Rightarrow> bytes list" where
  "request_replies rq = (case rq_auth rq of None \<Rightarrow> [[5, 0]] | Some _ \<Rightarrow> [[5, 2], [1, 0]]) @ [SUCCESS_REPLY]"

lemma length_1: "length xs = Suc 0 \<longleftrightarrow> (\<exists>x. xs = [x])"
  by (auto simp: length_Suc_conv)

lemma ex_single: "(\<exists>a. (\<exists>x. a = [x]) \<and> P a) \<longleftrightarrow> (\<exists>x. P [x])"
  by blast

lemma length_2: "length xs = 2 \<longleftrightarrow> (\<exists>x y. xs = [x, y])"
  by (auto simp: numeral_2_eq_2 length_Suc_conv)

lemma ex_double: "(\<exists>a. (\<exists>x y. a = [x, y]) \<and> P a) \<longleftrightarrow> (\<exists>x y. P [x, y])"
  by blast

lemma ex_four: "(\<exists>a. (\<exists>x y z w. a = [x, y, z, w]) \<and> P a) \<longleftrightarrow> (\<exists>x y z w. P [x, y, z, w])"
  by blast

lemma length_4: "length xs = 4 \<longleftrightarrow> (\<exists>x y z w. xs = [x, y, z, w])"
  by (auto simp: eval_nat_numeral length_Suc_conv)

lemma byte_length: "length bs = unat (n :: byte) \<longleftrightarrow> length bs < 256 \<and> n = of_nat (length bs)"
proof
  assume a: "length bs = unat n"
  then show "length bs < 256 \<and> n = of_nat (length bs)" using unsigned_less [of n, where 'a = nat] by simp
next
  assume "length bs < 256 \<and> n = of_nat (length bs)"
  then show "length bs = unat n" by (simp add: unat_of_nat)
qed

lemma succeeds_userpass:
  "succeeds read_userpass_args (\<lambda>args c ws. \<exists>u p. length u < 256 \<and> length p < 256 \<and>
     c = encode_auth (Some (u, p)) \<and> args = \<lparr>ca_cert = cert_in_bytes (u @ p)\<rparr> \<and> ws = [[1, 0]])"
  unfolding read_userpass_args_def
  apply (rule succeeds_cong)
   apply ((rule succeeds_intros)+)[1]
  by (auto simp: then_rel_def byte_length length_1 ex_single socks_consts encode_auth_def cong: conj_cong) blast

definition ip_ok :: "ip_addr \<Rightarrow> bool" where
  "ip_ok ip \<longleftrightarrow> (case ip of IpV4 octets \<Rightarrow> length octets = 4 | IpV6 octets \<Rightarrow> length octets = 16)"

lemma succeeds_ip:
  "succeeds
     (if h = ATYP_IPV4 then socks_bind (read_exact 4) (\<lambda>octets. socks_return (IpV4 octets))
      else if h = ATYP_IPV6 then socks_bind (read_exact 16) (\<lambda>octets. socks_return (IpV6 octets))
      else if h = ATYP_DOMAIN then
        socks_bind (read_exact 1) (\<lambda>len.
        socks_bind (read_exact (unat (hd len) + 2)) (\<lambda>_. socks_fail DomainTargetRejected))
      else socks_fail (UnsupportedAddressKind h))
     (\<lambda>ip c ws. ip_ok ip \<and> h # c = encode_ip ip \<and> ws = [])"
  apply (rule succeeds_cong)
   apply ((rule succeeds_intros)+)[1]
  by (auto simp: then_rel_def socks_consts ip_ok_def encode_ip_def split: ip_addr.splits)

lemma succeeds_target:
  "succeeds read_connect_target (\<lambda>target c ws. \<exists>rsv ip port. ip_ok ip \<and> length port = 2 \<and>
     c = 5 # 1 # rsv # encode_ip ip @ port \<and> target = \<lparr>sa_ip = ip, sa_port = be_u16 port\<rparr> \<and> ws = [])"
  unfolding read_connect_target_def
  apply (rule succeeds_cong)
   apply ((rule succeeds_ip succeeds_intros)+)[1]
  apply (simp add: then_rel_def length_4 ex_four socks_consts cong: conj_cong)
  apply (rule iffI; elim exE conjE)
   apply (metis append_Cons)
  subgoal for a c ws rsv ip port
    by (cases ip) (auto simp: encode_ip_def ip_ok_def split: ip_addr.splits)
  done

lemma succeeds_negotiate:
  "succeeds negotiate (\<lambda>args c ws. \<exists>methods auth.
     0 < length methods \<and> length methods < 256 \<and>
     (case auth of None \<Rightarrow> 2 \<notin> set methods \<and> 0 \<in> set methods
      | Some (u, p) \<Rightarrow> 2 \<in> set methods \<and> length u < 256 \<and> length p < 256) \<and>
     c = 5 # of_nat (length methods) # methods @ encode_auth auth \<and>
     args = \<lparr>ca_cert = (case auth of None \<Rightarrow> None | Some (u, p) \<Rightarrow> cert_in_bytes (u @ p))\<rparr> \<and>
     ws = (case auth of None \<Rightarrow> [[5, 0]] | Some _ \<Rightarrow> [[5, 2], [1, 0]]))"
  unfolding negotiate_def
  apply (rule succeeds_cong)
   apply ((rule succeeds_userpass succeeds_intros)+)[1]
  apply (simp add: then_rel_def length_2 ex_double byte_length split_option_ex split_paired_Ex socks_consts args_default_def encode_auth_def cong: conj_cong)
  apply (rule iffI; elim exE conjE disjE)
  subgoal for a c ws y c2 methods rest
    by (rule exI [of _ methods], cases "2 \<in> set methods"; cases "0 \<in> set methods") auto
  subgoal for a c ws methods
    by (rule exI [of _ "of_nat (length methods)"]) (auto simp: unat_of_nat)
  subgoal for a c ws methods u p
    by (rule exI [of _ "of_nat (length methods)"], simp add: unat_of_nat, rule exI [of _ methods], simp, blast)
  done

lemma succeeds_accept:
  "succeeds accept_socks5_connect (\<lambda>(target, args) c ws. \<exists>rq. request_ok rq \<and> c = encode_request rq \<and>
     target = \<lparr>sa_ip = rq_ip rq, sa_port = be_u16 (rq_port rq)\<rparr> \<and> args = request_args rq \<and>
     ws = request_replies rq)"
  unfolding accept_socks5_connect_def
  apply (rule succeeds_cong)
   apply ((rule succeeds_negotiate succeeds_target succeeds_intros)+)[1]
  apply (rule iffI)
  subgoal for a c ws
    apply (clarsimp simp: then_rel_def)
    subgoal for methods auth rsv ip port
      by (intro exI [of _ "\<lparr>rq_methods = methods, rq_auth = auth, rq_reserved = rsv, rq_ip = ip, rq_port = port\<rparr>"])
        (auto simp: request_ok_def encode_request_def request_args_def request_replies_def ip_ok_def split: option.splits)
    done
  subgoal for a c ws
    apply (cases a)
    apply (simp add: then_rel_def request_ok_def)
    apply (elim exE conjE)
    subgoal for target args rq
      apply (rule exI [of _ "request_args rq"], rule exI [of _ "5 # of_nat (length (rq_methods rq)) # rq_methods rq @ encode_auth (rq_auth rq)"])
      by (rule exI [of _ "case rq_auth rq of None \<Rightarrow> [[5, 0]] | Some _ \<Rightarrow> [[5, 2], [1, 0]]"])
        (auto simp: request_args_def request_replies_def encode_request_def ip_ok_def)
    done
  done

text \<open>C35: The front end accepts exactly the well-formed requests: a byte stream is accepted if and
  only if it starts with a greeting that offers a supported method, the sub-negotiation when
  username and password are offered, and a CONNECT to an IPv4 or IPv6 address. The result is the
  address and the certificate that the raw argument bytes carry, the replies are those of the
  protocol, and not one byte behind the request is taken from the stream.\<close>

theorem socks_accepts_exactly:
  "accept_socks5_connect s = Some (Inr (target, args), t) \<longleftrightarrow>
   (\<exists>rq. request_ok rq \<and> sk_in s = encode_request rq @ sk_in t \<and>
      target = \<lparr>sa_ip = rq_ip rq, sa_port = be_u16 (rq_port rq)\<rparr> \<and> args = request_args rq \<and>
      sk_out t = sk_out s @ concat (request_replies rq) \<and>
      sk_writes s = length (request_replies rq) + sk_writes t)"
proof -
  note iff = succeeds_accept [unfolded succeeds_def, rule_format, of s "(target, args)" t]
  show ?thesis unfolding iff exchange_def prod.case by blast
qed

section \<open>What a refusal leaves behind\<close>

definition fails_with :: "'a socks \<Rightarrow> (bytes list \<Rightarrow> bool) \<Rightarrow> bool" where
  "fails_with m F \<longleftrightarrow> (\<forall>s. m s \<noteq> None \<and>
     (\<forall>e t. m s = Some (Inl e, t) \<longrightarrow> (\<exists>ws. F ws \<and> sk_out t = sk_out s @ concat ws)))"

lemma fails_basic:
  "fails_with (read_exact n) (\<lambda>ws. ws = [])" "fails_with (write_all bs) (\<lambda>ws. ws = [])"
  "fails_with (socks_fail e) (\<lambda>ws. ws = [])" "fails_with (socks_return a) (\<lambda>ws. False)"
  by (auto simp: fails_with_def read_exact_def write_all_def socks_fail_def socks_return_def split: nat.splits)

lemma fails_args:
  "fails_with (\<lambda>s. case extract_cert params of None \<Rightarrow> None | Some cert \<Rightarrow> socks_return \<lparr>ca_cert = cert\<rparr> s) (\<lambda>_. False)"
  by (simp add: fails_with_def extract_cert_spec socks_return_def)

lemma fails_bind:
  assumes "fails_with m F" "succeeds m P" "\<And>a. fails_with (f a) (G a)"
  shows "fails_with (socks_bind m f) (\<lambda>ws. F ws \<or> (\<exists>a c w1 w2. P a c w1 \<and> G a w2 \<and> ws = w1 @ w2))"
  unfolding fails_with_def
proof (intro allI conjI impI)
  fix s
  show "socks_bind m f s \<noteq> None"
    using assms(1,3) by (auto simp: socks_bind_def fails_with_def split: option.splits sum.splits)
  fix e t
  assume "socks_bind m f s = Some (Inl e, t)"
  then consider "m s = Some (Inl e, t)" | a u where "m s = Some (Inr a, u)" "f a u = Some (Inl e, t)"
    by (auto simp: socks_bind_def split: option.splits sum.splits)
  then show "\<exists>ws. (F ws \<or> (\<exists>a c w1 w2. P a c w1 \<and> G a w2 \<and> ws = w1 @ w2)) \<and> sk_out t = sk_out s @ concat ws"
  proof cases
    case 1
    then show ?thesis using assms(1) unfolding fails_with_def by blast
  next
    case (2 a u)
    obtain c w1 where 1: "P a c w1" "exchange s c w1 u" using 2(1) assms(2) unfolding succeeds_def by blast
    obtain w2 where w2: "G a w2" "sk_out t = sk_out u @ concat w2" using 2(2) assms(3) unfolding fails_with_def by blast
    have "sk_out t = sk_out s @ concat (w1 @ w2)" using 1(2) w2(2) by (simp add: exchange_def)
    then show ?thesis using 1(1) w2(1) by blast
  qed
qed

lemma fails_if: "fails_with m F \<Longrightarrow> fails_with n G \<Longrightarrow> fails_with (if b then m else n) (\<lambda>ws. F ws \<or> G ws)"
  unfolding fails_with_def by (cases b) (simp; blast)+

lemma fails_weaken: "fails_with m F \<Longrightarrow> (\<And>ws. F ws \<Longrightarrow> G ws) \<Longrightarrow> fails_with m G"
  unfolding fails_with_def by blast

lemmas fails_intros = fails_basic fails_args fails_if

lemma fails_userpass: "fails_with read_userpass_args (\<lambda>ws. ws = [] \<or> ws = [[1, 0]])"
  unfolding read_userpass_args_def
  apply (rule fails_weaken)
   apply ((rule fails_intros fails_bind succeeds_intros)+)[1]
  by (auto simp: socks_consts)

lemma fails_target: "fails_with read_connect_target (\<lambda>ws. ws = [])"
  unfolding read_connect_target_def
  apply (rule fails_weaken)
   apply ((rule fails_intros fails_bind succeeds_ip succeeds_intros)+)[1]
  by auto

lemma fails_negotiate:
  "fails_with negotiate (\<lambda>ws. ws \<in> {[], [[5, 2]], [[5, 2], [1, 0]], [[5, 255]], [[5, 0]]})"
  unfolding negotiate_def
  apply (rule fails_weaken)
   apply ((rule fails_intros fails_userpass fails_bind succeeds_userpass succeeds_intros)+)[1]
  by (auto simp: socks_consts)

lemma fails_accept:
  "fails_with accept_socks5_connect (\<lambda>ws. ws \<in> {[], [[5, 2]], [[5, 2], [1, 0]], [[5, 255]], [[5, 0]]})"
  unfolding accept_socks5_connect_def
  apply (rule fails_weaken)
   apply ((rule fails_intros fails_negotiate fails_target fails_bind succeeds_negotiate succeeds_target succeeds_intros)+)[1]
  by (auto split: option.splits)

lemma socks_steps:
  "socks_bind (read_exact n) f s =
     (if n \<le> length (sk_in s) then f (take n (sk_in s)) (s\<lparr>sk_in := drop n (sk_in s)\<rparr>)
      else Some (Inl SocksIo, s\<lparr>sk_in := []\<rparr>))"
  "socks_bind (write_all bs) g s =
     (if 0 < sk_writes s then g () (s\<lparr>sk_out := sk_out s @ bs, sk_writes := sk_writes s - 1\<rparr>)
      else Some (Inl SocksIo, s))"
  "socks_bind (socks_return a) h s = h a s"
  by (simp_all add: socks_bind_def read_exact_def write_all_def socks_return_def split: nat.splits)



end
