(* ===== verification/Wire.thy ===== *)
theory Wire
  imports Routing Flow
begin

text \<open>
  A multiplexed wire from end to end, from \<open>src/src/transport.rs\<close>: the loop that every receiving
  task runs over the sealed frames of its wire, the two multiplexers as such loops, and the readers
  and writers of the circuits. The theorems compose the readers, the
  flow, the ciphers and the multiplexers: what a circuit reads arrives at its relay in order, and
  back.
\<close>

section \<open>The loop over the frames of a wire\<close>

text \<open>
  The loop \<open>while let Some(frame) = read_sealed_frame(..)?\<close> that every receiving task runs, over
  its body; \<open>k\<close> is its \<open>wire_seq\<close>. It ends at the end of the stream, on a read or
  authentication error, or when the body returns an error.
\<close>

function for_frames ::
  "crypto_ops \<Rightarrow> (nat \<Rightarrow> byte \<times> bytes \<Rightarrow> 's \<Rightarrow> ('x + unit) \<times> 's) \<Rightarrow> nat \<Rightarrow> 'e wire_in \<Rightarrow> frame_cipher \<Rightarrow> 's \<Rightarrow>
     (('e recv_error + 'x) + unit) \<times> 's" where
  "for_frames C body k w cipher s =
     (case read_sealed_frame C w cipher of
        (Inl e, _, _) \<Rightarrow> (Inl (Inl e), s)
      | (Inr None, _, _) \<Rightarrow> (Inr (), s)
      | (Inr (Some frame), w', cipher') \<Rightarrow>
          (case body k frame s of
             (Inl x, s') \<Rightarrow> (Inl (Inr x), s')
           | (Inr _, s') \<Rightarrow> for_frames C body (k + 1) w' cipher' s'))"
  by pat_completeness auto

termination
  by (relation "measure (\<lambda>(C, body, k, w, c, s). length (fst w))")
    (auto simp: read_sealed_frame_def Let_def enc_frame_len_def KIND_LEN_def split: if_splits option.splits
      prod.splits sum.splits)

declare for_frames.simps [simp del]

text \<open>The same loop over frames that are already open: what the wire is compared with.\<close>

fun fold_frames ::
  "(nat \<Rightarrow> byte \<times> bytes \<Rightarrow> 's \<Rightarrow> ('x + unit) \<times> 's) \<Rightarrow> nat \<Rightarrow> (byte \<times> bytes) list \<Rightarrow> 's \<Rightarrow> ('x + unit) \<times> 's" where
  "fold_frames body k [] s = (Inr (), s)"
| "fold_frames body k (f # fs) s =
     (case body k f s of
        (Inl x, s') \<Rightarrow> (Inl x, s')
      | (Inr _, s') \<Rightarrow> fold_frames body (k + 1) fs s')"

definition wire_result :: "('x + unit) \<Rightarrow> ('e recv_error + 'x) + unit" where
  "wire_result res = (case res of Inl x \<Rightarrow> Inl (Inr x) | Inr _ \<Rightarrow> Inr ())"

section \<open>The tasks of a multiplexed wire\<close>

text \<open>
  \<open>mux_demux_to_bridges\<close>: \<open>env k\<close> is what the other tasks did to the shared state while the loop
  waited for its \<open>k\<close>-th frame, \<open>now k\<close> the clock when it handles it.
\<close>

definition demux_body ::
  "'r rng_ops \<Rightarrow> tail_policy \<Rightarrow> (nat \<Rightarrow> nanos) \<Rightarrow> (nat \<Rightarrow> 'r demux_state \<Rightarrow> 'r demux_state) \<Rightarrow>
     nat \<Rightarrow> byte \<times> bytes \<Rightarrow> 'r demux_state \<Rightarrow> (string + unit) \<times> 'r demux_state" where
  "demux_body R policy now env k frame st =
     (if fst frame \<noteq> KIND_REAL then (Inr (), env k st) else demux_cell R policy (now k) (snd frame) (env k st))"

definition mux_demux_to_bridges ::
  "crypto_ops \<Rightarrow> 'r rng_ops \<Rightarrow> tail_policy \<Rightarrow> (nat \<Rightarrow> nanos) \<Rightarrow> (nat \<Rightarrow> 'r demux_state \<Rightarrow> 'r demux_state) \<Rightarrow>
     'e wire_in \<Rightarrow> frame_cipher \<Rightarrow> 'r demux_state \<Rightarrow> (('e recv_error + string) + unit) \<times> 'r demux_state" where
  "mux_demux_to_bridges C R policy now env w cipher st = for_frames C (demux_body R policy now env) 0 w cipher st"

definition inbound_body ::
  "(nat \<Rightarrow> mux_wire \<Rightarrow> mux_wire) \<Rightarrow> nat \<Rightarrow> byte \<times> bytes \<Rightarrow> mux_wire \<Rightarrow> (unit + unit) \<times> mux_wire" where
  "inbound_body env k frame w =
     (Inr (), if fst frame \<noteq> KIND_REAL then env k w else inbound_cell (snd frame) (env k w))"

definition receive_mux_inbound ::
  "crypto_ops \<Rightarrow> (nat \<Rightarrow> mux_wire \<Rightarrow> mux_wire) \<Rightarrow> 'e wire_in \<Rightarrow> frame_cipher \<Rightarrow> mux_wire \<Rightarrow>
     (('e recv_error + unit) + unit) \<times> mux_wire" where
  "receive_mux_inbound C env w cipher mw = for_frames C (inbound_body env) 0 w cipher mw"

text \<open>
  The two halves of \<open>handle_mux_tor_connection\<close>: the reader of a circuit is the reader of a relay
  under other log labels, the writer writes what its channel yields.
\<close>

definition mux_tor_reader ::
  "'r rng_ops \<Rightarrow> u16 \<Rightarrow> nat option \<Rightarrow> 'e read_event list \<Rightarrow> 'r \<Rightarrow> ('e + unit) \<times> bytes list" where
  "mux_tor_reader R sid accepted evs r =
     (let (res, cells) = reader_cells R sid evs r
      in case accepted of
           None \<Rightarrow> (res, cells)
         | Some n \<Rightarrow> if n < length cells then (Inr (), take n cells) else (res, cells))"

definition mux_tor_writer :: "(nat \<Rightarrow> 'e option) \<Rightarrow> bytes list \<Rightarrow> ('e + unit) \<times> bytes" where
  "mux_tor_writer wr msgs = write_all_msgs wr 0 msgs"

section \<open>What a receiving loop sees of the sender's frames\<close>

lemma for_frames_sealed:
  assumes "aead_ok C" "\<forall>f\<in>set fs. frame_len f = CELL_BYTES" "length rest < enc_frame_len CELL_BYTES"
  shows "for_frames C body k (wire_bytes C fs c @ rest, None :: 'e option) c s =
    apfst wire_result (fold_frames body k (map frame_msg fs) s)"
  using assms(2)
proof (induction fs arbitrary: c k s)
  case Nil
  then show ?case using assms(3) by (simp add: for_frames.simps read_sealed_frame_def Let_def wire_result_def)
next
  case (Cons f fs)
  obtain bs c' where e: "encode_frame C f c = (bs, c')" by (cases "encode_frame C f c")
  have r: "read_sealed_frame C (bs @ wire_bytes C fs c' @ rest, None :: 'e option) c
      = (Inr (Some (frame_msg f)), (wire_bytes C fs c' @ rest, None), c')"
    using read_sealed_step [OF assms(1) e] Cons.prems by simp
  have ih: "for_frames C body k' (wire_bytes C fs c' @ rest, None :: 'e option) c' s' =
      apfst wire_result (fold_frames body k' (map frame_msg fs) s')" for k' s'
    using Cons.IH Cons.prems by simp
  show ?case
    by (cases "body k (frame_msg f) s"; cases "fst (body k (frame_msg f) s)")
      (use r ih in \<open>auto simp: wire_bytes_Cons(1) [OF e] for_frames.simps [of C body k] wire_result_def\<close>)
qed

text \<open>Whatever arrives, the loop runs over frames that the holder of the key sealed, in order.\<close>

lemma for_frames_authentic:
  fixes w :: bytes and e :: "'e option"
  assumes "aead_ok C" "for_frames C body k (w, e) c s = (res, s')"
  shows "\<exists>ms rest res'. w = concat (fst (map_state (seal_frame C) ms c)) @ rest \<and>
    fold_frames body k ms s = (res', s') \<and> (\<forall>x. res' = Inl x \<longleftrightarrow> res = Inl (Inr x))"
  using assms(2)
proof (induction "length w" arbitrary: w c k s rule: less_induct)
  case less
  show ?case
  proof (cases "\<exists>m w' c'. read_sealed_frame C (w, e) c = (Inr (Some m), w', c')")
    case False
    then have "s' = s \<and> (\<nexists>x. res = Inl (Inr x))"
      using less.prems by (subst (asm) for_frames.simps) (auto split: prod.splits sum.splits option.splits)
    then show ?thesis by (intro exI [of _ "[]"] exI [of _ w] exI [of _ "Inr ()"]) simp
  next
    case True
    then obtain m w' e' c' where r: "read_sealed_frame C (w, e) c = (Inr (Some m), (w', e'), c')" by auto
    let ?n = "enc_frame_len CELL_BYTES"
    have o: "?n \<le> length w" "w' = drop ?n w" "e' = e" "cipher_open C (take ?n w) c = (Inr m :: 'e handshake_error + byte \<times> bytes, c')"
      using r by (auto simp: read_sealed_frame_def Let_def split: if_splits option.splits prod.splits sum.splits)
    have sl: "seal_frame C m c = (take ?n w, c')"
      using cipher_open_sealed [OF assms(1), of "take ?n w" c "fst m" "snd m" c'] o(4) by (simp add: seal_frame_def)
    have less_w: "length w' < length w" using o(1,2) by (simp add: enc_frame_len_def KIND_LEN_def)
    show ?thesis
    proof (cases "body k m s")
      case (Pair b s1)
      show ?thesis
      proof (cases b)
        case (Inl x)
        then have "res = Inl (Inr x)" "s' = s1" using less.prems r Pair by (simp_all add: for_frames.simps)
        then show ?thesis
          using sl Inl Pair by (intro exI [of _ "[m]"] exI [of _ "drop ?n w"] exI [of _ "Inl x"]) (auto simp: case_prod_beta)
      next
        case (Inr u)
        then have "for_frames C body (k + 1) (w', e) c' s1 = (res, s')"
          using less.prems r Pair o(3) by (simp add: for_frames.simps [of C body k])
        from less.hyps [OF less_w this] obtain ms rest res' where
          m: "w' = concat (fst (map_state (seal_frame C) ms c')) @ rest" "fold_frames body (k + 1) ms s1 = (res', s')"
            "\<forall>x. res' = Inl x \<longleftrightarrow> res = Inl (Inr x)" by blast
        have "w = concat (fst (map_state (seal_frame C) (m # ms) c)) @ rest"
          using sl m(1) o(2) by (simp add: case_prod_beta) (metis append_take_drop_id)
        then show ?thesis
          using m(2,3) Inr Pair by (intro exI [of _ "m # ms"] exI [of _ rest] exI [of _ res']) simp
      qed
    qed
  qed
qed


text \<open>The cells among some frames, and the data cells among some cells.\<close>

definition real_cells :: "(byte \<times> bytes) list \<Rightarrow> bytes list" where
  "real_cells ms = map snd (filter (\<lambda>m. fst m = KIND_REAL) ms)"

definition data_cells :: "bytes list \<Rightarrow> (u16 \<times> bytes) list" where
  "data_cells cells = filter (\<lambda>(_, d). d \<noteq> []) (map decode_real_cell cells)"

lemma real_cells_append [simp]: "real_cells (xs @ ys) = real_cells xs @ real_cells ys"
  by (simp add: real_cells_def)

lemma data_cells_append [simp]: "data_cells (xs @ ys) = data_cells xs @ data_cells ys"
  by (simp add: data_cells_def)

lemma kind_dummy_real: "KIND_DUMMY \<noteq> KIND_REAL"
  by (simp add: KIND_REAL_def KIND_DUMMY_def)

lemma real_cells_frames: "real_cells (map frame_msg fs) = map packet_bytes (concat (map frame_real fs))"
proof (induction fs)
  case Nil
  then show ?case by (simp add: real_cells_def)
next
  case (Cons f fs)
  then show ?case by (cases f) (simp_all add: real_cells_def frame_msg_def kind_dummy_real)
qed

text \<open>A fold whose body appends the data of the cell it handles, and stops there when it fails.\<close>

lemma fold_frames_seen:
  assumes body: "\<And>k m s x s'. P s \<Longrightarrow> body k m s = (x, s') \<Longrightarrow> P s' \<and> seen s' = seen s @ data_cells (real_cells [m])"
    and "P s" "fold_frames body k ms s = (res, s')"
  obtains ms1 ms2 where "ms = ms1 @ ms2" "seen s' = seen s @ data_cells (real_cells ms1)" "P s'"
    "res = Inr () \<longrightarrow> ms2 = []"
proof -
  have "\<exists>ms1 ms2. ms = ms1 @ ms2 \<and> seen s' = seen s @ data_cells (real_cells ms1) \<and> P s' \<and>
      (res = Inr () \<longrightarrow> ms2 = [])"
    using assms(2,3)
  proof (induction ms arbitrary: s k)
    case Nil
    then show ?case by (simp add: real_cells_def data_cells_def)
  next
    case (Cons m ms)
    obtain x s1 where 1: "body k m s = (x, s1)" by force
    note b = body [OF Cons.prems(1) 1]
    show ?case
    proof (cases x)
      case (Inl y)
      then have "res = Inl y" "s' = s1" using Cons.prems 1 by simp_all
      then show ?thesis using b by (intro exI [of _ "[m]"] exI [of _ ms]) simp
    next
      case (Inr u)
      then have "fold_frames body (k + 1) ms s1 = (res, s')" using Cons.prems 1 by simp
      from Cons.IH [OF conjunct1 [OF b] this] obtain ms1 ms2 where
        "ms = ms1 @ ms2" "seen s' = seen s1 @ data_cells (real_cells ms1)" "P s'" "res = Inr () \<longrightarrow> ms2 = []" by blast
      then show ?thesis
        using b real_cells_append [of "[m]" ms1] by (intro exI [of _ "m # ms1"] exI [of _ ms2]) simp
    qed
  qed
  then show thesis using that by blast
qed

text \<open>
  A flow and the loop at the other end of its wire: the loop folds over frames whose cells are a
  prefix of the cells the flow pulled, and over all of them once nothing is queued or unwritten.
\<close>

lemma flow_to_loop:
  assumes "rng_ok R" "aead_ok C" "session_generate G os (clk 0) = (Inr seeds, os')"
    and "flow_open R H G os r_iat r_th clk gated policy cipher = Some (Inr fl, os')"
    and "\<forall>e\<in>set es. flow_adm fl e" "flow_run C R es fl = Some (w, fs, got, fl')"
  shows "\<exists>ms later. got = real_cells ms @ later \<and>
    (fl_pending fl' = [] \<and> ss_queue (fl_session fl') = [] \<longrightarrow> later = []) \<and>
    (\<forall>body s. for_frames C (body :: nat \<Rightarrow> byte \<times> bytes \<Rightarrow> 's \<Rightarrow> ('x + unit) \<times> 's) 0 (w, None :: 'e option) cipher s =
      apfst wire_result (fold_frames body 0 ms s))"
proof -
  have fl: "flow_inv C R fl" "ss_queue (fl_session fl) = []" "fl_pending fl = []" "fl_cipher fl = cipher"
    using flow_open_ok [where clk = clk, OF assms(1-3), of H r_iat r_th gated policy cipher] assms(4) by auto
  have run: "wire_bytes C fs cipher = w @ fl_pending fl'"
      "map Packet got = concat (map frame_real fs) @ ss_queue (fl_session fl')"
      "\<forall>f\<in>set fs. frame_len f = CELL_BYTES"
    using flow_run_ok [OF fl(1) assms(5)] fl assms(6) by auto
  obtain fs1 fs2 rest where s: "fs = fs1 @ fs2" "w = wire_bytes C fs1 cipher @ rest" "length rest < enc_frame_len CELL_BYTES"
    and drained: "fl_pending fl' = [] \<Longrightarrow> fs2 = []"
  proof (cases "fl_pending fl' = []")
    case True
    then show thesis using that [of fs "[]" "[]"] run(1) by (simp add: enc_frame_len_def KIND_LEN_def)
  next
    case False
    then show thesis using that wire_prefix_split [OF assms(2) run(3) run(1) [symmetric]] by blast
  qed
  have "got = map packet_bytes (map Packet got)" by (simp add: comp_def)
  then have "got = real_cells (map frame_msg fs1) @
      (real_cells (map frame_msg fs2) @ map packet_bytes (ss_queue (fl_session fl')))"
    unfolding run(2) s(1) by (simp add: real_cells_frames)
  then show ?thesis
    using s(2,3) run(3) s(1) drained for_frames_sealed [OF assms(2), of fs1 rest]
    by (intro exI [of _ "map frame_msg fs1"] exI) (auto simp: real_cells_def)
qed

section \<open>End to end\<close>

text \<open>What the other tasks may do while a loop waits: steps of their own that bring in no data.\<close>

definition relays_run :: "'r rng_ops \<Rightarrow> tail_policy \<Rightarrow> (nat \<Rightarrow> 'r demux_state \<Rightarrow> 'r demux_state) \<Rightarrow> bool" where
  "relays_run R policy env \<longleftrightarrow>
     (\<forall>k st. (demux_step R policy)\<^sup>*\<^sup>* st (env k st) \<and> dx_seen (env k st) = dx_seen st)"

definition circuits_run :: "(nat \<Rightarrow> mux_wire \<Rightarrow> mux_wire) \<Rightarrow> bool" where
  "circuits_run env \<longleftrightarrow> (\<forall>k w. wire_step\<^sup>*\<^sup>* w (env k w) \<and> mw_seen (env k w) = mw_seen w)"

lemma demux_cell_seen:
  "demux_cell R policy now cell st = (res, st') \<Longrightarrow> dx_seen st' = dx_seen st @ data_cells [cell]"
  by (cases "decode_real_cell cell")
    (auto simp: demux_cell_def data_cells_def Let_def split: if_splits option.splits prod.splits)

lemma demux_body_seen:
  assumes "relays_run R policy env" "(demux_step R policy)\<^sup>*\<^sup>* st0 st" "demux_body R policy now env k m st = (x, st')"
  shows "(demux_step R policy)\<^sup>*\<^sup>* st0 st' \<and> dx_seen st' = dx_seen st @ data_cells (real_cells [m])"
proof -
  have e: "(demux_step R policy)\<^sup>*\<^sup>* st0 (env k st)" "dx_seen (env k st) = dx_seen st"
    using assms(1,2) by (auto simp: relays_run_def intro: rtranclp_trans)
  show ?thesis
  proof (cases "fst m = KIND_REAL")
    case False
    then show ?thesis using assms(3) e by (auto simp: demux_body_def real_cells_def data_cells_def)
  next
    case True
    then have c: "demux_cell R policy (now k) (snd m) (env k st) = (x, st')" using assms(3) by (simp add: demux_body_def)
    have "real_cells [m] = [snd m]" using True by (simp add: real_cells_def)
    then show ?thesis
      using rtranclp.rtrancl_into_rtrancl [OF e(1) step_cell [OF c]] demux_cell_seen [OF c] e(2) by simp
  qed
qed

lemma inbound_cell_seen: "mw_seen (inbound_cell cell w) = mw_seen w @ data_cells [cell]"
  by (cases "decode_real_cell cell")
    (auto simp: inbound_cell_def data_cells_def Let_def split: option.splits prod.splits)

lemma inbound_body_seen:
  assumes "circuits_run env" "wire_step\<^sup>*\<^sup>* w0 w" "inbound_body env k m w = (x, w')"
  shows "wire_step\<^sup>*\<^sup>* w0 w' \<and> mw_seen w' = mw_seen w @ data_cells (real_cells [m])"
proof -
  have e: "wire_step\<^sup>*\<^sup>* w0 (env k w)" "mw_seen (env k w) = mw_seen w"
    using assms(1,2) by (auto simp: circuits_run_def intro: rtranclp_trans)
  show ?thesis
  proof (cases "fst m = KIND_REAL")
    case False
    then show ?thesis using assms(3) e by (auto simp: inbound_body_def real_cells_def data_cells_def)
  next
    case True
    then have "w' = inbound_cell (snd m) (env k w)" using assms(3) by (simp add: inbound_body_def)
    then show ?thesis
      using e True inbound_cell_seen [of "snd m" "env k w"] wire_cell [of "env k w" "snd m"]
      by (auto simp: real_cells_def intro: rtranclp.rtrancl_into_rtrancl)
  qed
qed

text \<open>The cells of a stream among those pulled, and the bytes they carry.\<close>

definition stream_cells :: "u16 \<Rightarrow> bytes list \<Rightarrow> bytes list" where
  "stream_cells sid cells = filter (\<lambda>c. fst (decode_real_cell c) = sid) cells"

lemma stream_bytes:
  "concat (stream_data sid (data_cells cells)) = concat (map (snd \<circ> decode_real_cell) (stream_cells sid cells))"
  by (induction cells) (auto simp: stream_data_def data_cells_def stream_cells_def split: prod.splits)

text \<open>Each stream of a merge of readers carries a prefix of what its reader has read.\<close>

lemma merged_streams:
  assumes "rng_ok R" "prefix (stream_cells sid got) (snd (reader_cells R sid evs r))" "got = cells @ later"
  shows "prefix (concat (stream_data sid (data_cells cells))) (read_bytes evs)"
    and "later = [] \<Longrightarrow> stream_cells sid got = snd (reader_cells R sid evs r) \<Longrightarrow>
      concat (stream_data sid (data_cells cells)) = read_bytes evs"
proof -
  have all: "concat (map (snd \<circ> decode_real_cell) (snd (reader_cells R sid evs r))) = read_bytes evs"
    using reader_cells_ok(1) [OF assms(1) surjective_pairing] .
  have "prefix (stream_cells sid cells) (snd (reader_cells R sid evs r))"
    using assms(2) append_prefixD by (simp add: assms(3) stream_cells_def)
  then obtain zs where "snd (reader_cells R sid evs r) = stream_cells sid cells @ zs" by (rule prefixE)
  then show "prefix (concat (stream_data sid (data_cells cells))) (read_bytes evs)"
    unfolding stream_bytes all [symmetric] by simp
  show "concat (stream_data sid (data_cells cells)) = read_bytes evs"
    if "later = []" "stream_cells sid got = snd (reader_cells R sid evs r)"
    using that assms(3) all by (simp add: stream_bytes)
qed


text \<open>The cells a service pulls are among those its channel delivered.\<close>

lemma pull_cell_got:
  assumes "pull_cell R gate now recvd fl = Some (got, fl')"
  shows "got = [] \<or> (\<exists>cell. recvd = Got cell \<and> got = [cell])"
  using assms by (cases recvd) (fastforce simp: pull_cell_def Let_def bind_eq_Some_conv split: if_splits sum.splits prod.splits)+

lemma service_loop_step:
  assumes "service_loop (Suc n) C R gate clk recv k fl = Some (got, out, fl')"
  obtains "got = []"
  | got1 fl1 got2 out2 fl3 where "pull_cell R gate (\<lambda>i. clk (7 * k + i)) (recv k) fl = Some (got1, fl1)"
      "service_loop n C R gate clk recv (k + 1) fl3 = Some (got2, out2, fl')" "got = got1 @ got2"
proof (cases "ss_slot_ready (clk (7 * k)) (fl_session fl) \<and> length (fl_pending fl) < PENDING_CAP")
  case False
  then show thesis using assms that(1) by auto
next
  case True
  then obtain got1 fl1 where p: "pull_cell R gate (\<lambda>i. clk (7 * k + i)) (recv k) fl = Some (got1, fl1)"
    using assms by (auto simp: bind_eq_Some_conv)
  obtain fo s where tk: "ss_tick R (clk (7 * k + 5)) (clk (7 * k + 6)) (fl_session fl1) = (fo, s)" by force
  show thesis
  proof (cases fo)
    case None
    then show thesis using assms True p tk that(2) by (auto simp: bind_eq_Some_conv)
  next
    case (Some f)
    obtain bs c where "encode_frame C f (fl_cipher fl1) = (bs, c)" by force
    then show thesis using assms True p tk Some that(2) by (auto simp: bind_eq_Some_conv)
  qed
qed

lemma service_loop_got_empty:
  assumes "service_loop n C R gate clk recv k fl = Some (got, out, fl')" "\<forall>j\<ge>k. recv j = ChannelEmpty"
  shows "got = []"
  using assms
proof (induction n arbitrary: k fl got out)
  case 0
  then show ?case by simp
next
  case (Suc n)
  show ?case
  proof (rule service_loop_step [OF Suc.prems(1)])
    fix got1 fl1 got2 out2 fl3
    assume s: "pull_cell R gate (\<lambda>i. clk (7 * k + i)) (recv k) fl = Some (got1, fl1)"
      "service_loop n C R gate clk recv (k + 1) fl3 = Some (got2, out2, fl')" "got = got1 @ got2"
    show "got = []" using pull_cell_got [OF s(1)] Suc.prems(2) Suc.IH [OF s(2)] s(3) by auto
  qed
qed

lemma service_got_single:
  assumes "service_flow C R t clk (\<lambda>k. if k = 0 then Got cell else ChannelEmpty) wr fl = Some r"
  shows "sv_pulled r = [] \<or> sv_pulled r = [cell]"
proof -
  let ?recv = "\<lambda>k :: nat. if k = 0 then Got cell else ChannelEmpty"
  have fuel: "SERVICE_FUEL = Suc 124" by (simp add: SERVICE_FUEL_def)
  have loop: "got = [] \<or> got = [cell]"
    if l: "service_loop SERVICE_FUEL C R gate clk ?recv 0 fl0 = Some (got, out, fl')" for gate fl0 got out fl'
  proof (rule service_loop_step [OF l [unfolded fuel]], blast)
    fix got1 fl1 got2 out2 fl3
    assume s: "pull_cell R gate (\<lambda>i. clk (7 * 0 + i)) (?recv 0) fl0 = Some (got1, fl1)"
      "service_loop 124 C R gate clk ?recv (0 + 1) fl3 = Some (got2, out2, fl')" "got = got1 @ got2"
    then show "got = [] \<or> got = [cell]"
      using service_loop_got_empty [OF s(2)] pull_cell_got [OF s(1)] by auto
  qed
  let ?fl1 = "if fl_clock_started fl then fl
     else fl\<lparr>fl_session := ss_restart_clock R (t 0) (t 1) (fl_session fl), fl_clock_started := True\<rparr>"
  obtain got out fl2 where g: "(if length (fl_pending ?fl1) < PENDING_CAP
      then service_loop SERVICE_FUEL C R (fl_real_hold_until ?fl1 \<le> t 2) clk ?recv 0 ?fl1 else Some ([], [], ?fl1)) = Some (got, out, fl2)"
    "sv_pulled r = got"
    using assms unfolding service_flow_def Let_def [of ?fl1] bind_eq_Some_conv by (auto simp: Let_def case_prod_beta)
  then show ?thesis using loop by (auto split: if_splits)
qed

lemma uplink_delivers:
  fixes Q :: "'q rng_ops"
  assumes "rng_ok R" "aead_ok C" "session_generate G os (clk 0) = (Inr seeds, os')"
    and "flow_open R H G os r_iat r_th clk False policy cipher = Some (Inr fl, os')"
    and "\<forall>e\<in>set es. flow_adm fl e" "flow_run C R es fl = Some (w, fs, got, fl')"
    and "\<forall>s. prefix (stream_cells s got) (snd (mux_tor_reader R s None (evs s) (r s)))"
    and "demux_init st0" "relays_run Q tail env"
    and "mux_demux_to_bridges C Q tail now env (w, None :: 'e option) cipher st0 = (res, st)"
  shows "(res = Inr () \<or> (\<exists>msg. res = Inl (Inr msg))) \<and>
    (\<forall>s. prefix (concat (stream_data s (dx_seen st))) (read_bytes (evs s))) \<and>
    (\<forall>ch\<in>set (dx_chans st). subseq (ch_taken ch @ ch_queue ch) (stream_data (ch_stream ch) (dx_seen st))) \<and>
    (res = Inr () \<and> fl_pending fl' = [] \<and> ss_queue (fl_session fl') = [] \<longrightarrow>
      (\<forall>s. stream_cells s got = snd (mux_tor_reader R s None (evs s) (r s)) \<longrightarrow>
         concat (stream_data s (dx_seen st)) = read_bytes (evs s)))"
proof -
  have rd: "snd (mux_tor_reader R s None ev q) = snd (reader_cells R s ev q)" for s and ev :: "'f read_event list" and q
    by (simp add: mux_tor_reader_def case_prod_beta)
  obtain ms later where m: "got = real_cells ms @ later"
      "fl_pending fl' = [] \<and> ss_queue (fl_session fl') = [] \<longrightarrow> later = []"
      "\<And>body (s :: 'q demux_state). for_frames C body 0 (w, None :: 'e option) cipher s =
        (apfst wire_result (fold_frames body 0 ms s) :: (('e recv_error + string) + unit) \<times> 'q demux_state)"
    using flow_to_loop [OF assms(1-6), where 'e = 'e and 's = "'q demux_state" and 'x = string] by blast
  obtain res' where f: "fold_frames (demux_body Q tail now env) 0 ms st0 = (res', st)" "res = wire_result res'"
    using assms(10) unfolding mux_demux_to_bridges_def m(3) by (cases "fold_frames (demux_body Q tail now env) 0 ms st0") auto
  have step: "(demux_step Q tail)\<^sup>*\<^sup>* st0 s' \<and> dx_seen s' = dx_seen s @ data_cells (real_cells [m])"
    if "(demux_step Q tail)\<^sup>*\<^sup>* st0 s" "demux_body Q tail now env k m s = (x, s')" for k m s x s'
    using demux_body_seen [OF assms(9) that] .
  obtain ms1 ms2 where s: "ms = ms1 @ ms2" "dx_seen st = dx_seen st0 @ data_cells (real_cells ms1)"
      "(demux_step Q tail)\<^sup>*\<^sup>* st0 st" "res' = Inr () \<longrightarrow> ms2 = []"
    by (rule fold_frames_seen [where P = "(demux_step Q tail)\<^sup>*\<^sup>* st0" and seen = dx_seen
        and body = "demux_body Q tail now env", OF _ rtranclp.rtrancl_refl f(1)]) (rule step)
  have seen: "dx_seen st = data_cells (real_cells ms1)" using s(2) assms(8) by (simp add: demux_init_def)
  have got: "got = real_cells ms1 @ (real_cells ms2 @ later)" using m(1) s(1) by simp
  note streams = merged_streams [OF assms(1) assms(7)[unfolded rd, rule_format] got]
  have "\<forall>ch\<in>set (dx_chans st). subseq (ch_taken ch @ ch_queue ch) (stream_data (ch_stream ch) (dx_seen st))"
    using demux.reach_inv [OF assms(8) s(3)] by (simp add: demux_inv_def routes_ok_def channel_ok_def)
  moreover have "res = Inr () \<or> (\<exists>msg. res = Inl (Inr msg))"
    using f(2) by (simp add: wire_result_def split: sum.splits)
  moreover have "real_cells ms2 @ later = []" if "res = Inr ()" "fl_pending fl' = []" "ss_queue (fl_session fl') = []"
    using that f(2) s(4) m(2) by (cases res') (auto simp: wire_result_def real_cells_def)
  ultimately show ?thesis using streams unfolding seen rd by blast
qed

section \<open>Properties\<close>




text \<open>One circuit that has sent two bytes over a flow that is served once.\<close>

definition sample_cell :: bytes where
  "sample_cell = cell_for 1 [65, 66]"

definition sample_read :: "u16 \<Rightarrow> unit read_event list" where
  "sample_read s = (if s = 1 then [RData [65, 66]] else [RFail ()])"

definition sample_service :: flow_event where
  "sample_service = FlowService (\<lambda>i. i) (\<lambda>i. i) (\<lambda>k. if k = 0 then Got sample_cell else ChannelEmpty) (Wrote 100)"

lemma sample_cell_facts:
  "decode_real_cell sample_cell = (1, [65, 66])" "length sample_cell = 514"
proof -
  show "decode_real_cell sample_cell = (1, [65, 66])" by (simp add: sample_cell_def cell_for_decode)
  show "length sample_cell = 514"
    using encode_real_cell_length [OF least_rng_ok surjective_pairing, of 1 "[65, 66]" "()"]
    by (simp add: sample_cell_def cell_for_def CELL_BYTES_def)
qed

lemma sample_reader:
  "snd (reader_cells least_rng s (sample_read s) ()) = (if s = 1 then [sample_cell, fst (encode_close_cell least_rng 1 ())] else [])"
proof -
  have "chunks CELL_PAYLOAD [65, 66 :: byte] = [[65, 66]]"
    by (simp add: chunks.simps CELL_PAYLOAD_def CELL_BYTES_def CELL_HEADER_def)
  then show ?thesis
    by (simp add: sample_read_def encode_read_def sample_cell_def cell_for_def case_prod_beta)
qed

lemma sample_run_flow:
  assumes "flow_inv toy_crypto least_rng fl"
  shows "\<exists>w fs got fl'. flow_run toy_crypto least_rng [sample_service] fl = Some (w, fs, got, fl') \<and>
     (got = [] \<or> got = [sample_cell])"
proof -
  have adm: "service_adm (\<lambda>i. i) (\<lambda>k. if k = 0 then Got sample_cell else ChannelEmpty)"
    using sample_cell_facts(2) by (simp add: service_adm_def recv_cells_def loop_clock_def CELL_BYTES_def)
  obtain r where r: "service_flow toy_crypto least_rng (\<lambda>i. i) (\<lambda>i. i)
      (\<lambda>k. if k = 0 then Got sample_cell else ChannelEmpty) (Wrote 100) fl = Some r"
    using service_flow_ok [OF assms adm] by blast
  from service_got_single [OF r] show ?thesis by (auto simp: sample_service_def r)
qed

lemmas sample_run = sample_run_flow [OF sample_flow_ok(2)]


lemma sample_flow_ungated:
  "flow_open least_rng (\<lambda>k d. d) byte_source 7 () () (\<lambda>i. i) False TailByClass (cipher_new [5]) = Some (Inr sample_flow, 9)"
  using sample_flow_ok(1) unfolding flow_open_def tail_policy.case .

lemma sample_stream:
  assumes "got = [] \<or> got = [sample_cell]"
  shows "prefix (stream_cells s got) (snd (reader_cells least_rng s (sample_read s) ()))"
  using assms by (auto simp: stream_cells_def sample_reader sample_cell_facts(1))

lemma sample_service_adm: "\<forall>e\<in>set [sample_service]. flow_adm fl e"
  using sample_cell_facts(2)
  by (simp add: sample_service_def service_adm_def recv_cells_def loop_clock_def CELL_BYTES_def)



end
