(* ===== verification/Admission.thy ===== *)
theory Admission
  imports Handshake "HOL-Library.Sublist"
begin

text \<open>
  How the bridge admits connections: \<open>serve_accept_loop\<close> of \<open>src/src/bin/mixtor-server.rs\<close> with
  the semaphore of handshakes, and the part of \<open>handle_server_connection_with_lab\<close> in
  \<open>src/src/transport.rs\<close> that decides what becomes of a connection: its handshake under a timeout,
  the blackhole for the rejected, and the permit of an established one. Time is the clock of the
  timers; the steps of the peers and of the timers are two relations, so that what the timers alone
  achieve can be stated.
\<close>

section \<open>Constants\<close>

definition HANDSHAKE_TIMEOUT :: nanos where
  "HANDSHAKE_TIMEOUT = 15 * 1000000000"

definition BLACKHOLE_MIN_SECS :: nat where
  "BLACKHOLE_MIN_SECS = 2"

definition BLACKHOLE_MAX_SECS :: nat where
  "BLACKHOLE_MAX_SECS = 30"

definition MAX_TOTAL_CONNECTIONS :: nat where
  "MAX_TOTAL_CONNECTIONS = 4096"

definition MAX_CONCURRENT_HANDSHAKES :: nat where
  "MAX_CONCURRENT_HANDSHAKES = 512"

section \<open>Connections\<close>

text \<open>A semaphore is the number of its free permits.\<close>

definition try_acquire :: "nat \<Rightarrow> nat option" where
  "try_acquire free = (if 0 < free then Some (free - 1) else None)"

text \<open>
  The life of an accepted connection: the handshake until its timeout, the blackhole until its
  deadline, the established wire, and the end. \<open>sc_opened\<close> is when it was accepted, \<open>sc_written\<close>
  what the handshake has written to the peer.
\<close>

datatype conn_phase = Handshaking nanos | Blackholed nanos | Established | Closed

record server_conn =
  sc_phase :: conn_phase
  sc_opened :: nanos
  sc_written :: bytes

text \<open>The process: the clock, the free permits of the two semaphores, and the connections.\<close>

record server_state =
  srv_now :: nanos
  srv_handshakes :: nat
  srv_slots :: nat
  srv_conns :: "server_conn list"

definition server_start :: "nanos \<Rightarrow> server_state" where
  "server_start t = \<lparr>srv_now = t, srv_handshakes = MAX_CONCURRENT_HANDSHAKES, srv_slots = MAX_TOTAL_CONNECTIONS,
     srv_conns = []\<rparr>"

definition set_phase :: "nat \<Rightarrow> conn_phase \<Rightarrow> server_state \<Rightarrow> server_state" where
  "set_phase i p st = st\<lparr>srv_conns := (srv_conns st)[i := (srv_conns st ! i)\<lparr>sc_phase := p\<rparr>]\<rparr>"

definition set_written :: "nat \<Rightarrow> bytes \<Rightarrow> server_state \<Rightarrow> server_state" where
  "set_written i out st = st\<lparr>srv_conns := (srv_conns st)[i := (srv_conns st ! i)\<lparr>sc_written := out\<rparr>]\<rparr>"

text \<open>One turn of \<open>serve_accept_loop\<close>: without a permit the connection is dropped at once.\<close>

definition serve_accept :: "server_state \<Rightarrow> server_state" where
  "serve_accept st =
     (let conn = \<lambda>p. \<lparr>sc_phase = p, sc_opened = srv_now st, sc_written = []\<rparr>
      in case try_acquire (srv_handshakes st) of
           None \<Rightarrow> st\<lparr>srv_conns := srv_conns st @ [conn Closed]\<rparr>
         | Some free \<Rightarrow> st\<lparr>srv_handshakes := free,
                            srv_conns := srv_conns st @ [conn (Handshaking (srv_now st + HANDSHAKE_TIMEOUT))]\<rparr>)"

text \<open>
  The two ways \<open>handle_server_connection_with_lab\<close> goes on after the timeout on its handshake: with
  ciphers, which releases the handshake permit and needs one of the connection permits, or, on an
  error or a timeout, into the blackhole, which keeps the permit.
\<close>

definition handshake_passed :: "nat \<Rightarrow> server_state \<Rightarrow> server_state" where
  "handshake_passed i st =
     (let st1 = st\<lparr>srv_handshakes := srv_handshakes st + 1\<rparr>
      in case try_acquire (srv_slots st1) of
           None \<Rightarrow> set_phase i Closed st1
         | Some free \<Rightarrow> set_phase i Established (st1\<lparr>srv_slots := free\<rparr>))"

definition handshake_failed :: "nat \<Rightarrow> nat \<Rightarrow> server_state \<Rightarrow> server_state" where
  "handshake_failed i secs st = set_phase i (Blackholed (srv_now st + secs * 1000000000)) st"

definition handshake_result :: "nat \<Rightarrow> 'a + 'b \<Rightarrow> nat \<Rightarrow> server_state \<Rightarrow> server_state" where
  "handshake_result i res secs st = (case res of Inl _ \<Rightarrow> handshake_failed i secs st | Inr _ \<Rightarrow> handshake_passed i st)"

definition blackhole_secs :: "'r rng_ops \<Rightarrow> 'r \<Rightarrow> nat option" where
  "blackhole_secs R r = map_option fst (gen_range R r BLACKHOLE_MIN_SECS BLACKHOLE_MAX_SECS)"

text \<open>The loop of \<open>blackhole\<close>: data is discarded, its deadline or the end of the peer ends it. What
  follows is the drop of the connection and of its permit.\<close>

datatype blackhole_event = HoleDeadline | HoleData bytes | HoleError

fun blackhole_breaks :: "blackhole_event \<Rightarrow> bool" where
  "blackhole_breaks HoleDeadline = True"
| "blackhole_breaks (HoleData buf) \<longleftrightarrow> buf = []"
| "blackhole_breaks HoleError = True"

definition blackhole :: "nat \<Rightarrow> blackhole_event \<Rightarrow> server_state \<Rightarrow> server_state" where
  "blackhole i ev st =
     (if blackhole_breaks ev then set_phase i Closed (st\<lparr>srv_handshakes := srv_handshakes st + 1\<rparr>) else st)"

definition connection_ends :: "nat \<Rightarrow> server_state \<Rightarrow> server_state" where
  "connection_ends i st = set_phase i Closed (st\<lparr>srv_slots := srv_slots st + 1\<rparr>)"

section \<open>Steps\<close>

text \<open>
  The runtime fires a timer when it is due, so the clock does not pass an armed deadline. A timeout
  finds the handshake waiting for bytes, with nothing written, or writing its reply.
\<close>

definition armed :: "conn_phase \<Rightarrow> nanos option" where
  "armed p = (case p of Handshaking d \<Rightarrow> Some d | Blackholed d \<Rightarrow> Some d | _ \<Rightarrow> None)"

definition partial_reply :: "crypto_ops \<Rightarrow> 'r rng_ops \<Rightarrow> static_keypair \<Rightarrow> bytes \<Rightarrow> bool" where
  "partial_reply C R kp out \<longleftrightarrow> out = [] \<or>
     (\<exists>clk r (evs :: unit read_event list) res msg evs' r'.
        server_handshake C R clk kp r None evs = Some (res, msg, evs', r') \<and> prefix out msg)"

inductive timer_step :: "crypto_ops \<Rightarrow> 'r rng_ops \<Rightarrow> static_keypair \<Rightarrow> server_state \<Rightarrow> server_state \<Rightarrow> bool"
  for C :: crypto_ops and R :: "'r rng_ops" and kp :: static_keypair where
  timer_tick: "(\<And>c d. c \<in> set (srv_conns st) \<Longrightarrow> armed (sc_phase c) = Some d \<Longrightarrow> srv_now st + dt \<le> d) \<Longrightarrow>
    timer_step C R kp st (st\<lparr>srv_now := srv_now st + dt\<rparr>)"
| timer_handshake: "i < length (srv_conns st) \<Longrightarrow> sc_phase (srv_conns st ! i) = Handshaking d \<Longrightarrow> d \<le> srv_now st \<Longrightarrow>
    partial_reply C R kp out \<Longrightarrow> blackhole_secs R q = Some secs \<Longrightarrow>
    timer_step C R kp st (handshake_failed i secs (set_written i out st))"
| timer_blackhole: "i < length (srv_conns st) \<Longrightarrow> sc_phase (srv_conns st ! i) = Blackholed d \<Longrightarrow> d \<le> srv_now st \<Longrightarrow>
    timer_step C R kp st (blackhole i HoleDeadline st)"

inductive peer_step :: "crypto_ops \<Rightarrow> 'r rng_ops \<Rightarrow> static_keypair \<Rightarrow> server_state \<Rightarrow> server_state \<Rightarrow> bool"
  for C :: crypto_ops and R :: "'r rng_ops" and kp :: static_keypair where
  peer_connects: "peer_step C R kp st (serve_accept st)"
| peer_handshake: "i < length (srv_conns st) \<Longrightarrow> sc_phase (srv_conns st ! i) = Handshaking d \<Longrightarrow>
    server_handshake C R clk kp r wr (evs :: unit read_event list) = Some (res, out, evs', r') \<Longrightarrow>
    blackhole_secs R q = Some secs \<Longrightarrow>
    peer_step C R kp st (handshake_result i res secs (set_written i out st))"
| peer_blackholed: "i < length (srv_conns st) \<Longrightarrow> sc_phase (srv_conns st ! i) = Blackholed d \<Longrightarrow> ev \<noteq> HoleDeadline \<Longrightarrow>
    peer_step C R kp st (blackhole i ev st)"
| peer_ends: "i < length (srv_conns st) \<Longrightarrow> sc_phase (srv_conns st ! i) = Established \<Longrightarrow>
    peer_step C R kp st (connection_ends i st)"

definition server_step :: "crypto_ops \<Rightarrow> 'r rng_ops \<Rightarrow> static_keypair \<Rightarrow> server_state \<Rightarrow> server_state \<Rightarrow> bool" where
  "server_step C R kp st st' \<longleftrightarrow> timer_step C R kp st st' \<or> peer_step C R kp st st'"

inductive_cases timer_stepE: "timer_step C R kp st st'"
inductive_cases peer_stepE: "peer_step C R kp st st'"

section \<open>The invariant\<close>

definition holds_handshake :: "server_conn \<Rightarrow> bool" where
  "holds_handshake c \<longleftrightarrow> armed (sc_phase c) \<noteq> None"

definition holds_slot :: "server_conn \<Rightarrow> bool" where
  "holds_slot c \<longleftrightarrow> sc_phase c = Established"

text \<open>Some peer has shown, under some clock, that it knows the identity.\<close>

definition identity_proved :: "crypto_ops \<Rightarrow> static_keypair \<Rightarrow> bool" where
  "identity_proved C kp \<longleftrightarrow>
     (\<exists>clk buf. proves_identity C clk (identity_mac_key C (kp_public kp)) PUBKEY_LEN buf)"

definition conn_inv :: "crypto_ops \<Rightarrow> static_keypair \<Rightarrow> nanos \<Rightarrow> server_conn \<Rightarrow> bool" where
  "conn_inv C kp now c \<longleftrightarrow> sc_opened c \<le> now \<and>
     (sc_written c \<noteq> [] \<or> sc_phase c = Established \<longrightarrow> identity_proved C kp) \<and>
     (case sc_phase c of
        Handshaking d \<Rightarrow> now \<le> d \<and> d = sc_opened c + HANDSHAKE_TIMEOUT
      | Blackholed d \<Rightarrow> now \<le> d \<and> d \<le> sc_opened c + HANDSHAKE_TIMEOUT + BLACKHOLE_MAX_SECS * 1000000000
      | _ \<Rightarrow> True)"

definition server_inv :: "crypto_ops \<Rightarrow> static_keypair \<Rightarrow> server_state \<Rightarrow> bool" where
  "server_inv C kp st \<longleftrightarrow>
     srv_handshakes st + length (filter holds_handshake (srv_conns st)) = MAX_CONCURRENT_HANDSHAKES \<and>
     srv_slots st + length (filter holds_slot (srv_conns st)) = MAX_TOTAL_CONNECTIONS \<and>
     (\<forall>c\<in>set (srv_conns st). conn_inv C kp (srv_now st) c)"

lemma filter_length_update:
  assumes "i < length xs"
  shows "length (filter P (xs[i := x])) + (if P (xs ! i) then 1 else 0) =
    length (filter P xs) + (if P x then 1 else 0)"
  using assms
proof (induction xs arbitrary: i)
  case Nil
  then show ?case by simp
next
  case (Cons y ys)
  show ?case
  proof (cases i)
    case 0
    then show ?thesis by simp
  next
    case (Suc j)
    then show ?thesis using Cons.IH [of j] Cons.prems by simp
  qed
qed

lemma set_phase_counts:
  assumes "i < length (srv_conns st)"
  shows "length (filter holds_handshake (srv_conns (set_phase i p st))) + (if armed (sc_phase (srv_conns st ! i)) \<noteq> None then 1 else 0)
      = length (filter holds_handshake (srv_conns st)) + (if armed p \<noteq> None then 1 else 0)"
    and "length (filter holds_slot (srv_conns (set_phase i p st))) + (if sc_phase (srv_conns st ! i) = Established then 1 else 0)
      = length (filter holds_slot (srv_conns st)) + (if p = Established then 1 else 0)"
  using filter_length_update [OF assms, of holds_handshake] filter_length_update [OF assms, of holds_slot]
  by (simp_all add: set_phase_def holds_handshake_def holds_slot_def)

lemma set_phase_fields [simp]:
  "srv_now (set_phase i p st) = srv_now st" "srv_handshakes (set_phase i p st) = srv_handshakes st"
  "srv_slots (set_phase i p st) = srv_slots st" "length (srv_conns (set_phase i p st)) = length (srv_conns st)"
  by (simp_all add: set_phase_def)

lemma set_written_fields [simp]:
  "srv_now (set_written i w st) = srv_now st" "srv_handshakes (set_written i w st) = srv_handshakes st"
  "srv_slots (set_written i w st) = srv_slots st" "length (srv_conns (set_written i w st)) = length (srv_conns st)"
  by (simp_all add: set_written_def)

text \<open>A connection changes phase: the counts follow, the invariant of the others is untouched.\<close>

lemma set_phase_inv:
  assumes "\<forall>c\<in>set (srv_conns st). conn_inv C kp (srv_now st) c" "i < length (srv_conns st)"
    and "conn_inv C kp (srv_now st) ((srv_conns st ! i)\<lparr>sc_phase := p\<rparr>)"
  shows "\<forall>c\<in>set (srv_conns (set_phase i p st)). conn_inv C kp (srv_now st) c"
  using assms set_update_subset_insert [of "srv_conns st" i "(srv_conns st ! i)\<lparr>sc_phase := p\<rparr>"]
  by (auto simp: set_phase_def)

lemma release_handshake_inv:
  assumes "server_inv C kp st" "i < length (srv_conns st)" "armed (sc_phase (srv_conns st ! i)) \<noteq> None"
  shows "server_inv C kp (set_phase i Closed (st\<lparr>srv_handshakes := srv_handshakes st + 1\<rparr>))"
proof -
  let ?st = "st\<lparr>srv_handshakes := srv_handshakes st + 1\<rparr>"
  have c: "conn_inv C kp (srv_now st) (srv_conns st ! i)" using assms(1,2) by (simp add: server_inv_def)
  have "sc_phase (srv_conns st ! i) \<noteq> Established" using assms(3) by (auto simp: armed_def)
  then show ?thesis
    using assms set_phase_counts [of i ?st Closed] set_phase_inv [of ?st C kp i Closed] c
    by (simp add: server_inv_def conn_inv_def armed_def)
qed

lemma to_blackhole_inv:
  assumes "server_inv C kp st" "i < length (srv_conns st)" "sc_phase (srv_conns st ! i) = Handshaking d"
    and "secs \<le> BLACKHOLE_MAX_SECS" "out = [] \<or> identity_proved C kp"
  shows "server_inv C kp (handshake_failed i secs (set_written i out st))"
proof -
  let ?st = "set_written i out st"
  have ith: "srv_conns ?st ! i = (srv_conns st ! i)\<lparr>sc_written := out\<rparr>" using assms(2) by (simp add: set_written_def)
  have c: "conn_inv C kp (srv_now st) (srv_conns st ! i)" using assms(1,2) by (simp add: server_inv_def)
  then have n: "conn_inv C kp (srv_now st) ((srv_conns ?st ! i)\<lparr>sc_phase := Blackholed (srv_now st + secs * 1000000000)\<rparr>)"
    using assms(3-5) unfolding ith by (auto simp: conn_inv_def)
  have upd: "srv_conns (handshake_failed i secs ?st) =
      (srv_conns st)[i := (srv_conns ?st ! i)\<lparr>sc_phase := Blackholed (srv_now st + secs * 1000000000)\<rparr>]"
    by (simp add: handshake_failed_def set_phase_def set_written_def)
  let ?c = "(srv_conns ?st ! i)\<lparr>sc_phase := Blackholed (srv_now st + secs * 1000000000)\<rparr>"
  have "\<forall>c\<in>set (srv_conns (handshake_failed i secs ?st)). conn_inv C kp (srv_now st) c"
    using assms(1) n set_update_subset_insert [of "srv_conns st" i ?c] unfolding upd server_inv_def by blast
  moreover have "length (filter P ((srv_conns st)[i := ?c])) = length (filter P (srv_conns st))"
    if "P = holds_handshake \<or> P = holds_slot" for P
    using that filter_length_update [OF assms(2), of P ?c] assms(3)
    by (auto simp: holds_handshake_def holds_slot_def armed_def)
  ultimately show ?thesis
    using assms(1) unfolding server_inv_def upd by (simp add: handshake_failed_def)
qed



lemma to_established_inv:
  assumes "server_inv C kp st" "i < length (srv_conns st)" "sc_phase (srv_conns st ! i) = Handshaking d"
    and "identity_proved C kp"
  shows "server_inv C kp (handshake_passed i (set_written i out st))"
proof -
  let ?p = "if 0 < srv_slots st then Established else Closed"
  let ?c = "(srv_conns st ! i)\<lparr>sc_written := out, sc_phase := ?p\<rparr>"
  have c: "conn_inv C kp (srv_now st) (srv_conns st ! i)" using assms(1,2) by (simp add: server_inv_def)
  then have n: "conn_inv C kp (srv_now st) ?c" using assms(4) by (simp add: conn_inv_def)
  have upd: "handshake_passed i (set_written i out st) =
      st\<lparr>srv_handshakes := srv_handshakes st + 1, srv_slots := srv_slots st - 1, srv_conns := (srv_conns st)[i := ?c]\<rparr>"
    using assms(2) by (simp add: handshake_passed_def set_phase_def set_written_def try_acquire_def)
  have all: "\<forall>c\<in>set ((srv_conns st)[i := ?c]). conn_inv C kp (srv_now st) c"
    using assms(1) n set_update_subset_insert [of "srv_conns st" i ?c] unfolding server_inv_def by blast
  have "length (filter holds_handshake ((srv_conns st)[i := ?c])) + 1 = length (filter holds_handshake (srv_conns st))"
    using filter_length_update [OF assms(2), of holds_handshake ?c] assms(3)
    by (simp add: holds_handshake_def armed_def split: if_splits)
  moreover have "length (filter holds_slot ((srv_conns st)[i := ?c])) =
      length (filter holds_slot (srv_conns st)) + (if 0 < srv_slots st then 1 else 0)"
    using filter_length_update [OF assms(2), of holds_slot ?c] assms(3)
    by (simp add: holds_slot_def split: if_splits)
  ultimately show ?thesis
    using assms(1) all unfolding upd server_inv_def by (auto split: if_splits)
qed

lemma server_success_proved:
  assumes "server_handshake C R clk kp r wr evs = Some (Inr ciphers, out, evs', r')"
  shows "identity_proved C kp"
proof -
  obtain x evs1 where x: "read_marked_message C clk (identity_mac_key C (kp_public kp)) PUBKEY_LEN evs = (x, evs1)" by force
  then obtain pre where "x = Inr pre" using assms by (cases x) (auto simp: server_handshake_def Let_def)
  with x show ?thesis
    using read_marked_accepts by (fastforce simp: read_marked_message_def identity_proved_def)
qed

lemma server_reply_proved:
  assumes "server_handshake C R clk kp r wr evs = Some (res, out, evs', r')"
  shows "out = [] \<or> identity_proved C kp"
  using server_silent [OF assms] by (auto simp: identity_proved_def)

lemma partial_reply_proved: "partial_reply C R kp out \<Longrightarrow> out = [] \<or> identity_proved C kp"
  using server_reply_proved by (fastforce simp: partial_reply_def)

lemma blackhole_secs_bounds:
  "rng_ok R \<Longrightarrow> blackhole_secs R q = Some secs \<Longrightarrow> BLACKHOLE_MIN_SECS \<le> secs \<and> secs \<le> BLACKHOLE_MAX_SECS"
  by (auto simp: blackhole_secs_def dest: gen_range_bounds)

lemma timer_step_inv:
  assumes "rng_ok R" "server_inv C kp st" "timer_step C R kp st st'"
  shows "server_inv C kp st'"
  using assms(3)
proof (cases rule: timer_step.cases)
  case (timer_tick dt)
  have "conn_inv C kp (srv_now st + dt) c" if "c \<in> set (srv_conns st)" for c
  proof -
    have "conn_inv C kp (srv_now st) c" using that assms(2) by (simp add: server_inv_def)
    then show ?thesis
      using timer_tick(2) [OF that] by (auto simp: conn_inv_def armed_def split: conn_phase.splits)
  qed
  then show ?thesis using assms(2) timer_tick(1) by (simp add: server_inv_def)
next
  case (timer_handshake i d out q secs)
  show ?thesis
    unfolding timer_handshake(1)
    by (rule to_blackhole_inv [OF assms(2) timer_handshake(2,3) _ partial_reply_proved [OF timer_handshake(5)]])
      (use blackhole_secs_bounds [OF assms(1) timer_handshake(6)] in simp)
next
  case (timer_blackhole i d)
  then show ?thesis using release_handshake_inv [OF assms(2)] by (simp add: blackhole_def armed_def)
qed

lemma serve_accept_inv:
  assumes "server_inv C kp st"
  shows "server_inv C kp (serve_accept st)"
proof (cases "0 < srv_handshakes st")
  case True
  let ?c = "\<lparr>sc_phase = Handshaking (srv_now st + HANDSHAKE_TIMEOUT), sc_opened = srv_now st, sc_written = []\<rparr>"
  have "conn_inv C kp (srv_now st) ?c" by (simp add: conn_inv_def)
  then show ?thesis
    using assms True
    by (simp add: serve_accept_def try_acquire_def server_inv_def holds_handshake_def holds_slot_def armed_def)
next
  case False
  have "conn_inv C kp (srv_now st) \<lparr>sc_phase = Closed, sc_opened = srv_now st, sc_written = []\<rparr>"
    by (simp add: conn_inv_def)
  then show ?thesis
    using assms False
    by (simp add: serve_accept_def try_acquire_def server_inv_def holds_handshake_def holds_slot_def armed_def)
qed

lemma peer_step_inv:
  assumes "rng_ok R" "server_inv C kp st" "peer_step C R kp st st'"
  shows "server_inv C kp st'"
  using assms(3)
proof (cases rule: peer_step.cases)
  case peer_connects
  then show ?thesis using serve_accept_inv [OF assms(2)] by simp
next
  case (peer_handshake i d clk r wr evs res out evs' r' q secs)
  show ?thesis
  proof (cases res)
    case (Inl e)
    show ?thesis
      unfolding peer_handshake(1) Inl handshake_result_def sum.case
      by (rule to_blackhole_inv [OF assms(2) peer_handshake(2,3) _ server_reply_proved [OF peer_handshake(4)]])
        (use blackhole_secs_bounds [OF assms(1) peer_handshake(5)] in simp)
  next
    case (Inr ciphers)
    show ?thesis
      unfolding peer_handshake(1) Inr handshake_result_def sum.case
      by (rule to_established_inv [OF assms(2) peer_handshake(2,3) server_success_proved [OF peer_handshake(4)[unfolded Inr]]])
  qed
next
  case (peer_blackholed i d ev)
  then show ?thesis using release_handshake_inv [OF assms(2)] assms(2) by (simp add: blackhole_def armed_def)
next
  case (peer_ends i)
  have c: "conn_inv C kp (srv_now st) (srv_conns st ! i)" using assms(2) peer_ends(2) by (simp add: server_inv_def)
  let ?st = "st\<lparr>srv_slots := srv_slots st + 1\<rparr>"
  show ?thesis
    using assms(2) peer_ends set_phase_counts [of i ?st Closed] set_phase_inv [of ?st C kp i Closed] c
    by (simp add: server_inv_def conn_inv_def armed_def connection_ends_def)
qed

interpretation server: invariant_system "\<lambda>st. \<exists>t. st = server_start t" "server_step C R kp" "\<lambda>st. rng_ok R \<longrightarrow> server_inv C kp st"
  for C :: crypto_ops and R :: "'r rng_ops" and kp :: static_keypair
  by unfold_locales
    (auto simp: server_start_def server_inv_def server_step_def dest: timer_step_inv peer_step_inv)


section \<open>Timers alone release every permit\<close>

definition weight :: "server_conn \<Rightarrow> nat" where
  "weight c = (case sc_phase c of Handshaking _ \<Rightarrow> 2 | Blackholed _ \<Rightarrow> 1 | _ \<Rightarrow> 0)"

definition pending_timers :: "server_state \<Rightarrow> nat" where
  "pending_timers st = sum_list (map weight (srv_conns st))"

definition RELEASE_TIME :: nanos where
  "RELEASE_TIME = HANDSHAKE_TIMEOUT + BLACKHOLE_MAX_SECS * 1000000000"

lemma sum_list_map_update:
  fixes f :: "'a \<Rightarrow> nat"
  assumes "i < length xs"
  shows "sum_list (map f (xs[i := x])) + f (xs ! i) = sum_list (map f xs) + f x"
  using assms
proof (induction xs arbitrary: i)
  case Nil
  then show ?case by simp
next
  case (Cons y ys)
  show ?case
  proof (cases i)
    case 0
    then show ?thesis by simp
  next
    case (Suc j)
    then show ?thesis using Cons.IH [of j] Cons.prems by simp
  qed
qed

text \<open>One timer fires: the clock goes to the earliest deadline, which some connection has reached.\<close>

lemma fire_timer:
  assumes "rng_ok R" "server_inv C kp st" "c \<in> set (srv_conns st)" "holds_handshake c"
  shows "\<exists>st'. (timer_step C R kp)\<^sup>*\<^sup>* st st' \<and> pending_timers st' < pending_timers st \<and>
    map sc_opened (srv_conns st') = map sc_opened (srv_conns st) \<and>
    map holds_slot (srv_conns st') = map holds_slot (srv_conns st) \<and>
    (\<exists>c\<in>set (srv_conns st). srv_now st' \<le> sc_opened c + RELEASE_TIME)"
proof -
  let ?D = "{d. \<exists>c\<in>set (srv_conns st). armed (sc_phase c) = Some d}"
  have "?D = (\<lambda>c. the (armed (sc_phase c))) ` {c \<in> set (srv_conns st). armed (sc_phase c) \<noteq> None}"
    by (force simp: image_iff)
  then have fin: "finite ?D" by simp
  have ne: "?D \<noteq> {}" using assms(3,4) by (auto simp: holds_handshake_def)
  define d where "d = Min ?D"
  obtain i where i: "i < length (srv_conns st)" "armed (sc_phase (srv_conns st ! i)) = Some d"
    using Min_in [OF fin ne] unfolding d_def by (auto simp: in_set_conv_nth)
  have ci: "conn_inv C kp (srv_now st) (srv_conns st ! i)" using assms(2) i(1) by (simp add: server_inv_def)
  then have d: "srv_now st \<le> d" "d \<le> sc_opened (srv_conns st ! i) + RELEASE_TIME"
    using i(2) by (auto simp: conn_inv_def armed_def RELEASE_TIME_def split: conn_phase.splits)
  let ?st = "st\<lparr>srv_now := srv_now st + (d - srv_now st)\<rparr>"
  have tick: "timer_step C R kp st ?st"
  proof (rule timer_tick)
    fix c' d' assume "c' \<in> set (srv_conns st)" "armed (sc_phase c') = Some d'"
    then have "d \<le> d'" unfolding d_def by (intro Min_le fin) auto
    then show "srv_now st + (d - srv_now st) \<le> d'" using d(1) by simp
  qed
  have now: "srv_now ?st = d" using d(1) by simp
  obtain secs where secs: "blackhole_secs R (undefined :: 'a) = Some secs"
    by (simp add: blackhole_secs_def gen_range_def BLACKHOLE_MIN_SECS_def BLACKHOLE_MAX_SECS_def)
  consider "sc_phase (srv_conns st ! i) = Handshaking d" | "sc_phase (srv_conns st ! i) = Blackholed d"
    using i(2) by (auto simp: armed_def split: conn_phase.splits)
  then show ?thesis
  proof cases
    case 1
    let ?c = "(srv_conns st ! i)\<lparr>sc_written := [], sc_phase := Blackholed (srv_now ?st + secs * 1000000000)\<rparr>"
    let ?st' = "handshake_failed i secs (set_written i [] ?st)"
    have fire: "timer_step C R kp ?st ?st'"
      by (rule timer_handshake [where d = d, OF _ _ _ _ secs]) (use 1 i(1) now in \<open>simp_all add: partial_reply_def del: add_diff_inverse_nat le_add_diff_inverse\<close>)
    have conns: "srv_conns ?st' = (srv_conns st)[i := ?c]" "srv_now ?st' = d"
      using i(1) d(1) by (simp_all add: handshake_failed_def set_phase_def set_written_def)
    have "pending_timers ?st' < pending_timers st"
      using sum_list_map_update [OF i(1), of weight ?c] 1 unfolding pending_timers_def conns(1) by (simp add: weight_def)
    moreover have "map sc_opened (srv_conns ?st') = map sc_opened (srv_conns st)"
      "map holds_slot (srv_conns ?st') = map holds_slot (srv_conns st)"
      using i(1) 1 unfolding conns(1) by (simp_all add: map_update holds_slot_def list_update_same_conv)
    moreover have "(timer_step C R kp)\<^sup>*\<^sup>* st ?st'" using tick fire by (meson rtranclp.rtrancl_into_rtrancl rtranclp.rtrancl_refl)
    ultimately show ?thesis using d(2) conns(2) i(1) nth_mem by metis
  next
    case 2
    let ?c = "(srv_conns st ! i)\<lparr>sc_phase := Closed\<rparr>"
    let ?st' = "blackhole i HoleDeadline ?st"
    have fire: "timer_step C R kp ?st ?st'" by (rule timer_blackhole [where d = d]) (use 2 i(1) now in simp_all)
    have conns: "srv_conns ?st' = (srv_conns st)[i := ?c]" "srv_now ?st' = d"
      using d(1) by (simp_all add: blackhole_def set_phase_def)
    have "pending_timers ?st' < pending_timers st"
      using sum_list_map_update [OF i(1), of weight ?c] 2 unfolding pending_timers_def conns(1) by (simp add: weight_def)
    moreover have "map sc_opened (srv_conns ?st') = map sc_opened (srv_conns st)"
      "map holds_slot (srv_conns ?st') = map holds_slot (srv_conns st)"
      using i(1) 2 unfolding conns(1) by (simp_all add: map_update holds_slot_def list_update_same_conv)
    moreover have "(timer_step C R kp)\<^sup>*\<^sup>* st ?st'" using tick fire by (meson rtranclp.rtrancl_into_rtrancl rtranclp.rtrancl_refl)
    ultimately show ?thesis using d(2) conns(2) i(1) nth_mem by metis
  qed
qed

lemma timers_drain:
  assumes "rng_ok R" "server_inv C kp st" "srv_now st \<le> T + RELEASE_TIME" "\<forall>c\<in>set (srv_conns st). sc_opened c \<le> T"
  shows "\<exists>st'. (timer_step C R kp)\<^sup>*\<^sup>* st st' \<and> server_inv C kp st' \<and> srv_now st' \<le> T + RELEASE_TIME \<and>
    map holds_slot (srv_conns st') = map holds_slot (srv_conns st) \<and> (\<forall>c\<in>set (srv_conns st'). \<not> holds_handshake c)"
  using assms(2-)
proof (induction "pending_timers st" arbitrary: st rule: less_induct)
  case less
  show ?case
  proof (cases "\<exists>c\<in>set (srv_conns st). holds_handshake c")
    case False
    then show ?thesis using less.prems by blast
  next
    case True
    then obtain st1 where st1: "(timer_step C R kp)\<^sup>*\<^sup>* st st1" "pending_timers st1 < pending_timers st"
        "map sc_opened (srv_conns st1) = map sc_opened (srv_conns st)"
        "map holds_slot (srv_conns st1) = map holds_slot (srv_conns st)"
        "\<exists>c\<in>set (srv_conns st). srv_now st1 \<le> sc_opened c + RELEASE_TIME"
      using fire_timer [OF assms(1) less.prems(1)] by blast
    have inv1: "server_inv C kp st1"
      using st1(1) less.prems(1) by (induction rule: rtranclp_induct) (auto intro: timer_step_inv [OF assms(1)])
    have "sc_opened ` set (srv_conns st1) = sc_opened ` set (srv_conns st)"
      using st1(3) by (metis list.set_map)
    then have op: "\<forall>c\<in>set (srv_conns st1). sc_opened c \<le> T" using less.prems(3) by (metis (no_types, lifting) imageE imageI)
    have now: "srv_now st1 \<le> T + RELEASE_TIME" using st1(5) less.prems(3) by fastforce
    from less.hyps [OF st1(2) inv1 now op] st1(1,4) show ?thesis
      by (metis (no_types, lifting) rtranclp_trans)
  qed
qed

section \<open>Properties\<close>


text \<open>C12: Stalled peers cannot hold the bridge. From every reachable state the timers alone, with no
  help from any peer, lead within 45 s to a state in which all 512 handshake permits are free again,
  and the established connections are those there were.\<close>
theorem stalled_peers_released:
  assumes "rng_ok R" "(server_step C R kp)\<^sup>*\<^sup>* (server_start t) st"
  shows "\<exists>st'. (timer_step C R kp)\<^sup>*\<^sup>* st st' \<and> srv_now st' \<le> srv_now st + 45 * 1000000000 \<and>
    srv_handshakes st' = 512 \<and> map holds_slot (srv_conns st') = map holds_slot (srv_conns st)"
proof -
  have inv: "server_inv C kp st" using server.reach_inv [OF _ assms(2)] assms(1) by blast
  then have "\<forall>c\<in>set (srv_conns st). sc_opened c \<le> srv_now st" by (simp add: server_inv_def conn_inv_def)
  from timers_drain [OF assms(1) inv _ this] obtain st' where
    "(timer_step C R kp)\<^sup>*\<^sup>* st st'" "server_inv C kp st'" "srv_now st' \<le> srv_now st + RELEASE_TIME"
    "map holds_slot (srv_conns st') = map holds_slot (srv_conns st)" "\<forall>c\<in>set (srv_conns st'). \<not> holds_handshake c"
    by auto
  then show ?thesis
    by (intro exI [of _ st'])
      (simp add: server_inv_def RELEASE_TIME_def HANDSHAKE_TIMEOUT_def BLACKHOLE_MAX_SECS_def MAX_CONCURRENT_HANDSHAKES_def)
qed

text \<open>A peer that connects and stays silent for 15 s.\<close>

definition sample_server :: server_state where
  "sample_server = (serve_accept (server_start 7))\<lparr>srv_now := 7 + 15 * 1000000000\<rparr>"

lemma sample_server_reached: "(server_step toy_crypto least_rng kp)\<^sup>*\<^sup>* (server_start 7) sample_server"
proof -
  let ?st = "serve_accept (server_start 7)"
  have "server_step toy_crypto least_rng kp (server_start 7) ?st" by (simp add: server_step_def peer_connects)
  moreover have "timer_step toy_crypto least_rng kp ?st (?st\<lparr>srv_now := srv_now ?st + 15 * 1000000000\<rparr>)"
    by (rule timer_tick)
      (auto simp: serve_accept_def server_start_def try_acquire_def MAX_CONCURRENT_HANDSHAKES_def armed_def HANDSHAKE_TIMEOUT_def)
  moreover have "srv_now ?st = 7" by (simp add: serve_accept_def server_start_def try_acquire_def MAX_CONCURRENT_HANDSHAKES_def)
  ultimately show ?thesis
    unfolding sample_server_def by (metis rtranclp.simps server_step_def)
qed


theorem stalled_peers_released_witness:
  "\<exists>st'. (timer_step toy_crypto least_rng (from_secret_bytes toy_crypto []))\<^sup>*\<^sup>* sample_server st' \<and>
     srv_handshakes st' = 512"
  using stalled_peers_released [OF least_rng_ok sample_server_reached [of "from_secret_bytes toy_crypto []"]] by blast

end
