(* ===== verification/Conn.thy ===== *)
theory Conn
  imports Wire Admission Attack
begin

text \<open>
  The connections of \<open>src/src/transport.rs\<close>: dialling the bridge, a connection of its own, the wires
  a client keeps and the circuits it opens on them, and the handler of the bridge. The handlers
  compose the handshake, the flow and the multiplexer; what runs concurrently is joined by its
  results. The theorems say that a client never uses a peer that has not proved to be its bridge, that
  a circuit gets a stream of its own, and that the two ends together carry a circuit to its relay.
\<close>

section \<open>Log labels\<close>

record shape_labels =
  sl_input_event :: rstr
  sl_wire_event :: rstr

record strip_labels =
  st_wire_event :: rstr
  st_real_event :: rstr

definition UPLINK_LABELS :: shape_labels where
  "UPLINK_LABELS = \<lparr>sl_input_event = str_of ''client_input'', sl_wire_event = str_of ''client_wire_output''\<rparr>"

definition DOWNLINK_LABELS :: shape_labels where
  "DOWNLINK_LABELS = \<lparr>sl_input_event = str_of ''server_bridge_reply'', sl_wire_event = str_of ''server_wire_return''\<rparr>"

definition UPLINK_STRIP :: strip_labels where
  "UPLINK_STRIP = \<lparr>st_wire_event = str_of ''server_wire_input'', st_real_event = str_of ''server_real_output''\<rparr>"

definition DOWNLINK_STRIP :: strip_labels where
  "DOWNLINK_STRIP = \<lparr>st_wire_event = str_of ''client_wire_return'', st_real_event = str_of ''client_inbound_real''\<rparr>"

text \<open>The names the transport logs are those the evaluation looks for, side by side.\<close>

lemma labels_match:
  "events_client = \<lparr>ev_wire = sl_wire_event UPLINK_LABELS, ev_real = sl_input_event UPLINK_LABELS\<rparr>"
  "events_server_return = \<lparr>ev_wire = sl_wire_event DOWNLINK_LABELS, ev_real = sl_input_event DOWNLINK_LABELS\<rparr>"
  "events_server = \<lparr>ev_wire = st_wire_event UPLINK_STRIP, ev_real = st_real_event UPLINK_STRIP\<rparr>"
  "events_client_return = \<lparr>ev_wire = st_wire_event DOWNLINK_STRIP, ev_real = st_real_event DOWNLINK_STRIP\<rparr>"
  by (simp_all add: events_client_def events_server_return_def events_server_def events_client_return_def
      UPLINK_LABELS_def DOWNLINK_LABELS_def UPLINK_STRIP_def DOWNLINK_STRIP_def)

section \<open>Dialling the bridge\<close>

datatype ('e, 'g) conn_error =
    ConnIo 'e | ConnHandshake "'e handshake_error" | ConnTimeout | ConnFlow "'g flow_error"
  | ConnRecv "'e recv_error" | ConnExhausted

text \<open>
  The world around one connection attempt: the outcome of \<open>TcpStream::connect\<close>, how long the
  handshake takes if it ends at all, the system clock it reads, the generator it draws from, and the
  outcome of its write and reads. A timeout wins when the handshake takes longer than it.
\<close>

record ('e, 'r) attempt =
  at_tcp :: "'e option"
  at_took :: "nanos option"
  at_clk :: "nat \<Rightarrow> nat"
  at_rng :: 'r
  at_write :: "'e option"
  at_reads :: "'e read_event list"

definition in_time :: "nanos option \<Rightarrow> bool" where
  "in_time took = (case took of None \<Rightarrow> False | Some t \<Rightarrow> t \<le> HANDSHAKE_TIMEOUT)"

text \<open>What \<open>handle_client_connection_with_lab\<close> and \<open>MuxWire::connect\<close> start with.\<close>

definition dial ::
  "crypto_ops \<Rightarrow> 'r rng_ops \<Rightarrow> bytes \<Rightarrow> ('e, 'r) attempt \<Rightarrow> (('e, 'g) conn_error + frame_cipher \<times> frame_cipher) option" where
  "dial C R server_pub a =
     (case at_tcp a of
        Some e \<Rightarrow> Some (Inl (ConnIo e))
      | None \<Rightarrow>
          if \<not> in_time (at_took a) then Some (Inl ConnTimeout)
          else do {
            (res, out, evs', r') \<leftarrow> client_handshake C R (at_clk a) server_pub (at_rng a) (at_write a) (at_reads a);
            Some (map_sum ConnHandshake id res)
          })"

section \<open>A connection of its own\<close>

text \<open>The reader of \<open>shaped_forward\<close>: no stream id of its own and no close cell.\<close>

fun single_cells :: "'r rng_ops \<Rightarrow> 'e read_event list \<Rightarrow> 'r \<Rightarrow> ('e + unit) \<times> bytes list" where
  "single_cells R [] r = (Inr (), [])"
| "single_cells R (RFail e # evs) r = (Inl e, [])"
| "single_cells R (RData bs # evs) r =
     (if bs = [] then (Inr (), [])
      else let (cells, r') = encode_read R STREAM_ID_SINGLE bs r; (res, rest) = single_cells R evs r'
           in (res, cells @ rest))"

text \<open>\<open>accepted\<close> is the number of cells after which the flow has dropped its end of the channel.\<close>

definition shaped_forward ::
  "'r rng_ops \<Rightarrow> (bytes \<Rightarrow> bytes \<Rightarrow> bytes) \<Rightarrow> ('os, 'g) os_random \<Rightarrow> 'os \<Rightarrow> 'r \<Rightarrow> 'r \<Rightarrow> (nat \<Rightarrow> nanos) \<Rightarrow>
     tail_policy \<Rightarrow> frame_cipher \<Rightarrow> nat option \<Rightarrow> 'e read_event list \<Rightarrow> 'r \<Rightarrow>
     ((('e, 'g) conn_error + unit) \<times> 'r flow_slot option \<times> bytes list) option" where
  "shaped_forward R H G os r_iat r_th clk policy cipher accepted evs r_pad = do {
     (opened, os') \<leftarrow> flow_open R H G os r_iat r_th clk True policy cipher;
     Some (case opened of
        Inl e \<Rightarrow> (Inl (ConnFlow e), None, [])
      | Inr fl \<Rightarrow>
          let (res, cells) = single_cells R evs r_pad
          in case accepted of
               None \<Rightarrow> (map_sum ConnIo id res, Some fl, cells)
             | Some n \<Rightarrow> if n < length cells then (Inr (), Some fl, take n cells)
                          else (map_sum ConnIo id res, Some fl, cells))
   }"

definition send_mixed_outbound ::
  "'r rng_ops \<Rightarrow> (bytes \<Rightarrow> bytes \<Rightarrow> bytes) \<Rightarrow> ('os, 'g) os_random \<Rightarrow> 'os \<Rightarrow> 'r \<Rightarrow> 'r \<Rightarrow> (nat \<Rightarrow> nanos) \<Rightarrow>
     tail_policy \<Rightarrow> frame_cipher \<Rightarrow> nat option \<Rightarrow> 'e read_event list \<Rightarrow> 'r \<Rightarrow>
     ((('e, 'g) conn_error + unit) \<times> 'r flow_slot option \<times> bytes list) option" where
  "send_mixed_outbound = shaped_forward"

definition receive_real_inbound ::
  "crypto_ops \<Rightarrow> (nat \<Rightarrow> 'e option) \<Rightarrow> 'e wire_in \<Rightarrow> frame_cipher \<Rightarrow> (('e, 'g) conn_error + unit) \<times> bytes" where
  "receive_real_inbound C wr w cipher = apfst (map_sum ConnRecv id) (strip_and_forward C wr w cipher)"

text \<open>
  The result is that of the task which ends first; the other goes on. Beside it: the flow
  registered, the cells sent to it, and the bytes written to the application.
\<close>

definition handle_client_connection_with_lab ::
  "crypto_ops \<Rightarrow> 'r rng_ops \<Rightarrow> (bytes \<Rightarrow> bytes \<Rightarrow> bytes) \<Rightarrow> ('os, 'g) os_random \<Rightarrow> 'os \<Rightarrow> ('e, 'r) attempt \<Rightarrow> bytes \<Rightarrow>
     'r \<Rightarrow> 'r \<Rightarrow> (nat \<Rightarrow> nanos) \<Rightarrow> tail_policy \<Rightarrow> nat option \<Rightarrow> 'e read_event list \<Rightarrow> 'r \<Rightarrow> (nat \<Rightarrow> 'e option) \<Rightarrow> 'e wire_in \<Rightarrow>
     bool \<Rightarrow> ((('e, 'g) conn_error + unit) \<times> 'r flow_slot option \<times> bytes list \<times> bytes) option" where
  "handle_client_connection_with_lab C R H G os a server_pub r_iat r_th clk policy accepted evs r_pad wr w outbound_first = do {
     d \<leftarrow> dial C R server_pub a;
     (case d of
        Inl e \<Rightarrow> Some (Inl e, None, [], [])
      | Inr (send_cipher, recv_cipher) \<Rightarrow> do {
          (outbound, fl, cells) \<leftarrow> send_mixed_outbound R H G os r_iat r_th clk policy send_cipher accepted evs r_pad;
          let (inbound, out) = receive_real_inbound C wr w recv_cipher;
          Some (if outbound_first then outbound else inbound, fl, cells, out)
        })
   }"

definition handle_client_connection ::
  "crypto_ops \<Rightarrow> 'r rng_ops \<Rightarrow> (bytes \<Rightarrow> bytes \<Rightarrow> bytes) \<Rightarrow> ('os, 'g) os_random \<Rightarrow> 'os \<Rightarrow> ('e, 'r) attempt \<Rightarrow> bytes \<Rightarrow>
     'r \<Rightarrow> 'r \<Rightarrow> (nat \<Rightarrow> nanos) \<Rightarrow> nat option \<Rightarrow> 'e read_event list \<Rightarrow> 'r \<Rightarrow> (nat \<Rightarrow> 'e option) \<Rightarrow> 'e wire_in \<Rightarrow>
     bool \<Rightarrow> ((('e, 'g) conn_error + unit) \<times> 'r flow_slot option \<times> bytes list \<times> bytes) option" where
  "handle_client_connection C R H G os a server_pub r_iat r_th clk accepted evs r_pad wr w outbound_first =
     handle_client_connection_with_lab C R H G os a server_pub r_iat r_th clk TailOff accepted evs r_pad wr w outbound_first"

section \<open>The wires of a client\<close>

text \<open>\<open>MuxWire::connect\<close>: the registered uplink flow, the cipher of the inbound task, the wire.\<close>

definition mux_connect ::
  "crypto_ops \<Rightarrow> 'r rng_ops \<Rightarrow> (bytes \<Rightarrow> bytes \<Rightarrow> bytes) \<Rightarrow> ('os, 'g) os_random \<Rightarrow> 'os \<Rightarrow> ('e, 'r) attempt \<Rightarrow> bytes \<Rightarrow>
     'r \<Rightarrow> 'r \<Rightarrow> (nat \<Rightarrow> nanos) \<Rightarrow> tail_policy \<Rightarrow>
     (('e, 'g) conn_error + 'r flow_slot \<times> frame_cipher \<times> mux_wire) option" where
  "mux_connect C R H G os a server_pub r_iat r_th clk policy = do {
     d \<leftarrow> dial C R server_pub a;
     (case d of
        Inl e \<Rightarrow> Some (Inl e)
      | Inr (send_cipher, recv_cipher) \<Rightarrow> do {
          (opened, os') \<leftarrow> flow_open R H G os r_iat r_th clk False policy send_cipher;
          Some (map_sum ConnFlow (\<lambda>fl. (fl, recv_cipher, wire_new)) opened)
        })
   }"

text \<open>The handle's map of wires; \<open>attempt\<close> is the outcome of \<open>MuxWire::connect\<close> if it is called.\<close>

record 'addr mux_client =
  mc_max_read :: nat
  mc_tail :: tail_policy
  mc_wires :: "('addr \<times> mux_wire) list"

definition mux_client_new :: "nat \<Rightarrow> tail_policy \<Rightarrow> 'addr mux_client" where
  "mux_client_new max_read policy = \<lparr>mc_max_read = max_read, mc_tail = policy, mc_wires = []\<rparr>"

definition prewarm ::
  "'addr \<Rightarrow> ('e, 'g) conn_error + mux_wire \<Rightarrow> 'addr mux_client \<Rightarrow> (('e, 'g) conn_error + unit) \<times> 'addr mux_client" where
  "prewarm server attempt mc =
     (let (res, ws) = get_or_connect_wire (mc_wires mc) server attempt
      in (map_sum id (\<lambda>_. ()) res, mc\<lparr>mc_wires := ws\<rparr>))"

text \<open>Up to the point where the circuit has its stream; the outer \<open>None\<close> is a scan that does not end.\<close>

definition connect_circuit ::
  "'addr \<Rightarrow> ('e, 'g) conn_error + mux_wire \<Rightarrow> 'addr mux_client \<Rightarrow>
     ((('e, 'g) conn_error + u16) \<times> 'addr mux_client) option" where
  "connect_circuit server attempt mc =
     (let (res, ws) = get_or_connect_wire (mc_wires mc) server attempt; mc1 = mc\<lparr>mc_wires := ws\<rparr>
      in case res of
           Inl e \<Rightarrow> Some (Inl e, mc1)
         | Inr w \<Rightarrow>
             (case add_stream w of
                None \<Rightarrow> None
              | Some (None, _) \<Rightarrow> Some (Inl ConnExhausted, mc1)
              | Some (Some sid, w') \<Rightarrow> Some (Inr sid, mc1\<lparr>mc_wires := (server, w') # ws\<rparr>)))"

text \<open>The relay between a circuit's socket and its stream: again the first task to end decides.\<close>

definition handle_mux_tor_connection ::
  "'r rng_ops \<Rightarrow> u16 \<Rightarrow> nat option \<Rightarrow> 'e read_event list \<Rightarrow> 'r \<Rightarrow> (nat \<Rightarrow> 'e option) \<Rightarrow> bytes list \<Rightarrow> bool \<Rightarrow>
     ('e + unit) \<times> bytes list \<times> bytes" where
  "handle_mux_tor_connection R sid accepted evs r wr msgs writer_first =
     (let (wres, out) = mux_tor_writer wr msgs; (rres, cells) = mux_tor_reader R sid accepted evs r
      in (if writer_first then wres else rres, cells, out))"

section \<open>The bridge's handler\<close>

text \<open>How a connection to the bridge ends up; \<open>slots\<close> is the number of free connection permits.\<close>

datatype ('e, 'g, 'r, 'q) served =
    Rejected nat
  | Shed
  | FlowFailed "'g flow_error"
  | Served "'r flow_slot" "('e recv_error + string) + unit" "'q demux_state"

definition handle_server_connection_with_lab ::
  "crypto_ops \<Rightarrow> 'r rng_ops \<Rightarrow> (bytes \<Rightarrow> bytes \<Rightarrow> bytes) \<Rightarrow> ('os, 'g) os_random \<Rightarrow> 'os \<Rightarrow> ('e, 'r) attempt \<Rightarrow>
     static_keypair \<Rightarrow> 'r \<Rightarrow> nat \<Rightarrow> 'r \<Rightarrow> 'r \<Rightarrow> (nat \<Rightarrow> nanos) \<Rightarrow> tail_policy \<Rightarrow> 'q rng_ops \<Rightarrow> (nat \<Rightarrow> nanos) \<Rightarrow>
     (nat \<Rightarrow> 'q demux_state \<Rightarrow> 'q demux_state) \<Rightarrow> 'e wire_in \<Rightarrow> 'q demux_state \<Rightarrow> ('e, 'g, 'r, 'q) served option" where
  "handle_server_connection_with_lab C R H G os a kp r_hole slots r_iat r_th clk policy Q now env w st = do {
     ciphers \<leftarrow>
       (if \<not> in_time (at_took a) then Some None
        else do {
          (res, out, evs', r') \<leftarrow> server_handshake C R (at_clk a) kp (at_rng a) (at_write a) (at_reads a);
          Some (case res of Inl _ \<Rightarrow> None | Inr cs \<Rightarrow> Some cs)
        });
     (case ciphers of
        None \<Rightarrow> map_option Rejected (blackhole_secs R r_hole)
      | Some (send_cipher, recv_cipher) \<Rightarrow>
          (case try_acquire slots of
             None \<Rightarrow> Some Shed
           | Some _ \<Rightarrow> do {
               (opened, os') \<leftarrow> flow_open R H G os r_iat r_th clk False policy send_cipher;
               Some (case opened of
                  Inl e \<Rightarrow> FlowFailed e
                | Inr fl \<Rightarrow>
                    let (res, st') = mux_demux_to_bridges C Q policy now env w recv_cipher st in Served fl res st')
             }))
   }"

definition handle_server_connection ::
  "crypto_ops \<Rightarrow> 'r rng_ops \<Rightarrow> (bytes \<Rightarrow> bytes \<Rightarrow> bytes) \<Rightarrow> ('os, 'g) os_random \<Rightarrow> 'os \<Rightarrow> ('e, 'r) attempt \<Rightarrow>
     static_keypair \<Rightarrow> 'r \<Rightarrow> nat \<Rightarrow> 'r \<Rightarrow> 'r \<Rightarrow> (nat \<Rightarrow> nanos) \<Rightarrow> 'q rng_ops \<Rightarrow> (nat \<Rightarrow> nanos) \<Rightarrow>
     (nat \<Rightarrow> 'q demux_state \<Rightarrow> 'q demux_state) \<Rightarrow> 'e wire_in \<Rightarrow> 'q demux_state \<Rightarrow> ('e, 'g, 'r, 'q) served option" where
  "handle_server_connection C R H G os a kp r_hole slots r_iat r_th clk Q now env w st =
     handle_server_connection_with_lab C R H G os a kp r_hole slots r_iat r_th clk TailOff Q now env w st"


section \<open>What a dialled connection has checked\<close>

text \<open>The peer answered with the AUTH value that only the holder of \<open>server_pub\<close>'s secret can derive.\<close>

definition server_authenticated :: "crypto_ops \<Rightarrow> 'r rng_ops \<Rightarrow> bytes \<Rightarrow> ('e, 'r) attempt \<Rightarrow> bool" where
  "server_authenticated C R server_pub a \<longleftrightarrow>
     (\<exists>x_priv x_repr msg r' reply evs' y_point k_c2s k_s2c.
        client_hello C R (at_clk a 0) server_pub (at_rng a) = Some (x_priv, x_repr, msg, r') \<and>
        read_marked_message C (\<lambda>i. at_clk a (i + 1)) (identity_mac_key C server_pub) (PUBKEY_LEN + AUTH_LEN) (at_reads a)
          = (Inr reply, evs') \<and>
        from_representative C (take PUBKEY_LEN reply) = Some y_point \<and>
        \<not> dh_is_zero (mul_clamped C server_pub x_priv) \<and>
        derive_session C (mul_clamped C y_point x_priv) (mul_clamped C server_pub x_priv) server_pub x_repr
          (take PUBKEY_LEN reply) = (k_c2s, k_s2c, take AUTH_LEN (drop PUBKEY_LEN reply)))"

lemma client_finish_authentic:
  assumes "client_finish C pub x_priv x_repr reply = Inr ciphers"
  obtains y_point k_c2s k_s2c where "from_representative C (take PUBKEY_LEN reply) = Some y_point"
    "\<not> dh_is_zero (mul_clamped C pub x_priv)"
    "derive_session C (mul_clamped C y_point x_priv) (mul_clamped C pub x_priv) pub x_repr (take PUBKEY_LEN reply)
       = (k_c2s, k_s2c, take AUTH_LEN (drop PUBKEY_LEN reply))"
  using assms by (auto simp: client_finish_def Let_def split: option.splits if_splits prod.splits)

lemma dial_authentic:
  fixes a :: "('e, 'r) attempt"
  assumes "dial C R pub a = Some (Inr ciphers :: ('e, 'g) conn_error + _)"
  shows "in_time (at_took a) \<and> server_authenticated C R pub a"
proof -
  have t: "in_time (at_took a)" "at_tcp a = None" using assms by (auto simp: dial_def split: option.splits if_splits)
  then obtain res out evs' r' where h0: "client_handshake C R (at_clk a) pub (at_rng a) (at_write a) (at_reads a)
      = Some (res, out, evs', r')" "map_sum ConnHandshake id res = (Inr ciphers :: ('e, 'g) conn_error + _)"
    using assms by (auto simp: dial_def bind_eq_Some_conv)
  then have h: "client_handshake C R (at_clk a) pub (at_rng a) (at_write a) (at_reads a) = Some (Inr ciphers, out, evs', r')"
    by (cases res) simp_all
  obtain x_priv x_repr msg rc where c: "client_hello C R (at_clk a 0) pub (at_rng a) = Some (x_priv, x_repr, msg, rc)"
    using h by (auto simp: client_handshake_def bind_eq_Some_conv)
  obtain rd evs1 where r: "read_marked_message C (\<lambda>i. at_clk a (i + 1)) (identity_mac_key C pub) (PUBKEY_LEN + AUTH_LEN)
      (at_reads a) = (rd, evs1)" by force
  have "at_write a = None" using h c by (auto simp: client_handshake_def split: option.splits)
  then obtain pre where p: "rd = Inr pre" "client_finish C pub x_priv x_repr pre = (Inr ciphers :: 'e handshake_error + _)"
    using h c r by (cases rd) (auto simp: client_handshake_def)
  from client_finish_authentic [OF p(2)] show ?thesis
    using t(1) c r p(1) unfolding server_authenticated_def by metis
qed

lemma prewarm_wires: "mc_wires (snd (prewarm server attempt mc)) = snd (get_or_connect_wire (mc_wires mc) server attempt)"
  by (simp add: prewarm_def case_prod_beta)

text \<open>A connection of its own is stream 0 of the multiplexer: its cells are those of a reader, without
  the close cell.\<close>

lemma single_cells_prefix:
  "prefix (snd (single_cells R evs r)) (snd (reader_cells R STREAM_ID_SINGLE evs r))"
proof (induction R evs r rule: single_cells.induct)
  case (3 R bs evs r)
  then show ?case by (cases "encode_read R STREAM_ID_SINGLE bs r") (auto simp: case_prod_beta)
qed auto

section \<open>Properties\<close>

text \<open>C10: A client talks to the bridge it was given or not at all. If \<open>MuxWire::connect\<close> yields a wire,
  or if a single connection registers a flow, sends a cell or hands a byte to the application, then
  the handshake ended within its 15 s and the peer's reply carried the AUTH value derived with the
  bridge's public key. Otherwise the caller gets an error and nothing was shaped or forwarded.\<close>
theorem client_authenticates:
  fixes G :: "('os, 'g) os_random" and a :: "('e, 'r) attempt"
  shows "(mux_connect C R H G os a server_pub r_iat r_th clk policy = Some (Inr res) \<longrightarrow>
      in_time (at_took a) \<and> server_authenticated C R server_pub a) \<and>
    (\<forall>res' fl cells out. handle_client_connection_with_lab C R H G os a server_pub r_iat r_th clk policy accepted evs r_pad
        wr w outbound_first = Some (res', fl, cells, out) \<longrightarrow>
      in_time (at_took a) \<and> server_authenticated C R server_pub a \<or> isl res' \<and> fl = None \<and> cells = [] \<and> out = [])"
proof -
  obtain d where d: "dial C R server_pub a = (d :: (('e, 'g) conn_error + frame_cipher \<times> frame_cipher) option)" by simp
  consider "d = None" | e where "d = Some (Inl e)" | cs where "d = Some (Inr cs)" by (metis option.exhaust sum.exhaust)
  then show ?thesis
  proof cases
    case 1
    then show ?thesis using d by (simp add: mux_connect_def handle_client_connection_with_lab_def)
  next
    case 2
    then show ?thesis using d by (simp add: mux_connect_def handle_client_connection_with_lab_def)
  next
    case 3
    then show ?thesis using dial_authentic d by blast
  qed
qed


lemma connect_circuit_ok:
  assumes "\<forall>(s, w)\<in>set (mc_wires mc). wire_step\<^sup>*\<^sup>* wire_new w" "attempt \<in> insert (Inr wire_new) (range Inl)"
  shows "\<exists>res mc'. connect_circuit server attempt mc = Some (res, mc') \<and>
    (\<forall>(s, w)\<in>set (mc_wires mc'). wire_step\<^sup>*\<^sup>* wire_new w) \<and>
    (\<forall>s. s \<noteq> server \<longrightarrow> map_of (mc_wires mc') s = map_of (mc_wires mc) s) \<and>
    (\<forall>w. map_of (mc_wires mc) server = Some w \<and> is_alive w \<longrightarrow>
       (\<forall>attempt'. connect_circuit server attempt' mc = connect_circuit server attempt mc) \<and>
       (\<forall>sid. res = Inr sid \<longrightarrow> sid \<noteq> STREAM_ID_SINGLE \<and> sid \<notin> fst ` set (mw_map w))) \<and>
    (\<forall>e. res = Inl e \<longrightarrow> e = ConnExhausted \<or> attempt = Inl e)"
proof -
  let ?live = "\<exists>w. map_of (mc_wires mc) server = Some w \<and> is_alive w"
  have same: "connect_circuit server attempt' mc = connect_circuit server attempt mc" if "?live" for attempt'
    using that by (auto simp: connect_circuit_def get_or_connect_wire_def)
  obtain res0 ws where g: "get_or_connect_wire (mc_wires mc) server attempt = (res0, ws)" by force
  have ws: "\<forall>(s, w)\<in>set ws. wire_step\<^sup>*\<^sup>* wire_new w" "\<forall>s. s \<noteq> server \<longrightarrow> map_of ws s = map_of (mc_wires mc) s"
    using g assms by (auto simp: get_or_connect_wire_def split: option.splits if_splits sum.splits)
  have live: "res0 = Inr w" if "map_of (mc_wires mc) server = Some w" "is_alive w" for w
    using g that by (simp add: get_or_connect_wire_def)
  show ?thesis
  proof (cases res0)
    case (Inl e)
    then have "attempt = Inl e" using g by (auto simp: get_or_connect_wire_def split: option.splits if_splits sum.splits)
    then show ?thesis using g Inl ws live by (auto simp: connect_circuit_def)
  next
    case (Inr w)
    have reach: "wire_step\<^sup>*\<^sup>* wire_new w"
      using g Inr assms by (auto simp: get_or_connect_wire_def dest!: map_of_SomeD split: option.splits if_splits sum.splits)
    from add_stream_ok [OF wire.reach_inv [OF refl this]] obtain sres w' where
      a: "add_stream w = Some (sres, w')" and
      s: "case sres of None \<Rightarrow> w' = w \<and> length (mw_map w) = 65534
        | Some sid \<Rightarrow> sid \<noteq> STREAM_ID_SINGLE \<and> map_of (mw_map w) sid = None \<and>
            map_of (mw_map w') sid = Some (length (mw_chans w)) \<and> mw_chans w' = mw_chans w @ [channel_new sid]" by blast
    have reach': "wire_step\<^sup>*\<^sup>* wire_new w'" using reach wire_add [OF a] by (rule rtranclp.rtrancl_into_rtrancl)
    show ?thesis
    proof (cases sres)
      case None
      then show ?thesis using g Inr a ws same by (auto simp: connect_circuit_def)
    next
      case (Some sid)
      then have res: "connect_circuit server attempt mc = Some (Inr sid, mc\<lparr>mc_wires := (server, w') # ws\<rparr>)"
        using g Inr a by (simp add: connect_circuit_def)
      have "sid \<noteq> STREAM_ID_SINGLE" "sid \<notin> fst ` set (mw_map w)" using s Some by (auto simp: map_of_eq_None_iff)
      then show ?thesis using res ws reach' same live Inr by (auto intro!: exI)
    qed
  qed
qed


text \<open>
  A client and the holder of the secret \<open>b\<close> exchange their two messages: the network delivers both,
  in any pieces, within the hour that the epochs allow and within the timeouts, and the server's
  handshake succeeds. The marks are assumed not to occur by chance in the random padding.
\<close>

definition exchanged ::
  "crypto_ops \<Rightarrow> 'r rng_ops \<Rightarrow> bytes \<Rightarrow> ('e, 'r) attempt \<Rightarrow> ('e, 'r) attempt \<Rightarrow> frame_cipher \<times> frame_cipher \<Rightarrow> bool" where
  "exchanged C R b a sa ciphers \<longleftrightarrow>
     (\<exists>x_priv x_repr hello rc reply sevs rs cs ds.
        client_hello C R (at_clk a 0) (public_key C b) (at_rng a) = Some (x_priv, x_repr, hello, rc) \<and>
        unique_mark C (identity_mac_key C (public_key C b)) PUBKEY_LEN hello \<and>
        at_reads sa = map RData cs \<and> concat cs = hello \<and> (\<forall>c\<in>set cs. c \<noteq> []) \<and> epoch_seen (at_clk sa) (at_clk a 0) \<and>
        server_handshake C R (at_clk sa) (from_secret_bytes C b) (at_rng sa) (at_write sa) (at_reads sa)
          = Some (Inr ciphers, reply, sevs, rs) \<and>
        unique_mark C (identity_mac_key C (public_key C b)) (PUBKEY_LEN + AUTH_LEN) reply \<and>
        at_reads a = map RData ds \<and> concat ds = reply \<and> (\<forall>d\<in>set ds. d \<noteq> []) \<and>
        epoch_seen (\<lambda>i. at_clk a (i + 1)) (at_clk sa 3)) \<and>
     at_tcp a = None \<and> at_write a = None \<and> at_write sa = None \<and> in_time (at_took a) \<and> in_time (at_took sa)"

lemma exchanged_dial:
  fixes a :: "('e, 'r) attempt"
  assumes "crypto_ok C" "rng_ok R" "exchanged C R b a sa (ssend, srecv)"
  shows "dial C R (public_key C b) a = Some (Inr (srecv, ssend) :: ('e, 'g) conn_error + _)"
    and "\<exists>reply sevs rs. server_handshake C R (at_clk sa) (from_secret_bytes C b) (at_rng sa) None (at_reads sa)
          = Some (Inr (ssend, srecv), reply, sevs, rs)"
proof -
  obtain x_priv x_repr hello rc reply sevs rs cs ds where
    h: "client_hello C R (at_clk a 0) (public_key C b) (at_rng a) = Some (x_priv, x_repr, hello, rc)"
      "unique_mark C (identity_mac_key C (public_key C b)) PUBKEY_LEN hello" and
    c: "at_reads sa = map RData cs" "concat cs = hello" "\<forall>c\<in>set cs. c \<noteq> []" "epoch_seen (at_clk sa) (at_clk a 0)" and
    s: "server_handshake C R (at_clk sa) (from_secret_bytes C b) (at_rng sa) (at_write sa) (at_reads sa)
          = Some (Inr (ssend, srecv), reply, sevs, rs)"
      "unique_mark C (identity_mac_key C (public_key C b)) (PUBKEY_LEN + AUTH_LEN) reply" and
    d: "at_reads a = map RData ds" "concat ds = reply" "\<forall>d\<in>set ds. d \<noteq> []" "epoch_seen (\<lambda>i. at_clk a (i + 1)) (at_clk sa 3)"
    and n: "at_tcp a = None" "at_write a = None" "at_write sa = None" "in_time (at_took a)"
    using assms(3) unfolding exchanged_def by (elim conjE exE) (rule that)
  note s' = s(1)[unfolded n(3) c(1)]
  have "client_handshake C R (at_clk a) (public_key C b) (at_rng a) (None :: 'e option) (map RData ds)
      = Some (Inr (srecv, ssend), hello, [], rc)"
    by (rule handshake_agree [OF assms(1,2) h c(2,3,4) s' s(2) d(2,3,4)])
  then show "dial C R (public_key C b) a = Some (Inr (srecv, ssend) :: ('e, 'g) conn_error + _)"
    using n d(1) by (simp add: dial_def)
  show "\<exists>reply sevs rs. server_handshake C R (at_clk sa) (from_secret_bytes C b) (at_rng sa) None (at_reads sa)
          = Some (Inr (ssend, srecv), reply, sevs, rs)"
    using s(1) n(3) by auto
qed



text \<open>The witness: the toy primitives, each message in two pieces, and one circuit.\<close>

definition toy_reply :: bytes where
  "toy_reply = (case server_handshake toy_crypto least_rng (\<lambda>_. 7300) (from_secret_bytes toy_crypto (replicate 32 9)) ()
      (None :: unit option) (map RData [take 40 toy_hello, drop 40 toy_hello]) of
      None \<Rightarrow> [] | Some (_, out, _, _) \<Rightarrow> out)"

definition toy_attempt :: "(unit, unit) attempt" where
  "toy_attempt = \<lparr>at_tcp = None, at_took = Some 1, at_clk = (\<lambda>_. 7200), at_rng = (), at_write = None,
     at_reads = map RData [take 70 toy_reply, drop 70 toy_reply]\<rparr>"

definition toy_accepted :: "(unit, unit) attempt" where
  "toy_accepted = \<lparr>at_tcp = None, at_took = Some 1, at_clk = (\<lambda>_. 7300), at_rng = (), at_write = None,
     at_reads = map RData [take 40 toy_hello, drop 40 toy_hello]\<rparr>"

lemma toy_exchanged: "\<exists>ciphers. exchanged toy_crypto least_rng (replicate 32 9) toy_attempt toy_accepted ciphers"
proof -
  have C: "hash_ok toy_crypto" using toy_crypto_ok by (simp add: crypto_ok_def)
  obtain ssend srecv auth where s: "length auth = 32"
    "server_handshake toy_crypto least_rng (\<lambda>_. 7300) (from_secret_bytes toy_crypto (replicate 32 9)) () (None :: unit option)
       (map RData [take 40 toy_hello, drop 40 toy_hello]) =
     Some (Inr (ssend, srecv), fst (build_marked_message toy_crypto least_rng 7300 toy_key (replicate 32 7 @ auth) ()), [], ())"
    using toy_server_run by blast
  have reply: "toy_reply = fst (build_marked_message toy_crypto least_rng 7300 toy_key (replicate 32 7 @ auth) ())"
    unfolding toy_reply_def s(2) by simp
  have u: "unique_mark toy_crypto (identity_mac_key toy_crypto (public_key toy_crypto (replicate 32 9)))
      (PUBKEY_LEN + AUTH_LEN) toy_reply"
    using least_unique [OF C, of "replicate 32 7 @ auth" toy_key 7300] s(1)
    by (simp add: reply toy_key_def toy_crypto_def PUBKEY_LEN_def AUTH_LEN_def)
  have "length toy_reply = 96"
    using keyed16_length [OF C] s(1) by (simp add: reply least_build mark_value_def mac_with_epoch_def)
  then have ds: "concat [take 70 toy_reply, drop 70 toy_reply] = toy_reply" "\<forall>d\<in>set [take 70 toy_reply, drop 70 toy_reply]. d \<noteq> []"
    by auto
  have cs: "concat [take 40 toy_hello, drop 40 toy_hello] = toy_hello"
      "\<forall>d\<in>set [take 40 toy_hello, drop 40 toy_hello]. d \<noteq> []"
    using toy_hello_facts(3,4) by auto
  have seen: "epoch_seen (\<lambda>_. 7300) 7200" "epoch_seen (\<lambda>i. 7200) 7300" by (simp_all add: epoch_seen_def)
  have it: "in_time (Some 1)" by (simp add: in_time_def HANDSHAKE_TIMEOUT_def)
  have "exchanged toy_crypto least_rng (replicate 32 9) toy_attempt toy_accepted (ssend, srecv)"
    unfolding exchanged_def toy_attempt_def toy_accepted_def attempt.simps
    using toy_hello_facts(1,2) cs seen s(2) [folded reply] u ds it by blast
  then show ?thesis by blast
qed


theorem client_authenticates_witness:
  "\<exists>res. mux_connect toy_crypto least_rng (\<lambda>k d. d) byte_source 7 toy_attempt (public_key toy_crypto (replicate 32 9))
      () () (\<lambda>i. i) TailByClass = Some (Inr res) \<and>
    server_authenticated toy_crypto least_rng (public_key toy_crypto (replicate 32 9)) toy_attempt"
proof -
  obtain seeds where s: "session_generate byte_source 7 0 = (Inr seeds, 9)" using sample_seeds by blast
  obtain ssend srecv where x: "exchanged toy_crypto least_rng (replicate 32 9) toy_attempt toy_accepted (ssend, srecv)"
    using toy_exchanged by fast
  obtain fl where "flow_open least_rng (\<lambda>k d. d) byte_source 7 () () (\<lambda>i. i) False TailByClass srecv = Some (Inr fl, 9)"
    using flow_open_ok [where clk = "\<lambda>i. i", OF least_rng_ok toy_aead_ok s, of "\<lambda>k d. d" "()" "()" False TailByClass srecv] by blast
  then have m: "mux_connect toy_crypto least_rng (\<lambda>k d. d) byte_source 7 toy_attempt (public_key toy_crypto (replicate 32 9))
      () () (\<lambda>i. i) TailByClass = Some (Inr (fl, ssend, wire_new))"
    using exchanged_dial(1) [OF toy_crypto_ok least_rng_ok x, where 'g = unit] by (simp add: mux_connect_def)
  have "in_time (at_took toy_attempt) \<and> server_authenticated toy_crypto least_rng (public_key toy_crypto (replicate 32 9)) toy_attempt"
    by (rule client_authenticates [THEN conjunct1, THEN mp, OF m])
  then show ?thesis using m by metis
qed


end
