(* ===== verification/Programs.thy ===== *)
theory Programs
  imports Conn Socks
begin

text \<open>
  The two programs: \<open>src/src/bin/mixtor-server.rs\<close>, which loads or makes the identity of the bridge
  and announces itself to Tor, and \<open>src/src/bin/mixtor-client.rs\<close>, which takes the key of a bridge
  from its command line or from each SOCKS request. Files, the environment and the sockets of the
  operating system are arguments; the accept loop of the server is in \<open>Admission\<close>. The theorems say
  that an identity survives restarts, when it does not, and that the key the bridge announces is the
  key the client checks.
\<close>

section \<open>Secret files\<close>

text \<open>
  A file is its text, \<open>None\<close> where it cannot be read as a string, and its mode; the file system maps
  paths to files. A write of a secret may fail to create the file or, the file created, to write all
  of it.
\<close>

record secret_file =
  sf_text :: "rstr option"
  sf_mode :: "32 word"

type_synonym 'p files = "'p \<Rightarrow> secret_file option"

datatype write_outcome = WriteOk | OpenFails | WriteFails nat

datatype file_error = AlreadyExists | OtherError

definition read_to_string :: "'p \<Rightarrow> 'p files \<Rightarrow> rstr option" where
  "read_to_string path fs = (case fs path of None \<Rightarrow> None | Some f \<Rightarrow> sf_text f)"

text \<open>\<open>write_secret_file\<close> on unix: \<open>create_new\<close> with mode 0600, then the text.\<close>

definition write_secret_file :: "write_outcome \<Rightarrow> 'p \<Rightarrow> rstr \<Rightarrow> 'p files \<Rightarrow> (file_error + unit) \<times> 'p files" where
  "write_secret_file outcome path hex fs =
     (if fs path \<noteq> None then (Inl AlreadyExists, fs)
      else case outcome of
        OpenFails \<Rightarrow> (Inl OtherError, fs)
      | WriteFails n \<Rightarrow> (Inl OtherError, fs(path \<mapsto> \<lparr>sf_text = Some (take n hex), sf_mode = 384\<rparr>))
      | WriteOk \<Rightarrow> (Inr (), fs(path \<mapsto> \<lparr>sf_text = Some hex, sf_mode = 384\<rparr>)))"

text \<open>The same on Windows: the empty file is locked with \<open>icacls\<close> before the secret is written, and
  removed when that fails.\<close>

definition restrict_windows_acl :: "rstr option \<Rightarrow> bool option \<Rightarrow> bool" where
  "restrict_windows_acl username icacls =
     (let user = (case username of None \<Rightarrow> [] | Some u \<Rightarrow> u)
      in if user = [] then False else (case icacls of None \<Rightarrow> False | Some success \<Rightarrow> success))"

definition write_secret_file_windows ::
  "bool \<Rightarrow> write_outcome \<Rightarrow> 'p \<Rightarrow> rstr \<Rightarrow> 'p files \<Rightarrow> (file_error + unit) \<times> 'p files" where
  "write_secret_file_windows acl_ok outcome path hex fs =
     (if fs path \<noteq> None then (Inl AlreadyExists, fs)
      else if outcome = OpenFails then (Inl OtherError, fs)
      else if \<not> acl_ok then (Inl OtherError, fs)
      else case outcome of
        WriteFails n \<Rightarrow> (Inl OtherError, fs(path \<mapsto> \<lparr>sf_text = Some (take n hex), sf_mode = 384\<rparr>))
      | _ \<Rightarrow> (Inr (), fs(path \<mapsto> \<lparr>sf_text = Some hex, sf_mode = 384\<rparr>)))"

text \<open>What \<open>warn_if_world_readable\<close> warns of: a bit of the mask 077.\<close>

definition world_readable :: "'p \<Rightarrow> 'p files \<Rightarrow> bool" where
  "world_readable path fs = (case fs path of None \<Rightarrow> False | Some f \<Rightarrow> and (sf_mode f) 63 \<noteq> 0)"

section \<open>The identity of the bridge\<close>

datatype identity_error =
    KeyFileUnreadable | KeyFileInvalid | StaticKeyInvalid | CorruptIdentity | RaceUnreadable

definition keypair_from_text :: "crypto_ops \<Rightarrow> identity_error \<Rightarrow> rstr \<Rightarrow> (identity_error + static_keypair) option" where
  "keypair_from_text C e s =
     map_option (\<lambda>k. case k of None \<Rightarrow> Inl e | Some secret \<Rightarrow> Inr (from_secret_bytes C secret)) (key_from_hex s)"

text \<open>
  \<open>load_identity\<close>: \<open>state_file\<close> is \<open>mixtor_identity\<close> in the state directory, when there is one;
  \<open>others1\<close> and \<open>others2\<close> are what other processes do to the files between the first read and the
  creation, and between a lost race and the second read. The outer \<open>None\<close> is the panic of the parser.
\<close>

definition load_identity ::
  "crypto_ops \<Rightarrow> 'r rng_ops \<Rightarrow> 'p option \<Rightarrow> rstr option \<Rightarrow> 'p option \<Rightarrow> write_outcome \<Rightarrow>
     ('p files \<Rightarrow> 'p files) \<Rightarrow> ('p files \<Rightarrow> 'p files) \<Rightarrow> 'r \<Rightarrow> 'p files \<Rightarrow>
     ((identity_error + static_keypair) \<times> 'p files) option" where
  "load_identity C R static_key_file static_key state_file outcome others1 others2 r fs =
     (case static_key_file of
        Some path \<Rightarrow>
          (case read_to_string path fs of
             None \<Rightarrow> Some (Inl KeyFileUnreadable, fs)
           | Some s \<Rightarrow> map_option (\<lambda>res. (res, fs)) (keypair_from_text C KeyFileInvalid (str_trim s)))
      | None \<Rightarrow>
     (case static_key of
        Some hex \<Rightarrow> map_option (\<lambda>res. (res, fs)) (keypair_from_text C StaticKeyInvalid hex)
      | None \<Rightarrow>
     (case state_file of
        None \<Rightarrow> Some (Inr (fst (keypair_generate C R r)), fs)
      | Some path \<Rightarrow>
          (case read_to_string path fs of
             Some s \<Rightarrow> map_option (\<lambda>res. (res, fs)) (keypair_from_text C CorruptIdentity (str_trim s))
           | None \<Rightarrow>
               (let kp = fst (keypair_generate C R r);
                    (res, fs1) = write_secret_file outcome path (key_to_hex (kp_secret kp)) (others1 fs)
                in case res of
                     Inr _ \<Rightarrow> Some (Inr kp, fs1)
                   | Inl OtherError \<Rightarrow> Some (Inr kp, fs1)
                   | Inl AlreadyExists \<Rightarrow>
                       (let fs2 = others2 fs1
                        in case read_to_string path fs2 of
                             None \<Rightarrow> Some (Inl RaceUnreadable, fs2)
                           | Some s \<Rightarrow> map_option (\<lambda>res. (res, fs2)) (keypair_from_text C CorruptIdentity (str_trim s))))))))"

text \<open>The certificate that \<open>finish\<close> and the transport lines show.\<close>

definition cert_of :: "static_keypair \<Rightarrow> rstr" where
  "cert_of kp = key_to_hex (kp_public kp)"

section \<open>The server program\<close>

type_synonym pt_env = "string \<Rightarrow> rstr option"

record 'p server_options =
  so_managed :: bool
  so_static_key_file :: "'p option"
  so_static_key :: "rstr option"
  so_keygen :: bool
  so_keygen_file :: "'p option"

datatype server_action =
    PrintLines "rstr list" | RunManaged static_keypair | RunRaw static_keypair
  | KeyFileNotWritten file_error | IdentityFails identity_error

definition server_main ::
  "crypto_ops \<Rightarrow> 'r rng_ops \<Rightarrow> 'p server_options \<Rightarrow> pt_env \<Rightarrow> (rstr \<Rightarrow> 'p) \<Rightarrow> write_outcome \<Rightarrow>
     ('p files \<Rightarrow> 'p files) \<Rightarrow> ('p files \<Rightarrow> 'p files) \<Rightarrow> 'r \<Rightarrow> 'p files \<Rightarrow> (server_action \<times> 'p files) option" where
  "server_main C R args env identity_path outcome others1 others2 r fs =
     (let kp = fst (keypair_generate C R r) in
      if so_keygen args then
        Some (PrintLines [str_of ''secret='' @ key_to_hex (kp_secret kp), str_of ''cert='' @ cert_of kp], fs)
      else case so_keygen_file args of
        Some path \<Rightarrow>
          (case write_secret_file outcome path (key_to_hex (kp_secret kp)) fs of
             (Inl e, fs1) \<Rightarrow> Some (KeyFileNotWritten e, fs1)
           | (Inr _, fs1) \<Rightarrow> Some (PrintLines [str_of ''cert='' @ cert_of kp], fs1))
      | None \<Rightarrow> do {
          (res, fs1) \<leftarrow> load_identity C R (so_static_key_file args) (so_static_key args)
            (map_option identity_path (env ''TOR_PT_STATE_LOCATION'')) outcome others1 others2 r fs;
          Some (case res of
             Inl e \<Rightarrow> IdentityFails e
           | Inr identity \<Rightarrow>
               if so_managed args \<or> env ''TOR_PT_MANAGED_TRANSPORT_VER'' \<noteq> None then RunManaged identity
               else RunRaw identity, fs1)
        })"

text \<open>Tor's list of transports: absent or a star means all of them.\<close>

definition wants_mixtor :: "rstr option \<Rightarrow> bool" where
  "wants_mixtor v =
     (let transports = (case v of None \<Rightarrow> str_of ''*'' | Some s \<Rightarrow> s)
      in transports = str_of ''*'' \<or> str_of ''mixtor'' \<in> set (str_split 44 transports))"

fun find_map :: "('a \<Rightarrow> 'b option) \<Rightarrow> 'a list \<Rightarrow> 'b option" where
  "find_map f [] = None"
| "find_map f (x # xs) = (case f x of None \<Rightarrow> find_map f xs | Some y \<Rightarrow> Some y)"

definition split_once :: "nat \<Rightarrow> rstr \<Rightarrow> (rstr \<times> rstr) option" where
  "split_once d s = (if d \<in> set s then Some (takeWhile (\<lambda>c. c \<noteq> d) s, tl (dropWhile (\<lambda>c. c \<noteq> d) s)) else None)"

definition bind_entry :: "(rstr \<Rightarrow> 'a option) \<Rightarrow> rstr \<Rightarrow> 'a option" where
  "bind_entry parse entry =
     (case split_once 45 entry of
        None \<Rightarrow> None
      | Some (transport, addr) \<Rightarrow> if transport = str_of ''mixtor'' then parse addr else None)"

definition managed_bind_addr :: "(rstr \<Rightarrow> 'a option) \<Rightarrow> pt_env \<Rightarrow> 'a option" where
  "managed_bind_addr parse env =
     (case env ''TOR_PT_SERVER_BINDADDR'' of
        None \<Rightarrow> None
      | Some bind_addrs \<Rightarrow> find_map (bind_entry parse) (str_split 44 bind_addrs))"

text \<open>The lab logger of both programs: \<open>creation\<close> is the error with which a directory refuses it.\<close>

definition create_lab_logger :: "('d \<Rightarrow> 'io option) \<Rightarrow> 'd option \<Rightarrow> rstr \<Rightarrow> 'io + lab_logger option" where
  "create_lab_logger creation lab_dir role =
     (case lab_dir of None \<Rightarrow> Inr None | Some dir \<Rightarrow> map_sum id Some (lab_create (creation dir) role))"

text \<open>
  \<open>run_managed_server\<close> up to its accept loop. \<open>parse\<close> reads a socket address, \<open>shown\<close> prints one,
  \<open>listen\<close> is what the operating system answers: the local address, or an error. The lines are those on
  the standard output; with them the address it listens on, the upstream and the logger.
\<close>

datatype ('a, 'io) managed =
    LabFails 'io | NotWanted "rstr list" | BadOrPort | BindFails | Listening "rstr list" 'a 'a "lab_logger option"

definition run_managed_server ::
  "('d \<Rightarrow> 'io option) \<Rightarrow> 'd option \<Rightarrow> (rstr \<Rightarrow> 'a option) \<Rightarrow> ('a \<Rightarrow> rstr) \<Rightarrow> 'a \<Rightarrow> ('a \<Rightarrow> 'a option) \<Rightarrow> pt_env \<Rightarrow>
     static_keypair \<Rightarrow> ('a, 'io) managed" where
  "run_managed_server creation lab_dir parse shown default_bind listen env identity =
     (case create_lab_logger creation lab_dir (str_of ''server'') of
        Inl e \<Rightarrow> LabFails e
      | Inr lab \<Rightarrow>
          if \<not> wants_mixtor (env ''TOR_PT_SERVER_TRANSPORTS'') then NotWanted [str_of ''VERSION 1'', str_of ''SMETHODS DONE'']
          else case Option.bind (env ''TOR_PT_ORPORT'') parse of
            None \<Rightarrow> BadOrPort
          | Some upstream \<Rightarrow>
              (case listen (case managed_bind_addr parse env of None \<Rightarrow> default_bind | Some a \<Rightarrow> a) of
                 None \<Rightarrow> BindFails
               | Some addr \<Rightarrow>
                   Listening [str_of ''VERSION 1'',
                              str_of ''SMETHOD mixtor '' @ shown addr @ str_of '' ARGS:cert='' @ cert_of identity,
                              str_of ''SMETHODS DONE''] addr upstream lab))"

text \<open>\<open>run_raw_server\<close> up to the same loop; it prints nothing that Tor reads.\<close>

definition run_raw_server ::
  "('d \<Rightarrow> 'io option) \<Rightarrow> 'd option \<Rightarrow> ('a \<Rightarrow> 'a option) \<Rightarrow> 'a \<Rightarrow> 'a \<Rightarrow> ('a, 'io) managed" where
  "run_raw_server creation lab_dir listen addr upstream =
     (case create_lab_logger creation lab_dir (str_of ''server'') of
        Inl e \<Rightarrow> LabFails e
      | Inr lab \<Rightarrow> (case listen addr of None \<Rightarrow> BindFails | Some bound \<Rightarrow> Listening [] bound upstream lab))"

section \<open>The client program\<close>

datatype client_error = ServerKeyInvalid | ServerMissing | ServerKeyMissing

text \<open>Managed or raw, with the key of the command line; \<open>None\<close> is the panic of the parser.\<close>

datatype 'a client_action = ClientManaged "bytes option" | ClientRaw 'a bytes | ClientFails client_error

definition client_main :: "bool \<Rightarrow> rstr option \<Rightarrow> 'a option \<Rightarrow> pt_env \<Rightarrow> 'a client_action option" where
  "client_main managed server_key server env =
     (case (case server_key of None \<Rightarrow> Some (Inr None) | Some hex \<Rightarrow>
              map_option (\<lambda>k. case k of None \<Rightarrow> Inl ServerKeyInvalid | Some pub \<Rightarrow> Inr (Some pub)) (key_from_hex hex)) of
        None \<Rightarrow> None
      | Some (Inl e) \<Rightarrow> Some (ClientFails e)
      | Some (Inr server_pub) \<Rightarrow>
          Some (if managed \<or> env ''TOR_PT_MANAGED_TRANSPORT_VER'' \<noteq> None then ClientManaged server_pub
                else case server of
                  None \<Rightarrow> ClientFails ServerMissing
                | Some addr \<Rightarrow>
                    (case server_pub of None \<Rightarrow> ClientFails ServerKeyMissing | Some pub \<Rightarrow> ClientRaw addr pub)))"

definition run_managed_client ::
  "('d \<Rightarrow> 'io option) \<Rightarrow> 'd option \<Rightarrow> ('a \<Rightarrow> rstr) \<Rightarrow> 'a \<Rightarrow> ('a \<Rightarrow> 'a option) \<Rightarrow> pt_env \<Rightarrow> ('a, 'io) managed" where
  "run_managed_client creation lab_dir shown any_port listen env =
     (case create_lab_logger creation lab_dir (str_of ''client'') of
        Inl e \<Rightarrow> LabFails e
      | Inr lab \<Rightarrow>
          if \<not> wants_mixtor (env ''TOR_PT_CLIENT_TRANSPORTS'') then NotWanted [str_of ''VERSION 1'', str_of ''CMETHODS DONE'']
          else case listen any_port of
            None \<Rightarrow> BindFails
          | Some addr \<Rightarrow>
              Listening [str_of ''VERSION 1'', str_of ''CMETHOD mixtor socks5 '' @ shown addr, str_of ''CMETHODS DONE'']
                addr addr lab)"

text \<open>
  \<open>handle_managed_socks_connection\<close> up to the stream of the circuit; \<open>attempt server pub\<close> is the
  outcome of dialling \<open>server\<close> under the key \<open>pub\<close>, if it comes to that.
\<close>

datatype ('e, 'g) managed_error = SocksFails socks_error | NoIdentity | CircuitFails "('e, 'g) conn_error"

definition handle_managed_socks_connection ::
  "(socket_addr \<Rightarrow> bytes \<Rightarrow> ('e, 'g) conn_error + mux_wire) \<Rightarrow> bytes option \<Rightarrow> sock \<Rightarrow> socket_addr mux_client \<Rightarrow>
     ((('e, 'g) managed_error + u16) \<times> sock \<times> socket_addr mux_client) option" where
  "handle_managed_socks_connection attempt fallback_pub local mc = do {
     (accepted, local') \<leftarrow> accept_socks5_connect local;
     (case accepted of
        Inl e \<Rightarrow> Some (Inl (SocksFails e), local', mc)
      | Inr (server, args) \<Rightarrow>
          (case (case ca_cert args of None \<Rightarrow> fallback_pub | Some pub \<Rightarrow> Some pub) of
             None \<Rightarrow> Some (Inl NoIdentity, local', mc)
           | Some pub \<Rightarrow> do {
               (res, mc') \<leftarrow> connect_circuit server (attempt server pub) mc;
               Some (map_sum CircuitFails id res, local', mc')
             }))
   }"

text \<open>
  The accept loop of the client: every connection is handed to a task, and the loop ends only when
  \<open>accept\<close> fails. The connections are listed in the order in which their tasks take the lock on the
  wires; \<open>handle k\<close> is what becomes of the \<open>k\<close>-th, whose error is printed and forgotten.
\<close>

fun accept_loop ::
  "(nat \<Rightarrow> 'c \<Rightarrow> 'm \<Rightarrow> ('res \<times> 'm) option) \<Rightarrow> nat \<Rightarrow> ('io + 'c) list \<Rightarrow> 'm \<Rightarrow> ('io option \<times> 'res list \<times> 'm) option" where
  "accept_loop handle k [] m = Some (None, [], m)"
| "accept_loop handle k (Inl e # rest) m = Some (Some e, [], m)"
| "accept_loop handle k (Inr c # rest) m = do {
     (res, m1) \<leftarrow> handle k c m;
     (ended, results, m2) \<leftarrow> accept_loop handle (k + 1) rest m1;
     Some (ended, res # results, m2)
   }"

text \<open>The loop of \<open>run_managed_client\<close>; the outer \<open>None\<close> is a panic, also of the parser of the tail policy.\<close>

definition managed_client_loop ::
  "pt_env \<Rightarrow> nanos \<Rightarrow> nanos \<Rightarrow> nat \<Rightarrow> (nat \<Rightarrow> socket_addr \<Rightarrow> bytes \<Rightarrow> ('e, 'g) conn_error + mux_wire) \<Rightarrow> bytes option \<Rightarrow>
     ('io + sock) list \<Rightarrow> ('io option \<times> ((('e, 'g) managed_error + u16) \<times> sock) list \<times> socket_addr mux_client) option" where
  "managed_client_loop env now now' max_read attempt fallback_pub accepts = do {
     tail \<leftarrow> default_for_production (env ''MIXTOR_TAIL_FLOOR_MS'') now now';
     accept_loop (\<lambda>k local mc. map_option (\<lambda>(res, local', mc'). ((res, local'), mc'))
         (handle_managed_socks_connection (attempt k) fallback_pub local mc))
       0 accepts (mux_client_new max_read tail)
   }"

datatype 'io raw_client_end = RawLabFails 'io | RawBindFails | RawAccepting | RawAcceptFails 'io

text \<open>\<open>run_raw_client\<close>: \<open>attempt 0\<close> is the outcome of dialling for the pre-warming, whose error is only
  printed, \<open>attempt (k + 1)\<close> that for the \<open>k\<close>-th circuit.\<close>

definition run_raw_client ::
  "('d \<Rightarrow> 'io option) \<Rightarrow> 'd option \<Rightarrow> pt_env \<Rightarrow> nanos \<Rightarrow> nanos \<Rightarrow> nat \<Rightarrow> ('a \<Rightarrow> 'a option) \<Rightarrow> 'a \<Rightarrow> 'a \<Rightarrow> bytes \<Rightarrow>
     (nat \<Rightarrow> 'a \<Rightarrow> bytes \<Rightarrow> ('e, 'g) conn_error + mux_wire) \<Rightarrow> ('io + 'c) list \<Rightarrow>
     ('io raw_client_end \<times> (('e, 'g) conn_error + u16) list \<times> ('a \<times> mux_wire) list) option" where
  "run_raw_client creation lab_dir env now now' max_read listen addr server server_pub attempt accepts =
     (case create_lab_logger creation lab_dir (str_of ''client'') of
        Inl e \<Rightarrow> Some (RawLabFails e, [], [])
      | Inr lab \<Rightarrow>
     (case listen addr of
        None \<Rightarrow> Some (RawBindFails, [], [])
      | Some bound \<Rightarrow> do {
          tail \<leftarrow> default_for_production (env ''MIXTOR_TAIL_FLOOR_MS'') now now';
          let mc = snd (prewarm server (attempt 0 server server_pub) (mux_client_new max_read tail));
          (ended, results, mc') \<leftarrow> accept_loop (\<lambda>k local. connect_circuit server (attempt (k + 1) server server_pub)) 0 accepts mc;
          Some (case ended of None \<Rightarrow> RawAccepting | Some e \<Rightarrow> RawAcceptFails e, results, mc_wires mc')
        }))"

section \<open>Keys on disk\<close>

lemma key_to_hex_trim: "str_trim (key_to_hex bs) = key_to_hex bs"
  using key_to_hex_chars by (intro str_trim_id) blast

lemma keypair_generate_props:
  assumes "rng_ok R"
  shows "length (kp_secret (fst (keypair_generate C R r))) = 32"
    and "from_secret_bytes C (kp_secret (fst (keypair_generate C R r))) = fst (keypair_generate C R r)"
  using assms by (auto simp: keypair_generate_def from_secret_bytes_def rng_ok_def case_prod_beta Let_def)

lemma keypair_from_hex:
  assumes "length secret = 32"
  shows "keypair_from_text C e (str_trim (key_to_hex secret)) = Some (Inr (from_secret_bytes C secret))"
  using key_hex_roundtrip_lemma [OF assms] by (simp add: keypair_from_text_def key_to_hex_trim)

lemma keypair_from_short:
  assumes "length secret = 32" "n < 64"
  shows "keypair_from_text C e (str_trim (take n (key_to_hex secret))) = Some (Inl e)"
proof -
  have "set (take n (key_to_hex secret)) \<subseteq> set (key_to_hex secret)" by (rule set_take_subset)
  then have ch: "\<forall>c\<in>set (take n (key_to_hex secret)). \<not> is_whitespace c \<and> c < 128" using key_to_hex_chars by blast
  then have "str_trim (take n (key_to_hex secret)) = take n (key_to_hex secret)" by (intro str_trim_id) blast
  moreover have "str_len (take n (key_to_hex secret)) = n"
    using ch assms by (subst str_len_ascii) (auto simp: key_to_hex_length)
  ultimately show ?thesis using assms(2) by (simp add: keypair_from_text_def key_from_hex_def)
qed

lemma load_existing:
  "read_to_string path fs = Some s \<Longrightarrow>
    load_identity C R None None (Some path) outcome others1 others2 r fs
      = map_option (\<lambda>res. (res, fs)) (keypair_from_text C CorruptIdentity (str_trim s))"
  by (simp add: load_identity_def)

lemma load_fresh:
  assumes "fs path = None"
  shows "load_identity C R None None (Some path) WriteOk (\<lambda>f. f) others2 r fs =
      Some (Inr (fst (keypair_generate C R r)),
            fs(path \<mapsto> \<lparr>sf_text = Some (key_to_hex (kp_secret (fst (keypair_generate C R r)))), sf_mode = 384\<rparr>))"
  using assms by (simp add: load_identity_def read_to_string_def write_secret_file_def Let_def)

section \<open>The accept loop of the client\<close>

lemma accept_loop_total:
  assumes "\<And>k c m. P m \<Longrightarrow> \<exists>res m'. handle k c m = Some (res, m') \<and> P m' \<and> Q res" "P m"
  shows "\<exists>results m'. accept_loop handle k accepts m =
      Some (case dropWhile (\<lambda>a. \<not> isl a) accepts of [] \<Rightarrow> None | a # _ \<Rightarrow> Some (projl a), results, m') \<and>
    P m' \<and> (\<forall>res\<in>set results. Q res) \<and> length results = length (takeWhile (\<lambda>a. \<not> isl a) accepts)"
  using assms(2)
proof (induction accepts arbitrary: k m)
  case (Cons a rest)
  show ?case
  proof (cases a)
    case (Inl e)
    then show ?thesis using Cons.prems by simp
  next
    case (Inr c)
    obtain res m1 where 1: "handle k c m = Some (res, m1)" "P m1" "Q res" using assms(1) [OF Cons.prems] by blast
    obtain results m2 where 2: "accept_loop handle (k + 1) rest m1 =
        Some (case dropWhile (\<lambda>a. \<not> isl a) rest of [] \<Rightarrow> None | a # _ \<Rightarrow> Some (projl a), results, m2)" "P m2"
      "\<forall>res\<in>set results. Q res" "length results = length (takeWhile (\<lambda>a. \<not> isl a) rest)"
      using Cons.IH [OF 1(2)] by blast
    show ?thesis using Inr 1 2 by (intro exI [of _ "res # results"] exI [of _ m2]) simp
  qed
qed simp

text \<open>A raw client that has its socket keeps serving: neither a bridge that is down at the start nor a
  circuit that fails stops it, every accepted connection has an outcome, only a failing \<open>accept\<close> ends
  the loop, and all wires go to the one server.\<close>

lemma raw_client_serves:
  fixes server :: 'a
  assumes "listen addr = Some bound" "default_for_production (env ''MIXTOR_TAIL_FLOOR_MS'') now now' = Some policy"
    and "\<forall>k. attempt k server server_pub \<in> insert (Inr wire_new) (range Inl)"
  shows "\<exists>results wires. run_raw_client creation None env now now' max_read listen addr server server_pub attempt accepts =
      Some (case dropWhile (\<lambda>a. \<not> isl a) accepts of [] \<Rightarrow> RawAccepting | a # _ \<Rightarrow> RawAcceptFails (projl a), results, wires) \<and>
    length results = length (takeWhile (\<lambda>a. \<not> isl a) accepts) \<and>
    (\<forall>(s, w)\<in>set wires. s = server \<and> wire_step\<^sup>*\<^sup>* wire_new w)"
proof -
  define P where "P = (\<lambda>mc :: 'a mux_client. \<forall>(s, w)\<in>set (mc_wires mc). s = server \<and> wire_step\<^sup>*\<^sup>* wire_new w)"
  define mc where "mc = snd (prewarm server (attempt 0 server server_pub) (mux_client_new max_read policy))"
  have start: "P mc"
    using assms(3) [rule_format, of 0]
    by (auto simp: P_def mc_def prewarm_wires mux_client_new_def get_or_connect_wire_def)
  have step: "\<exists>res m'. connect_circuit server (attempt (k + 1) server server_pub) m = Some (res, m') \<and> P m' \<and> True"
    if m: "P m" for k :: nat and m :: "'a mux_client"
  proof -
    have reach: "\<forall>(s, w)\<in>set (mc_wires m). wire_step\<^sup>*\<^sup>* wire_new w" using m by (auto simp: P_def)
    obtain res m' where c: "connect_circuit server (attempt (k + 1) server server_pub) m = Some (res, m')"
      "\<forall>(s, w)\<in>set (mc_wires m'). wire_step\<^sup>*\<^sup>* wire_new w"
      using connect_circuit_ok [OF reach assms(3) [rule_format, of "k + 1"]] by blast
    have "fst ` set (mc_wires m') \<subseteq> insert server (fst ` set (mc_wires m))"
      using c(1) by (auto simp: connect_circuit_def get_or_connect_wire_def Let_def image_iff
          split: option.splits sum.splits if_splits prod.splits)
    then have "\<forall>(s, w)\<in>set (mc_wires m'). s = server" using m by (fastforce simp: P_def)
    then show ?thesis using c by (auto simp: P_def)
  qed
  obtain results mc' where r: "accept_loop (\<lambda>k local. connect_circuit server (attempt (k + 1) server server_pub)) 0 accepts mc =
      Some (case dropWhile (\<lambda>a. \<not> isl a) accepts of [] \<Rightarrow> None | a # _ \<Rightarrow> Some (projl a), results, mc')" "P mc'"
    "length results = length (takeWhile (\<lambda>a. \<not> isl a) accepts)"
    using accept_loop_total [where P = P and Q = "\<lambda>_. True" and k = 0 and accepts = accepts and
      handle = "\<lambda>k local. connect_circuit server (attempt (k + 1) server server_pub)", OF step start] by blast
  show ?thesis
    using r assms(1,2)
    by (cases "dropWhile (\<lambda>a. \<not> isl a) accepts"; intro exI [of _ results] exI [of _ "mc_wires mc'"])
      (simp_all add: run_raw_client_def create_lab_logger_def mc_def [symmetric] P_def del: dropWhile_eq_Nil_conv)
qed

section \<open>Properties\<close>

text \<open>C19: The identity of a bridge is stable. A bridge that starts with an empty state directory and can
  write generates an identity and stores it readable by its owner only; every later start, with any
  randomness and whatever else happens to the files meanwhile except to this one, has the same key
  and hence the same certificate; a bridge that loses the race to create the file adopts the identity
  of the winner; and a key file written by \<open>--keygen-file\<close> makes \<open>--static-key-file\<close> start under the
  certificate that was printed.\<close>
theorem identity_stable:
  assumes "rng_ok R" "fs path = None" "load_identity C R None None (Some path) WriteOk (\<lambda>f. f) others r fs = Some (Inr kp, fs1)"
  shows "\<not> world_readable path fs1 \<and>
    (\<forall>R' outcome o1 o2 r' fs'. fs' path = fs1 path \<longrightarrow>
       load_identity C (R' :: 'q rng_ops) None None (Some path) outcome o1 o2 r' fs' = Some (Inr kp, fs')) \<and>
    (\<forall>R' outcome r'. load_identity C (R' :: 'q rng_ops) None None (Some path) outcome (\<lambda>_. fs1) (\<lambda>f. f) r' fs = Some (Inr kp, fs1)) \<and>
    (\<not> so_keygen args \<and> so_keygen_file args = Some path \<longrightarrow>
       (\<exists>kp' fs2. server_main C R args env idp WriteOk o1 o2 r fs = Some (PrintLines [str_of ''cert='' @ cert_of kp'], fs2) \<and>
          load_identity C R (Some path) sk sf WriteOk o1 o2 r fs2 = Some (Inr kp', fs2)))"
proof -
  let ?kp = "fst (keypair_generate C R r)"
  let ?f = "\<lparr>sf_text = Some (key_to_hex (kp_secret ?kp)), sf_mode = 384\<rparr>"
  note kp = keypair_generate_props [OF assms(1), of C r]
  have run: "kp = ?kp" "fs1 = fs(path \<mapsto> ?f)" using assms(3) load_fresh [of fs path C R others r] assms(2) by auto
  have parsed: "keypair_from_text C e (str_trim (key_to_hex (kp_secret ?kp))) = Some (Inr ?kp)" for e
    using keypair_from_hex [OF kp(1)] kp(2) by simp
  have "\<not> world_readable path fs1" by (simp add: world_readable_def run(2))
  moreover have "load_identity C (R' :: 'q rng_ops) None None (Some path) outcome o1 o2 r' fs' = Some (Inr kp, fs')"
    if "fs' path = fs1 path" for R' outcome o1 o2 r' fs'
    using that load_existing [of path fs' "key_to_hex (kp_secret ?kp)" C R' outcome o1 o2 r'] parsed by (simp add: run read_to_string_def)
  moreover have "load_identity C (R' :: 'q rng_ops) None None (Some path) outcome (\<lambda>_. fs1) (\<lambda>f. f) r' fs = Some (Inr kp, fs1)"
    for R' outcome r'
    using assms(2) parsed by (simp add: load_identity_def read_to_string_def write_secret_file_def run Let_def)
  moreover have "\<exists>kp' fs2. server_main C R args env idp WriteOk o1 o2 r fs = Some (PrintLines [str_of ''cert='' @ cert_of kp'], fs2) \<and>
          load_identity C R (Some path) sk sf WriteOk o1 o2 r fs2 = Some (Inr kp', fs2)"
    if "\<not> so_keygen args" "so_keygen_file args = Some path"
    using that assms(2) parsed
    by (intro exI [of _ ?kp] exI [of _ "fs(path \<mapsto> ?f)"])
      (simp add: server_main_def write_secret_file_def load_identity_def read_to_string_def Let_def)
  ultimately show ?thesis by blast
qed

text \<open>C21: But a failed write bricks it. If the disk takes only part of the secret, the bridge warns that its
  certificate will change and runs with the key it has just generated; yet the file stays behind, and
  every later start refuses to run because the identity is corrupt. The same refusal meets a bridge
  that starts while another has created the file and not yet written it.\<close>
theorem identity_bricked:
  assumes "rng_ok R" "fs path = None" "n < 64"
  shows "\<exists>kp fs1. load_identity C R None None (Some path) (WriteFails n) (\<lambda>f. f) others r fs = Some (Inr kp, fs1) \<and>
    (\<forall>R' outcome o1 o2 r'. load_identity C (R' :: 'q rng_ops) None None (Some path) outcome o1 o2 r' fs1
       = Some (Inl CorruptIdentity, fs1)) \<and>
    (\<forall>outcome. load_identity C R None None (Some path) outcome (\<lambda>f. f(path \<mapsto> \<lparr>sf_text = Some [], sf_mode = 384\<rparr>)) (\<lambda>f. f) r fs
       = Some (Inl CorruptIdentity, fs(path \<mapsto> \<lparr>sf_text = Some [], sf_mode = 384\<rparr>)))"
proof -
  let ?kp = "fst (keypair_generate C R r)"
  let ?f = "\<lparr>sf_text = Some (take n (key_to_hex (kp_secret ?kp))), sf_mode = 384\<rparr>"
  note kp = keypair_generate_props [OF assms(1), of C r]
  have short: "keypair_from_text C e (str_trim (take m (key_to_hex (kp_secret ?kp)))) = Some (Inl e)" if "m < 64" for e m
    using keypair_from_short [OF kp(1) that] .
  have "load_identity C R None None (Some path) (WriteFails n) (\<lambda>f. f) others r fs = Some (Inr ?kp, fs(path \<mapsto> ?f))"
    using assms(2) by (simp add: load_identity_def read_to_string_def write_secret_file_def Let_def)
  moreover have "load_identity C (R' :: 'q rng_ops) None None (Some path) outcome o1 o2 r' (fs(path \<mapsto> ?f))
       = Some (Inl CorruptIdentity, fs(path \<mapsto> ?f))" for R' outcome o1 o2 r'
    using load_existing [of path "fs(path \<mapsto> ?f)" "take n (key_to_hex (kp_secret ?kp))" C R' outcome o1 o2 r'] short [OF assms(3)]
    by (simp add: read_to_string_def)
  moreover have "load_identity C R None None (Some path) outcome (\<lambda>f. f(path \<mapsto> \<lparr>sf_text = Some [], sf_mode = 384\<rparr>)) (\<lambda>f. f) r fs
       = Some (Inl CorruptIdentity, fs(path \<mapsto> \<lparr>sf_text = Some [], sf_mode = 384\<rparr>))" for outcome
    using assms(2) short [of 0] by (simp add: load_identity_def read_to_string_def write_secret_file_def Let_def)
  ultimately show ?thesis by blast
qed


text \<open>The certificate text, as the bytes of the SOCKS arguments.\<close>

lemma hex_digit_range: "c \<in> set (key_to_hex bs) \<Longrightarrow> is_ascii_hexdigit c"
proof -
  assume "c \<in> set (key_to_hex bs)"
  then obtain b :: byte where "c = hex_digit (unat b div 16) \<or> c = hex_digit (unat b mod 16)"
    by (auto simp: key_to_hex_def)
  moreover have "is_ascii_hexdigit (hex_digit d)" if "d < 16" for d
    using that by (auto simp: hex_digit_def is_ascii_hexdigit_def)
  ultimately show ?thesis using byte_nibbles(1,2) [of b] by blast
qed

lemma cert_in_announced:
  assumes "length pub = 32" "rest = [] \<or> \<not> is_ascii_hexdigit (unat (hd rest))"
  shows "cert_in_bytes (map of_nat (str_of ''cert='' @ key_to_hex pub) @ rest) = Some pub"
proof -
  let ?hex = "key_to_hex pub"
  have hx: "\<forall>c\<in>set ?hex. is_ascii_hexdigit c" using hex_digit_range by blast
  have len: "length ?hex = 64" using assms(1) by (simp add: key_to_hex_length)
  have small: "map unat (map of_nat ?hex :: bytes) = ?hex"
    unfolding map_map using hx by (intro map_idI) (auto simp: is_ascii_hexdigit_def unat_of_nat)
  have tw: "takeWhile is_ascii_hexdigit (map unat (map of_nat ?hex @ rest)) = ?hex"
    using hx assms(2) unfolding map_append small by (cases rest) (auto simp: takeWhile_append)
  have "bytes_after (str_of ''cert='') (map of_nat (str_of ''cert='' @ ?hex) @ rest) = Some (map of_nat ?hex @ rest)"
    by (simp add: str_of_def)
  then have "cert_in_bytes (map of_nat (str_of ''cert='' @ ?hex) @ rest) = Some (hex_pairs ?hex)"
    using len tw by (simp add: cert_in_bytes_def)
  moreover have "hex_pairs ?hex = pub"
    using key_from_hex_digits [OF hx] key_hex_roundtrip_lemma [OF assms(1)] len by simp
  ultimately show ?thesis by simp
qed

text \<open>C20: The certificate goes the whole way. The line with which a bridge announces itself to its Tor
  carries its public key, and when a client's Tor passes that argument on in the SOCKS username and
  password, followed by nothing or by a byte that is no hexadecimal digit, the client dials exactly
  the requested address under exactly that key; a key of its own command line is not used.\<close>
theorem announced_cert_is_used:
  assumes "length (kp_public identity) = 32"
    and "run_managed_server creation lab_dir parse shown default_bind listen env identity = Listening lines addr upstream lab"
    and "request_ok rq" "rq_auth rq = Some (u, p)"
    and "u @ p = map of_nat (str_of ''cert='' @ cert_of identity) @ rest" "rest = [] \<or> \<not> is_ascii_hexdigit (unat (hd rest))"
    and "sk_in s = encode_request rq @ later" "3 \<le> sk_writes s"
  shows "str_of ''SMETHOD mixtor '' @ shown addr @ str_of '' ARGS:'' @ str_of ''cert='' @ cert_of identity \<in> set lines \<and>
    (\<exists>s'. sk_in s' = later \<and>
      handle_managed_socks_connection attempt fallback s mc =
        (let server = \<lparr>sa_ip = rq_ip rq, sa_port = be_u16 (rq_port rq)\<rparr>
         in map_option (\<lambda>(res, mc'). (map_sum CircuitFails id res, s', mc'))
              (connect_circuit server (attempt server (kp_public identity)) mc)))"
proof
  show "str_of ''SMETHOD mixtor '' @ shown addr @ str_of '' ARGS:'' @ str_of ''cert='' @ cert_of identity \<in> set lines"
    using assms(2) by (auto simp: run_managed_server_def str_of_def split: if_splits option.splits sum.splits)
  let ?server = "\<lparr>sa_ip = rq_ip rq, sa_port = be_u16 (rq_port rq)\<rparr>"
  let ?s' = "\<lparr>sk_in = later, sk_out = sk_out s @ concat (request_replies rq), sk_writes = sk_writes s - length (request_replies rq)\<rparr>"
  have "request_args rq = \<lparr>ca_cert = Some (kp_public identity)\<rparr>"
    using cert_in_announced [OF assms(1,6)] assms(4,5) by (simp add: request_args_def cert_of_def)
  moreover have "length (request_replies rq) = 3" using assms(4) by (simp add: request_replies_def)
  ultimately have acc: "accept_socks5_connect s = Some (Inr (?server, \<lparr>ca_cert = Some (kp_public identity)\<rparr>), ?s')"
    using succeeds_accept [unfolded succeeds_def, rule_format, of s "(?server, request_args rq)" ?s'] assms(3,7,8)
    by (fastforce simp: exchange_def)
  have "handle_managed_socks_connection attempt fallback s mc =
      map_option (\<lambda>(res, mc'). (map_sum CircuitFails id res, ?s', mc')) (connect_circuit ?server (attempt ?server (kp_public identity)) mc)"
    by (cases "connect_circuit ?server (attempt ?server (kp_public identity)) mc")
      (simp_all add: handle_managed_socks_connection_def acc case_prod_beta)
  then show "\<exists>s'. sk_in s' = later \<and> handle_managed_socks_connection attempt fallback s mc =
        (let server = ?server
         in map_option (\<lambda>(res, mc'). (map_sum CircuitFails id res, s', mc'))
              (connect_circuit server (attempt server (kp_public identity)) mc))"
    unfolding Let_def by (intro exI [of _ ?s']) simp
qed


theorem identity_stable_witness:
  "\<exists>kp fs1. load_identity toy_crypto least_rng None None (Some (3 :: nat)) WriteOk (\<lambda>f. f) (\<lambda>f. f) () (\<lambda>_. None) = Some (Inr kp, fs1) \<and>
     load_identity toy_crypto lcg None None (Some 3) OpenFails (\<lambda>f. f) (\<lambda>f. f) 17 fs1 = Some (Inr kp, fs1)"
proof -
  obtain kp fs1 where l: "load_identity toy_crypto least_rng None None (Some (3 :: nat)) WriteOk (\<lambda>f. f) (\<lambda>f. f) () (\<lambda>_. None) = Some (Inr kp, fs1)"
    using load_fresh [of "\<lambda>_. None" "3 :: nat" toy_crypto least_rng "\<lambda>f. f" "()"] by simp
  have "load_identity toy_crypto lcg None None (Some 3) OpenFails (\<lambda>f. f) (\<lambda>f. f) 17 fs1 = Some (Inr kp, fs1)"
    by (rule identity_stable [where fs = "\<lambda>_. None" and path = "3 :: nat" and 'q = nat,
        OF least_rng_ok refl l, THEN conjunct2, THEN conjunct1, rule_format]) simp
  with l show ?thesis by blast
qed

theorem identity_bricked_witness:
  "\<exists>kp fs1. load_identity toy_crypto least_rng None None (Some (3 :: nat)) (WriteFails 10) (\<lambda>f. f) (\<lambda>f. f) () (\<lambda>_. None) = Some (Inr kp, fs1) \<and>
     load_identity toy_crypto lcg None None (Some 3) WriteOk (\<lambda>f. f) (\<lambda>f. f) 17 fs1 = Some (Inl CorruptIdentity, fs1)"
proof -
  have "(10 :: nat) < 64" by simp
  from identity_bricked [where 'q = nat and fs = "\<lambda>_. None" and path = "3 :: nat", OF least_rng_ok refl this, of toy_crypto "\<lambda>f. f" "()"]
  obtain kp fs1 where "load_identity toy_crypto least_rng None None (Some (3 :: nat)) (WriteFails 10) (\<lambda>f. f) (\<lambda>f. f) () (\<lambda>_. None) = Some (Inr kp, fs1)"
    "\<forall>(R' :: nat rng_ops) outcome o1 o2 r'. load_identity toy_crypto R' None None (Some 3) outcome o1 o2 r' fs1 = Some (Inl CorruptIdentity, fs1)"
    by (elim exE conjE) (rule that; assumption)
  then show ?thesis by blast
qed

text \<open>A bridge whose key is 32 times 171, and the request that Tor makes of its line, ended by a NUL.\<close>

definition sample_identity :: static_keypair where
  "sample_identity = \<lparr>kp_secret = replicate 32 1, kp_public = replicate 32 171\<rparr>"

definition sample_request :: socks_request where
  "sample_request = \<lparr>rq_methods = [2], rq_auth = Some (map of_nat (str_of ''cert='' @ cert_of sample_identity), [0]),
     rq_reserved = 0, rq_ip = IpV4 [127, 0, 0, 1], rq_port = [35, 41]\<rparr>"

theorem announced_cert_is_used_witness:
  "\<exists>lines. run_managed_server (\<lambda>_. None :: unit option) (None :: unit option) (\<lambda>s. Some s) (\<lambda>s. s) [] (\<lambda>s. Some s) (\<lambda>v. if v = ''TOR_PT_ORPORT'' then Some [49] else None) sample_identity
      = Listening lines [] [49] None \<and>
    (\<exists>s'. handle_managed_socks_connection (\<lambda>server pub. Inl ConnTimeout :: (unit, unit) conn_error + mux_wire) None
        \<lparr>sk_in = encode_request sample_request @ [1], sk_out = [], sk_writes = 3\<rparr> (mux_client_new 1200 TailByClass) =
      (let server = \<lparr>sa_ip = IpV4 [127, 0, 0, 1], sa_port = be_u16 [35, 41]\<rparr>
       in map_option (\<lambda>(res, mc'). (map_sum CircuitFails id res, s', mc'))
            (connect_circuit server (Inl ConnTimeout) (mux_client_new 1200 TailByClass))))"
proof -
  let ?env = "\<lambda>v. if v = ''TOR_PT_ORPORT'' then Some [49 :: nat] else None"
  obtain lines where l: "run_managed_server (\<lambda>_. None :: unit option) (None :: unit option) (\<lambda>s. Some s) (\<lambda>s. s) [] (\<lambda>s. Some s) ?env sample_identity = Listening lines [] [49] None"
    by (auto simp: run_managed_server_def create_lab_logger_def wants_mixtor_def managed_bind_addr_def)
  have k: "length (kp_public sample_identity) = 32" by (simp add: sample_identity_def)
  have len: "length (cert_of sample_identity) = 64" by (simp add: cert_of_def key_to_hex_length k)
  have ok: "request_ok sample_request" by (simp add: request_ok_def sample_request_def len str_of_def)
  have auth: "rq_auth sample_request = Some (map of_nat (str_of ''cert='' @ cert_of sample_identity), [0])"
    by (simp add: sample_request_def)
  have rest: "[0 :: byte] = [] \<or> \<not> is_ascii_hexdigit (unat (hd [0 :: byte]))" by (simp add: is_ascii_hexdigit_def)
  let ?s = "\<lparr>sk_in = encode_request sample_request @ [1], sk_out = [], sk_writes = 3\<rparr>"
  have s: "sk_in ?s = encode_request sample_request @ [1]" "3 \<le> sk_writes ?s" by simp_all
  note main = announced_cert_is_used [OF k l ok auth refl rest s]
  then obtain s' where "handle_managed_socks_connection (\<lambda>server pub. Inl ConnTimeout :: (unit, unit) conn_error + mux_wire) None
        ?s (mux_client_new 1200 TailByClass) =
      (let server = \<lparr>sa_ip = rq_ip sample_request, sa_port = be_u16 (rq_port sample_request)\<rparr>
       in map_option (\<lambda>(res, mc'). (map_sum CircuitFails id res, s', mc'))
            (connect_circuit server (Inl ConnTimeout) (mux_client_new 1200 TailByClass)))"
    by blast
  then show ?thesis using l unfolding sample_request_def socks_request.simps by blast
qed

end
