(* ===== verification/Analyze.thy ===== *)
theory Analyze
  imports Attack
begin

text \<open>
  \<open>src/src/bin/mixtor-correlate.rs\<close>: the analyser's command line, its directions, the warm-up it
  skips and the exit status a build script reads. The parser of floating-point arguments, the file
  system and the recording session of \<open>gen-sample\<close> (\<open>SampleGen\<close>) are arguments; the reports are the
  value returned, which \<open>Report\<close> prints. The lemmas compose the lab log with the attacks: the exit
  status of an audit is a verdict on the rows that were logged.
\<close>

section \<open>The command line\<close>

datatype ('n, 'e, 'g) correlate_error =
    NeedsValue rstr
  | BadNumber 'n
  | NeedsPath
  | BadSide rstr
  | BadDirection rstr
  | LogUnreadable 'e
  | NeedsOutputDir
  | GenFails 'g
  | UnknownSubcommand

record analyze_options =
  an_path :: "rstr option"
  an_bin_ms :: real
  an_side :: rstr
  an_direction :: rstr
  an_skip_ms :: real

definition analyze_defaults :: analyze_options where
  "analyze_defaults = \<lparr>an_path = None, an_bin_ms = 100, an_side = str_of ''server'',
     an_direction = str_of ''both'', an_skip_ms = 0\<rparr>"

text \<open>The \<open>while let\<close> loop over the arguments.\<close>

fun analyze_args ::
  "(rstr \<Rightarrow> 'n + real) \<Rightarrow> rstr list \<Rightarrow> analyze_options \<Rightarrow> ('n, 'e, 'g) correlate_error + analyze_options" where
  "analyze_args parse_f64 [] opts = Inr opts"
| "analyze_args parse_f64 (a # args) opts =
     (if a = str_of ''--bin-ms'' then
        (case args of
           [] \<Rightarrow> Inl (NeedsValue a)
         | v # rest \<Rightarrow>
             (case parse_f64 v of
                Inl e \<Rightarrow> Inl (BadNumber e)
              | Inr x \<Rightarrow> analyze_args parse_f64 rest (opts\<lparr>an_bin_ms := x\<rparr>)))
      else if a = str_of ''--side'' then
        (case args of
           [] \<Rightarrow> Inl (NeedsValue a)
         | v # rest \<Rightarrow> analyze_args parse_f64 rest (opts\<lparr>an_side := v\<rparr>))
      else if a = str_of ''--direction'' then
        (case args of
           [] \<Rightarrow> Inl (NeedsValue a)
         | v # rest \<Rightarrow> analyze_args parse_f64 rest (opts\<lparr>an_direction := v\<rparr>))
      else if a = str_of ''--skip-ms'' then
        (case args of
           [] \<Rightarrow> Inl (NeedsValue a)
         | v # rest \<Rightarrow>
             (case parse_f64 v of
                Inl e \<Rightarrow> Inl (BadNumber e)
              | Inr x \<Rightarrow> analyze_args parse_f64 rest (opts\<lparr>an_skip_ms := x\<rparr>)))
      else analyze_args parse_f64 args (opts\<lparr>an_path := Some a\<rparr>))"

text \<open>8594 is the arrow of the labels.\<close>

definition UPLINK_LABEL :: rstr where
  "UPLINK_LABEL = str_of ''uplink (client'' @ [8594] @ str_of ''server)''"

definition DOWNLINK_LABEL :: rstr where
  "DOWNLINK_LABEL = str_of ''downlink (server'' @ [8594] @ str_of ''client)''"

definition resolve_directions ::
  "rstr \<Rightarrow> rstr \<Rightarrow> ('n, 'e, 'g) correlate_error + (rstr \<times> event_names) list" where
  "resolve_directions side direction =
     (if side \<noteq> str_of ''server'' \<and> side \<noteq> str_of ''client'' then Inl (BadSide side)
      else
        let up = (UPLINK_LABEL, if side = str_of ''server'' then events_server else events_client);
            down = (DOWNLINK_LABEL, if side = str_of ''server'' then events_server_return else events_client_return)
        in if direction = str_of ''up'' then Inr [up]
           else if direction = str_of ''down'' then Inr [down]
           else if direction = str_of ''both'' then Inr [up, down]
           else Inl (BadDirection direction))"

section \<open>The audit\<close>

text \<open>\<open>--skip-ms\<close>: the records from the first timestamp plus the skipped time on; the sum of two
  \<open>u128\<close> overflows for a skip that saturates.\<close>

definition skip_records :: "real \<Rightarrow> log_record list \<Rightarrow> log_record list option" where
  "skip_records skip_ms records =
     (if skip_ms > 0 \<and> records \<noteq> [] then
        let t0 = Min (set (map lr_unix_nanos records));
            cutoff = t0 + as_u128 (skip_ms * 1000000)
        in if cutoff > u128_max then None else Some (filter (\<lambda>r. lr_unix_nanos r \<ge> cutoff) records)
      else Some records)"

text \<open>The loop over the directions, with the reports it prints.\<close>

fun attack_directions ::
  "log_record list \<Rightarrow> attack_config \<Rightarrow> (rstr \<times> event_names) list \<Rightarrow> bool \<Rightarrow>
     ((rstr \<times> adversary_report) list \<times> bool) option" where
  "attack_directions records cfg [] any_won = Some ([], any_won)"
| "attack_directions records cfg ((label, events) # dirs) any_won =
     (case run_adversary records events cfg of
        None \<Rightarrow> None
      | Some report \<Rightarrow>
          (case attack_directions records cfg dirs (any_won \<or> adversary_won report) of
             None \<Rightarrow> None
           | Some (reports, won) \<Rightarrow> Some ((label, report) # reports, won)))"

text \<open>How \<open>main\<close> ends: it returns, or it leaves through \<open>process::exit\<close>. An error returned from
  \<open>main\<close> gives the status 1, too.\<close>

datatype ('n, 'e, 'g) main_end = Returns "('n, 'e, 'g) correlate_error + unit" | Exits nat

definition exit_status :: "('n, 'e, 'g) main_end \<Rightarrow> nat" where
  "exit_status r = (case r of Returns (Inl _) \<Rightarrow> 1 | Returns (Inr _) \<Rightarrow> 0 | Exits code \<Rightarrow> code)"

definition analyze ::
  "(rstr \<Rightarrow> 'n + real) \<Rightarrow> (rstr \<Rightarrow> 'e + rstr option list) \<Rightarrow> rstr list \<Rightarrow>
     ((rstr \<times> adversary_report) list \<times> ('n, 'e, 'g) main_end) option" where
  "analyze parse_f64 open_file args =
     (case analyze_args parse_f64 args analyze_defaults of
        Inl e \<Rightarrow> Some ([], Returns (Inl e))
      | Inr opts \<Rightarrow>
     (case an_path opts of
        None \<Rightarrow> Some ([], Returns (Inl NeedsPath))
      | Some path \<Rightarrow>
     (case resolve_directions (an_side opts) (an_direction opts) of
        Inl e \<Rightarrow> Some ([], Returns (Inl e))
      | Inr directions \<Rightarrow>
     (case parse_log (open_file path) of
        Inl e \<Rightarrow> Some ([], Returns (Inl (LogUnreadable e)))
      | Inr parsed \<Rightarrow> do {
          records \<leftarrow> skip_records (an_skip_ms opts) parsed;
          (reports, any_won) \<leftarrow> attack_directions records (attack_default\<lparr>bin_ms := an_bin_ms opts\<rparr>) directions False;
          Some (reports, if any_won then Exits 1 else Returns (Inr ()))
        }))))"

text \<open>\<open>args.next().and_then(|s| s.parse().ok()).unwrap_or(default)\<close>: a count that does not parse is
  replaced by the default.\<close>

definition count_arg :: "rstr list \<Rightarrow> nat \<Rightarrow> nat" where
  "count_arg next_arg d =
     (case next_arg of
        [] \<Rightarrow> d
      | s # _ \<Rightarrow> (case parse_uint 10 u64_max s of None \<Rightarrow> d | Some n \<Rightarrow> n))"

definition generate :: "(rstr \<Rightarrow> nat \<Rightarrow> nat \<Rightarrow> 'g + unit) \<Rightarrow> rstr \<Rightarrow> nat \<Rightarrow> nat \<Rightarrow> 'g + unit" where
  "generate run dir flows bursts = run dir (max flows 1) (max bursts 1)"

definition correlate_main ::
  "(rstr \<Rightarrow> 'n + real) \<Rightarrow> (rstr \<Rightarrow> 'e + rstr option list) \<Rightarrow> (rstr \<Rightarrow> nat \<Rightarrow> nat \<Rightarrow> 'g + unit) \<Rightarrow> rstr list \<Rightarrow>
     ((rstr \<times> adversary_report) list \<times> ('n, 'e, 'g) main_end) option" where
  "correlate_main parse_f64 open_file run argv =
     (let cmd = (case argv of [] \<Rightarrow> [] | c # _ \<Rightarrow> c); args = drop 1 argv
      in if cmd = str_of ''analyze'' then analyze parse_f64 open_file args
         else if cmd = str_of ''gen-sample'' then
           (case args of
              [] \<Rightarrow> Some ([], Returns (Inl NeedsOutputDir))
            | dir # rest \<Rightarrow>
                let flows = count_arg (take 1 rest) 4;
                    bursts = count_arg (take 1 (drop 1 rest)) 64
                in Some ([], Returns (map_sum GenFails id (generate run dir flows bursts))))
         else Some ([], Returns (Inl UnknownSubcommand)))"

section \<open>Lemmas\<close>

lemma resolve_nonempty: "resolve_directions side direction = Inr dirs \<Longrightarrow> dirs \<noteq> []"
  by (auto simp: resolve_directions_def Let_def split: if_splits)

lemma as_u128_le: "0 \<le> x \<Longrightarrow> real (as_u128 x) \<le> x"
  by (simp add: as_u128_def min_def) linarith

lemma skip_records_ok:
  assumes "times_ok records" "skip_ms \<le> 10 ^ 24"
  shows "skip_records skip_ms records = Some (filter (\<lambda>r. 0 < skip_ms \<longrightarrow>
    Min (lr_unix_nanos ` set records) + as_u128 (skip_ms * 1000000) \<le> lr_unix_nanos r) records)"
proof (cases "0 < skip_ms \<and> records \<noteq> []")
  case True
  have "Min (lr_unix_nanos ` set records) \<in> lr_unix_nanos ` set records" using True by (intro Min_in) auto
  then have "Min (lr_unix_nanos ` set records) < u64_max" using assms(1) by (auto simp: times_ok_def)
  moreover have "real (as_u128 (skip_ms * 1000000)) \<le> 10 ^ 30"
    using as_u128_le [of "skip_ms * 1000000"] True assms(2) by simp
  then have "as_u128 (skip_ms * 1000000) \<le> 10 ^ 30" by (metis of_nat_le_iff of_nat_numeral of_nat_power)
  ultimately have "\<not> u128_max < Min (lr_unix_nanos ` set records) + as_u128 (skip_ms * 1000000)"
    by (simp add: u64_max_def u128_max_def)
  then show ?thesis using True by (simp add: skip_records_def Let_def)
qed (auto simp: skip_records_def)

lemma list_all2_partner:
  "list_all2 P xs ys \<Longrightarrow> x \<in> set xs \<Longrightarrow> \<exists>y\<in>set ys. P x y"
  "list_all2 P xs ys \<Longrightarrow> y \<in> set ys \<Longrightarrow> \<exists>x\<in>set xs. P x y"
  by (induction rule: list_all2_induct) auto

lemma times_ok_filter: "times_ok records \<Longrightarrow> times_ok (filter P records)"
  by (auto simp: times_ok_def)

lemma attack_directions_spec:
  assumes "times_ok records"
  shows "\<exists>reports. attack_directions records cfg dirs won =
      Some (reports, won \<or> (\<exists>(l, rep)\<in>set reports. adversary_won rep)) \<and>
    list_all2 (\<lambda>(l, rep) (l', ev). l = l' \<and> run_adversary records ev cfg = Some rep) reports dirs"
proof (induction dirs arbitrary: won)
  case (Cons d dirs)
  obtain label ev where d: "d = (label, ev)" by fastforce
  obtain rep where rep: "run_adversary records ev cfg = Some rep" using run_adversary_total [OF assms] by blast
  from Cons.IH [of "won \<or> adversary_won rep"] obtain reports where r:
    "attack_directions records cfg dirs (won \<or> adversary_won rep) =
       Some (reports, (won \<or> adversary_won rep) \<or> (\<exists>(l, rep)\<in>set reports. adversary_won rep))"
    "list_all2 (\<lambda>(l, rep) (l', ev). l = l' \<and> run_adversary records ev cfg = Some rep) reports dirs" by blast
  show ?case using r rep by (intro exI [of _ "(label, rep) # reports"]) (auto simp: d)
qed simp

text \<open>A log without an event of the requested direction is no win for the adversary.\<close>

lemma foreign_log_passes:
  assumes "times_ok records" "\<forall>r\<in>set records. \<not> relevant_event ev r"
    and "0 \<le> size_ks_threshold cfg" "0 \<le> volume_corr_threshold cfg"
  shows "\<exists>rep. run_adversary records ev cfg = Some rep \<and> \<not> adversary_won rep"
proof (rule cover_defeats [OF assms(1) _ assms(3,4)])
  have "distinct_conn_ids records ev = []" using assms(2) by (simp add: distinct_conn_ids_def)
  then show "perfect_cover records ev cfg" using assms(2) by (auto simp: perfect_cover_def relevant_event_def)
qed

lemma analyze_spec:
  assumes "analyze_args parse_f64 args analyze_defaults = (Inr opts :: ('n, 'e, 'g) correlate_error + analyze_options)"
    and "an_path opts = Some path"
    and "resolve_directions (an_side opts) (an_direction opts) = (Inr dirs :: ('n, 'e, 'g) correlate_error + _)"
    and "open_file path = Inr text_lines" "times_ok (parse_reader text_lines)" "an_skip_ms opts \<le> 10 ^ 24"
    and "cfg = attack_default\<lparr>bin_ms := an_bin_ms opts\<rparr>" "skip_records (an_skip_ms opts) (parse_reader text_lines) = Some kept"
  shows "\<exists>reports. analyze parse_f64 open_file args = Some (reports,
      if \<exists>(l, rep)\<in>set reports. adversary_won rep then Exits 1 else (Returns (Inr ()) :: ('n, 'e, 'g) main_end)) \<and>
    list_all2 (\<lambda>(l, rep) (l', ev). l = l' \<and> run_adversary kept ev cfg = Some rep) reports dirs"
proof -
  have "times_ok kept"
    using assms(8) skip_records_ok [OF assms(5,6)] times_ok_filter [OF assms(5)] by (metis option.inject)
  from attack_directions_spec [OF this, of cfg dirs False] obtain reports where r:
    "attack_directions kept cfg dirs False = Some (reports, \<exists>(l, rep)\<in>set reports. adversary_won rep)"
    "list_all2 (\<lambda>(l, rep) (l', ev). l = l' \<and> run_adversary kept ev cfg = Some rep) reports dirs" by auto
  have "parse_log (open_file path) = Inr (parse_reader text_lines)" by (simp add: parse_log_def assms(4))
  then show ?thesis using r assms(1,2,3,8) by (intro exI [of _ reports]) (simp add: analyze_def assms(7))
qed

section \<open>Properties\<close>

definition flow_exposed :: "log_record list \<Rightarrow> event_names \<Rightarrow> attack_config \<Rightarrow> bool" where
  "flow_exposed records ev cfg \<longleftrightarrow>
     (\<exists>i\<in>set (distinct_conn_ids records ev). \<exists>w. \<exists>x\<in>set w. \<exists>y\<in>set w.
        aligned_series records ev (bin_ms cfg) (Some i) = Some (Some (w, w)) \<and> max (min_bins cfg) 3 \<le> length w \<and> x \<noteq> y)"

lemma flow_exposed_wins:
  "times_ok records \<Longrightarrow> volume_corr_threshold cfg < 1 \<Longrightarrow> flow_exposed records ev cfg \<Longrightarrow>
     run_adversary records ev cfg = Some rep \<Longrightarrow> adversary_won rep"
  using clear_flow_exposed [of records cfg _ ev] unfolding flow_exposed_def by fastforce

text \<open>C28: The audit is sound end to end. Take any run of the lab logger whose writes succeed and let
  \<open>mixtor-correlate analyze\<close> read the file it leaves, with any options that parse. The audit does not
  panic; its exit status is 1 exactly when the adversary wins on the logged rows, in their order and
  without those of the skipped warm-up, in one of the requested directions. The status is 0 when
  every direction shows a perfect cover or has no event in the log at all, and 1 when in some
  direction a flow sends its real bytes in the clear.\<close>

theorem audit_end_to_end:
  fixes role :: rstr and opts :: analyze_options
  assumes "lab_create (None :: 'io option) role = Inr l" "label_ok role" "lossless write_ok"
    and "\<forall>r\<in>set (logged es). row_ok r \<and> row_unix_nanos r < u64_max"
    and "analyze_args parse_f64 args analyze_defaults = (Inr opts :: ('n, 'e, 'g) correlate_error + analyze_options)"
    and "an_path opts = Some path" "an_skip_ms opts \<le> 10 ^ 24"
    and "resolve_directions (an_side opts) (an_direction opts) = (Inr dirs :: ('n, 'e, 'g) correlate_error + _)"
    and "open_file path = Inr (map Some (str_lines (log_text (lab_drop write_ok (fold (lab_event_step write_ok) es l)))))"
    and "cfg = attack_default\<lparr>bin_ms := an_bin_ms opts\<rparr>" "records = map (record_of role) (logged es)"
    and "kept = filter (\<lambda>r. 0 < an_skip_ms opts \<longrightarrow>
      Min (lr_unix_nanos ` set records) + as_u128 (an_skip_ms opts * 1000000) \<le> lr_unix_nanos r) records"
  shows "\<exists>reports r. correlate_main parse_f64 open_file run (str_of ''analyze'' # args) =
      Some (reports, r :: ('n, 'e, 'g) main_end) \<and>
    list_all2 (\<lambda>(l, rep) (l', ev). l = l' \<and> run_adversary kept ev cfg = Some rep) reports dirs \<and>
    exit_status r = (if \<exists>(l, rep)\<in>set reports. adversary_won rep then 1 else 0) \<and>
    ((\<forall>(l, ev)\<in>set dirs. perfect_cover kept ev cfg \<or> (\<forall>q\<in>set kept. \<not> relevant_event ev q)) \<longrightarrow> exit_status r = 0) \<and>
    ((\<exists>(l, ev)\<in>set dirs. flow_exposed kept ev cfg) \<longrightarrow> exit_status r = 1)"
proof -
  define ls where "ls = map Some (str_lines (log_text (lab_drop write_ok (fold (lab_event_step write_ok) es l))))"
  have ok: "\<forall>r\<in>set (logged es). row_ok r" using assms(4) by blast
  have read: "parse_reader ls = records"
    using lab_log_reads [OF assms(1,2) ok, of write_ok] assms(3) by (auto simp: ls_def assms(11))
  have times: "times_ok records" using assms(4) by (auto simp: times_ok_def assms(11) record_of_def)
  have skip: "skip_records (an_skip_ms opts) records = Some kept"
    using skip_records_ok [OF times assms(7)] by (simp add: assms(12))
  have kept: "times_ok kept" unfolding assms(12) by (rule times_ok_filter [OF times])
  obtain reports where r: "analyze parse_f64 open_file args = Some (reports,
      if \<exists>(l, rep)\<in>set reports. adversary_won rep then Exits 1 else (Returns (Inr ()) :: ('n, 'e, 'g) main_end))"
    "list_all2 (\<lambda>(l, rep) (l', ev). l = l' \<and> run_adversary kept ev cfg = Some rep) reports dirs"
    using analyze_spec [where open_file = open_file and path = path and text_lines = ls,
      OF assms(5,6,8) assms(9) [folded ls_def] _ assms(7,10), of kept] read times skip by auto
  define won where "won \<longleftrightarrow> (\<exists>(l, rep)\<in>set reports. adversary_won rep)"
  have cfg: "0 \<le> size_ks_threshold cfg" "0 \<le> volume_corr_threshold cfg" "volume_corr_threshold cfg < 1"
    by (simp_all add: assms(10) attack_default_def)
  have safe: "\<not> won" if d: "\<forall>(l, ev)\<in>set dirs. perfect_cover kept ev cfg \<or> (\<forall>q\<in>set kept. \<not> relevant_event ev q)"
  proof
    assume won
    then obtain lab rep where "(lab, rep) \<in> set reports" "adversary_won rep" by (auto simp: won_def)
    moreover obtain ev where "(lab, ev) \<in> set dirs" "run_adversary kept ev cfg = Some rep"
      using list_all2_partner(1) [OF r(2) calculation(1)] by auto
    ultimately show False
      using d cover_defeats [OF kept _ cfg(1,2)] foreign_log_passes [OF kept _ cfg(1,2)] by fastforce
  qed
  have exposed: "won" if "(lab, ev) \<in> set dirs" "flow_exposed kept ev cfg" for lab ev
  proof -
    note dir = that
    obtain rep where "(lab, rep) \<in> set reports" "run_adversary kept ev cfg = Some rep"
      using list_all2_partner(2) [OF r(2) dir(1)] by auto
    then show ?thesis using flow_exposed_wins [OF kept cfg(3) dir(2)] by (auto simp: won_def)
  qed
  have main: "correlate_main parse_f64 open_file run (str_of ''analyze'' # args) =
      Some (reports, if won then Exits 1 else (Returns (Inr ()) :: ('n, 'e, 'g) main_end))"
    using r(1) by (simp add: correlate_main_def won_def)
  show ?thesis
    using main r(2) safe exposed
    by (intro exI [of _ reports] exI [of _ "if won then Exits 1 else Returns (Inr ())"])
      (auto simp: exit_status_def simp flip: won_def)
qed

text \<open>A recording of one flow that is sent as it is: its audit fails the build.\<close>

definition clear_session :: "lab_event list" where
  "clear_session = map (\<lambda>(t, ev, n). LabLog (Some (t * 1000000)) (str_of ev) 7 0 n (str_of ''real''))
     [(0, ''server_wire_input'', 500), (10, ''server_real_output'', 500), (100, ''server_wire_input'', 40),
      (110, ''server_real_output'', 40), (200, ''server_wire_input'', 90), (210, ''server_real_output'', 90)]"

definition fresh_lab :: lab_logger where
  "fresh_lab = \<lparr>lab_role = str_of ''server'', lab_tx = True, lab_next_conn_id = 1, lab_queue = [], lab_writer = True,
     lab_lines = [csv_header], lab_flushed = 0, lab_since_flush = 0\<rparr>"

lemma clear_session_records: "map (record_of (str_of ''server'')) (logged clear_session) = clear_log"
  by (simp add: clear_session_def clear_log_def record_of_def log_rec_def)

lemma clear_log_exposed: "flow_exposed clear_log events_server (attack_default\<lparr>bin_ms := 100\<rparr>)"
  unfolding flow_exposed_def
  by (intro bexI [of _ 7] exI [of _ "[500, 40, 90]"] bexI [of _ 500] bexI [of _ 40])
    (simp_all add: clear_log_ids clear_log_series attack_default_def)

theorem audit_end_to_end_witness:
  "\<exists>reports r. correlate_main (\<lambda>_. Inl ())
      (\<lambda>_. Inr (map Some (str_lines (log_text (lab_drop (\<lambda>_. True) (fold (lab_event_step (\<lambda>_. True)) clear_session fresh_lab))))))
      (\<lambda>_ _ _. Inr ()) [str_of ''analyze'', str_of ''server.csv'', str_of ''--direction'', str_of ''up''] =
      Some (reports, r :: (unit, unit, unit) main_end) \<and> exit_status r = 1"
proof -
  define opts where "opts = analyze_defaults\<lparr>an_path := Some (str_of ''server.csv''), an_direction := str_of ''up''\<rparr>"
  have ok: "label_ok (str_of ''server'')" "label_ok (str_of ''server_wire_input'')"
    "label_ok (str_of ''server_real_output'')" "label_ok (str_of ''real'')"
    by (simp_all add: label_ok_def str_of_def str_trim_def is_whitespace_def)
  have rows: "\<forall>r\<in>set (logged clear_session). row_ok r \<and> row_unix_nanos r < u64_max"
    using ok by (simp add: clear_session_def row_ok_def u64_max_def u128_max_def)
  have args: "analyze_args (\<lambda>_. Inl ()) [str_of ''server.csv'', str_of ''--direction'', str_of ''up''] analyze_defaults =
      (Inr opts :: (unit, unit, unit) correlate_error + analyze_options)"
    by (simp add: opts_def analyze_defaults_def str_of_def)
  have dirs: "resolve_directions (an_side opts) (an_direction opts) =
      (Inr [(UPLINK_LABEL, events_server)] :: (unit, unit, unit) correlate_error + _)"
    by (simp add: opts_def analyze_defaults_def resolve_directions_def str_of_def)
  have cfg: "attack_default\<lparr>bin_ms := an_bin_ms opts\<rparr> = attack_default\<lparr>bin_ms := 100\<rparr>" "\<not> 0 < an_skip_ms opts"
    "an_path opts = Some (str_of ''server.csv'')" "an_skip_ms opts \<le> 10 ^ 24"
    by (simp_all add: opts_def analyze_defaults_def)
  have lab: "lab_create (None :: unit option) (str_of ''server'') = Inr fresh_lab" by (simp add: lab_create_def fresh_lab_def)
  have "lossless (\<lambda>_. True)" by (simp add: lossless_def)
  from audit_end_to_end [where open_file = "\<lambda>_. Inr (map Some (str_lines (log_text (lab_drop (\<lambda>_. True)
      (fold (lab_event_step (\<lambda>_. True)) clear_session fresh_lab)))))" and run = "\<lambda>_ _ _. Inr ()" and path = "str_of ''server.csv''",
      OF lab ok(1) this rows args cfg(3,4) dirs refl refl refl refl]
  show ?thesis
    using clear_log_exposed cfg(2) unfolding clear_session_records cfg(1) by fastforce
qed

end
