(* ===== verification/Pipeline.thy ===== *)
theory Pipeline
  imports Timing Composition Stats
begin

text \<open>
  \<open>src/src/bin/verify.rs\<close>: the smoke test that drives the pool, the timing scheduler and the composer
  with synthetic packets and scores the bursts. Its printing is left out; the checks and the result
  are the value of \<open>verify_main\<close>. The lemmas compose the contracts of the three stages: a simulated
  session never panics, every packet ends up in exactly one burst, and the vectors that the checks
  correlate are what the stages promise.
\<close>

section \<open>Helpers\<close>

definition PACKETS_PER_SESSION :: nat where
  "PACKETS_PER_SESSION = 6000"

definition PATTERNED :: "nat list" where
  "PATTERNED = [72, 96, 128, 256, 384, 640, 900, 1180]"

definition synthetic_packet :: "nat \<Rightarrow> clumping_error + packet" where
  "synthetic_packet index =
     (let jitter = trunc64 (index * 37) mod 61;
          len = PATTERNED ! (index mod length PATTERNED) + jitter
      in packet_new (replicate len (of_nat (index mod 251))))"

text \<open>The loop of \<open>real_frames_are_prefix\<close> with its two variables.\<close>

fun prefix_loop :: "mixed_frame list \<Rightarrow> bool \<Rightarrow> nat \<Rightarrow> bool" where
  "prefix_loop [] saw_dummy real_count = (0 < real_count \<and> saw_dummy)"
| "prefix_loop (RealFrame p # fs) saw_dummy real_count =
     (if saw_dummy then False else prefix_loop fs saw_dummy (real_count + 1))"
| "prefix_loop (DummyFrame b # fs) saw_dummy real_count = prefix_loop fs True real_count"

definition real_frames_are_prefix :: "mixed_frame list \<Rightarrow> bool" where
  "real_frames_are_prefix fs = prefix_loop fs False 0"

definition verify_mean :: "real list \<Rightarrow> real" where
  "verify_mean xs = sum_list xs / real (max (length xs) 1)"

definition verify_pearson :: "real list \<Rightarrow> real list \<Rightarrow> real" where
  "verify_pearson xs ys =
     (let len = min (length xs) (length ys)
      in if len < 2 then 0
         else
           let xs = take len xs;
               ys = take len ys;
               x_mean = verify_mean xs;
               y_mean = verify_mean ys;
               numerator = sum_list (map (\<lambda>(a, b). (a - x_mean) * (b - y_mean)) (zip xs ys));
               x_square_sum = sum_list (map (\<lambda>(a, b). (a - x_mean) * (a - x_mean)) (zip xs ys));
               y_square_sum = sum_list (map (\<lambda>(a, b). (b - y_mean) * (b - y_mean)) (zip xs ys));
               denominator = sqrt x_square_sum * sqrt y_square_sum
           in if denominator = 0 then 0 else numerator / denominator)"

text \<open>\<open>slice::chunks\<close>.\<close>

function slice_chunks :: "nat \<Rightarrow> 'a list \<Rightarrow> 'a list list" where
  "slice_chunks n xs = (if n = 0 \<or> xs = [] then [] else take n xs # slice_chunks n (drop n xs))"
  by pat_completeness auto
termination by (relation "measure (\<lambda>(n, xs). length xs)") auto

declare slice_chunks.simps [simp del]

text \<open>With at least \<open>window\<close> values there is a full chunk, so the infinities the two extrema start
  from are replaced.\<close>

definition window_mean_range :: "real list \<Rightarrow> nat \<Rightarrow> real" where
  "window_mean_range values window =
     (if length values < window \<or> window = 0 then 0
      else
        let means = map verify_mean (filter (\<lambda>chunk. length chunk = window) (slice_chunks window values))
        in Max (set means) - Min (set means))"

record smoke_check =
  ck_name :: string
  ck_value :: real
  ck_limit :: real
  passes_when_below :: bool

definition check_passed :: "smoke_check \<Rightarrow> bool" where
  "check_passed c = (if passes_when_below c then ck_value c < ck_limit c else ck_value c > ck_limit c)"

section \<open>A simulated session\<close>

definition mb_total_packets :: "mixed_burst \<Rightarrow> nat" where
  "mb_total_packets b = length (mb_frames b)"

record session_sample =
  delays_ms :: "real list"
  dummy_ratios :: "real list"
  real_packet_counts :: "real list"
  mixed_packet_counts :: "real list"
  real_byte_counts :: "real list"
  mixed_byte_counts :: "real list"
  real_prefix_rate :: real
  sample_bursts :: nat

text \<open>The local variables of \<open>simulate_session\<close>: the three stages, the vectors and the counters.\<close>

record 'r simulation =
  sim_pool :: "'r clumping_pool"
  sim_timing :: "'r timing_scheduler"
  sim_composer :: "'r composer"
  sim_delays :: "real list"
  sim_ratios :: "real list"
  sim_real_packets :: "real list"
  sim_mixed_packets :: "real list"
  sim_real_bytes :: "real list"
  sim_mixed_bytes :: "real list"
  prefix_leaks :: nat
  sim_bursts :: nat

definition sim_clumping :: clumping_config where
  "sim_clumping = \<lparr>min_packets_per_burst = 2, max_packets_per_burst = 7,
     min_timeout = 12 * 1000000, max_timeout = 85 * 1000000\<rparr>"

definition sim_timing_config :: timing_config where
  "sim_timing_config = \<lparr>min_delay = 4 * 1000000, max_delay = 180 * 1000000,
     min_regime_bytes = 4 * 1024, max_regime_bytes = 48 * 1024,
     min_regime_packets = 16, max_regime_packets = 128, tmg_clumping = sim_clumping\<rparr>"

text \<open>What is done with each burst, of a push and of the final flush.\<close>

definition sample_burst ::
  "'r rng_ops \<Rightarrow> 'r dist_ops \<Rightarrow> (nat \<Rightarrow> nat \<Rightarrow> nanos) \<Rightarrow> burst \<Rightarrow> 'r simulation \<Rightarrow> 'r simulation option" where
  "sample_burst R D clk b s = do {
     (decision, timing1) \<leftarrow> next_decision R D (sim_timing s);
     timing2 \<leftarrow> observe_burst R (burst_total_bytes b) (packet_count b) timing1;
     (mixed, composer1) \<leftarrow> compose R (clk (sim_bursts s)) b (sim_composer s);
     let real_bytes = sum_list (map packet_len (concat (map frame_real (mb_frames mixed))));
     Some (s\<lparr>sim_timing := timing2, sim_composer := composer1,
             sim_delays := sim_delays s @ [real (td_delay decision div 1000000)],
             sim_ratios := sim_ratios s @ [real (mb_dummy_packets mixed) / real (mb_real_packets mixed)],
             sim_real_packets := sim_real_packets s @ [real (mb_real_packets mixed)],
             sim_mixed_packets := sim_mixed_packets s @ [real (mb_total_packets mixed)],
             sim_real_bytes := sim_real_bytes s @ [real real_bytes],
             sim_mixed_bytes := sim_mixed_bytes s @ [real (mb_total_bytes mixed)],
             prefix_leaks := (if real_frames_are_prefix (mb_frames mixed) then prefix_leaks s + 1 else prefix_leaks s),
             sim_bursts := sim_bursts s + 1\<rparr>)
   }"

fun sample_all ::
  "'r rng_ops \<Rightarrow> 'r dist_ops \<Rightarrow> (nat \<Rightarrow> nat \<Rightarrow> nanos) \<Rightarrow> burst list \<Rightarrow> 'r simulation \<Rightarrow> 'r simulation option" where
  "sample_all R D clk [] s = Some s"
| "sample_all R D clk (b # bs) s =
     (case sample_burst R D clk b s of None \<Rightarrow> None | Some s' \<Rightarrow> sample_all R D clk bs s')"

fun packet_loop ::
  "'r rng_ops \<Rightarrow> 'r dist_ops \<Rightarrow> (nat \<Rightarrow> nat \<Rightarrow> nanos) \<Rightarrow> nanos \<Rightarrow> nat list \<Rightarrow> 'r simulation \<Rightarrow>
     (clumping_error + 'r simulation) option" where
  "packet_loop R D clk now [] s = Some (Inr s)"
| "packet_loop R D clk now (index # rest) s =
     (case synthetic_packet index of
        Inl e \<Rightarrow> Some (Inl e)
      | Inr p \<Rightarrow> do {
          (pool, bursts) \<leftarrow> pool_push R p now (sim_pool s);
          s' \<leftarrow> sample_all R D clk bursts (s\<lparr>sim_pool := pool\<rparr>);
          packet_loop R D clk now rest s'
        })"

datatype 'g verify_error =
    VerifySeeds "'g seed_error"
  | VerifyClumping clumping_error
  | VerifyTiming timing_error
  | VerifyComposition composition_error
  | VerificationFailed

definition sample_of :: "'r simulation \<Rightarrow> session_sample" where
  "sample_of s = \<lparr>delays_ms = sim_delays s, dummy_ratios = sim_ratios s, real_packet_counts = sim_real_packets s,
     mixed_packet_counts = sim_mixed_packets s, real_byte_counts = sim_real_bytes s,
     mixed_byte_counts = sim_mixed_bytes s,
     real_prefix_rate = real (prefix_leaks s) / real (max (sim_bursts s) 1), sample_bursts = sim_bursts s\<rparr>"

text \<open>\<open>t0\<close> is the time the seeds are generated at, \<open>now\<close> the one reading of \<open>Instant::now\<close> for the
  pool, \<open>clk0\<close> the readings of the composer's constructor and \<open>clk k\<close> those of its \<open>k\<close>-th burst.\<close>

definition simulate_session ::
  "'r rng_ops \<Rightarrow> 'r dist_ops \<Rightarrow> (bytes \<Rightarrow> bytes \<Rightarrow> bytes) \<Rightarrow> ('os, 'g) os_random \<Rightarrow> 'os \<Rightarrow> nanos \<Rightarrow> nanos \<Rightarrow>
     (nat \<Rightarrow> nanos) \<Rightarrow> (nat \<Rightarrow> nat \<Rightarrow> nanos) \<Rightarrow> nat \<Rightarrow> (('g verify_error + session_sample) \<times> 'os) option" where
  "simulate_session R D H G os t0 now clk0 clk packet_total =
     (case session_generate G os t0 of
        (Inl e, os') \<Rightarrow> Some (Inl (VerifySeeds e), os')
      | (Inr seeds, os') \<Rightarrow> do {
          pool0 \<leftarrow> pool_with_config R H (timing_and_pool seeds) sim_clumping;
          (case pool0 of Inl e \<Rightarrow> Some (Inl (VerifyClumping e), os') | Inr pool \<Rightarrow> do {
          timing0 \<leftarrow> scheduler_with_config R H (timing_and_pool seeds) sim_timing_config;
          (case timing0 of Inl e \<Rightarrow> Some (Inl (VerifyTiming e), os') | Inr timing \<Rightarrow> do {
          composer0 \<leftarrow> composer_with_config R H clk0 (burst_composition seeds) composition_default;
          (case composer0 of Inl e \<Rightarrow> Some (Inl (VerifyComposition e), os') | Inr composer \<Rightarrow> do {
          looped \<leftarrow> packet_loop R D clk now [0..<packet_total]
            \<lparr>sim_pool = pool, sim_timing = timing, sim_composer = composer, sim_delays = [], sim_ratios = [],
             sim_real_packets = [], sim_mixed_packets = [], sim_real_bytes = [], sim_mixed_bytes = [],
             prefix_leaks = 0, sim_bursts = 0\<rparr>;
          (case looped of Inl e \<Rightarrow> Some (Inl (VerifyClumping e), os') | Inr s \<Rightarrow> do {
          (pool1, rest) \<leftarrow> pool_flush R now (sim_pool s);
          s' \<leftarrow> (case rest of None \<Rightarrow> Some (s\<lparr>sim_pool := pool1\<rparr>)
                 | Some b \<Rightarrow> sample_burst R D clk b (s\<lparr>sim_pool := pool1\<rparr>));
          Some (Inr (sample_of s'), os')
          })})})})})"

section \<open>The checks\<close>

definition smoke_checks :: "session_sample \<Rightarrow> session_sample \<Rightarrow> smoke_check list" where
  "smoke_checks s1 s2 =
     [\<lparr>ck_name = ''non-stationarity across sessions: delay correlation'',
       ck_value = \<bar>verify_pearson (delays_ms s1) (delays_ms s2)\<bar>, ck_limit = 35 / 100, passes_when_below = True\<rparr>,
      \<lparr>ck_name = ''non-stationarity across sessions: dummy-ratio correlation'',
       ck_value = \<bar>verify_pearson (dummy_ratios s1) (dummy_ratios s2)\<bar>, ck_limit = 35 / 100, passes_when_below = True\<rparr>,
      \<lparr>ck_name = ''burst packet-count decoupling'',
       ck_value = \<bar>verify_pearson (real_packet_counts s1) (mixed_packet_counts s1)\<bar>, ck_limit = 92 / 100,
       passes_when_below = True\<rparr>,
      \<lparr>ck_name = ''burst byte-volume decoupling'',
       ck_value = \<bar>verify_pearson (real_byte_counts s1) (mixed_byte_counts s1)\<bar>, ck_limit = 96 / 100,
       passes_when_below = True\<rparr>,
      \<lparr>ck_name = ''dummy-ratio window drift'', ck_value = window_mean_range (dummy_ratios s1) 64,
       ck_limit = 35 / 100, passes_when_below = False\<rparr>,
      \<lparr>ck_name = ''packet-order prefix leakage rate'', ck_value = real_prefix_rate s1, ck_limit = 35 / 100,
       passes_when_below = True\<rparr>]"

text \<open>The readings are those of the two sessions.\<close>

record session_clocks =
  sc_generated :: nanos
  sc_pool_now :: nanos
  sc_start :: "nat \<Rightarrow> nanos"
  sc_burst :: "nat \<Rightarrow> nat \<Rightarrow> nanos"

definition verify_main ::
  "'r rng_ops \<Rightarrow> 'r dist_ops \<Rightarrow> (bytes \<Rightarrow> bytes \<Rightarrow> bytes) \<Rightarrow> ('os, 'g) os_random \<Rightarrow> 'os \<Rightarrow> session_clocks \<Rightarrow>
     session_clocks \<Rightarrow> (smoke_check list \<times> ('g verify_error + unit)) option" where
  "verify_main R D H G os c1 c2 = do {
     (res1, os1) \<leftarrow> simulate_session R D H G os (sc_generated c1) (sc_pool_now c1) (sc_start c1) (sc_burst c1)
       PACKETS_PER_SESSION;
     (case res1 of Inl e \<Rightarrow> Some ([], Inl e) | Inr s1 \<Rightarrow> do {
     (res2, os2) \<leftarrow> simulate_session R D H G os1 (sc_generated c2) (sc_pool_now c2) (sc_start c2) (sc_burst c2)
       PACKETS_PER_SESSION;
     (case res2 of Inl e \<Rightarrow> Some ([], Inl e) | Inr s2 \<Rightarrow>
       let checks = smoke_checks s1 s2;
           failed = list_ex (\<lambda>c. \<not> check_passed c) checks
       in Some (checks, if failed then Inl VerificationFailed else Inr ()))
     })
   }"

section \<open>What the helpers compute\<close>

lemma synthetic_packet_ok: "\<exists>p. synthetic_packet i = Inr p"
proof -
  have "i mod length PATTERNED < length PATTERNED" by (simp add: PATTERNED_def)
  then have "PATTERNED ! (i mod length PATTERNED) \<in> set PATTERNED" by (rule nth_mem)
  then have "0 < PATTERNED ! (i mod length PATTERNED)" by (auto simp: PATTERNED_def)
  then show ?thesis by (simp add: synthetic_packet_def packet_new_def Let_def)
qed

lemma prefix_loop_dummies: "prefix_loop fs True n \<longleftrightarrow> 0 < n \<and> list_all is_dummy fs"
proof (induction fs arbitrary: n)
  case (Cons f fs)
  then show ?case by (cases f) auto
qed simp

lemma prefix_loop_spec:
  "prefix_loop fs False n \<longleftrightarrow>
     (\<exists>ps ds. fs = map RealFrame ps @ ds \<and> list_all is_dummy ds \<and> ds \<noteq> [] \<and> 0 < n + length ps)"
proof (induction fs arbitrary: n)
  case (Cons f fs)
  show ?case
  proof (cases f)
    case (RealFrame p)
    have "(\<exists>ps ds. f # fs = map RealFrame ps @ ds \<and> list_all is_dummy ds \<and> ds \<noteq> [] \<and> 0 < n + length ps) \<longleftrightarrow>
        (\<exists>ps ds. fs = map RealFrame ps @ ds \<and> list_all is_dummy ds \<and> ds \<noteq> [] \<and> 0 < n + 1 + length ps)" (is "?l \<longleftrightarrow> ?r")
    proof
      assume ?l
      then obtain ps ds where d: "f # fs = map RealFrame ps @ ds" "list_all is_dummy ds" "ds \<noteq> []" by blast
      then show ?r using RealFrame by (cases ps) auto
    next
      assume ?r
      then obtain ps ds where "fs = map RealFrame ps @ ds" "list_all is_dummy ds" "ds \<noteq> []" by blast
      then show ?l using RealFrame by (intro exI [of _ "p # ps"] exI [of _ ds]) simp
    qed
    then show ?thesis using Cons.IH [of "n + 1"] RealFrame by simp
  next
    case (DummyFrame b)
    have "(\<exists>ps ds. f # fs = map RealFrame ps @ ds \<and> list_all is_dummy ds \<and> ds \<noteq> [] \<and> 0 < n + length ps) \<longleftrightarrow>
        0 < n \<and> list_all is_dummy fs" (is "?l \<longleftrightarrow> ?r")
    proof
      assume ?l
      then obtain ps ds where d: "f # fs = map RealFrame ps @ ds" "list_all is_dummy ds" "0 < n + length ps" by blast
      then show ?r using DummyFrame by (cases ps) auto
    next
      assume ?r
      then show ?l using DummyFrame by (intro exI [of _ "[]"] exI [of _ "f # fs"]) simp
    qed
    then show ?thesis using DummyFrame by (simp add: prefix_loop_dummies)
  qed
qed simp

lemma verify_mean_eq: "verify_mean xs = mean xs"
  by (cases xs) (simp_all add: verify_mean_def mean_def)

lemma verify_pearson_eq: "verify_pearson xs ys = pearson xs ys"
  by (simp add: verify_pearson_def pearson_def verify_mean_eq Let_def)

lemma mean_scale: "mean (map ((*) c) xs) = c * mean xs"
  by (simp add: mean_def sum_list_const_mult)

text \<open>Correlation does not see a change of unit.\<close>

lemma sum_list_scaled:
  "\<forall>z\<in>set zs. f z = d * g z \<Longrightarrow> sum_list (map f zs) = d * sum_list (map g zs :: real list)"
  by (induction zs) (simp_all add: distrib_left)

lemma pearson_scale:
  assumes "0 < (c::real)"
  shows "pearson (map ((*) c) xs) (map ((*) c) ys) = pearson xs ys"
proof -
  define n where "n = min (length xs) (length ys)"
  define us vs where "us = take n xs" and "vs = take n ys"
  define X Y where "X = (\<Sum>(x, y)\<leftarrow>zip us vs. (x - mean us) * (x - mean us))"
    and "Y = (\<Sum>(x, y)\<leftarrow>zip us vs. (y - mean vs) * (y - mean vs))"
  let ?zs = "zip (map ((*) c) us) (map ((*) c) vs)"
  have num: "(\<Sum>(x, y)\<leftarrow>?zs. (x - c * mean us) * (y - c * mean vs)) =
      c * c * (\<Sum>(x, y)\<leftarrow>zip us vs. (x - mean us) * (y - mean vs))"
    unfolding zip_map_map map_map by (rule sum_list_scaled) (auto simp: algebra_simps)
  have dx: "(\<Sum>(x, y)\<leftarrow>?zs. (x - c * mean us) * (x - c * mean us)) = c * c * X"
    unfolding zip_map_map map_map X_def by (rule sum_list_scaled) (auto simp: algebra_simps)
  have dy: "(\<Sum>(x, y)\<leftarrow>?zs. (y - c * mean vs) * (y - c * mean vs)) = c * c * Y"
    unfolding zip_map_map map_map Y_def by (rule sum_list_scaled) (auto simp: algebra_simps)
  have "sqrt (c * c * X) * sqrt (c * c * Y) = c * c * (sqrt X * sqrt Y)"
    using assms by (simp add: real_sqrt_mult)
  then show ?thesis
    using assms num dx dy
    by (simp add: pearson_def Let_def take_map mean_scale flip: n_def us_def vs_def X_def Y_def)
qed

section \<open>What a session samples\<close>

text \<open>The vectors of a session, burst by burst: the delay in milliseconds, the real packets and the
  dummies. Every frame is a cell of 514 bytes.\<close>

definition burst_row_ok :: "nat \<times> nat \<times> nat \<Rightarrow> bool" where
  "burst_row_ok = (\<lambda>(d, r, k). 4 \<le> d \<and> d \<le> 180 \<and> 1 \<le> r \<and> r \<le> 7 \<and> k \<le> 32)"

definition row_real :: "nat \<times> nat \<times> nat \<Rightarrow> nat" where
  "row_real = (\<lambda>(d, r, k). r)"

definition sim_rows :: "(nat \<times> nat \<times> nat) list \<Rightarrow> 'r simulation \<Rightarrow> bool" where
  "sim_rows rows s \<longleftrightarrow> list_all burst_row_ok rows \<and>
     sim_delays s = map (\<lambda>(d, r, k). real d) rows \<and>
     sim_ratios s = map (\<lambda>(d, r, k). real k / real r) rows \<and>
     sim_real_packets s = map (\<lambda>(d, r, k). real r) rows \<and>
     sim_mixed_packets s = map (\<lambda>(d, r, k). real (r + k)) rows \<and>
     sim_real_bytes s = map (\<lambda>(d, r, k). real (514 * r)) rows \<and>
     sim_mixed_bytes s = map (\<lambda>(d, r, k). real (514 * (r + k))) rows \<and>
     prefix_leaks s \<le> length rows \<and> sim_bursts s = length rows"

definition sim_inv :: "'r simulation \<Rightarrow> bool" where
  "sim_inv s \<longleftrightarrow> pool_inv (sim_pool s) \<and> cp_config (sim_pool s) = sim_clumping \<and>
     scheduler_inv (sim_timing s) \<and> ts_config (sim_timing s) = sim_timing_config \<and>
     composer_inv (sim_composer s) \<and> co_config (sim_composer s) = composition_default"

lemma sim_clumping_ok: "clump_cfg_ok sim_clumping"
  by (simp add: clump_cfg_ok_def clumping_valid_def sim_clumping_def u64_max_def)

lemma sim_timing_ok: "timing_cfg_ok sim_timing_config"
  using sim_clumping_ok
  by (simp add: timing_cfg_ok_def timing_valid_def sim_timing_config_def clump_cfg_ok_def u64_max_def)

lemma frames_volume:
  assumes "frames_sized (Some n) fs"
  shows "sum_list (map frame_len fs) = n * length fs"
    and "sum_list (map packet_len (concat (map frame_real fs))) = n * length (concat (map frame_real fs))"
proof -
  have "\<forall>f\<in>set fs. frame_len f = n" using assms by (simp add: frames_sized_def)
  then show "sum_list (map frame_len fs) = n * length fs" by (induction fs) auto
  have "\<forall>f\<in>set fs. frame_len f = n" using assms by (simp add: frames_sized_def)
  then show "sum_list (map packet_len (concat (map frame_real fs))) = n * length (concat (map frame_real fs))"
  proof (induction fs)
    case (Cons f fs)
    then show ?case by (cases f) auto
  qed simp
qed

lemma sample_burst_ok:
  assumes "rng_ok R" "dist_ok D" "sim_inv s" "sim_rows rows s" "burst_ok sim_clumping b"
  shows "\<exists>s' d k. sample_burst R D clk b s = Some s' \<and> sim_inv s' \<and> sim_pool s' = sim_pool s \<and>
    sim_rows (rows @ [(d, packet_count b, k)]) s'"
proof -
  note inv = assms(3) [unfolded sim_inv_def]
  obtain dec t1 where 1: "next_decision R D (sim_timing s) = Some (dec, t1)" "scheduler_inv t1"
    "ts_config t1 = sim_timing_config" "4000000 \<le> td_delay dec" "td_delay dec \<le> 180000000"
    using next_decision_ok [OF assms(1,2), of "sim_timing s"] inv by (auto simp: sim_timing_config_def)
  obtain t2 where 2: "observe_burst R (burst_total_bytes b) (packet_count b) t1 = Some t2" "scheduler_inv t2"
    "ts_config t2 = sim_timing_config"
    using observe_burst_ok [OF assms(1) 1(2)] 1(3) by metis
  obtain m c where 3: "compose R (clk (sim_bursts s)) b (sim_composer s) = Some (m, c)" "composer_inv c"
    "co_config c = composition_default" "mixed_ok composition_default (burst_packets b) m"
    using compose_ok [OF assms(1), of "sim_composer s" "clk (sim_bursts s)" b] inv by auto
  have cell: "cc_cell_bytes composition_default = Some 514" "max_dummy_packets_per_burst composition_default = 32"
    by (simp_all add: composition_default_def TOR_CELL_BYTES_def)
  have len: "length (concat (map frame_real (mb_frames m))) = packet_count b"
    using 3(4) [unfolded mixed_ok_def, THEN conjunct1, THEN list_all2_lengthD] by (simp add: packet_count_def)
  note sized = 3(4) [unfolded mixed_ok_def cell]
  have m: "mb_real_packets m = packet_count b" "mb_dummy_packets m \<le> 32"
    "mb_total_bytes m = 514 * (packet_count b + mb_dummy_packets m)"
    "mb_total_packets m = packet_count b + mb_dummy_packets m"
    "sum_list (map packet_len (concat (map frame_real (mb_frames m)))) = 514 * packet_count b"
    using sized frames_volume [of 514 "mb_frames m"] len by (simp_all add: mb_total_bytes_def mb_total_packets_def packet_count_def)
  have count: "1 \<le> packet_count b" "packet_count b \<le> 7"
    using assms(5) by (auto simp: burst_ok_def thresholds_in_def sim_clumping_def)
  let ?d = "td_delay dec div 1000000"
  have "4 \<le> ?d" "?d \<le> 180" using 1(4,5) by (simp_all add: less_eq_div_iff_mult_less_eq)
  then have row: "burst_row_ok (?d, packet_count b, mb_dummy_packets m)" using m(2) count by (simp add: burst_row_ok_def)
  have "\<exists>s'. sample_burst R D clk b s = Some s' \<and> sim_inv s' \<and> sim_pool s' = sim_pool s \<and>
      sim_rows (rows @ [(?d, packet_count b, mb_dummy_packets m)]) s'"
    using 1(1) 2 3(1-3) inv assms(4) row m
    by (simp add: sample_burst_def Let_def sim_inv_def sim_rows_def)
  then show ?thesis by blast
qed

lemma sample_all_ok:
  assumes "rng_ok R" "dist_ok D" "sim_inv s" "sim_rows rows s" "\<forall>b\<in>set bs. burst_ok sim_clumping b"
  shows "\<exists>s' es. sample_all R D clk bs s = Some s' \<and> sim_inv s' \<and> sim_pool s' = sim_pool s \<and>
    sim_rows (rows @ es) s' \<and> map row_real es = map packet_count bs"
  using assms(3-)
proof (induction bs arbitrary: s rows)
  case Nil
  then show ?case by (intro exI [of _ s] exI [of _ "[]"]) simp
next
  case (Cons b bs)
  obtain s1 d k where 1: "sample_burst R D clk b s = Some s1" "sim_inv s1" "sim_pool s1 = sim_pool s"
    "sim_rows (rows @ [(d, packet_count b, k)]) s1"
    using sample_burst_ok [OF assms(1,2) Cons.prems(1,2), of b clk] Cons.prems(3) by auto
  obtain s2 es where 2: "sample_all R D clk bs s1 = Some s2" "sim_inv s2" "sim_pool s2 = sim_pool s1"
    "sim_rows ((rows @ [(d, packet_count b, k)]) @ es) s2" "map row_real es = map packet_count bs"
    using Cons.IH [OF 1(2,4)] Cons.prems(3) by auto
  show ?case
    using 1 2 by (intro exI [of _ s2] exI [of _ "(d, packet_count b, k) # es"]) (simp add: row_real_def)
qed

lemma packet_loop_ok:
  assumes "rng_ok R" "dist_ok D" "sim_inv s" "sim_rows rows s"
  shows "\<exists>s' es. packet_loop R D clk now is s = Some (Inr s') \<and> sim_inv s' \<and> sim_rows (rows @ es) s' \<and>
    sum_list (map row_real es) + length (buffered (sim_pool s')) = length (buffered (sim_pool s)) + length is"
  using assms(3-)
proof (induction "is" arbitrary: s rows)
  case Nil
  then show ?case by (intro exI [of _ s] exI [of _ "[]"]) simp
next
  case (Cons i js)
  obtain p where p: "synthetic_packet i = Inr p" using synthetic_packet_ok by blast
  have pi: "pool_inv (sim_pool s)" "cp_config (sim_pool s) = sim_clumping" using Cons.prems(1) by (simp_all add: sim_inv_def)
  obtain q bs where q: "pool_push R p now (sim_pool s) = Some (q, bs)" "pool_inv q" "cp_config q = sim_clumping"
    "concat (map burst_packets bs) @ buffered q = buffered (sim_pool s) @ [p]" "\<forall>b\<in>set bs. burst_ok sim_clumping b"
    using pool_push_ok [OF assms(1) pi(1), of p now] pi(2) by auto
  have 1: "sim_inv (s\<lparr>sim_pool := q\<rparr>)" "sim_rows rows (s\<lparr>sim_pool := q\<rparr>)"
    using Cons.prems q(2,3) by (simp_all add: sim_inv_def sim_rows_def)
  obtain s1 es1 where 2: "sample_all R D clk bs (s\<lparr>sim_pool := q\<rparr>) = Some s1" "sim_inv s1" "sim_pool s1 = q"
    "sim_rows (rows @ es1) s1" "map row_real es1 = map packet_count bs"
    using sample_all_ok [OF assms(1,2) 1 q(5), of clk] by auto
  obtain s2 es2 where 3: "packet_loop R D clk now js s1 = Some (Inr s2)" "sim_inv s2"
    "sim_rows ((rows @ es1) @ es2) s2"
    "sum_list (map row_real es2) + length (buffered (sim_pool s2)) = length (buffered q) + length js"
    using Cons.IH [OF 2(2,4)] 2(3) by auto
  have "length (concat (map burst_packets bs)) = sum_list (map packet_count bs)"
    by (simp add: length_concat comp_def packet_count_def [abs_def])
  then have "sum_list (map packet_count bs) + length (buffered q) = Suc (length (buffered (sim_pool s)))"
    using arg_cong [OF q(4), of length] by simp
  then show ?case
    using p q(1) 2(1,5) 3 by (intro exI [of _ s2] exI [of _ "es1 @ es2"]) simp
qed

definition sample_rows :: "(nat \<times> nat \<times> nat) list \<Rightarrow> session_sample \<Rightarrow> bool" where
  "sample_rows rows s \<longleftrightarrow> list_all burst_row_ok rows \<and>
     delays_ms s = map (\<lambda>(d, r, k). real d) rows \<and>
     dummy_ratios s = map (\<lambda>(d, r, k). real k / real r) rows \<and>
     real_packet_counts s = map (\<lambda>(d, r, k). real r) rows \<and>
     mixed_packet_counts s = map (\<lambda>(d, r, k). real (r + k)) rows \<and>
     real_byte_counts s = map (\<lambda>(d, r, k). real (514 * r)) rows \<and>
     mixed_byte_counts s = map (\<lambda>(d, r, k). real (514 * (r + k))) rows \<and>
     0 \<le> real_prefix_rate s \<and> real_prefix_rate s \<le> 1 \<and> sample_bursts s = length rows"

lemma sample_of_rows: "sim_rows rows s \<Longrightarrow> sample_rows rows (sample_of s)"
  by (auto simp: sim_rows_def sample_rows_def sample_of_def divide_le_eq)

lemma simulate_ok:
  assumes "rng_ok R" "dist_ok D" "session_generate G os t0 = (Inr seeds, os')"
  shows "\<exists>s rows. simulate_session R D H G os t0 now clk0 clk n = Some (Inr s, os') \<and> sample_rows rows s \<and>
    sum_list (map row_real rows) = n"
proof -
  have roles: "seed_role (timing_and_pool seeds) = TimingAndPool" "seed_role (burst_composition seeds) = BurstComposition"
    using generate_wf [of G os t0 DEFAULT_ROTATION_INTERVAL seeds os'] assms(3)
    by (simp_all add: session_generate_def seeds_wf_def)
  obtain pool where 1: "pool_with_config R H (timing_and_pool seeds) sim_clumping = Some (Inr pool)" "pool_inv pool"
    "cp_config pool = sim_clumping" "buffered pool = []"
    using pool_new_ok [OF assms(1) roles(1) sim_clumping_ok, of H] by blast
  obtain ts where 2: "scheduler_with_config R H (timing_and_pool seeds) sim_timing_config = Some (Inr ts)"
    "scheduler_inv ts" "ts_config ts = sim_timing_config"
    using scheduler_new_ok [OF assms(1) sim_timing_ok roles(1), of H] by blast
  obtain co where 3: "composer_with_config R H clk0 (burst_composition seeds) composition_default = Some (Inr co)"
    "composer_inv co" "co_config co = composition_default"
    using composer_new_ok [OF assms(1) default_cfg_ok roles(2), of H clk0] by blast
  define s0 where "s0 = \<lparr>sim_pool = pool, sim_timing = ts, sim_composer = co, sim_delays = [], sim_ratios = [],
     sim_real_packets = [], sim_mixed_packets = [], sim_real_bytes = [], sim_mixed_bytes = [],
     prefix_leaks = 0, sim_bursts = 0\<rparr>"
  have s0: "sim_inv s0" "sim_rows [] s0" "buffered (sim_pool s0) = []"
    using 1 2 3 by (simp_all add: s0_def sim_inv_def sim_rows_def)
  obtain s es where 4: "packet_loop R D clk now [0..<n] s0 = Some (Inr s)" "sim_inv s" "sim_rows es s"
    "sum_list (map row_real es) + length (buffered (sim_pool s)) = n"
    using packet_loop_ok [OF assms(1,2) s0(1,2), of clk now "[0..<n]"] s0(3) by auto
  have pi: "pool_inv (sim_pool s)" "cp_config (sim_pool s) = sim_clumping" using 4(2) by (simp_all add: sim_inv_def)
  obtain q b where 5: "pool_flush R now (sim_pool s) = Some (q, b)" "pool_inv q" "cp_config q = sim_clumping"
    "case b of None \<Rightarrow> buffered (sim_pool s) = []
     | Some b \<Rightarrow> burst_packets b = buffered (sim_pool s) \<and> burst_ok sim_clumping b"
    using pool_flush_ok [OF assms(1) pi(1), of now] unfolding pi(2) by blast
  have q: "sim_inv (s\<lparr>sim_pool := q\<rparr>)" "sim_rows es (s\<lparr>sim_pool := q\<rparr>)"
    using 4(2,3) 5(2,3) by (simp_all add: sim_inv_def sim_rows_def)
  have "\<exists>s' rows. (case b of None \<Rightarrow> Some (s\<lparr>sim_pool := q\<rparr>) | Some b \<Rightarrow> sample_burst R D clk b (s\<lparr>sim_pool := q\<rparr>)) = Some s' \<and>
      sim_rows rows s' \<and> sum_list (map row_real rows) = n"
  proof (cases b)
    case None
    then show ?thesis using q(2) 4(4) 5(4) by auto
  next
    case (Some x)
    obtain s' d k where "sample_burst R D clk x (s\<lparr>sim_pool := q\<rparr>) = Some s'" "sim_rows (es @ [(d, packet_count x, k)]) s'"
      using sample_burst_ok [OF assms(1,2) q, of x clk] 5(4) Some by auto
    then show ?thesis
      using 4(4) 5(4) Some by (intro exI [of _ s'] exI [of _ "es @ [(d, packet_count x, k)]"])
        (simp add: row_real_def packet_count_def)
  qed
  then obtain s' rows where 6: "(case b of None \<Rightarrow> Some (s\<lparr>sim_pool := q\<rparr>)
        | Some b \<Rightarrow> sample_burst R D clk b (s\<lparr>sim_pool := q\<rparr>)) = Some s'"
      "sim_rows rows s'" "sum_list (map row_real rows) = n" by blast
  have "simulate_session R D H G os t0 now clk0 clk n = Some (Inr (sample_of s'), os')"
    using assms(3) 1(1) 2(1) 3(1) 4(1) 5(1) 6(1) by (simp add: simulate_session_def s0_def)
  then show ?thesis using sample_of_rows [OF 6(2)] 6(3) by blast
qed

section \<open>Properties\<close>

text \<open>The three stages compose. Fed with any number of packets, the chain of clumping pool, timing
  scheduler and composer that \<open>simulate_session\<close> drives never panics and fails only when the seeds
  do: every packet ends up in exactly one burst, each burst holds one to seven packets, gets at most
  32 dummies and a delay of 4 to 180 ms, and what is sampled per burst is the delay, the ratio, the
  counts and the volumes, every frame being a cell of 514 bytes.\<close>

theorem pipeline_conserves:
  assumes "rng_ok R" "dist_ok D"
  shows "case session_generate G os t0 of
      (Inl e, os') \<Rightarrow> simulate_session R D H G os t0 now clk0 clk n = Some (Inl (VerifySeeds e), os')
    | (Inr seeds, os') \<Rightarrow> (\<exists>s rows. simulate_session R D H G os t0 now clk0 clk n = Some (Inr s, os') \<and>
        sample_rows rows s \<and> sum_list (map row_real rows) = n)"
  using simulate_ok [OF assms, of G os t0 _ _ H now clk0 clk n]
  by (simp add: simulate_session_def split: prod.split sum.split)

theorem pipeline_conserves_witness:
  "\<exists>s rows os'. simulate_session lcg mean_dist (\<lambda>k d. k @ d) byte_source 7 0 5 (\<lambda>i. i) (\<lambda>k i. 1000 * k + i) 20 =
      Some (Inr s, os') \<and> sample_rows rows s \<and> sum_list (map row_real rows) = 20"
proof -
  obtain seeds os' where "session_generate byte_source 7 0 = (Inr seeds, os')"
    by (simp add: session_generate_def generate_with_rotation_interval_def seed_generate_def byte_source_def
        DEFAULT_ROTATION_INTERVAL_def SEED_LEN_def list_all_iff)
  then show ?thesis
    using pipeline_conserves [OF lcg_ok mean_dist_ok, where G = byte_source and os = 7 and ?t0.0 = 0 and H = "\<lambda>k d. k @ d"
        and now = 5 and ?clk0.0 = "\<lambda>i. i" and clk = "\<lambda>k i. 1000 * k + i" and n = 20]
    by auto
qed

lemma same_correlation:
  assumes "sample_rows rows s"
  shows "verify_pearson (real_byte_counts s) (mixed_byte_counts s) =
    verify_pearson (real_packet_counts s) (mixed_packet_counts s)"
proof -
  have "real_byte_counts s = map ((*) 514) (real_packet_counts s)"
    "mixed_byte_counts s = map ((*) 514) (mixed_packet_counts s)"
    using assms by (auto simp: sample_rows_def)
  then show ?thesis using pearson_scale [of 514] by (simp add: verify_pearson_eq)
qed

text \<open>C25: What the smoke test decides. Once both sessions have their seeds it runs to its end and
  succeeds exactly when the six checks pass; the correlations lie between 0 and 1 and the leakage
  rate is a rate. But the byte-volume check repeats the packet-count check: the composer has cut or
  padded every packet to the cell before its bytes are counted, so both correlations are the same
  number, and with the laxer limit the byte check cannot fail unless the packet check has.\<close>

theorem smoke_test_decides:
  assumes "rng_ok R" "dist_ok D" "session_generate G os (sc_generated c1) = (Inr seeds1, os1)"
    and "session_generate G os1 (sc_generated c2) = (Inr seeds2, os2)"
  shows "\<exists>checks res. verify_main R D H G os c1 c2 = Some (checks, res) \<and> length checks = 6 \<and>
    res = (if list_all check_passed checks then Inr () else Inl VerificationFailed) \<and>
    (\<forall>i<6. i \<noteq> 4 \<longrightarrow> 0 \<le> ck_value (checks ! i) \<and> ck_value (checks ! i) \<le> 1) \<and>
    ck_value (checks ! 3) = ck_value (checks ! 2) \<and>
    (check_passed (checks ! 2) \<longrightarrow> check_passed (checks ! 3))"
proof -
  obtain s1 rows1 where 1: "simulate_session R D H G os (sc_generated c1) (sc_pool_now c1) (sc_start c1) (sc_burst c1)
      PACKETS_PER_SESSION = Some (Inr s1, os1)" "sample_rows rows1 s1"
    using simulate_ok [OF assms(1,2,3)] by blast
  obtain s2 rows2 where 2: "simulate_session R D H G os1 (sc_generated c2) (sc_pool_now c2) (sc_start c2) (sc_burst c2)
      PACKETS_PER_SESSION = Some (Inr s2, os2)" "sample_rows rows2 s2"
    using simulate_ok [OF assms(1,2,4)] by blast
  define checks where "checks = smoke_checks s1 s2"
  have run: "verify_main R D H G os c1 c2 =
      Some (checks, if list_all check_passed checks then Inr () else Inl VerificationFailed)"
    using 1(1) 2(1) by (simp add: verify_main_def checks_def Let_def list_all_iff list_ex_iff)
  have rate: "0 \<le> real_prefix_rate s1" "real_prefix_rate s1 \<le> 1" using 1(2) by (simp_all add: sample_rows_def)
  have bounds: "0 \<le> ck_value (checks ! i) \<and> ck_value (checks ! i) \<le> 1" if "i < 6" "i \<noteq> 4" for i
  proof -
    have "i \<in> {0, 1, 2, 3, 5}" using that by auto
    then show ?thesis
      using rate pearson_bounded by (auto simp: checks_def smoke_checks_def verify_pearson_eq)
  qed
  have same: "ck_value (checks ! 3) = ck_value (checks ! 2)"
    using same_correlation [OF 1(2)] by (simp add: checks_def smoke_checks_def)
  moreover have "check_passed (checks ! 3)" if "check_passed (checks ! 2)"
    using that same_correlation [OF 1(2)] by (simp add: checks_def smoke_checks_def check_passed_def)
  moreover have "length checks = 6" by (simp add: checks_def smoke_checks_def)
  ultimately show ?thesis using run bounds by blast
qed

definition sample_clocks :: session_clocks where
  "sample_clocks = \<lparr>sc_generated = 0, sc_pool_now = 5, sc_start = (\<lambda>i. i), sc_burst = (\<lambda>k i. 1000 * k + i)\<rparr>"

theorem smoke_test_decides_witness:
  "\<exists>checks res. verify_main lcg mean_dist (\<lambda>k d. k @ d) byte_source 7 sample_clocks sample_clocks = Some (checks, res) \<and>
    ck_value (checks ! 3) = ck_value (checks ! 2)"
proof -
  have gen: "session_generate byte_source os t = (Inr \<lparr>timing_and_pool = \<lparr>seed_role = TimingAndPool, seed_bytes = replicate 32 (word_of_nat os)\<rparr>,
      burst_composition = \<lparr>seed_role = BurstComposition, seed_bytes = replicate 32 (word_of_nat (os + 1))\<rparr>,
      generated_at = t, rotation_interval = DEFAULT_ROTATION_INTERVAL\<rparr>, os + 2)" if "os \<in> {7, 9}" for os t
    using that
    by (auto simp: session_generate_def generate_with_rotation_interval_def seed_generate_def byte_source_def
        DEFAULT_ROTATION_INTERVAL_def SEED_LEN_def list_all_iff)
  from smoke_test_decides [where H = "\<lambda>k d. k @ d" and ?c1.0 = sample_clocks and ?c2.0 = sample_clocks,
      OF lcg_ok mean_dist_ok gen [of 7] gen [of "7 + 2"]]
  show ?thesis by auto
qed

end
