(* ===== verification/Monitor.thy ===== *)
theory Monitor
  imports Session Stats
begin

text \<open>
  The statistical tests of \<open>src/src/self_test.rs\<close> and \<open>run_self_test\<close> of \<open>src/src/composition.rs\<close>.
  Floating point numbers are reals; the texts of the failures are in \<open>Messages\<close>. The lemmas follow what a
  shaped session records of its frames: the clock it hands to the tester counts frames, so that the
  tests of the intervals between frames, and with cells of one size the test of the sizes, cannot
  fail, and the verdict depends on the share of dummies alone.
\<close>

section \<open>The tests\<close>

datatype self_test_failure =
    KsTestFailed nat
  | AutocorrelationTooHigh int
  | DummyRatioOutOfBounds nat
  | SpectralPeakDetected nat
  | InsufficientData

record self_test_result =
  str_passed :: bool
  str_failures :: "self_test_failure list"
  str_ks_statistic :: "real option"
  str_lag1_autocorr :: "real option"
  str_dummy_ratio :: "real option"
  str_spectral_peak_ratio :: "real option"

definition as_u32 :: "int \<Rightarrow> nat" where
  "as_u32 i = nat (min i 4294967295)"

definition as_i32 :: "int \<Rightarrow> int" where
  "as_i32 i = max (- 2147483648) (min i 2147483647)"

text \<open>The merge loop is the one of the attacks.\<close>

definition tester_ks_statistic :: "nat list \<Rightarrow> nat list \<Rightarrow> real" where
  "tester_ks_statistic a b =
     (if a = [] \<or> b = [] then 0 else ks_loop (sort (map real a)) (sort (map real b)) 0 0 0)"

definition dft_magnitude :: "real list \<Rightarrow> nat \<Rightarrow> real" where
  "dft_magnitude centered k =
     (let n = real (length centered);
          re = sum_list (map (\<lambda>(j, x). x * cos (2 * pi * real k * real j / n)) (enumerate 0 centered));
          im = sum_list (map (\<lambda>(j, x). - x * sin (2 * pi * real k * real j / n)) (enumerate 0 centered))
      in sqrt (re * re + im * im))"

definition spectral_peak_ratio :: "real list \<Rightarrow> real option" where
  "spectral_peak_ratio samples =
     (if length samples < 16 then None
      else
        let s = (if length samples > 256 then drop (length samples - 256) samples else samples);
            n = length s;
            m = sum_list s / real n;
            centered = map (\<lambda>x. x - m) s;
            magnitudes = map (dft_magnitude centered) [1..<n div 2];
            peak = foldl max 0 magnitudes;
            mean_mag = sum_list magnitudes / real (length magnitudes)
        in if mean_mag < F64_EPSILON then None else Some (peak / mean_mag))"

definition run_tests :: "self_tester \<Rightarrow> self_test_result" where
  "run_tests st =
     (let total = st_real_count st + st_dummy_count st; c = st_config st
      in if total < 20 then
           \<lparr>str_passed = False, str_failures = [InsufficientData], str_ks_statistic = None,
            str_lag1_autocorr = None, str_dummy_ratio = None, str_spectral_peak_ratio = None\<rparr>
         else
           let ks = tester_ks_statistic (dummy_sizes st) (real_sizes st);
               f1 = (if ks > ks_threshold c then [KsTestFailed (as_u32 (roundf (ks * 1000)))] else []);
               ac = lag1_autocorrelation (iat_samples st);
               f2 = (if \<bar>ac\<bar> > autocorr_threshold c then [AutocorrelationTooHigh (as_i32 (roundf (ac * 1000)))] else []);
               ratio = real (st_dummy_count st) / real total;
               f3 = (if ratio < dummy_ratio_min c \<or> ratio > dummy_ratio_max c
                     then [DummyRatioOutOfBounds (as_u32 (roundf (ratio * 1000)))] else []);
               peak = spectral_peak_ratio (iat_samples st);
               f4 = (case peak of
                       None \<Rightarrow> []
                     | Some r \<Rightarrow> if r > spectral_peak_ratio_threshold c
                                 then [SpectralPeakDetected (as_u32 (roundf (r * 100)))] else []);
               failures = f1 @ f2 @ f3 @ f4
           in \<lparr>str_passed = (failures = []), str_failures = failures, str_ks_statistic = Some ks,
               str_lag1_autocorr = Some ac, str_dummy_ratio = Some ratio, str_spectral_peak_ratio = peak\<rparr>)"

definition assert_passing :: "self_tester \<Rightarrow> self_test_failure list + self_test_result" where
  "assert_passing st = (let r = run_tests st in if str_passed r then Inr r else Inl (str_failures r))"

definition total_frames :: "self_tester \<Rightarrow> nat" where
  "total_frames st = st_real_count st + st_dummy_count st"

definition co_run_self_test :: "'r composer \<Rightarrow> self_test_result" where
  "co_run_self_test co = run_tests (co_self_tester co)"

definition ss_run_self_test :: "'r shaped_session \<Rightarrow> self_test_result" where
  "ss_run_self_test s = co_run_self_test (ss_composer s)"

section \<open>Statistics of constant samples\<close>

lemma ecdf_gap_const:
  assumes "\<forall>x\<in>set a \<union> set b. x = c" "a \<noteq> []" "b \<noteq> []"
  shows "ecdf_gap a b t = 0"
proof -
  have "filter (\<lambda>x. x \<le> t) xs = (if c \<le> t then xs else [])" if "\<forall>x\<in>set xs. x = c" for xs
    using that by (induction xs) auto
  then show ?thesis using assms by (simp add: ecdf_gap_def ecdf_def)
qed

lemma ks_const:
  assumes "\<forall>x\<in>set a \<union> set b. x = c"
  shows "tester_ks_statistic a b = 0"
proof (cases "a = [] \<or> b = []")
  case False
  let ?a = "sort (map real a)" and ?b = "sort (map real b)"
  have "ecdf_gap ?a ?b z = 0" for z
  proof (rule ecdf_gap_const [of _ _ "real c"])
    show "\<forall>x\<in>set ?a \<union> set ?b. x = real c" using assms by auto
    show "?a \<noteq> []" "?b \<noteq> []" using False by (metis map_is_Nil_conv set_empty set_sort)+
  qed
  then have "ks_loop ?a ?b 0 0 0 = 0" using ks_loop_sup [of ?a ?b 0 0 0] by auto
  then show ?thesis using False by (simp add: tester_ks_statistic_def)
qed (simp add: tester_ks_statistic_def)

lemma lag1_const: "lag1_autocorrelation (replicate n c) = 0"
  by (simp add: lag1_autocorrelation_def sum_list_replicate Let_def)

lemma dft_zero: "dft_magnitude (replicate n 0) k = 0"
proof -
  have z: "x = 0" if "(j, x) \<in> set (enumerate 0 (replicate n (0::real)))" for j x
    using that by (auto simp: in_set_enumerate_eq)
  have "sum_list (map f (enumerate 0 (replicate n 0))) = 0" if "\<And>j. f (j, 0) = 0" for f :: "nat \<times> real \<Rightarrow> real"
    using z that by (intro sum_list_zero_on) fastforce
  then show ?thesis by (simp add: dft_magnitude_def Let_def)
qed

lemma peak_ratio_const: "spectral_peak_ratio (replicate n c) = None"
proof -
  have "spectral_peak_ratio (replicate n c) = None" if "16 \<le> n"
  proof -
    define m where "m = (if n > 256 then 256 else n)"
    have s: "(if length (replicate n c) > 256 then drop (length (replicate n c) - 256) (replicate n c) else replicate n c)
        = replicate m c" by (auto simp: m_def)
    have m: "0 < m" "length (replicate m c) = m" using that by (auto simp: m_def)
    have c: "map (\<lambda>x. x - sum_list (replicate m c) / real m) (replicate m c) = replicate m 0"
      using m(1) by (simp add: sum_list_replicate)
    have "sum_list (map (dft_magnitude (replicate m 0)) ks) = 0" for ks
      by (induction ks) (simp_all add: dft_zero)
    then show ?thesis
      using that unfolding spectral_peak_ratio_def Let_def s m(2) c by (simp add: F64_EPSILON_def)
  qed
  then show ?thesis by (cases "16 \<le> n") (auto simp: spectral_peak_ratio_def)
qed

section \<open>What a session records\<close>

text \<open>The tester has seen the frames \<open>fs\<close>, one per millisecond of its clock.\<close>

definition monitored :: "mixed_frame list \<Rightarrow> 'r composer \<Rightarrow> bool" where
  "monitored fs co \<longleftrightarrow> frame_clock_ms co = length fs \<and>
     (let st = co_self_tester co in
        st_config st = self_test_default \<and>
        last_frame_at_ms st = (if fs = [] then None else Some (length fs)) \<and>
        iat_samples st = replicate (length fs - 1) 1 \<and>
        dummy_sizes st = map frame_len (filter is_dummy fs) \<and> real_sizes st = map frame_len (filter is_real fs) \<and>
        st_dummy_count st = length (filter is_dummy fs) \<and> st_real_count st = length (filter is_real fs))"

lemma monitored_view:
  "co_self_tester co' = co_self_tester co \<Longrightarrow> frame_clock_ms co' = frame_clock_ms co \<Longrightarrow>
     monitored fs co' = monitored fs co"
  by (simp add: monitored_def)

lemma monitored_record:
  assumes "monitored fs co" "t = frame_clock_ms co + 1"
  shows "monitored (fs @ [f]) (co\<lparr>frame_clock_ms := t, co_self_tester := record_frame f t (co_self_tester co)\<rparr>)"
proof -
  have r: "replicate (length fs) (1::real) = replicate (length fs - 1) 1 @ [1]" if "fs \<noteq> []"
    using that by (cases fs) (simp_all add: replicate_append_same)
  show ?thesis
    using assms r by (cases f) (auto simp: monitored_def record_frame_def Let_def)
qed

lemma monitored_reset [simp]: "monitored fs (reset_keepalive_deadline R t co) = monitored fs co"
  by (rule monitored_view) (simp_all add: reset_keepalive_deadline_def Let_def case_prod_beta)

lemma dummy_count_absolute_view:
  "dummy_count_absolute R co = Some (n, co') \<Longrightarrow> \<exists>r. co' = co\<lparr>co_rng := r\<rparr>"
  unfolding dummy_count_absolute_def Option.bind_eq_Some_conv by (elim exE conjE) (auto split: prod.splits)

lemma monitored_dummy_count:
  assumes "dummy_count_for_burst R nb co = Some (n, co')"
  shows "monitored fs co' = monitored fs co"
proof -
  obtain k co1 where 1: "dummy_count_absolute R co = Some (k, co1)"
    using assms by (cases "dummy_count_absolute R co") (auto simp: dummy_count_for_burst_def)
  obtain r where r: "co1 = co\<lparr>co_rng := r\<rparr>" using dummy_count_absolute_view [OF 1] by blast
  have "co_self_tester co' = co_self_tester co1 \<and> frame_clock_ms co' = frame_clock_ms co1"
    using assms by (cases "co_dp_shaper co1")
      (auto simp: dummy_count_for_burst_def 1 Let_def Option.bind_eq_Some_conv split: prod.splits)
  then show ?thesis unfolding r by (intro monitored_view) simp_all
qed

lemma monitored_pad: "pad_real_packet R p co = Some (q, co') \<Longrightarrow> monitored fs co' = monitored fs co"
  by (rule monitored_view) (auto simp: pad_real_packet_def Let_def split: option.splits prod.splits sum.splits)

lemma monitored_observe: "co_observe R clk nb np co = Some co' \<Longrightarrow> monitored fs co' = monitored fs co"
  by (rule monitored_view)
    (auto simp: co_observe_def Let_def Option.bind_eq_Some_conv split: option.splits prod.splits if_splits)

lemma monitored_ingest [simp]: "monitored fs (fold ingest_packet ps co) = monitored fs co"
proof (induction ps arbitrary: co)
  case (Cons p ps)
  have "monitored fs (ingest_packet p co) = monitored fs co"
    by (rule monitored_view) (auto simp: ingest_packet_def ingest_length_def Let_def)
  then show ?case using Cons by simp
qed simp

lemma monitored_inject_real:
  assumes "ss_inject_real R t1 t2 p s = Some (res, s')"
  shows "monitored fs (ss_composer s') = monitored fs (ss_composer s)"
proof -
  obtain q co where q: "pad_real_packet R p (ss_composer s) = Some (q, co)"
    using assms by (cases "pad_real_packet R p (ss_composer s)") (auto simp: ss_inject_real_def)
  then have "ss_composer s' = co" using assms by (auto simp: ss_inject_real_def Let_def case_prod_beta)
  then show ?thesis using monitored_pad [OF q, of fs] by simp
qed

lemma monitored_inject_all:
  "inject_all R clk ps k s = Some (res, s') \<Longrightarrow> monitored fs (ss_composer s') = monitored fs (ss_composer s)"
proof (induction ps arbitrary: k s)
  case (Cons p ps)
  obtain r s1 where 1: "ss_inject_real R (clk (2 * k)) (clk (2 * k + 1)) p s = Some (r, s1)"
    using Cons.prems by (cases "ss_inject_real R (clk (2 * k)) (clk (2 * k + 1)) p s") auto
  have eq: "monitored fs (ss_composer s1) = monitored fs (ss_composer s)" by (rule monitored_inject_real [OF 1])
  show ?case
  proof (cases r)
    case (Inl e)
    then show ?thesis using Cons.prems 1 eq by simp
  next
    case (Inr u)
    then show ?thesis using Cons.prems 1 eq Cons.IH [of "k + 1" s1] by simp
  qed
qed simp

lemma monitored_inject_burst:
  assumes "ss_inject_burst R clk clk' b s = Some (res, s')"
  shows "monitored fs (ss_composer s') = monitored fs (ss_composer s)"
proof -
  obtain n co2 where 1: "dummy_count_for_burst R (burst_total_bytes b) (fold ingest_packet (burst_packets b) (ss_composer s)) =
      Some (n, co2)"
    using assms
    by (cases "dummy_count_for_burst R (burst_total_bytes b) (fold ingest_packet (burst_packets b) (ss_composer s))")
      (auto simp: ss_inject_burst_def)
  obtain r s1 where 2: "inject_all R clk (burst_packets b) 0 (s\<lparr>ss_composer := co2\<rparr>) = Some (r, s1)"
    using assms 1 by (cases "inject_all R clk (burst_packets b) 0 (s\<lparr>ss_composer := co2\<rparr>)") (auto simp: ss_inject_burst_def Let_def)
  have eq: "monitored fs (ss_composer s1) = monitored fs (ss_composer s)"
    using monitored_inject_all [OF 2, of fs] monitored_dummy_count [OF 1, of fs] by simp
  show ?thesis
  proof (cases r)
    case (Inl e)
    then show ?thesis using assms 1 2 eq by (simp add: ss_inject_burst_def Let_def)
  next
    case (Inr k)
    then obtain co3 where 3: "co_observe R clk' (burst_total_bytes b) (packet_count b) (ss_composer s1) = Some co3"
      "s' = s1\<lparr>ss_composer := reset_keepalive_deadline R (clk' 3) (co3\<lparr>last_burst_at := clk' 2\<rparr>)\<rparr>"
      using assms 1 2 by (auto simp: ss_inject_burst_def Let_def Option.bind_eq_Some_conv)
    have "monitored fs (co3\<lparr>last_burst_at := clk' 2\<rparr>) = monitored fs co3" by (rule monitored_view) simp_all
    then show ?thesis using 3(2) monitored_observe [OF 3(1), of fs] eq by simp
  qed
qed

lemma monitored_tick:
  assumes "ss_tick R t1 t2 s = (fo, s')" "monitored fs (ss_composer s)"
  shows "monitored (fs @ (case fo of None \<Rightarrow> [] | Some f \<Rightarrow> [f])) (ss_composer s')"
proof (cases "tc_tick R t1 t2 (ss_correlator s)")
  case (Pair g tc)
  show ?thesis
  proof (cases g)
    case None
    then show ?thesis using assms Pair by (auto simp: ss_tick_def)
  next
    case (Some f)
    let ?co = "(ss_composer s)\<lparr>frame_clock_ms := frame_clock_ms (ss_composer s) + 1, co_self_tester :=
      record_frame f (frame_clock_ms (ss_composer s) + 1) (co_self_tester (ss_composer s))\<rparr>"
    have m: "monitored (fs @ [f]) ?co" by (rule monitored_record [OF assms(2) refl])
    have "fo = Some f" "co_self_tester (ss_composer s') = co_self_tester ?co"
      "frame_clock_ms (ss_composer s') = frame_clock_ms ?co"
      using assms(1) Pair Some by (auto simp: ss_tick_def Let_def)
    then show ?thesis using m monitored_view [of "ss_composer s'" ?co] by simp
  qed
qed

lemma monitored_step:
  assumes "ss_step R s e = Some (s', gs)" "monitored fs (ss_composer s)"
  shows "monitored (fs @ gs) (ss_composer s')"
proof (cases e)
  case (SsInject p t1 t2)
  then show ?thesis using assms monitored_inject_real [of R t1 t2 p s _ s' fs] by auto
next
  case (SsBurst b clk clk')
  then show ?thesis using assms monitored_inject_burst [of R clk clk' b s _ s' fs] by auto
next
  case (SsTick t1 t2)
  then show ?thesis using assms monitored_tick [of R t1 t2 s _ s' fs] by (auto split: prod.splits)
next
  case (SsRestart t1 t2)
  then show ?thesis using assms by (auto simp: ss_restart_clock_def)
qed

lemma monitored_run:
  "run_stage (ss_step R) s es = Some (s', gs) \<Longrightarrow> monitored fs (ss_composer s) \<Longrightarrow> monitored (fs @ gs) (ss_composer s')"
proof (induction es arbitrary: s fs gs)
  case (Cons e es)
  obtain s1 g1 g2 where 1: "ss_step R s e = Some (s1, g1)" "run_stage (ss_step R) s1 es = Some (s', g2)" "gs = g1 @ g2"
    using Cons.prems(1) by (auto simp: Option.bind_eq_Some_conv split: prod.splits)
  show ?case using Cons.IH [OF 1(2) monitored_step [OF 1(1) Cons.prems(2)]] 1(3) by simp
qed simp

lemma composer_new_tester:
  assumes "composer_with_config R H clk seed c = Some (Inr co)"
  shows "co_self_tester co = self_tester_new self_test_default \<and> frame_clock_ms co = 0"
proof -
  have role: "seed_role seed = BurstComposition" using assms by (auto simp: composer_with_config_def split: if_splits)
  obtain v where v: "composition_validate c = Inr v"
    using assms role by (cases "composition_validate c") (auto simp: composer_with_config_def)
  obtain g r where g: "ratio_next_regime R v (from_seed R (derive_rng_seed H seed (bytes_of ''mixtor.composition.v1''))) = Some (g, r)"
    using assms role v
    by (cases "ratio_next_regime R v (from_seed R (derive_rng_seed H seed (bytes_of ''mixtor.composition.v1'')))")
      (auto simp: composer_with_config_def)
  obtain sp where sp: "spectral_new (composer_spectral_config v) (from_seed R (derive_rng_seed H seed (bytes_of ''mixtor.spectral.v1''))) = Inr sp"
    using assms role v g
    by (cases "spectral_new (composer_spectral_config v) (from_seed R (derive_rng_seed H seed (bytes_of ''mixtor.spectral.v1'')))")
      (auto simp: composer_with_config_def)
  define dp where "dp = (case cc_dp_shaper v of None \<Rightarrow> Inr None
      | Some cfg \<Rightarrow> (case dp_new cfg (from_seed R (derive_rng_seed H seed (bytes_of ''mixtor.dp.v1''))) of
            Inl _ \<Rightarrow> Inl (CompInvalidConfig ''invalid DP shaper config'') | Inr d \<Rightarrow> Inr (Some d)))"
  obtain d where d: "dp = Inr d"
    using assms role v g sp by (cases dp) (auto simp: composer_with_config_def simp flip: dp_def)
  obtain acc where acc: "accountant_new 100 Basic (clk 1) = Some acc" by (simp add: accountant_new_def)
  show ?thesis
    using assms role v g sp d acc
    by (auto simp: composer_with_config_def reset_keepalive_deadline_def Let_def case_prod_beta simp flip: dp_def)
qed

lemma monitored_new:
  assumes "shaped_new R H clk seed c = Some (Inr s)"
  shows "monitored [] (ss_composer s)"
proof -
  obtain cell where "cc_cell_bytes c = Some cell" using assms by (auto simp: shaped_new_def split: option.splits)
  then obtain z tc where z: "composer_with_config R H (\<lambda>i. clk (i + 2)) seed c = Some z"
      "(case z of Inl e \<Rightarrow> Inl e | Inr co \<Rightarrow> Inr \<lparr>ss_composer = co, ss_correlator = tc\<rparr>) = Inr s"
    using assms
    by (cases "tc_new R (shaped_tc_config cell c) (snd (gen_u64 R (from_seed R (derive_rng_seed H seed
          (bytes_of ''mixtor.correlator.v1''))))) (clk 0) (clk 1)")
      (auto simp: shaped_new_def Let_def case_prod_beta)
  then have "composer_with_config R H (\<lambda>i. clk (i + 2)) seed c = Some (Inr (ss_composer s))"
    by (cases z) auto
  then show ?thesis using composer_new_tester by (fastforce simp: monitored_def self_tester_new_def Let_def)
qed

text \<open>The verdict over frames of one size.\<close>

definition dummy_share :: "mixed_frame list \<Rightarrow> real" where
  "dummy_share fs = real (length (filter is_dummy fs)) / real (length fs)"

lemma filter_partition: "length (filter is_real fs) + length (filter is_dummy fs) = length fs"
proof (induction fs)
  case (Cons f fs)
  then show ?case by (cases f) simp_all
qed simp

lemma verdict_of_monitored:
  assumes "monitored fs co" "\<forall>f\<in>set fs. frame_len f = cell"
  shows "str_passed (co_run_self_test co) \<longleftrightarrow> 20 \<le> length fs \<and> 30 / 100 \<le> dummy_share fs \<and> dummy_share fs \<le> 98 / 100"
    and "str_ks_statistic (co_run_self_test co) \<in> {None, Some 0}"
    and "str_lag1_autocorr (co_run_self_test co) \<in> {None, Some 0}"
    and "str_spectral_peak_ratio (co_run_self_test co) = None"
proof -
  define st where "st = co_self_tester co"
  have st: "st_config st = self_test_default" "iat_samples st = replicate (length fs - 1) 1"
    "dummy_sizes st = map frame_len (filter is_dummy fs)" "real_sizes st = map frame_len (filter is_real fs)"
    "st_dummy_count st = length (filter is_dummy fs)" "st_real_count st + length (filter is_dummy fs) = length fs"
    using assms(1) filter_partition [of fs] by (simp_all add: monitored_def st_def Let_def)
  have ks: "tester_ks_statistic (dummy_sizes st) (real_sizes st) = 0"
    using assms(2) by (intro ks_const [of _ _ cell]) (auto simp: st)
  have ac: "lag1_autocorrelation (iat_samples st) = 0" "spectral_peak_ratio (iat_samples st) = None"
    by (simp_all add: st lag1_const peak_ratio_const)
  have run: "co_run_self_test co = run_tests st" by (simp add: co_run_self_test_def st_def)
  note simps = run_tests_def Let_def ks ac st(1,5,6) run self_test_default_def dummy_share_def
  show "str_passed (co_run_self_test co) \<longleftrightarrow> 20 \<le> length fs \<and> 30 / 100 \<le> dummy_share fs \<and> dummy_share fs \<le> 98 / 100"
    unfolding simps by auto
  show "str_ks_statistic (co_run_self_test co) \<in> {None, Some 0}" unfolding simps by simp
  show "str_lag1_autocorr (co_run_self_test co) \<in> {None, Some 0}" unfolding simps by simp
  show "str_spectral_peak_ratio (co_run_self_test co) = None" unfolding simps by simp
qed

section \<open>Properties\<close>

text \<open>C24: The self-test of a session judges nothing but the share of dummies. Whatever is injected into
  a session with cells and at whatever times its frames leave, the three other tests see constants:
  the clock the session hands to the tester counts frames, so every interval it records is one
  millisecond and neither the autocorrelation nor the spectral peak can fail, and cells of one size
  give the distance 0 between real and dummy sizes. The test passes exactly from 20 frames on when
  between 30 and 98 percent of them are dummies.\<close>

theorem self_test_sees_share:
  assumes "rng_ok R" "comp_cfg_ok c" "seed_role seed = BurstComposition"
    and "cc_cell_bytes c = Some cell" "tc_valid (shaped_tc_config cell c)"
  shows "\<exists>s. shaped_new R H clk seed c = Some (Inr s) \<and>
    (\<forall>es. \<exists>s' fs. run_stage (ss_step R) s es = Some (s', fs) \<and>
       (str_passed (ss_run_self_test s') \<longleftrightarrow> 20 \<le> length fs \<and> 30 / 100 \<le> dummy_share fs \<and> dummy_share fs \<le> 98 / 100) \<and>
       str_ks_statistic (ss_run_self_test s') \<in> {None, Some 0} \<and>
       str_lag1_autocorr (ss_run_self_test s') \<in> {None, Some 0} \<and>
       str_spectral_peak_ratio (ss_run_self_test s') = None)"
proof -
  obtain s where s: "shaped_new R H clk seed c = Some (Inr s)" "shaped_inv R s"
    using shaped_new_ok [OF assms] by blast
  have adm: "adm_run (ss_step R) (\<lambda>_ _. True) s es" for es
    by (induction es arbitrary: s) (auto split: option.split)
  have "\<exists>s' fs. run_stage (ss_step R) s es = Some (s', fs) \<and> monitored fs (ss_composer s') \<and>
      (\<forall>f\<in>set fs. frame_len f = ss_cell s)" for es
    using shaped.run_lossless [OF s(2) adm] shaped.run_sized [OF s(2) adm] monitored_run [OF _ monitored_new [OF s(1)]]
    by (metis append_Nil)
  then show ?thesis
    using s(1) verdict_of_monitored unfolding ss_run_self_test_def by metis
qed

theorem self_test_sees_share_witness:
  "\<exists>s s' fs. shaped_new lcg (\<lambda>k d. d) (\<lambda>i. i) \<lparr>seed_role = BurstComposition, seed_bytes = [3]\<rparr> composition_default = Some (Inr s) \<and>
    run_stage (ss_step lcg) s [SsInject (Packet [1, 2]) 5 5, SsTick 900000000 900000001, SsTick 1900000000 1900000001] = Some (s', fs) \<and>
    str_spectral_peak_ratio (ss_run_self_test s') = None"
proof -
  have "cc_cell_bytes composition_default = Some 514" by (simp add: composition_default_def TOR_CELL_BYTES_def)
  moreover have "tc_valid (shaped_tc_config 514 composition_default)"
    by (simp add: tc_valid_def shaped_tc_config_def composition_default_def or_else_def)
  moreover have "seed_role \<lparr>seed_role = BurstComposition, seed_bytes = [3]\<rparr> = BurstComposition" by simp
  ultimately show ?thesis
    using self_test_sees_share [OF lcg_ok default_cfg_ok, of "\<lparr>seed_role = BurstComposition, seed_bytes = [3]\<rparr>" 514 "\<lambda>k d. d" "\<lambda>i. i"]
    by metis
qed

end
