(* ===== verification/FlowLog.thy ===== *)
theory FlowLog
  imports Conn
begin

text \<open>
  What the transport writes to the lab log: every call of \<open>log_event\<close> in \<open>src/src/transport.rs\<close>, as
  the list of events each task sends to its logger, and the ids the tasks log under. The clock
  reading of a row is an argument, indexed by the row's number. The lemmas say that the log tells the
  truth: it has a row per frame and per message, numbered in order, with the bytes that were carried,
  and the two ends of a wire log the same frames.
\<close>

section \<open>The rows of each task\<close>

text \<open>\<open>lab\<close> says whether a logger is held.\<close>

definition log_event :: "bool \<Rightarrow> nat option \<Rightarrow> rstr \<Rightarrow> nat \<Rightarrow> nat \<Rightarrow> nat \<Rightarrow> rstr \<Rightarrow> lab_event list" where
  "log_event lab now event conn sq len kind = (if lab then [LabLog now event conn sq len kind] else [])"

definition kind_label :: "byte \<Rightarrow> rstr" where
  "kind_label kind = (if kind = KIND_REAL then str_of ''real'' else str_of ''dummy'')"

definition frame_label :: "mixed_frame \<Rightarrow> rstr" where
  "frame_label f = (case f of RealFrame _ \<Rightarrow> str_of ''real'' | DummyFrame _ \<Rightarrow> str_of ''dummy'')"

text \<open>\<open>service_flow\<close>: one row per frame, before the frame joins the pending bytes.\<close>

definition emit_log :: "bool \<Rightarrow> (nat \<Rightarrow> nat option) \<Rightarrow> rstr \<Rightarrow> nat \<Rightarrow> nat \<Rightarrow> mixed_frame list \<Rightarrow> lab_event list" where
  "emit_log lab stamp event conn sq fs =
     concat (map (\<lambda>(i, f). log_event lab (stamp i) event conn i (frame_len f) (frame_label f)) (enumerate sq fs))"

fun flow_log ::
  "crypto_ops \<Rightarrow> 'r rng_ops \<Rightarrow> bool \<Rightarrow> (nat \<Rightarrow> nat option) \<Rightarrow> rstr \<Rightarrow> nat \<Rightarrow> flow_event list \<Rightarrow> 'r flow_slot \<Rightarrow>
     lab_event list" where
  "flow_log C R lab stamp event conn [] fl = []"
| "flow_log C R lab stamp event conn (FlowService t clk recv wr # es) fl =
     (case service_flow C R t clk recv wr fl of
        None \<Rightarrow> []
      | Some r \<Rightarrow> emit_log lab stamp event conn (fl_wire_seq fl) (sv_frames r) @
          (if sv_keep r then flow_log C R lab stamp event conn es (sv_flow r) else []))"

text \<open>\<open>strip_and_forward\<close>: a row per frame read, and one per payload before it is written.\<close>

function strip_log ::
  "crypto_ops \<Rightarrow> (nat \<Rightarrow> 'e option) \<Rightarrow> bool \<Rightarrow> (nat \<Rightarrow> nat option) \<Rightarrow> (nat \<Rightarrow> nat option) \<Rightarrow> strip_labels \<Rightarrow> nat \<Rightarrow>
     nat \<Rightarrow> nat \<Rightarrow> 'e wire_in \<Rightarrow> frame_cipher \<Rightarrow> lab_event list" where
  "strip_log C wr lab ws os labels conn wire_seq output_seq w cipher =
     (case read_sealed_frame C w cipher of
        (Inl _, _, _) \<Rightarrow> []
      | (Inr None, _, _) \<Rightarrow> []
      | (Inr (Some (kind, cell)), w', cipher') \<Rightarrow>
          log_event lab (ws wire_seq) (st_wire_event labels) conn wire_seq (length cell) (kind_label kind) @
          (if kind = KIND_REAL \<and> snd (decode_real_cell cell) \<noteq> [] then
             log_event lab (os output_seq) (st_real_event labels) conn output_seq
               (length (snd (decode_real_cell cell))) (str_of ''real'') @
             (case wr output_seq of
                Some _ \<Rightarrow> []
              | None \<Rightarrow> strip_log C wr lab ws os labels conn (wire_seq + 1) (output_seq + 1) w' cipher')
           else strip_log C wr lab ws os labels conn (wire_seq + 1) output_seq w' cipher'))"
  by pat_completeness auto

termination
  by (relation "measure (\<lambda>(C, wr, lab, ws, os, labels, conn, k, seq, w, c). length (fst w))")
    (auto simp: read_sealed_frame_def Let_def enc_frame_len_def KIND_LEN_def split: if_splits option.splits
      prod.splits sum.splits)

declare strip_log.simps [simp del]

text \<open>The receiving loops of a multiplexed wire: a row per frame, then the body.\<close>

function frames_log ::
  "crypto_ops \<Rightarrow> (nat \<Rightarrow> byte \<times> bytes \<Rightarrow> 's \<Rightarrow> ('x + unit) \<times> 's) \<Rightarrow> bool \<Rightarrow> (nat \<Rightarrow> nat option) \<Rightarrow> rstr \<Rightarrow> nat \<Rightarrow>
     nat \<Rightarrow> 'e wire_in \<Rightarrow> frame_cipher \<Rightarrow> 's \<Rightarrow> lab_event list" where
  "frames_log C body lab stamp event conn k w cipher s =
     (case read_sealed_frame C w cipher of
        (Inl _, _, _) \<Rightarrow> []
      | (Inr None, _, _) \<Rightarrow> []
      | (Inr (Some frame), w', cipher') \<Rightarrow>
          log_event lab (stamp k) event conn k (length (snd frame)) (kind_label (fst frame)) @
          (case body k frame s of
             (Inl _, _) \<Rightarrow> []
           | (Inr _, s') \<Rightarrow> frames_log C body lab stamp event conn (k + 1) w' cipher' s'))"
  by pat_completeness auto

termination
  by (relation "measure (\<lambda>(C, body, lab, stamp, event, conn, k, w, c, s). length (fst w))")
    (auto simp: read_sealed_frame_def Let_def enc_frame_len_def KIND_LEN_def split: if_splits option.splits
      prod.splits sum.splits)

declare frames_log.simps [simp del]

definition demux_log ::
  "crypto_ops \<Rightarrow> 'r rng_ops \<Rightarrow> tail_policy \<Rightarrow> (nat \<Rightarrow> nanos) \<Rightarrow> (nat \<Rightarrow> 'r demux_state \<Rightarrow> 'r demux_state) \<Rightarrow> bool \<Rightarrow>
     (nat \<Rightarrow> nat option) \<Rightarrow> nat \<Rightarrow> 'e wire_in \<Rightarrow> frame_cipher \<Rightarrow> 'r demux_state \<Rightarrow> lab_event list" where
  "demux_log C R policy now env lab stamp conn w cipher st =
     frames_log C (demux_body R policy now env) lab stamp (st_wire_event UPLINK_STRIP) conn 0 w cipher st"

definition inbound_log ::
  "crypto_ops \<Rightarrow> (nat \<Rightarrow> mux_wire \<Rightarrow> mux_wire) \<Rightarrow> bool \<Rightarrow> (nat \<Rightarrow> nat option) \<Rightarrow> nat \<Rightarrow> 'e wire_in \<Rightarrow> frame_cipher \<Rightarrow>
     mux_wire \<Rightarrow> lab_event list" where
  "inbound_log C env lab stamp conn w cipher mw =
     frames_log C (inbound_body env) lab stamp (st_wire_event DOWNLINK_STRIP) conn 0 w cipher mw"

text \<open>The writers: a row per message, before it is written.\<close>

fun writer_log ::
  "(nat \<Rightarrow> 'e option) \<Rightarrow> bool \<Rightarrow> (nat \<Rightarrow> nat option) \<Rightarrow> rstr \<Rightarrow> nat \<Rightarrow> nat \<Rightarrow> bytes list \<Rightarrow> lab_event list" where
  "writer_log wr lab stamp event conn i [] = []"
| "writer_log wr lab stamp event conn i (d # ds) =
     log_event lab (stamp i) event conn i (length d) (str_of ''real'') @
     (case wr i of Some _ \<Rightarrow> [] | None \<Rightarrow> writer_log wr lab stamp event conn (i + 1) ds)"

definition bridge_writer_log ::
  "(nat \<Rightarrow> 'e option) \<Rightarrow> bool \<Rightarrow> (nat \<Rightarrow> nat option) \<Rightarrow> nat \<Rightarrow> bytes list \<Rightarrow> bytes list \<Rightarrow> lab_event list" where
  "bridge_writer_log wr lab stamp conn held msgs =
     writer_log wr lab stamp (st_real_event UPLINK_STRIP) conn 0 (held @ msgs)"

definition tor_writer_log ::
  "(nat \<Rightarrow> 'e option) \<Rightarrow> bool \<Rightarrow> (nat \<Rightarrow> nat option) \<Rightarrow> nat \<Rightarrow> bytes list \<Rightarrow> lab_event list" where
  "tor_writer_log wr lab stamp conn msgs = writer_log wr lab stamp (st_real_event DOWNLINK_STRIP) conn 0 msgs"

text \<open>
  The readers (of \<open>shaped_forward\<close>, too): a row per read, before its cells are sent; \<open>accepted\<close> is the
  number of cells after which the receiver of the channel is gone.
\<close>

fun reader_log ::
  "bool \<Rightarrow> (nat \<Rightarrow> nat option) \<Rightarrow> rstr \<Rightarrow> nat \<Rightarrow> nat \<Rightarrow> nat option \<Rightarrow> 'e read_event list \<Rightarrow> lab_event list" where
  "reader_log lab stamp event conn i accepted [] = []"
| "reader_log lab stamp event conn i accepted (RFail e # evs) = []"
| "reader_log lab stamp event conn i accepted (RData bs # evs) =
     (if bs = [] then []
      else log_event lab (stamp i) event conn i (length bs) (str_of ''real'') @
        (let cells = length (chunks CELL_PAYLOAD bs)
         in case accepted of
              None \<Rightarrow> reader_log lab stamp event conn (i + 1) None evs
            | Some n \<Rightarrow> if n < cells then [] else reader_log lab stamp event conn (i + 1) (Some (n - cells)) evs))"

definition bridge_reader_log ::
  "bool \<Rightarrow> (nat \<Rightarrow> nat option) \<Rightarrow> nat \<Rightarrow> nat option \<Rightarrow> 'e read_event list \<Rightarrow> lab_event list" where
  "bridge_reader_log lab stamp conn accepted evs =
     reader_log lab stamp (sl_input_event DOWNLINK_LABELS) conn 0 accepted evs"

definition tor_reader_log ::
  "bool \<Rightarrow> (nat \<Rightarrow> nat option) \<Rightarrow> nat \<Rightarrow> nat option \<Rightarrow> 'e read_event list \<Rightarrow> lab_event list" where
  "tor_reader_log lab stamp conn accepted evs =
     reader_log lab stamp (sl_input_event UPLINK_LABELS) conn 0 accepted evs"

section \<open>The ids the rows are logged under\<close>

text \<open>\<open>lab.as_ref().map(|l| l.next_conn_id()).unwrap_or(0)\<close>.\<close>

definition next_id :: "lab_logger option \<Rightarrow> nat \<times> lab_logger option" where
  "next_id lab =
     (case lab of None \<Rightarrow> (0, None) | Some l \<Rightarrow> let (i, l') = next_conn_id l in (unat i, Some l'))"

text \<open>
  The ids a multiplexing client takes: \<open>get_or_connect_wire\<close> takes one if it has to dial, for the
  wire; \<open>connect_circuit\<close> takes another, for the circuit, once it has its wire (the second flag).
\<close>

datatype client_open = OpenWire bool | OpenCircuit bool bool

fun client_ids :: "client_open list \<Rightarrow> lab_logger option \<Rightarrow> nat list \<times> nat list \<times> lab_logger option" where
  "client_ids [] lab = ([], [], lab)"
| "client_ids (OpenWire dials # os) lab =
     (let (i, lab1) = (if dials then next_id lab else (0, lab)); (ws, cs, lab2) = client_ids os lab1
      in (if dials then i # ws else ws, cs, lab2))"
| "client_ids (OpenCircuit dials has_wire # os) lab =
     (let (i, lab1) = (if dials then next_id lab else (0, lab));
          (j, lab2) = (if has_wire then next_id lab1 else (0, lab1));
          (ws, cs, lab3) = client_ids os lab2
      in (if dials then i # ws else ws, if has_wire then j # cs else cs, lab3))"

section \<open>Lemmas\<close>

lemma logged_log_event [simp]:
  "logged (log_event lab now event conn sq len kind) =
     (if lab then [\<lparr>row_unix_nanos = (case now of None \<Rightarrow> 0 | Some t \<Rightarrow> t), row_event = event, row_conn_id = conn,
        row_seq = sq, row_bytes = len, row_kind = kind\<rparr>] else [])"
  by (simp add: log_event_def)

lemma logged_concat: "logged (concat es) = concat (map logged es)"
  by (induction es) (simp_all add: logged_append)

text \<open>What the clock has no part in.\<close>

definition row_shape :: "log_row \<Rightarrow> nat \<times> nat \<times> rstr" where
  "row_shape r = (row_seq r, row_bytes r, row_kind r)"

definition frame_shapes :: "nat \<Rightarrow> (byte \<times> bytes) list \<Rightarrow> (nat \<times> nat \<times> rstr) list" where
  "frame_shapes sq ms = map (\<lambda>(i, m). (i, length (snd m), kind_label (fst m))) (enumerate sq ms)"

lemma frame_shapes_simps [simp]:
  "frame_shapes sq [] = []"
  "frame_shapes sq (m # ms) = (sq, length (snd m), kind_label (fst m)) # frame_shapes (sq + 1) ms"
  by (simp_all add: frame_shapes_def)

lemma frame_shapes_append:
  "frame_shapes sq (xs @ ys) = frame_shapes sq xs @ frame_shapes (sq + length xs) ys"
  by (induction xs arbitrary: sq) simp_all

lemma frame_label_kind: "frame_label f = kind_label (fst (frame_msg f))"
  by (cases f) (simp_all add: frame_label_def kind_label_def frame_msg_def KIND_REAL_def KIND_DUMMY_def)

lemma emit_log_rows:
  "map row_shape (logged (emit_log True stamp event conn sq fs)) = frame_shapes sq (map frame_msg fs)"
  "\<forall>r\<in>set (logged (emit_log lab stamp event conn sq fs)). row_event r = event \<and> row_conn_id r = conn"
  unfolding emit_log_def
  by (induction fs arbitrary: sq) (auto simp: logged_append row_shape_def frame_label_kind frame_msg_len)

lemma emit_log_append:
  "emit_log lab stamp event conn sq (fs @ gs) =
     emit_log lab stamp event conn sq fs @ emit_log lab stamp event conn (sq + length fs) gs"
  by (simp add: emit_log_def enumerate_append_eq)

lemma flow_log_frames:
  assumes "flow_inv C R fl" "\<forall>e\<in>set es. flow_adm fl e" "flow_run C R es fl = Some (w, fs, got, fl')"
  shows "flow_log C R lab stamp event conn es fl = emit_log lab stamp event conn (fl_wire_seq fl) fs"
  using assms
proof (induction es arbitrary: fl w fs got)
  case Nil
  then show ?case by (simp add: emit_log_def)
next
  case (Cons e es)
  obtain t clk recv wr where e: "e = FlowService t clk recv wr" by (cases e)
  obtain r where r: "service_flow C R t clk recv wr fl = Some r" "flow_inv C R (sv_flow r)"
    "fl_wire_seq (sv_flow r) = fl_wire_seq fl + length (sv_frames r)"
    using service_flow_ok [OF Cons.prems(1), of clk recv t wr] Cons.prems(2) e by auto
  show ?case
  proof (cases "sv_keep r")
    case False
    then show ?thesis using Cons.prems(3) r(1) e by simp
  next
    case True
    have adm: "\<forall>e\<in>set es. flow_adm (sv_flow r) e"
      using Cons.prems(2) by (metis flow_adm.elims(1) flow_adm.simps list.set_intros(2))
    obtain w1 fs1 got1 where 1: "flow_run C R es (sv_flow r) = Some (w1, fs1, got1, fl')" "fs = sv_frames r @ fs1"
      using Cons.prems(3) True r(1) e by (auto simp: Option.bind_eq_Some_conv split: prod.splits)
    show ?thesis using Cons.IH [OF r(2) adm 1(1)] True r(1,3) e 1(2) by (simp add: emit_log_append)
  qed
qed

text \<open>A frame that opens carries a cell of 514 bytes, whoever sent it.\<close>

lemma read_sealed_len:
  fixes w :: "'e wire_in"
  assumes "aead_ok C" "read_sealed_frame C w c = (Inr (Some m), w', c')"
  shows "length (snd m) = CELL_BYTES"
proof -
  let ?n = "enc_frame_len CELL_BYTES"
  have o: "?n \<le> length (fst w)" "cipher_open C (take ?n (fst w)) c = (Inr (fst m, snd m) :: 'e handshake_error + byte \<times> bytes, c')"
    using assms(2) by (auto simp: read_sealed_frame_def Let_def split: if_splits option.splits prod.splits sum.splits)
  have "length (take ?n (fst w)) = enc_frame_len (length (snd m))"
    using cipher_roundtrip(2) [OF assms(1) cipher_open_sealed [OF assms(1) o(2)]] .
  then show ?thesis using o(1) by (simp add: enc_frame_len_def)
qed

text \<open>The rows of one event, and of a task of one connection whose wire rows have the size of a cell.\<close>

definition rows_of :: "rstr \<Rightarrow> log_row list \<Rightarrow> log_row list" where
  "rows_of event rows = filter (\<lambda>r. row_event r = event) rows"

lemma rows_of_simps [simp]:
  "rows_of event [] = []" "rows_of event (r # rs) = (if row_event r = event then r # rows_of event rs else rows_of event rs)"
  "rows_of event (rs @ ts) = rows_of event rs @ rows_of event ts"
  by (simp_all add: rows_of_def)

definition row_sum :: "log_row list \<Rightarrow> nat" where
  "row_sum rows = sum_list (map row_bytes rows)"

lemma row_sum_simps [simp]: "row_sum [] = 0" "row_sum (r # rs) = row_bytes r + row_sum rs"
  by (simp_all add: row_sum_def)

text \<open>Rows of frames and rows of payloads.\<close>

definition wire_row :: "rstr \<Rightarrow> nat \<Rightarrow> log_row \<Rightarrow> bool" where
  "wire_row event conn r \<longleftrightarrow> row_event r = event \<and> row_conn_id r = conn \<and> row_bytes r = CELL_BYTES \<and>
     (row_kind r = str_of ''real'' \<or> row_kind r = str_of ''dummy'')"

definition real_row :: "rstr \<Rightarrow> nat \<Rightarrow> log_row \<Rightarrow> bool" where
  "real_row event conn r \<longleftrightarrow> row_event r = event \<and> row_conn_id r = conn \<and> row_kind r = str_of ''real''"

definition strip_rows_ok :: "strip_labels \<Rightarrow> nat \<Rightarrow> nat \<Rightarrow> nat \<Rightarrow> log_row list \<Rightarrow> bool" where
  "strip_rows_ok labels conn k i rows \<longleftrightarrow>
     (\<forall>r\<in>set rows. wire_row (st_wire_event labels) conn r \<or> real_row (st_real_event labels) conn r) \<and>
     map row_seq (rows_of (st_wire_event labels) rows) = [k..<k + length (rows_of (st_wire_event labels) rows)] \<and>
     map row_seq (rows_of (st_real_event labels) rows) = [i..<i + length (rows_of (st_real_event labels) rows)]"

lemma upt_step: "[k..<Suc (k + n)] = k # [Suc k..<Suc (k + n)]"
  by (simp add: upt_conv_Cons del: upt_Suc)

lemma strip_rows_ok_wire:
  assumes "st_wire_event labels \<noteq> st_real_event labels" "strip_rows_ok labels conn (k + 1) i rows"
    "wire_row (st_wire_event labels) conn r" "row_seq r = k"
  shows "strip_rows_ok labels conn k i (r # rows)"
  using assms by (simp add: strip_rows_ok_def wire_row_def upt_step del: upt_Suc)

lemma strip_rows_ok_real:
  assumes "st_wire_event labels \<noteq> st_real_event labels" "strip_rows_ok labels conn k (i + 1) rows"
    "real_row (st_real_event labels) conn r" "row_seq r = i"
  shows "strip_rows_ok labels conn k i (r # rows)"
  using assms by (simp add: strip_rows_ok_def real_row_def upt_step not_sym [OF assms(1)] del: upt_Suc)

lemma strip_rows_ok_Nil [simp]: "strip_rows_ok labels conn k i []"
  by (simp add: strip_rows_ok_def)

lemma strip_log_rows:
  fixes w :: "'e wire_in"
  assumes "aead_ok C" "st_wire_event labels \<noteq> st_real_event labels"
  shows "strip_rows_ok labels conn k i (logged (strip_log C wr True ws os labels conn k i w c))"
  using assms
proof (induction C wr True ws os labels conn k i w c rule: strip_log.induct)
  case (1 C wr ws os labels conn k i w c)
  note ne = 1(4)
  show ?case
  proof (cases "\<exists>m w' c'. read_sealed_frame C w c = (Inr (Some m), w', c')")
    case False
    then show ?thesis
      by (subst strip_log.simps) (auto split: prod.splits sum.splits option.splits)
  next
    case True
    then obtain kind cell w' c' where r: "read_sealed_frame C w c = (Inr (Some (kind, cell)), w', c')" by auto
    have l: "length cell = CELL_BYTES" using read_sealed_len [OF 1(3) r] by simp
    note wire = strip_rows_ok_wire [OF ne]
    show ?thesis
    proof (cases "kind = KIND_REAL \<and> snd (decode_real_cell cell) \<noteq> []")
      case False
      have ih: "strip_rows_ok labels conn (k + 1) i (logged (strip_log C wr True ws os labels conn (k + 1) i w' c'))"
        using 1(2) r 1(3,4) False by auto
      show ?thesis
        unfolding strip_log.simps [of C wr True ws os labels conn k i w c] r
        using ih False by (auto simp: logged_append l wire_row_def kind_label_def intro!: wire)
    next
      case T: True
      define more_log where "more_log = (case wr i of Some _ \<Rightarrow> []
        | None \<Rightarrow> strip_log C wr True ws os labels conn (k + 1) (i + 1) w' c')"
      have ih: "strip_rows_ok labels conn (k + 1) (i + 1) (logged more_log)"
        unfolding more_log_def using 1(1) r 1(3,4) T by (auto split: option.split)
      obtain rw rr where rows: "logged (strip_log C wr True ws os labels conn k i w c) = rw # rr # logged more_log"
        "wire_row (st_wire_event labels) conn rw" "row_seq rw = k"
        "real_row (st_real_event labels) conn rr" "row_seq rr = i"
        unfolding strip_log.simps [of C wr True ws os labels conn k i w c] r
        using T l by (simp add: logged_append more_log_def wire_row_def real_row_def kind_label_def)
      show ?thesis
        unfolding rows(1) using rows ih by (intro wire strip_rows_ok_real [OF ne]) simp_all
    qed
  qed
qed

text \<open>With writes that succeed, the rows of the payloads add up to what was forwarded.\<close>

lemma strip_log_bytes:
  fixes w :: "'e wire_in"
  assumes "st_wire_event labels \<noteq> st_real_event labels"
  shows "row_sum (rows_of (st_real_event labels) (logged (strip_log C (\<lambda>_. None) True ws os labels conn k i w c))) =
    length (snd (strip_loop C (\<lambda>_. None) i w c))"
  using assms
proof (induction C "\<lambda>_ :: nat. None :: 'e option" True ws os labels conn k i w c rule: strip_log.induct)
  case (1 C ws os labels conn k i w c)
  show ?case
    by (subst strip_log.simps, subst strip_loop.simps)
      (use 1 in \<open>auto simp: logged_append split: prod.splits sum.splits option.splits\<close>)
qed

text \<open>Both receiving loops log, of what a sender sealed, a row per frame.\<close>

lemma strip_log_sealed:
  assumes "aead_ok C" "\<forall>f\<in>set fs. frame_len f = CELL_BYTES" "length rest < enc_frame_len CELL_BYTES"
    and "st_wire_event labels \<noteq> st_real_event labels"
  shows "map row_shape (rows_of (st_wire_event labels)
      (logged (strip_log C (\<lambda>_. None) True ws os labels conn k i (wire_bytes C fs c @ rest, None :: 'e option) c))) =
    frame_shapes k (map frame_msg fs)"
  using assms(2)
proof (induction fs arbitrary: c k i)
  case Nil
  then show ?case using assms(3) by (simp add: strip_log.simps read_sealed_frame_def Let_def)
next
  case (Cons f fs)
  obtain bs c' where e: "encode_frame C f c = (bs, c')" by (cases "encode_frame C f c")
  have r: "read_sealed_frame C (bs @ wire_bytes C fs c' @ rest, None :: 'e option) c
      = (Inr (Some (frame_msg f)), (wire_bytes C fs c' @ rest, None), c')"
    using read_sealed_step [OF assms(1) e] Cons.prems by simp
  obtain kind cell where m: "frame_msg f = (kind, cell)" by fastforce
  show ?case
    using Cons r assms(4)
    by (auto simp: wire_bytes_Cons(1) [OF e] strip_log.simps [where wire_seq = k] m logged_append row_shape_def)
qed

lemma frames_log_sealed:
  assumes "aead_ok C" "\<forall>f\<in>set fs. frame_len f = CELL_BYTES" "length rest < enc_frame_len CELL_BYTES"
  shows "\<exists>later. frame_shapes k (map frame_msg fs) =
    map row_shape (logged (frames_log C body True stamp event conn k (wire_bytes C fs c @ rest, None :: 'e option) c s)) @ later \<and>
    (fst (fold_frames body k (map frame_msg fs) s) = Inr () \<longrightarrow> later = [])"
  using assms(2)
proof (induction fs arbitrary: c k s)
  case Nil
  then show ?case using assms(3) by (simp add: frames_log.simps read_sealed_frame_def Let_def)
next
  case (Cons f fs)
  obtain bs c' where e: "encode_frame C f c = (bs, c')" by (cases "encode_frame C f c")
  have r: "read_sealed_frame C (bs @ wire_bytes C fs c' @ rest, None :: 'e option) c
      = (Inr (Some (frame_msg f)), (wire_bytes C fs c' @ rest, None), c')"
    using read_sealed_step [OF assms(1) e] Cons.prems by simp
  obtain x s' where b: "body k (frame_msg f) s = (x, s')" by fastforce
  have len: "length (snd (frame_msg f)) = CELL_BYTES" using Cons.prems by (simp add: frame_msg_len)
  show ?case
  proof (cases x)
    case Inl
    then show ?thesis
      using r b by (simp add: wire_bytes_Cons(1) [OF e] frames_log.simps [where k = k] row_shape_def)
  next
    case (Inr u)
    from Cons.IH [of "k + 1" c' s'] Cons.prems obtain later where
      "frame_shapes (k + 1) (map frame_msg fs) =
        map row_shape (logged (frames_log C body True stamp event conn (k + 1) (wire_bytes C fs c' @ rest, None :: 'e option) c' s')) @ later"
      "fst (fold_frames body (k + 1) (map frame_msg fs) s') = Inr () \<longrightarrow> later = []" by auto
    then show ?thesis
      using r b Inr by (simp add: wire_bytes_Cons(1) [OF e] frames_log.simps [where k = k] row_shape_def logged_append)
  qed
qed

lemma frames_log_rows:
  fixes w :: "'e wire_in"
  assumes "aead_ok C"
  shows "\<forall>r\<in>set (logged (frames_log C body lab stamp event conn k w c s)). wire_row event conn r"
  using assms
proof (induction C body lab stamp event conn k w c s rule: frames_log.induct)
  case (1 C body lab stamp event conn k w c s)
  have row: "wire_row event conn \<lparr>row_unix_nanos = t, row_event = event, row_conn_id = conn, row_seq = k,
      row_bytes = length (snd m), row_kind = kind_label (fst m)\<rparr>"
    if "read_sealed_frame C w c = (Inr (Some m), w', c')" for t m w' c'
    using read_sealed_len [OF 1(2) that] by (simp add: wire_row_def kind_label_def)
  show ?case
  proof (cases "\<exists>m w' c'. read_sealed_frame C w c = (Inr (Some m), w', c')")
    case False
    then show ?thesis by (subst frames_log.simps) (auto split: prod.splits sum.splits option.splits)
  next
    case True
    then obtain m w' c' where r: "read_sealed_frame C w c = (Inr (Some m), w', c')" by blast
    obtain x s' where b: "body k m s = (x, s')" by fastforce
    have ih: "\<forall>r\<in>set (logged (frames_log C body lab stamp event conn (k + 1) w' c' s')). wire_row event conn r"
      if "x = Inr u" for u using 1(1) r b 1(2) that by auto
    show ?thesis
      unfolding frames_log.simps [of C body lab stamp event conn k w c s] r
      using ih row [OF r] b by (auto simp: logged_append split: sum.split)
  qed
qed

lemma emit_log_wire:
  assumes "\<forall>f\<in>set fs. frame_len f = CELL_BYTES"
  shows "\<forall>r\<in>set (logged (emit_log lab stamp event conn sq fs)). wire_row event conn r"
  using assms unfolding emit_log_def
  by (induction fs arbitrary: sq) (auto simp: logged_append wire_row_def frame_label_kind kind_label_def)

section \<open>Writers and readers\<close>

lemma writer_log_rows:
  "\<forall>r\<in>set (logged (writer_log wr lab stamp event conn i msgs)).
     real_row event conn r"
  by (induction msgs arbitrary: i) (auto simp: logged_append real_row_def split: option.splits)

lemma writer_log_bytes:
  "row_sum (logged (writer_log (\<lambda>_. None) True stamp event conn i msgs)) = length (snd (write_all_msgs (\<lambda>_. None) i msgs))"
  by (induction msgs arbitrary: i) (auto simp: logged_append split: prod.splits)

lemma reader_log_rows:
  "\<forall>r\<in>set (logged (reader_log lab stamp event conn i accepted evs)).
     real_row event conn r"
  by (induction lab stamp event conn i accepted evs rule: reader_log.induct)
    (auto simp: logged_append Let_def real_row_def split: option.splits if_splits)

lemma reader_log_bytes:
  "row_sum (logged (reader_log True stamp event conn i None evs)) = length (read_bytes evs)"
  by (induction True stamp event conn i "None :: nat option" evs rule: reader_log.induct) (auto simp: logged_append Let_def)

section \<open>Ids\<close>

fun id_count :: "client_open list \<Rightarrow> nat" where
  "id_count [] = 0"
| "id_count (OpenWire dials # os) = (if dials then 1 else 0) + id_count os"
| "id_count (OpenCircuit dials has_wire # os) = (if dials then 1 else 0) + (if has_wire then 1 else 0) + id_count os"

lemma next_id_some [simp]:
  "next_id (Some l) = (unat (lab_next_conn_id l), Some (l\<lparr>lab_next_conn_id := lab_next_conn_id l + 1\<rparr>))"
  by (simp add: next_id_def next_conn_id_def)

text \<open>The ids are those of consecutive values of the counter, each taken once.\<close>

definition ids_from :: "u64 \<Rightarrow> nat \<Rightarrow> nat list" where
  "ids_from n k = map (\<lambda>j. unat (n + of_nat j)) [0..<k]"

lemma ids_from_simps [simp]: "ids_from n 0 = []" "ids_from n (Suc k) = unat n # ids_from (n + 1) k"
proof -
  have "[0..<Suc k] = 0 # map Suc [0..<k]" by (simp add: upt_conv_Cons map_Suc_upt del: upt_Suc)
  then show "ids_from n (Suc k) = unat n # ids_from (n + 1) k"
    by (simp add: ids_from_def comp_def ac_simps del: upt_Suc)
qed (simp add: ids_from_def)

lemma client_ids_mset:
  assumes "client_ids os (Some l) = (ws, cs, lab')"
  shows "mset (ws @ cs) = mset (ids_from (lab_next_conn_id l) (id_count os))"
  using assms
proof (induction os arbitrary: l ws cs lab')
  case (Cons open_c os)
  show ?case
    using Cons.prems Cons.IH
    by (cases open_c) (fastforce simp: Let_def split: prod.splits if_splits)+
qed simp

lemma unat_offset_inj:
  fixes n :: u64
  assumes "unat (n + of_nat i) = unat (n + of_nat j)" "i < 2 ^ 64" "j < 2 ^ 64"
  shows "i = j"
proof -
  have "n + of_nat i = n + of_nat j" using assms(1) by (simp only: unsigned_word_eqI)
  then have "(of_nat i :: u64) = of_nat j" by simp
  then show ?thesis using assms(2,3) by (simp add: word_of_nat_eq_iff take_bit_nat_eq_self)
qed

lemma client_ids_distinct:
  assumes "client_ids os (Some l) = (ws, cs, lab')" "id_count os \<le> 2 ^ 64"
  shows "distinct (ws @ cs)"
proof -
  have "distinct (ids_from (lab_next_conn_id l) (id_count os))"
    unfolding ids_from_def using assms(2) unat_offset_inj by (fastforce simp: distinct_map inj_on_def)
  then show ?thesis using client_ids_mset [OF assms(1)] mset_eq_imp_distinct_iff by metis
qed

section \<open>Properties\<close>

lemma flow_open_seq:
  assumes "flow_open R H G os r_iat r_th clk gated policy cipher = Some (Inr fl, os')"
  shows "fl_wire_seq fl = 0"
proof -
  obtain x os2 where g: "session_generate G os (clk 0) = (x, os2)" by fastforce
  show ?thesis
    using assms g
    by (cases x; auto simp: flow_open_def Let_def Option.bind_eq_Some_conv)
      (auto split: sum.splits)
qed

text \<open>The bytes an opened flow has written are those of whole frames and a part of the next.\<close>

lemma flow_wire_split:
  assumes "rng_ok R" "aead_ok C" "session_generate G os (clk 0) = (Inr seeds, os')"
    and "flow_open R H G os r_iat r_th clk gated policy cipher = Some (Inr fl, os')"
    and "\<forall>e\<in>set es. flow_adm fl e" "flow_run C R es fl = Some (w, fs, got, fl')"
  obtains fs1 fs2 rest where "fs = fs1 @ fs2" "w = wire_bytes C fs1 cipher @ rest" "length rest < enc_frame_len CELL_BYTES"
    "fl_pending fl' = [] \<longrightarrow> fs2 = []" "\<forall>f\<in>set fs. frame_len f = CELL_BYTES" "flow_inv C R fl"
proof -
  have fl: "flow_inv C R fl" "fl_pending fl = []" "fl_cipher fl = cipher"
    using flow_open_ok [where clk = clk, OF assms(1-3), of H r_iat r_th gated policy cipher] assms(4) by auto
  have run: "wire_bytes C fs cipher = w @ fl_pending fl'" "\<forall>f\<in>set fs. frame_len f = CELL_BYTES"
    using flow_run_ok [OF fl(1) assms(5)] fl assms(6) by auto
  show thesis
  proof (cases "fl_pending fl' = []")
    case True
    then show thesis using that [of fs "[]" "[]"] run fl(1) by (simp add: enc_frame_len_def KIND_LEN_def)
  next
    case False
    then show thesis using that wire_prefix_split [OF assms(2) run(2) run(1) [symmetric]] run(2) fl(1) by blast
  qed
qed

lemma strip_labels_differ:
  "labels \<in> {UPLINK_STRIP, DOWNLINK_STRIP} \<Longrightarrow> st_wire_event labels \<noteq> st_real_event labels"
  by (auto simp: UPLINK_STRIP_def DOWNLINK_STRIP_def str_of_def)

text \<open>C9: The two ends of a wire log the same frames. However a flow was opened and served, its log has
  a row for every frame it sealed, numbered from zero without a gap, each of 514 bytes; the log of the
  peer that strips the bytes written so far, and the log of the server's loop over the same bytes, have
  for their wire event a prefix of these rows: the same numbers, sizes and kinds in the same order. The
  rows are all there once everything is written and the loop has not refused the client.\<close>

theorem both_ends_log_alike:
  fixes Q :: "'q rng_ops"
  assumes "rng_ok R" "aead_ok C" "session_generate G os (clk 0) = (Inr seeds, os')"
    and "flow_open R H G os r_iat r_th clk gated policy cipher = Some (Inr fl, os')"
    and "\<forall>e\<in>set es. flow_adm fl e" "flow_run C R es fl = Some (w, fs, got, fl')"
    and "labels \<in> {UPLINK_STRIP, DOWNLINK_STRIP}"
    and "sent = logged (flow_log C R True stamp event conn es fl)"
    and "seen = rows_of (st_wire_event labels)
      (logged (strip_log C (\<lambda>_. None) True ws ps labels conn' 0 0 (w, None :: 'e option) cipher))"
    and "demuxed = logged (demux_log C Q tail now env True ws conn' (w, None :: 'e option) cipher st0)"
  shows "(\<forall>r\<in>set sent. row_event r = event \<and> row_conn_id r = conn \<and> row_bytes r = 514) \<and>
    map row_seq sent = [0..<length fs] \<and>
    prefix (map row_shape seen) (map row_shape sent) \<and> prefix (map row_shape demuxed) (map row_shape sent) \<and>
    (fl_pending fl' = [] \<longrightarrow> map row_shape seen = map row_shape sent \<and>
      (fst (mux_demux_to_bridges C Q tail now env (w, None :: 'e option) cipher st0) = Inr () \<longrightarrow>
         map row_shape demuxed = map row_shape sent))"
proof -
  obtain fs1 fs2 rest where s: "fs = fs1 @ fs2" "w = wire_bytes C fs1 cipher @ rest" "length rest < enc_frame_len CELL_BYTES"
    "fl_pending fl' = [] \<longrightarrow> fs2 = []" "\<forall>f\<in>set fs. frame_len f = CELL_BYTES" "flow_inv C R fl"
    using flow_wire_split [where clk = clk, OF assms(1-6)] by blast
  have len: "\<forall>f\<in>set fs1. frame_len f = CELL_BYTES" using s(1,5) by simp
  have emitted: "sent = logged (emit_log True stamp event conn 0 fs)"
    using flow_log_frames [OF s(6) assms(5,6)] flow_open_seq [OF assms(4)] by (simp add: assms(8))
  have shapes: "map row_shape sent = frame_shapes 0 (map frame_msg fs1) @ frame_shapes (length fs1) (map frame_msg fs2)"
    using frame_shapes_append [of 0 "map frame_msg fs1" "map frame_msg fs2"] by (simp add: emitted emit_log_rows(1) s(1))
  have "map row_seq sent = map fst (map row_shape sent)" by (simp add: row_shape_def)
  then have numbers: "map row_seq sent = [0..<length fs]"
    by (simp add: emitted emit_log_rows(1) frame_shapes_def case_prod_unfold comp_def)
  have wire: "\<forall>r\<in>set sent. wire_row event conn r" unfolding emitted by (rule emit_log_wire [OF s(5)])
  have strip: "map row_shape seen = frame_shapes 0 (map frame_msg fs1)"
    unfolding assms(9) s(2) by (rule strip_log_sealed [OF assms(2) len s(3) strip_labels_differ [OF assms(7)]])
  obtain later where later: "frame_shapes 0 (map frame_msg fs1) = map row_shape demuxed @ later"
    "fst (fold_frames (demux_body Q tail now env) 0 (map frame_msg fs1) st0) = Inr () \<longrightarrow> later = []"
    using frames_log_sealed [OF assms(2) len s(3), of 0 "demux_body Q tail now env" ws "st_wire_event UPLINK_STRIP" conn' cipher st0]
    unfolding assms(10) demux_log_def s(2) by (elim exE conjE)
  have res: "fst (mux_demux_to_bridges C Q tail now env (w, None :: 'e option) cipher st0) =
      wire_result (fst (fold_frames (demux_body Q tail now env) 0 (map frame_msg fs1) st0))"
    unfolding mux_demux_to_bridges_def s(2) for_frames_sealed [OF assms(2) len s(3)] by simp
  have rows: "\<forall>r\<in>set sent. row_event r = event \<and> row_conn_id r = conn \<and> row_bytes r = 514"
    using wire by (simp add: wire_row_def CELL_BYTES_def)
  have seen: "prefix (map row_shape seen) (map row_shape sent)" unfolding shapes strip by simp
  have demuxed: "prefix (map row_shape demuxed) (map row_shape sent)" unfolding shapes later(1) by simp
  have all: "fl_pending fl' = [] \<Longrightarrow> map row_shape sent = frame_shapes 0 (map frame_msg fs1)"
    using s(4) by (simp add: shapes)
  have ended: "later = []" if "fst (mux_demux_to_bridges C Q tail now env (w, None :: 'e option) cipher st0) = Inr ()"
    using that later(2) unfolding res by (auto simp: wire_result_def split: sum.splits)
  have drained: "map row_shape demuxed = map row_shape sent" if "fl_pending fl' = []" "later = []"
    using all [OF that(1)] later(1) that(2) by simp
  show ?thesis
  proof (intro conjI impI rows numbers seen demuxed)
    assume p: "fl_pending fl' = []"
    show "map row_shape seen = map row_shape sent" unfolding strip by (rule all [OF p, symmetric])
    assume "fst (mux_demux_to_bridges C Q tail now env (w, None :: 'e option) cipher st0) = Inr ()"
    then show "map row_shape demuxed = map row_shape sent" using drained [OF p] ended by blast
  qed
qed


theorem both_ends_log_alike_witness:
  "\<exists>w fs got fl'. flow_run toy_crypto least_rng [sample_service] sample_flow = Some (w, fs, got, fl') \<and>
    map row_seq (logged (flow_log toy_crypto least_rng True Some (str_of ''client_wire_output'') 3 [sample_service] sample_flow)) =
      [0..<length fs]"
proof -
  obtain w fs got fl' where run: "flow_run toy_crypto least_rng [sample_service] sample_flow = Some (w, fs, got, fl')"
    using sample_run by blast
  obtain seeds where s: "session_generate byte_source 7 0 = (Inr seeds, 9)" using sample_seeds by blast
  show ?thesis
    using both_ends_log_alike [where clk = "\<lambda>i. i" and labels = UPLINK_STRIP and 'e = unit, OF least_rng_ok toy_aead_ok s
        sample_flow_ungated sample_service_adm run _ refl refl refl] run by blast
qed


end
