(* ===== verification/LogAudit.thy ===== *)
theory LogAudit
  imports FlowLog Analyze
begin

text \<open>
  What \<open>mixtor-correlate\<close> can see in the logs the programs write: the sessions of the client and of
  the server as interleavings of their tasks' rows, composed with the attacks. The lemmas show that
  frame sizes never give a flow away, and that the audit of a multiplexing client's log is blind, as
  the wires and the circuits are logged under different ids.
\<close>

section \<open>A log that never has both sides of a flow\<close>

definition split_ids :: "log_record list \<Rightarrow> event_names \<Rightarrow> bool" where
  "split_ids records ev \<longleftrightarrow>
     (\<forall>i. (\<forall>r\<in>set records. lr_conn_id r = i \<longrightarrow> lr_event r \<noteq> ev_wire ev) \<or>
          (\<forall>r\<in>set records. lr_conn_id r = i \<longrightarrow> lr_event r \<noteq> ev_real ev))"

definition zeros :: "real list \<Rightarrow> bool" where
  "zeros xs \<longleftrightarrow> (\<forall>x\<in>set xs. x = 0)"

lemma zeros_replicate [simp]: "zeros (replicate n 0)"
  by (simp add: zeros_def)

lemma pearson_const_right:
  assumes "\<forall>y\<in>set b. y = c"
  shows "pearson a b = 0"
proof -
  define n where "n = min (length a) (length b)"
  have "mean (take n b) = c" if "2 \<le> n"
    using assms that by (intro mean_const) (auto simp: n_def dest: in_set_takeD)
  then have "(\<Sum>(x, y)\<leftarrow>zip (take n a) (take n b). (y - mean (take n b)) * (y - mean (take n b))) = 0" if "2 \<le> n"
    using that assms by (intro sum_list_zero_on) (auto dest!: set_zip_rightD in_set_takeD)
  then show ?thesis unfolding pearson_def Let_def n_def [symmetric] by simp
qed

lemma shifted_pearson_const_right:
  assumes "\<forall>y\<in>set b. y = c"
  shows "shifted_pearson a b lag = 0"
  unfolding shifted_pearson_def Let_def using assms by (intro pearson_const_right [of _ c]) auto

lemma peak_const_right:
  assumes "\<forall>y\<in>set b. y = c"
  shows "peak_cross_correlation a b m = (0, 0)"
proof -
  have "peak_step a b n mo l (0, 0) = (0, 0)" for n mo l
    using assms by (simp add: peak_step_def shifted_pearson_const_right)
  then have "fold (peak_step a b n mo) lags (0, 0) = (0, 0)" for n mo lags
    by (induction lags) simp_all
  then show ?thesis by (simp add: peak_cross_correlation_def Let_def)
qed

lemma zeros_uncorrelated:
  assumes "zeros a \<or> zeros b"
  shows "pearson a b = 0" "peak_cross_correlation a b m = (0, 0)"
  using assms pearson_const [of a 0 b] peak_const [of a 0 b m] pearson_const_right [of b 0 a] peak_const_right [of b 0 a m]
  by (auto simp: zeros_def)

text \<open>A side without an event keeps its series at zero.\<close>

lemma bin_records_untouched:
  assumes "bin_records ev t0 b rs (wire, real_s) = Some (w, v)" "\<forall>r\<in>set rs. relevant_event ev r"
  shows "((\<forall>r\<in>set rs. lr_event r \<noteq> ev_wire ev) \<longrightarrow> w = wire) \<and> ((\<forall>r\<in>set rs. lr_event r \<noteq> ev_real ev) \<longrightarrow> v = real_s)"
  using assms
proof (induction rs arbitrary: wire real_s)
  case (Cons r rs)
  have "relevant_event ev r" "\<forall>r\<in>set rs. relevant_event ev r" using Cons.prems(2) by auto
  then show ?case
    using Cons.prems(1) Cons.IH by (fastforce simp: Let_def relevant_event_def split: if_splits option.splits)
qed simp

lemma split_series:
  assumes "split_ids records ev" "aligned_series records ev width (Some i) = Some (Some (w, v))"
  shows "zeros w \<or> zeros v"
proof -
  define rel where "rel = filter (conn_relevant ev (Some i)) records"
  obtain t0 b n where "bin_records ev t0 b rel (replicate n 0, replicate n 0) = Some (w, v)"
    using assms(2) unfolding aligned_series_def rel_def [symmetric] by (auto simp: Let_def split: if_splits option.splits)
  from bin_records_untouched [OF this] have
    "(\<forall>r\<in>set rel. lr_event r \<noteq> ev_wire ev) \<longrightarrow> zeros w" "(\<forall>r\<in>set rel. lr_event r \<noteq> ev_real ev) \<longrightarrow> zeros v"
    by (auto simp: rel_def conn_relevant_def)
  moreover have "(\<forall>r\<in>set rel. lr_event r \<noteq> ev_wire ev) \<or> (\<forall>r\<in>set rel. lr_event r \<noteq> ev_real ev)"
    using assms(1) unfolding split_ids_def by (fastforce simp: rel_def conn_relevant_def)
  ultimately show ?thesis by blast
qed

lemma split_volume:
  assumes "split_ids records ev" "0 \<le> volume_corr_threshold cfg" "volume_attack records ev cfg ids = Some (Some u)"
  shows "\<not> va_leaks u"
proof -
  obtain i where "volume_scored records ev cfg i u" using volume_attack_spec(2) [OF assms(3)] by auto
  then obtain w s where ws: "aligned_series records ev (bin_ms cfg) (Some i) = Some (Some (w, s))" "u = volume_candidate cfg i w s"
    by (auto simp: volume_scored_def)
  show ?thesis
    using zeros_uncorrelated [OF split_series [OF assms(1) ws(1)]] assms(2) by (simp add: ws(2) volume_candidate_def)
qed

lemma link_records_untouched:
  assumes "link_records ev t0 b n rs (wire, real_m) = Some (w, v)"
  shows "((\<forall>r\<in>set rs. lr_conn_id r = i \<longrightarrow> lr_event r \<noteq> ev_wire ev) \<longrightarrow> w i = wire i) \<and>
    ((\<forall>r\<in>set rs. lr_conn_id r = i \<longrightarrow> lr_event r \<noteq> ev_real ev) \<longrightarrow> v i = real_m i)"
  using assms
proof (induction rs arbitrary: wire real_m)
  case (Cons r rs)
  then show ?case by (fastforce simp: Let_def split: if_splits option.splits)
qed simp

lemma split_link_series:
  assumes "split_ids records ev" "link_series records ev b ids = Some (Some (w, v))" "i \<in> set ids"
  shows "zeros (the (w i)) \<or> zeros (the (v i))"
proof -
  define m0 where "m0 n = (\<lambda>i. if i \<in> set ids then Some (replicate n (0 :: real)) else None)" for n
  obtain t0 n where "link_records ev t0 b n records (m0 n, m0 n) = Some (w, v)"
    using assms(2) unfolding link_series_def m0_def by (auto simp: Let_def split: if_splits option.splits)
  from link_records_untouched [OF this, of i] show ?thesis
    using assms(1,3) unfolding split_ids_def by (auto simp: m0_def)
qed

text \<open>A later id replaces the first guess only with a positive score.\<close>

lemma link_guess_positive:
  assumes "link_guess lags ws real_m is best = Some g" "snd best = Some b" "0 \<le> b"
  shows "g = fst best \<or> (\<exists>rs. real_m g = Some rs \<and> 0 < snd (peak_cross_correlation ws rs lags))"
  using assms
proof (induction "is" arbitrary: best b)
  case (Cons i "is")
  obtain rs where rs: "real_m i = Some rs" using Cons.prems(1) by (auto split: option.splits)
  define score where "score = snd (peak_cross_correlation ws rs lags)"
  show ?case
  proof (cases "b < score")
    case True
    then have "link_guess lags ws real_m is (i, Some score) = Some g"
      using Cons.prems rs by (simp add: score_def Let_def)
    from Cons.IH [OF this, of score] True Cons.prems(3) rs show ?thesis by (auto simp: score_def)
  next
    case False
    then have "link_guess lags ws real_m is best = Some g"
      using Cons.prems rs by (simp add: score_def Let_def)
    from Cons.IH [OF this Cons.prems(2,3)] show ?thesis .
  qed
qed simp

lemma link_guess_uncorrelated:
  assumes "link_guess lags ws real_m ids (hd ids, None) = Some i" "i \<in> set ids"
    and "\<And>rs. real_m i = Some rs \<Longrightarrow> snd (peak_cross_correlation ws rs lags) = 0"
  shows "i = hd ids"
proof -
  obtain j js where ids: "ids = j # js" using assms(2) by (cases ids) auto
  obtain rs where rs: "real_m j = Some rs" using assms(1) ids by (auto split: option.splits)
  define score where "score = snd (peak_cross_correlation ws rs lags)"
  have "link_guess lags ws real_m js (j, Some score) = Some i" using assms(1) ids rs by (simp add: score_def Let_def)
  moreover have "0 \<le> score" using peak_bounds [of ws rs lags] by (simp add: score_def)
  ultimately show ?thesis using link_guess_positive [of lags ws real_m js "(j, Some score)" i score] assms(3) ids by auto
qed

lemma split_linking:
  assumes "times_ok records" "split_ids records ev" "distinct ids" "linking_attack records ev cfg ids = Some (Some u)"
  shows "\<not> la_beats_chance u"
proof -
  obtain wire real_m ms where s: "link_series records ev (as_u128 (bin_ms cfg * 1000000)) ids = Some (Some (wire, real_m))"
    "u = linking_score ms" "map fst ms = ids" "2 \<le> length ids" "set ids = dom real_m"
    "\<forall>(i, g, c)\<in>set ms. c = (g = i) \<and> link_guess (max_lag_bins cfg) (the (wire i)) real_m ids (hd ids, None) = Some g"
    using linking_total [OF assms(1), of ev cfg ids] assms(4) by auto
  have only: "fst m = hd ids" if m: "m \<in> set ms" "snd (snd m)" for m
  proof -
    obtain i g c where mi: "m = (i, g, c)" by (cases m) auto
    have i: "i \<in> set ids" using m(1) s(3) mi by force
    have g: "link_guess (max_lag_bins cfg) (the (wire i)) real_m ids (hd ids, None) = Some i"
      using s(6) m mi by auto
    have "snd (peak_cross_correlation (the (wire i)) rs (max_lag_bins cfg)) = 0" if "real_m i = Some rs" for rs
      using split_link_series [OF assms(2) s(1) i] zeros_uncorrelated that by auto
    then show ?thesis using link_guess_uncorrelated [OF g i] mi by auto
  qed
  have once: "count_list xs x \<le> 1" if "distinct xs" for xs :: "nat list" and x
    using that by (induction xs) (auto simp: count_notin)
  have mono: "length (filter P xs) \<le> length (filter Q xs)" if "\<forall>x\<in>set xs. P x \<longrightarrow> Q x" for P Q and xs :: "(nat \<times> nat \<times> bool) list"
    using that by (induction xs) auto
  have "length (filter (\<lambda>(_, _, c). c) ms) \<le> length (filter (\<lambda>m. fst m = hd ids) ms)"
    by (rule mono) (use only in \<open>simp add: case_prod_beta\<close>)
  also have "length (filter (\<lambda>m. fst m = hd ids) ms) = count_list (map fst ms) (hd ids)"
    by (induction ms) auto
  also have "count_list (map fst ms) (hd ids) \<le> 1"
    using once assms(3) by (simp add: s(3))
  finally have "length (filter (\<lambda>(_, _, c). c) ms) \<le> 1" .
  moreover have "length ms = length ids" using s(3) by (metis length_map)
  ultimately show ?thesis using linking_score_beats [of ms] s(2,4) by simp
qed

lemma split_total:
  assumes "split_ids records ev" "ev_wire ev \<noteq> ev_real ev" "total_volume_attack records ev cfg ids = Some u"
  shows "\<not> tv_leaks u"
proof -
  define totals where "totals = filter (\<lambda>(_, _, real_t). real_t > 0)
    (map (\<lambda>i. let (wire, real_t) = flow_total records ev i in (i, wire, real_t)) ids)"
  have "w = 0" if m: "(i, w, r) \<in> set totals" for i w r
  proof -
    have t: "flow_total records ev i = (w, r)" "0 < r" using m by (auto simp: totals_def split: prod.splits)
    have "\<not> (\<forall>q\<in>set records. lr_conn_id q = i \<longrightarrow> lr_event q \<noteq> ev_real ev)"
    proof
      assume none: "\<forall>q\<in>set records. lr_conn_id q = i \<longrightarrow> lr_event q \<noteq> ev_real ev"
      have "filter (\<lambda>r. lr_event r \<noteq> ev_wire ev \<and> lr_event r = ev_real ev) (filter (\<lambda>r. lr_conn_id r = i) records) = []"
        using none by (auto simp: filter_empty_conv)
      then show False using t by (simp add: flow_total_def)
    qed
    then have "\<forall>q\<in>set records. lr_conn_id q = i \<longrightarrow> lr_event q \<noteq> ev_wire ev" using assms(1) by (auto simp: split_ids_def)
    then have "filter (\<lambda>r. lr_event r = ev_wire ev) (filter (\<lambda>r. lr_conn_id r = i) records) = []"
      by (auto simp: filter_empty_conv)
    then show "w = 0" using t(1) by (simp add: flow_total_def)
  qed
  then have "\<forall>x\<in>set (map (\<lambda>(_, wire, _). wire) totals). x = 0" by auto
  then have "variance (map (\<lambda>(_, wire, _). wire) totals) = 0" by (rule variance_const)
  then show ?thesis
    using assms(3) unfolding total_volume_attack_def Let_def totals_def [unfolded Let_def, symmetric]
    by (auto simp: MIN_DISTINGUISHABLE_CV_def split: if_splits)
qed

text \<open>Then nothing but the frame sizes can be told apart.\<close>

lemma split_blind:
  assumes "times_ok records" "split_ids records ev" "ev_wire ev \<noteq> ev_real ev"
    and "\<forall>r\<in>set records. lr_event r = ev_wire ev \<longrightarrow> lr_bytes r = s"
    and "0 \<le> size_ks_threshold cfg" "0 \<le> volume_corr_threshold cfg" "run_adversary records ev cfg = Some rep"
  shows "\<not> adversary_won rep"
proof -
  define ids where "ids = distinct_conn_ids records ev"
  obtain coarse where coarse: "coarse_loop records ev cfg ids [1000, 5000] = Some coarse"
    "\<forall>(scale, a)\<in>set coarse. scale \<in> {1000, 5000} \<and>
       volume_attack records ev (coarse_config cfg scale) ids = Some (Some a)"
    using coarse_loop_total [OF assms(1)] by fastforce
  obtain vol where vol: "volume_attack records ev cfg ids = Some vol"
    using volume_loop_total [OF assms(1)] unfolding volume_attack_def by blast
  obtain link where link: "linking_attack records ev cfg ids = Some link"
    using linking_total [OF assms(1), of ev cfg ids] by blast
  have rep: "ar_size_attack rep = size_attack records ev cfg" "ar_volume_attack rep = vol" "ar_volume_coarse rep = coarse"
    "ar_total_volume_attack rep = total_volume_attack records ev cfg ids" "ar_linking_attack rep = link"
    using assms(7) coarse(1) vol link by (auto simp: run_adversary_def Let_def simp flip: ids_def)
  have "\<not> va_leaks a" if m: "(scale, a) \<in> set coarse" for scale a
  proof (rule split_volume [OF assms(2)])
    show "volume_attack records ev (coarse_config cfg scale) ids = Some (Some a)" using coarse(2) m by auto
    show "0 \<le> volume_corr_threshold (coarse_config cfg scale)" using assms(6) by (simp add: coarse_config_def)
  qed
  moreover have "\<not> va_leaks u" if "vol = Some u" for u using split_volume [OF assms(2,6)] vol that by blast
  moreover have "\<not> la_beats_chance u" if "link = Some u" for u
    using split_linking [OF assms(1,2) distinct_conn_ids_distinct [of records ev], folded ids_def] link that by blast
  moreover have "\<not> tv_leaks u" if "total_volume_attack records ev cfg ids = Some u" for u
    using split_total [OF assms(2,3) that] .
  moreover have "\<not> sa_distinguishable u" if "size_attack records ev cfg = Some u" for u
    using size_uniform [OF assms(4,5) that] .
  ultimately show ?thesis using rep by (auto simp: adversary_won_def is_some_and_iff list_ex_iff)
qed

section \<open>Sessions\<close>

text \<open>The interleavings of the rows of concurrent tasks.\<close>

fun merges :: "'a list list \<Rightarrow> 'a list set" where
  "merges [] = {[]}"
| "merges (xs # xss) = (\<Union>ys\<in>merges xss. shuffles xs ys)"

lemma set_merges: "es \<in> merges xss \<Longrightarrow> set es = (\<Union>xs\<in>set xss. set xs)"
  by (induction xss arbitrary: es) (auto dest: set_shuffles)

text \<open>A wire of \<open>MuxClientHandle\<close>: the flow the emitter serves and the inbound task of \<open>MuxWire::connect\<close>.\<close>

record ('r, 'e) wire_task_trace =
  wt_conn :: nat
  wt_flow :: "'r flow_slot"
  wt_events :: "flow_event list"
  wt_inbound :: "'e wire_in"
  wt_cipher :: frame_cipher
  wt_env :: "nat \<Rightarrow> mux_wire \<Rightarrow> mux_wire"
  wt_stamp :: "nat \<Rightarrow> nat option"

definition wire_tasks :: "crypto_ops \<Rightarrow> 'r rng_ops \<Rightarrow> ('r, 'e) wire_task_trace \<Rightarrow> lab_event list list" where
  "wire_tasks C R t =
     [flow_log C R True (wt_stamp t) (sl_wire_event UPLINK_LABELS) (wt_conn t) (wt_events t) (wt_flow t),
      inbound_log C (wt_env t) True (wt_stamp t) (wt_conn t) (wt_inbound t) (wt_cipher t) wire_new]"

text \<open>A circuit: the two tasks of \<open>handle_mux_tor_connection\<close>. A relay of the bridge has the same two.\<close>

record 'e circuit_trace =
  ct_conn :: nat
  ct_reads :: "'e read_event list"
  ct_accepted :: "nat option"
  ct_held :: "bytes list"
  ct_msgs :: "bytes list"
  ct_writes :: "nat \<Rightarrow> 'e option"
  ct_stamp :: "nat \<Rightarrow> nat option"

definition circuit_tasks :: "'e circuit_trace \<Rightarrow> lab_event list list" where
  "circuit_tasks t =
     [tor_writer_log (ct_writes t) True (ct_stamp t) (ct_conn t) (ct_msgs t),
      tor_reader_log True (ct_stamp t) (ct_conn t) (ct_accepted t) (ct_reads t)]"

definition relay_tasks :: "nat \<Rightarrow> 'e circuit_trace \<Rightarrow> lab_event list list" where
  "relay_tasks conn t =
     [bridge_writer_log (ct_writes t) True (ct_stamp t) conn (ct_held t) (ct_msgs t),
      bridge_reader_log True (ct_stamp t) conn (ct_accepted t) (ct_reads t)]"

definition client_log ::
  "crypto_ops \<Rightarrow> 'r rng_ops \<Rightarrow> ('r, 'e) wire_task_trace list \<Rightarrow> 'e circuit_trace list \<Rightarrow> lab_event list set" where
  "client_log C R wires circuits =
     merges (concat (map (wire_tasks C R) wires) @ concat (map circuit_tasks circuits))"

text \<open>A connection of the server: the loop over the uplink, the flow of the downlink, the relays.\<close>

record ('r, 'e) served_trace =
  sr_conn :: nat
  sr_flow :: "'r flow_slot"
  sr_events :: "flow_event list"
  sr_uplink :: "'e wire_in"
  sr_cipher :: frame_cipher
  sr_state :: "'r demux_state"
  sr_policy :: tail_policy
  sr_now :: "nat \<Rightarrow> nanos"
  sr_env :: "nat \<Rightarrow> 'r demux_state \<Rightarrow> 'r demux_state"
  sr_relays :: "'e circuit_trace list"
  sr_stamp :: "nat \<Rightarrow> nat option"

definition served_tasks :: "crypto_ops \<Rightarrow> 'r rng_ops \<Rightarrow> ('r, 'e) served_trace \<Rightarrow> lab_event list list" where
  "served_tasks C R t =
     demux_log C R (sr_policy t) (sr_now t) (sr_env t) True (sr_stamp t) (sr_conn t) (sr_uplink t) (sr_cipher t) (sr_state t) #
     flow_log C R True (sr_stamp t) (sl_wire_event DOWNLINK_LABELS) (sr_conn t) (sr_events t) (sr_flow t) #
     concat (map (relay_tasks (sr_conn t)) (sr_relays t))"

definition server_log :: "crypto_ops \<Rightarrow> 'r rng_ops \<Rightarrow> ('r, 'e) served_trace list \<Rightarrow> lab_event list set" where
  "server_log C R conns = merges (concat (map (served_tasks C R) conns))"

section \<open>The rows of a session\<close>

definition wire_events :: "rstr set" where
  "wire_events = {sl_wire_event UPLINK_LABELS, sl_wire_event DOWNLINK_LABELS, st_wire_event UPLINK_STRIP, st_wire_event DOWNLINK_STRIP}"

definition real_events :: "rstr set" where
  "real_events = {sl_input_event UPLINK_LABELS, sl_input_event DOWNLINK_LABELS, st_real_event UPLINK_STRIP, st_real_event DOWNLINK_STRIP}"

lemma events_disjoint: "wire_events \<inter> real_events = {}"
  by (auto simp: wire_events_def real_events_def UPLINK_LABELS_def DOWNLINK_LABELS_def UPLINK_STRIP_def DOWNLINK_STRIP_def str_of_def)

definition transport_row :: "nat set \<Rightarrow> nat set \<Rightarrow> log_row \<Rightarrow> bool" where
  "transport_row ws cs r \<longleftrightarrow>
     (\<exists>event\<in>wire_events. \<exists>conn\<in>ws. wire_row event conn r) \<or> (\<exists>event\<in>real_events. \<exists>conn\<in>cs. real_row event conn r)"

lemma transport_rowI:
  "wire_row event conn r \<Longrightarrow> event \<in> wire_events \<Longrightarrow> conn \<in> ws \<Longrightarrow> transport_row ws cs r"
  "real_row event conn r \<Longrightarrow> event \<in> real_events \<Longrightarrow> conn \<in> cs \<Longrightarrow> transport_row ws cs r"
  by (auto simp: transport_row_def)

definition task_ok :: "nat set \<Rightarrow> nat set \<Rightarrow> lab_event list \<Rightarrow> bool" where
  "task_ok ws cs es \<longleftrightarrow> (\<forall>r\<in>set (logged es). transport_row ws cs r)"

lemma logged_set: "set (logged es) = (\<Union>e\<in>set es. set (logged [e]))"
proof (induction es)
  case (Cons e es)
  then show ?case using logged_append [of "[e]" es] by simp
qed simp

lemma task_ok_merges:
  assumes "es \<in> merges tss" "\<forall>ts\<in>set tss. task_ok ws cs ts"
  shows "task_ok ws cs es"
proof -
  have "set (logged es) = (\<Union>ts\<in>set tss. set (logged ts))"
    unfolding logged_set [of es] set_merges [OF assms(1)] by (subst logged_set) auto
  then show ?thesis using assms(2) by (auto simp: task_ok_def)
qed

lemma flow_log_ok:
  assumes "flow_inv C R fl" "\<forall>e\<in>set es. flow_adm fl e" "event \<in> wire_events" "conn \<in> ws"
  shows "task_ok ws cs (flow_log C R lab stamp event conn es fl)"
proof -
  obtain w fs got fl' where "flow_run C R es fl = Some (w, fs, got, fl')" "\<forall>f\<in>set fs. frame_len f = CELL_BYTES"
    using flow_run_ok [OF assms(1,2)] by blast
  then show ?thesis
    using flow_log_frames [OF assms(1,2)] emit_log_wire assms(3,4) transport_rowI(1) unfolding task_ok_def by metis
qed

lemma frames_log_ok:
  fixes w :: "'e wire_in"
  assumes "aead_ok C" "event \<in> wire_events" "conn \<in> ws"
  shows "task_ok ws cs (frames_log C body lab stamp event conn k w c s)"
  using frames_log_rows [OF assms(1)] transport_rowI(1) assms(2,3) unfolding task_ok_def by metis

lemma writer_log_ok: "event \<in> real_events \<Longrightarrow> conn \<in> cs \<Longrightarrow> task_ok ws cs (writer_log wr lab stamp event conn i msgs)"
  using writer_log_rows transport_rowI(2) unfolding task_ok_def by metis

lemma reader_log_ok: "event \<in> real_events \<Longrightarrow> conn \<in> cs \<Longrightarrow> task_ok ws cs (reader_log lab stamp event conn i accepted evs)"
  using reader_log_rows transport_rowI(2) unfolding task_ok_def by metis

lemma event_members [simp]:
  "sl_wire_event UPLINK_LABELS \<in> wire_events" "sl_wire_event DOWNLINK_LABELS \<in> wire_events"
  "st_wire_event UPLINK_STRIP \<in> wire_events" "st_wire_event DOWNLINK_STRIP \<in> wire_events"
  "sl_input_event UPLINK_LABELS \<in> real_events" "sl_input_event DOWNLINK_LABELS \<in> real_events"
  "st_real_event UPLINK_STRIP \<in> real_events" "st_real_event DOWNLINK_STRIP \<in> real_events"
  by (simp_all add: wire_events_def real_events_def)

definition flow_trace_ok :: "crypto_ops \<Rightarrow> 'r rng_ops \<Rightarrow> flow_event list \<Rightarrow> 'r flow_slot \<Rightarrow> bool" where
  "flow_trace_ok C R es fl \<longleftrightarrow> flow_inv C R fl \<and> (\<forall>e\<in>set es. flow_adm fl e)"

lemma client_log_rows:
  assumes "aead_ok C" "\<forall>t\<in>set wires. flow_trace_ok C R (wt_events t) (wt_flow t) \<and> wt_conn t \<in> ws"
    and "\<forall>t\<in>set circuits. ct_conn t \<in> cs" "es \<in> client_log C R wires circuits"
  shows "task_ok ws cs es"
proof (rule task_ok_merges [OF assms(4) [unfolded client_log_def]])
  have "task_ok ws cs ts" if "t \<in> set wires" "ts \<in> set (wire_tasks C R t)" for t ts
    using that assms(1,2) by (auto simp: wire_tasks_def inbound_log_def flow_trace_ok_def flow_log_ok frames_log_ok)
  moreover have "task_ok ws cs ts" if "t \<in> set circuits" "ts \<in> set (circuit_tasks t)" for t ts
    using that assms(3) by (auto simp: circuit_tasks_def tor_writer_log_def tor_reader_log_def writer_log_ok reader_log_ok)
  ultimately show "\<forall>ts\<in>set (concat (map (wire_tasks C R) wires) @ concat (map circuit_tasks circuits)). task_ok ws cs ts"
    by auto
qed

lemma server_log_rows:
  assumes "aead_ok C" "\<forall>t\<in>set conns. flow_trace_ok C R (sr_events t) (sr_flow t)" "es \<in> server_log C R conns"
  shows "task_ok (sr_conn ` set conns) (sr_conn ` set conns) es"
proof (rule task_ok_merges [OF assms(3) [unfolded server_log_def]])
  have "task_ok (sr_conn ` set conns) (sr_conn ` set conns) ts" if "t \<in> set conns" "ts \<in> set (served_tasks C R t)" for t ts
    using that assms(1,2)
    by (auto simp: served_tasks_def relay_tasks_def demux_log_def flow_trace_ok_def flow_log_ok frames_log_ok
        bridge_writer_log_def bridge_reader_log_def writer_log_ok reader_log_ok)
  then show "\<forall>ts\<in>set (concat (map (served_tasks C R) conns)). task_ok (sr_conn ` set conns) (sr_conn ` set conns) ts"
    by auto
qed

definition attack_events :: "event_names set" where
  "attack_events = {events_client, events_client_return, events_server, events_server_return}"

lemma attack_events_split: "ev \<in> attack_events \<Longrightarrow> ev_wire ev \<in> wire_events \<and> ev_real ev \<in> real_events"
  by (auto simp: attack_events_def labels_match)

lemma task_ok_sized:
  assumes "task_ok ws cs es" "ev \<in> attack_events" "r \<in> set (logged es)" "row_event r = ev_wire ev"
  shows "row_bytes r = CELL_BYTES" "row_conn_id r \<in> ws"
proof -
  have "row_event r \<notin> real_events" using attack_events_split [OF assms(2)] assms(4) events_disjoint by auto
  then obtain event conn where "wire_row event conn r" "conn \<in> ws"
    using assms(1,3) unfolding task_ok_def transport_row_def real_row_def by blast
  then show "row_bytes r = CELL_BYTES" "row_conn_id r \<in> ws" by (auto simp: wire_row_def)
qed

lemma task_ok_real:
  assumes "task_ok ws cs es" "ev \<in> attack_events" "r \<in> set (logged es)" "row_event r = ev_real ev"
  shows "row_conn_id r \<in> cs"
proof -
  have "row_event r \<notin> wire_events" using attack_events_split [OF assms(2)] assms(4) events_disjoint by auto
  then obtain event conn where "real_row event conn r" "conn \<in> cs"
    using assms(1,3) unfolding task_ok_def transport_row_def wire_row_def by blast
  then show ?thesis by (auto simp: real_row_def)
qed

lemma task_ok_labels:
  assumes "task_ok ws cs es" "r \<in> set (logged es)"
  shows "label_ok (row_event r) \<and> label_ok (row_kind r) \<and> row_conn_id r \<in> ws \<union> cs"
proof -
  have "label_ok ev" if "ev \<in> wire_events \<union> real_events" for ev
    using that by (auto simp: wire_events_def real_events_def UPLINK_LABELS_def DOWNLINK_LABELS_def UPLINK_STRIP_def
        DOWNLINK_STRIP_def label_ok_def str_of_def str_trim_def is_whitespace_def)
  moreover have "label_ok (str_of ''real'')" "label_ok (str_of ''dummy'')"
    by (simp_all add: label_ok_def str_of_def str_trim_def is_whitespace_def)
  ultimately show ?thesis using assms unfolding task_ok_def transport_row_def wire_row_def real_row_def by fastforce
qed

section \<open>Properties\<close>

lemma session_split:
  assumes "task_ok ws cs es" "ws \<inter> cs = {}" "ev \<in> attack_events" "set records \<subseteq> record_of role ` set (logged es)"
  shows "split_ids records ev"
proof -
  have "lr_conn_id q \<in> ws" if q: "q \<in> set records" "lr_event q = ev_wire ev" for q
  proof -
    obtain r where r: "q = record_of role r" "r \<in> set (logged es)" using subsetD [OF assms(4) q(1)] by (rule imageE)
    then show ?thesis using task_ok_sized(2) [OF assms(1,3) r(2)] q(2) by (simp add: record_of_def r(1))
  qed
  moreover have "lr_conn_id q \<in> cs" if q: "q \<in> set records" "lr_event q = ev_real ev" for q
  proof -
    obtain r where r: "q = record_of role r" "r \<in> set (logged es)" using subsetD [OF assms(4) q(1)] by (rule imageE)
    then show ?thesis using task_ok_real [OF assms(1,3) r(2)] q(2) by (simp add: record_of_def r(1))
  qed
  ultimately have "\<not> (q \<in> set records \<and> q' \<in> set records \<and> lr_event q = ev_wire ev \<and> lr_event q' = ev_real ev \<and>
      lr_conn_id q = lr_conn_id q')" for q q' using assms(2) by (metis disjoint_iff)
  then show ?thesis unfolding split_ids_def by metis
qed

lemma session_sized:
  assumes "task_ok ws cs es" "ev \<in> attack_events" "set records \<subseteq> record_of role ` set (logged es)"
  shows "\<forall>q\<in>set records. lr_event q = ev_wire ev \<longrightarrow> lr_bytes q = CELL_BYTES"
proof (intro ballI impI)
  fix q assume q: "q \<in> set records" "lr_event q = ev_wire ev"
  then obtain r where r: "q = record_of role r" "r \<in> set (logged es)" using subsetD [OF assms(3) q(1)] by (elim imageE)
  then show "lr_bytes q = CELL_BYTES" using task_ok_sized(1) [OF assms(1,2) r(2)] q(2) by (simp add: record_of_def r(1))
qed

lemma client_directions:
  assumes "resolve_directions (str_of ''client'') direction = Inr dirs" "(label, ev) \<in> set dirs"
  shows "ev \<in> attack_events"
proof -
  have "str_of ''client'' \<noteq> str_of ''server''" by (simp add: str_of_def)
  then show ?thesis using assms by (auto simp: resolve_directions_def attack_events_def Let_def split: if_splits)
qed

lemma session_task_ok:
  assumes "aead_ok C"
    and "calls \<in> client_log C R wires circuits \<and> (\<forall>t\<in>set wires. flow_trace_ok C R (wt_events t) (wt_flow t)) \<or>
      calls \<in> server_log C R conns \<and> (\<forall>t\<in>set conns. flow_trace_ok C R (sr_events t) (sr_flow t))"
  shows "\<exists>ws cs. task_ok ws cs calls \<and> ws \<union> cs \<subseteq> wt_conn ` set wires \<union> ct_conn ` set circuits \<union> sr_conn ` set conns"
  using assms(2)
proof
  assume "calls \<in> client_log C R wires circuits \<and> (\<forall>t\<in>set wires. flow_trace_ok C R (wt_events t) (wt_flow t))"
  then have "task_ok (wt_conn ` set wires) (ct_conn ` set circuits) calls"
    using client_log_rows [OF assms(1), of wires R "wt_conn ` set wires" circuits "ct_conn ` set circuits" calls] by auto
  then show ?thesis by blast
next
  assume "calls \<in> server_log C R conns \<and> (\<forall>t\<in>set conns. flow_trace_ok C R (sr_events t) (sr_flow t))"
  then show ?thesis using server_log_rows [OF assms(1), of conns R calls] by blast
qed

text \<open>C29: The audit of a multiplexing client is blind. \<open>MuxClientHandle\<close> logs the frames of a wire under
  the id it took when it dialled and the traffic of a circuit under the id of the circuit, and the
  attacks compare the two sides id by id. So take any session of the client (any wires served and fed
  in any way, also in the clear, any circuits, interleaved in any way), and let
  \<open>mixtor-correlate analyze --side client\<close> read the file its logger leaves, with any other options: the
  adversary wins in no direction and the exit status is 0, whatever leaks.\<close>

theorem client_audit_blind:
  fixes opts :: analyze_options and wires :: "('r, 'x) wire_task_trace list"
  assumes "aead_ok C" "\<forall>t\<in>set wires. flow_trace_ok C R (wt_events t) (wt_flow t) \<and> wt_conn t \<in> set ws"
    and "\<forall>t\<in>set circuits. ct_conn t \<in> set cs"
    and "client_ids os (Some l) = (ws, cs, lab')" "id_count os \<le> 2 ^ 64"
    and "calls \<in> client_log C R wires circuits" "logged es = logged calls"
    and "\<forall>r\<in>set (logged es). row_unix_nanos r < u64_max \<and> row_seq r \<le> u64_max \<and> row_bytes r \<le> u64_max"
    and "lab_create (None :: 'io option) (str_of ''client'') = Inr l"
    and "analyze_args parse_f64 args analyze_defaults = (Inr opts :: ('n, 'e, 'g) correlate_error + analyze_options)"
    and "an_path opts = Some path" "an_side opts = str_of ''client''" "an_skip_ms opts \<le> 10 ^ 24"
    and "resolve_directions (an_side opts) (an_direction opts) = (Inr dirs :: ('n, 'e, 'g) correlate_error + _)"
    and "open_file path = Inr (map Some (str_lines (log_text (lab_drop write_ok (fold (lab_event_step write_ok) es l)))))"
  shows "\<exists>reports r. correlate_main parse_f64 open_file run (str_of ''analyze'' # args) =
      Some (reports, r :: ('n, 'e, 'g) main_end) \<and>
    map fst reports = map fst dirs \<and> (\<forall>(label, rep)\<in>set reports. \<not> adversary_won rep) \<and> exit_status r = 0"
proof -
  have ok: "task_ok (set ws) (set cs) es"
    using client_log_rows [OF assms(1-3,6)] by (simp add: task_ok_def assms(7))
  have disj: "set ws \<inter> set cs = {}" using client_ids_distinct [OF assms(4,5)] by simp
  have "set (ws @ cs) = set (ids_from (lab_next_conn_id l) (id_count os))"
    using client_ids_mset [OF assms(4)] by (metis set_mset_mset)
  moreover have "unat x \<le> u64_max" for x :: u64 using unsigned_less [where 'a = nat, of x] by (simp add: u64_max_def)
  ultimately have "\<forall>i\<in>set ws \<union> set cs. i \<le> u64_max" by (auto simp: ids_from_def)
  then have rows: "\<forall>r\<in>set (logged es). row_ok r"
    using task_ok_labels [OF ok] assms(8) by (auto simp: row_ok_def u64_max_def u128_max_def) 
  have role: "label_ok (str_of ''client'')" by (simp add: label_ok_def str_of_def str_trim_def is_whitespace_def)
  define ls where "ls = map Some (str_lines (log_text (lab_drop write_ok (fold (lab_event_step write_ok) es l))))"
  obtain k where k: "parse_reader ls = map (record_of (str_of ''client'')) (take k (logged es))"
    using lab_log_reads [OF assms(9) role rows, of write_ok] unfolding ls_def by blast
  have sub: "set (parse_reader ls) \<subseteq> record_of (str_of ''client'') ` set (logged es)"
    unfolding k by (auto dest: in_set_takeD)
  have times: "times_ok (parse_reader ls)" using sub assms(8) by (auto simp: times_ok_def record_of_def)
  obtain kept where kept: "skip_records (an_skip_ms opts) (parse_reader ls) = Some kept" "set kept \<subseteq> set (parse_reader ls)"
    using skip_records_ok [OF times assms(13)] by auto
  have kept_times: "times_ok kept" using times kept(2) by (auto simp: times_ok_def)
  note kept_sub = subset_trans [OF kept(2) sub]
  define cfg where "cfg = attack_default\<lparr>bin_ms := an_bin_ms opts\<rparr>"
  obtain reports where r: "analyze parse_f64 open_file args = Some (reports,
      if \<exists>(l, rep)\<in>set reports. adversary_won rep then Exits 1 else (Returns (Inr ()) :: ('n, 'e, 'g) main_end))"
    "list_all2 (\<lambda>(l, rep) (l', ev). l = l' \<and> run_adversary kept ev cfg = Some rep) reports dirs"
    using analyze_spec [where open_file = open_file and path = path and text_lines = ls,
      OF assms(10,11,14) assms(15) [folded ls_def] times assms(13) cfg_def kept(1)] by blast
  have safe: "\<not> adversary_won rep" if m: "(label, rep) \<in> set reports" for label rep
  proof -
    obtain ev where ev: "(label, ev) \<in> set dirs" "run_adversary kept ev cfg = Some rep"
      using list_all2_partner(1) [OF r(2) m] by auto
    have a: "ev \<in> attack_events" using client_directions [OF _ ev(1)] assms(12,14) by simp
    have ne: "ev_wire ev \<noteq> ev_real ev" using attack_events_split [OF a] events_disjoint by auto
    show ?thesis
      using split_blind [OF kept_times session_split [OF ok disj a kept_sub] ne session_sized [OF ok a kept_sub] _ _ ev(2)]
      by (simp add: cfg_def attack_default_def)
  qed
  have labels: "map fst reports = map fst dirs" using r(2) by (induction rule: list_all2_induct) auto
  have none: "\<not> (\<exists>(l, rep)\<in>set reports. adversary_won rep)" using safe by auto
  have "correlate_main parse_f64 open_file run (str_of ''analyze'' # args) = Some (reports, Returns (Inr ()))"
    using r(1) none by (simp add: correlate_main_def)
  then show ?thesis using labels safe by (intro exI [of _ reports] exI [of _ "Returns (Inr ())"]) (auto simp: exit_status_def)
qed

text \<open>C33: Frame sizes give nothing away. In the log of any session of the server or of a multiplexing
  client, also when an attacker feeds the wires, every frame row has the size of a cell, so that the
  size attack finds real and dummy frames indistinguishable in every direction.\<close>

theorem frame_sizes_blend:
  assumes "aead_ok C"
    and "calls \<in> client_log C R wires circuits \<and> (\<forall>t\<in>set wires. flow_trace_ok C R (wt_events t) (wt_flow t)) \<or>
      calls \<in> server_log C R conns \<and> (\<forall>t\<in>set conns. flow_trace_ok C R (sr_events t) (sr_flow t))"
    and "ev \<in> attack_events" "0 \<le> size_ks_threshold cfg"
  shows "case size_attack (map (record_of role) (logged calls)) ev cfg of
      None \<Rightarrow> True | Some a \<Rightarrow> \<not> sa_distinguishable a"
proof -
  obtain ws cs where ok: "task_ok ws cs calls" using session_task_ok [OF assms(1,2)] by blast
  have "\<forall>q\<in>set (map (record_of role) (logged calls)). lr_event q = ev_wire ev \<longrightarrow> lr_bytes q = CELL_BYTES"
    by (rule session_sized [OF ok assms(3), of _ role]) simp
  then have "\<not> sa_distinguishable a" if "size_attack (map (record_of role) (logged calls)) ev cfg = Some a" for a
    using that by (rule size_uniform [OF _ assms(4)])
  then show ?thesis by (auto split: option.split)
qed

text \<open>C32: The rows of a session are well-formed. In the log of any session of the server or of a
  multiplexing client, also when an attacker feeds the wires, every row either reports a frame, of
  514 bytes and of kind real or dummy, under one of the four frame events, or data of kind real under one of
  the four data events, with the id of one of the session's connections or circuits; and as long as the
  readings and counters are in the range of their types, the reader takes each written line back to
  the record of its row.\<close>

theorem session_rows_typed:
  assumes "aead_ok C"
    and "calls \<in> client_log C R wires circuits \<and> (\<forall>t\<in>set wires. flow_trace_ok C R (wt_events t) (wt_flow t)) \<or>
      calls \<in> server_log C R conns \<and> (\<forall>t\<in>set conns. flow_trace_ok C R (sr_events t) (sr_flow t))"
    and "r \<in> set (logged calls)" "label_ok role"
  shows "(row_event r \<in> wire_events \<and> row_bytes r = CELL_BYTES \<and> row_kind r \<in> {str_of ''real'', str_of ''dummy''} \<or>
      row_event r \<in> real_events \<and> row_kind r = str_of ''real'') \<and>
    row_conn_id r \<in> wt_conn ` set wires \<union> ct_conn ` set circuits \<union> sr_conn ` set conns \<and>
    (row_unix_nanos r \<le> u128_max \<and> row_conn_id r \<le> u64_max \<and> row_seq r \<le> u64_max \<and> row_bytes r \<le> u64_max \<longrightarrow>
      parse_line (format_row role r) = Some (record_of role r))"
proof -
  obtain ws cs where ok: "task_ok ws cs calls"
      "ws \<union> cs \<subseteq> wt_conn ` set wires \<union> ct_conn ` set circuits \<union> sr_conn ` set conns"
    using session_task_ok [OF assms(1,2)] by blast
  have "transport_row ws cs r" using ok(1) assms(3) by (simp add: task_ok_def)
  then have "row_event r \<in> wire_events \<and> row_bytes r = CELL_BYTES \<and> row_kind r \<in> {str_of ''real'', str_of ''dummy''} \<or>
      row_event r \<in> real_events \<and> row_kind r = str_of ''real''"
    by (auto simp: transport_row_def wire_row_def real_row_def)
  moreover note labels = task_ok_labels [OF ok(1) assms(3)]
  moreover have "row_conn_id r \<in> wt_conn ` set wires \<union> ct_conn ` set circuits \<union> sr_conn ` set conns"
    using labels ok(2) by blast
  ultimately show ?thesis
    using parse_format_row [OF assms(4), of r] by (simp add: row_ok_def)
qed

section \<open>Witnesses\<close>

lemma merges_sequential: "concat xss \<in> merges xss"
proof (induction xss)
  case (Cons xs xss)
  have "xs @ ys \<in> shuffles xs ys" for ys :: "'a list" by (induction xs) (auto intro: Cons_in_shuffles_leftI)
  then show ?case using Cons by auto
qed simp

text \<open>A client with one wire, on which a dummy frame arrives, and one circuit, which sends two bytes.\<close>

definition sample_dummy :: mixed_frame where
  "sample_dummy = DummyFrame (replicate 514 0)"

definition sample_wire_trace :: "(unit, unit) wire_task_trace" where
  "sample_wire_trace = \<lparr>wt_conn = 1, wt_flow = sample_flow, wt_events = [],
     wt_inbound = (fst (encode_frame toy_crypto sample_dummy (cipher_new [5])), None), wt_cipher = cipher_new [5],
     wt_env = (\<lambda>_ w. w), wt_stamp = (\<lambda>_. None)\<rparr>"

definition sample_circuit_trace :: "unit circuit_trace" where
  "sample_circuit_trace = \<lparr>ct_conn = 2, ct_reads = [RData [65, 66]], ct_accepted = None, ct_held = [], ct_msgs = [],
     ct_writes = (\<lambda>_. None), ct_stamp = (\<lambda>_. None)\<rparr>"

definition sample_session :: "lab_event list" where
  "sample_session = [LabLog None (str_of ''client_wire_return'') 1 0 514 (str_of ''dummy''),
     LabLog None (str_of ''client_input'') 2 0 2 (str_of ''real'')]"

definition client_lab :: lab_logger where
  "client_lab = fresh_lab\<lparr>lab_role := str_of ''client''\<rparr>"

lemma sample_inbound:
  "inbound_log toy_crypto (\<lambda>_ w. w) True (\<lambda>_. None) 1
     (fst (encode_frame toy_crypto sample_dummy (cipher_new [5])), None :: unit option) (cipher_new [5]) wire_new =
   [LabLog None (str_of ''client_wire_return'') 1 0 514 (str_of ''dummy'')]"
proof -
  obtain bs c' where e: "encode_frame toy_crypto sample_dummy (cipher_new [5]) = (bs, c')" by fastforce
  have len: "frame_len sample_dummy = CELL_BYTES" by (simp add: sample_dummy_def CELL_BYTES_def)
  have r: "read_sealed_frame toy_crypto (bs, None :: unit option) (cipher_new [5]) = (Inr (Some (frame_msg sample_dummy)), ([], None), c')"
    using read_sealed_step [OF toy_aead_ok e len, of "[]"] by simp
  have stop: "frames_log toy_crypto body True stamp ev conn k ([], None :: unit option) c s = []" for body stamp ev conn k c s
    by (subst frames_log.simps) (simp add: read_sealed_frame_def Let_def enc_frame_len_def KIND_LEN_def)
  show ?thesis
    by (simp add: e inbound_log_def frames_log.simps [of toy_crypto "inbound_body _" True "\<lambda>_. None" _ _ 0] r stop
        inbound_body_def log_event_def)
      (simp add: sample_dummy_def frame_msg_def kind_label_def KIND_REAL_def KIND_DUMMY_def DOWNLINK_STRIP_def)
qed

lemma sample_session_log: "sample_session \<in> client_log toy_crypto least_rng [sample_wire_trace] [sample_circuit_trace]"
proof -
  have "concat (wire_tasks toy_crypto least_rng sample_wire_trace @ circuit_tasks sample_circuit_trace) = sample_session"
    by (simp add: wire_tasks_def circuit_tasks_def sample_wire_trace_def sample_circuit_trace_def
        sample_inbound [unfolded One_nat_def] tor_writer_log_def tor_reader_log_def log_event_def sample_session_def UPLINK_LABELS_def Let_def)
  then show ?thesis
    using merges_sequential [of "wire_tasks toy_crypto least_rng sample_wire_trace @ circuit_tasks sample_circuit_trace"]
    by (simp add: client_log_def)
qed

lemma sample_flow_trace: "flow_trace_ok toy_crypto least_rng [] sample_flow"
  using sample_flow_ok(2) by (simp add: flow_trace_ok_def)

theorem client_audit_blind_witness:
  "\<exists>reports r. correlate_main (\<lambda>_. Inl ())
      (\<lambda>_. Inr (map Some (str_lines (log_text (lab_drop (\<lambda>_. True) (fold (lab_event_step (\<lambda>_. True)) sample_session client_lab))))))
      (\<lambda>_ _ _. Inr ()) [str_of ''analyze'', str_of ''client.csv'', str_of ''--side'', str_of ''client''] =
      Some (reports, r :: (unit, unit, unit) main_end) \<and>
    map fst reports = [UPLINK_LABEL, DOWNLINK_LABEL] \<and> exit_status r = 0"
proof -
  define opts where "opts = analyze_defaults\<lparr>an_path := Some (str_of ''client.csv''), an_side := str_of ''client''\<rparr>"
  have args: "analyze_args (\<lambda>_. Inl ()) [str_of ''client.csv'', str_of ''--side'', str_of ''client''] analyze_defaults =
      (Inr opts :: (unit, unit, unit) correlate_error + analyze_options)"
    by (simp add: opts_def analyze_defaults_def str_of_def)
  have dirs: "resolve_directions (an_side opts) (an_direction opts) =
      (Inr [(UPLINK_LABEL, events_client), (DOWNLINK_LABEL, events_client_return)] :: (unit, unit, unit) correlate_error + _)"
    by (simp add: opts_def analyze_defaults_def resolve_directions_def str_of_def)
  have opt: "an_path opts = Some (str_of ''client.csv'')" "an_side opts = str_of ''client''" "an_skip_ms opts \<le> 10 ^ 24"
    by (simp_all add: opts_def analyze_defaults_def)
  obtain lab' where ids: "client_ids [OpenCircuit True True] (Some client_lab) = ([1], [2], lab')"
    by (simp add: client_lab_def fresh_lab_def)
  have lab: "lab_create (None :: unit option) (str_of ''client'') = Inr client_lab"
    by (simp add: lab_create_def client_lab_def fresh_lab_def)
  have wires: "\<forall>t\<in>set [sample_wire_trace]. flow_trace_ok toy_crypto least_rng (wt_events t) (wt_flow t) \<and> wt_conn t \<in> set [1]"
    using sample_flow_trace by (simp add: sample_wire_trace_def)
  have circuits: "\<forall>t\<in>set [sample_circuit_trace]. ct_conn t \<in> set [2]" by (simp add: sample_circuit_trace_def)
  have rows: "\<forall>r\<in>set (logged sample_session). row_unix_nanos r < u64_max \<and> row_seq r \<le> u64_max \<and> row_bytes r \<le> u64_max"
    by (simp add: sample_session_def u64_max_def)
  have count: "id_count [OpenCircuit True True] \<le> 2 ^ 64" by simp
  from client_audit_blind [where open_file = "\<lambda>_. Inr (map Some (str_lines (log_text (lab_drop (\<lambda>_. True)
      (fold (lab_event_step (\<lambda>_. True)) sample_session client_lab)))))" and run = "\<lambda>_ _ _. Inr ()",
      OF toy_aead_ok wires circuits ids count sample_session_log refl rows lab args opt dirs refl]
  show ?thesis by fastforce
qed

theorem frame_sizes_blend_witness:
  "case size_attack (map (record_of (str_of ''client'')) (logged sample_session)) events_client_return attack_default of
     None \<Rightarrow> True | Some a \<Rightarrow> \<not> sa_distinguishable a"
proof (rule frame_sizes_blend [OF toy_aead_ok])
  show "sample_session \<in> client_log toy_crypto least_rng [sample_wire_trace] [sample_circuit_trace] \<and>
      (\<forall>t\<in>set [sample_wire_trace]. flow_trace_ok toy_crypto least_rng (wt_events t) (wt_flow t)) \<or>
    sample_session \<in> server_log toy_crypto least_rng ([] :: (unit, unit) served_trace list) \<and>
      (\<forall>t\<in>set ([] :: (unit, unit) served_trace list). flow_trace_ok toy_crypto least_rng (sr_events t) (sr_flow t))"
    using sample_session_log sample_flow_trace by (simp add: sample_wire_trace_def)
qed (simp_all add: attack_events_def attack_default_def)

theorem session_rows_typed_witness:
  "let r = \<lparr>row_unix_nanos = 0, row_event = str_of ''client_wire_return'', row_conn_id = 1, row_seq = 0,
      row_bytes = 514, row_kind = str_of ''dummy''\<rparr>
   in (row_event r \<in> wire_events \<and> row_bytes r = CELL_BYTES \<and> row_kind r \<in> {str_of ''real'', str_of ''dummy''} \<or>
      row_event r \<in> real_events \<and> row_kind r = str_of ''real'') \<and>
    parse_line (format_row (str_of ''client'') r) = Some (record_of (str_of ''client'') r)"
proof -
  have log: "sample_session \<in> client_log toy_crypto least_rng [sample_wire_trace] [sample_circuit_trace] \<and>
      (\<forall>t\<in>set [sample_wire_trace]. flow_trace_ok toy_crypto least_rng (wt_events t) (wt_flow t)) \<or>
    sample_session \<in> server_log toy_crypto least_rng ([] :: (unit, unit) served_trace list) \<and>
      (\<forall>t\<in>set ([] :: (unit, unit) served_trace list). flow_trace_ok toy_crypto least_rng (sr_events t) (sr_flow t))"
    using sample_session_log sample_flow_trace by (simp add: sample_wire_trace_def)
  have role: "label_ok (str_of ''client'')" by (simp add: label_ok_def str_of_def str_trim_def is_whitespace_def)
  define r where "r = \<lparr>row_unix_nanos = 0, row_event = str_of ''client_wire_return'', row_conn_id = 1, row_seq = 0,
      row_bytes = 514, row_kind = str_of ''dummy''\<rparr>"
  have "r \<in> set (logged sample_session)" by (simp add: r_def sample_session_def)
  from session_rows_typed [OF toy_aead_ok log this role] show ?thesis
    unfolding r_def [symmetric] Let_def by (simp add: r_def u128_max_def u64_max_def)
qed

end
