(* ===== verification/Report.thy ===== *)
theory Report
  imports Analyze
begin

text \<open>
  The report of \<open>src/src/bin/mixtor-correlate.rs\<close>: \<open>print_report\<close> and \<open>verdict\<close> as the lines they
  print, with the standard library's fixed-precision notation of numbers (a real number, so without
  the sign of a negative zero), and what the directions of \<open>analyze\<close> print. The lemmas say that the
  text agrees with the exit status, and how far a printed number is from its value.
\<close>

section \<open>Numbers\<close>

text \<open>Rounding to the nearest integer, ties to even, of a number that is not negative.\<close>

definition round_even :: "real \<Rightarrow> nat" where
  "round_even x =
     (let f = nat \<lfloor>x\<rfloor>; d = x - real f
      in if d < 1 / 2 then f else if d > 1 / 2 then f + 1 else if even f then f else f + 1)"

definition pad_left :: "nat \<Rightarrow> nat \<Rightarrow> rstr \<Rightarrow> rstr" where
  "pad_left c n s = replicate (n - length s) c @ s"

text \<open>\<open>{:.p}\<close>, and \<open>{:+.p}\<close> with \<open>explicit\<close>.\<close>

definition fixed :: "bool \<Rightarrow> nat \<Rightarrow> real \<Rightarrow> rstr" where
  "fixed explicit p x =
     (let m = round_even (\<bar>x\<bar> * 10 ^ p);
          sign = (if x < 0 then [45] else if explicit then [43] else []);
          fraction = (if p = 0 then [] else 46 # pad_left 48 p (nat_str (m mod 10 ^ p)))
      in sign @ nat_str (m div 10 ^ p) @ fraction)"

definition int_str :: "int \<Rightarrow> rstr" where
  "int_str i = map unat (int_string i)"

section \<open>The report\<close>

text \<open>8212 is the dash of the messages.\<close>

definition verdict :: "bool \<Rightarrow> rstr \<Rightarrow> rstr \<Rightarrow> rstr list" where
  "verdict adversary_succeeded on_success on_fail =
     [if adversary_succeeded then str_of ''    >> ADVERSARY WINS: '' @ on_success
      else str_of ''    >> defended:       '' @ on_fail]"

definition size_lines :: "attack_config \<Rightarrow> size_report option \<Rightarrow> rstr list" where
  "size_lines cfg res =
     [[], str_of ''[1] Size-classification attack (real vs dummy by frame size)''] @
     (case res of
        None \<Rightarrow> [str_of ''    skipped '' @ [8212] @ str_of '' log has no real+dummy wire frames to compare'']
      | Some a \<Rightarrow>
          [concat [str_of ''    real frames: '', nat_str (sa_real_frames a), str_of ''   dummy frames: '', nat_str (sa_dummy_frames a)],
           concat [str_of ''    KS statistic:            '', fixed False 3 (sa_ks_statistic a), str_of ''  (threshold '',
             fixed False 2 (size_ks_threshold cfg), str_of '')''],
           concat [str_of ''    best size-classifier acc: '', fixed False 3 (sa_best_threshold_accuracy a), str_of ''  (0.50 = chance)'']] @
          verdict (sa_distinguishable a)
            (str_of ''sizes distinguishable '' @ [8212] @ str_of '' adversary can strip dummies'')
            (str_of ''sizes indistinguishable '' @ [8212] @ str_of '' dummies blend with real frames''))"

definition volume_lines :: "attack_config \<Rightarrow> volume_report option \<Rightarrow> rstr list" where
  "volume_lines cfg res =
     [[], str_of ''[2] Volume-correlation attack (wire envelope vs real envelope, per flow)''] @
     (case res of
        None \<Rightarrow> [str_of ''    skipped '' @ [8212] @ str_of '' not enough binned data'']
      | Some a \<Rightarrow>
          [concat [str_of ''    worst-case flow: '', nat_str (va_flow a), str_of ''   bins: '', nat_str (va_bins a)],
           concat [str_of ''    Pearson(wire, real):      '', fixed True 3 (va_pearson a)],
           concat [str_of ''    peak cross-corr:          '', fixed False 3 (va_peak_cross_corr a), str_of ''  at lag '',
             int_str (va_peak_lag_bins a), str_of '' bins ('', fixed True 0 (of_int (va_peak_lag_bins a) * bin_ms cfg), str_of '' ms)'']] @
          verdict (va_leaks a)
            (str_of ''wire volume tracks real activity '' @ [8212] @ str_of '' cover leaks the envelope'')
            (str_of ''wire volume decoupled from real activity '' @ [8212] @ str_of '' cover holds''))"

definition coarse_line :: "real \<times> volume_report \<Rightarrow> rstr" where
  "coarse_line c =
     (case c of (scale, a) \<Rightarrow>
        concat [str_of ''    '', pad_left 32 6 (fixed False 0 scale), str_of '' ms bins: Pearson '', fixed True 3 (va_pearson a),
          str_of ''  peak '', fixed False 3 (va_peak_cross_corr a), str_of ''  (flow '', nat_str (va_flow a), str_of '')  -> '',
          if va_leaks a then str_of ''LEAKS'' else str_of ''ok''])"

definition coarse_lines :: "(real \<times> volume_report) list \<Rightarrow> rstr list" where
  "coarse_lines res =
     [[], str_of ''[2b] Multi-scale volume attack (same attack at coarser bins)''] @
     (if res = [] then [str_of ''    skipped '' @ [8212] @ str_of '' no coarser scales applicable'']
      else map coarse_line res @
        verdict (list_ex (\<lambda>(_, a). va_leaks a) res)
          (str_of ''a slow envelope leak shows at coarse timescales'') (str_of ''no slow leak at coarse timescales''))"

definition match_line :: "nat \<times> nat \<times> bool \<Rightarrow> rstr" where
  "match_line m =
     (case m of (wire, guess, ok) \<Rightarrow>
        concat [str_of ''    wire flow '', nat_str wire, str_of '' -> real flow '', nat_str guess, str_of ''   ['',
          if ok then str_of ''CORRECT'' else str_of ''wrong'', str_of '']''])"

definition linking_lines :: "linking_report option \<Rightarrow> rstr list" where
  "linking_lines res =
     [[], str_of ''[3] Flow-linking attack (match each wire flow to its real flow)''] @
     (case res of
        None \<Rightarrow> [str_of ''    skipped '' @ [8212] @ str_of '' need >= 2 flows in the log'']
      | Some a \<Rightarrow>
          concat [str_of ''    linking accuracy: '', fixed False 3 (la_linking_accuracy a), str_of ''   chance baseline: '',
            fixed False 3 (la_chance a)] #
          map match_line (la_matches a) @
          verdict (la_beats_chance a)
            (str_of ''flows linkable above chance '' @ [8212] @ str_of '' connections de-anonymisable'')
            (str_of ''flows not linkable above chance''))"

definition total_line :: "nat \<times> real \<times> real \<Rightarrow> rstr" where
  "total_line t =
     (case t of (i, wire, real_t) \<Rightarrow>
        concat [str_of ''    flow '', nat_str i, str_of '': wire '', pad_left 32 9 (fixed False 0 wire), str_of '' B   real '',
          pad_left 32 9 (fixed False 0 real_t), str_of '' B   ratio '', fixed False 2 (if real_t > 0 then wire / real_t else 0)])"

definition total_lines :: "attack_config \<Rightarrow> total_volume_report option \<Rightarrow> rstr list" where
  "total_lines cfg res =
     [[], str_of ''[4] Total-volume (integral) attack (per-flow total wire vs total real)''] @
     (case res of
        None \<Rightarrow> [str_of ''    skipped '' @ [8212] @ str_of '' need >= 3 flows with real traffic'']
      | Some a \<Rightarrow>
          [concat [str_of ''    flows: '', nat_str (tv_flows a), str_of ''   Pearson(total): '', fixed True 3 (tv_pearson_total a),
             str_of ''   Spearman(total): '', fixed True 3 (tv_spearman_total a), str_of ''  (threshold '',
             fixed False 2 (volume_corr_threshold cfg), str_of '')''],
           concat [str_of ''    wire-total spread (CV): '', fixed False 3 (tv_wire_cv a), str_of ''  ('',
             if tv_wire_cv a < 5 / 100 then str_of ''totals ~uniform '' @ [8212] @ str_of '' not rankable''
             else str_of ''totals distinguishable'', str_of '')'']] @
          map total_line (tv_totals a) @
          verdict (tv_leaks a)
            (str_of ''total wire volume ranks flows by real volume '' @ [8212] @ str_of '' integral leaks'')
            (str_of ''total wire volume decoupled from real volume '' @ [8212] @ str_of '' integral holds''))"

definition span_line :: "nat \<times> real \<times> real \<Rightarrow> rstr" where
  "span_line s =
     (case s of (i, wire_ms, real_ms) \<Rightarrow>
        concat [str_of ''    flow '', nat_str i, str_of '': wire span '', pad_left 32 8 (fixed False 0 wire_ms),
          str_of '' ms   real span '', pad_left 32 8 (fixed False 0 real_ms), str_of '' ms''])"

definition duration_lines :: "duration_report option \<Rightarrow> rstr list" where
  "duration_lines res =
     [[], str_of ''[5] Duration leak (per-flow wire active-span vs real active-span) '' @ [8212] @ str_of '' informational''] @
     (case res of
        None \<Rightarrow> [str_of ''    skipped '' @ [8212] @ str_of '' not enough timestamped events'']
      | Some d \<Rightarrow>
          map span_line (dl_spans d) @
          [concat [str_of ''    median |wire-real|/real span gap: '', fixed False 3 (dl_median_rel_gap d)],
           if dl_leaks d then
             str_of ''    >> NOTE: wire and real spans track closely '' @ [8212] @
             str_of '' session DURATION is essentially unpadded (a known residual; not scored).''
           else str_of ''    >> duration spans diverge '' @ [8212] @ str_of '' lifetime not a clean tell''])"

definition GAINED_LINE :: rstr where
  "GAINED_LINE = str_of ''ADVERSARY GAINED AN ADVANTAGE '' @ [8212] @ str_of '' shaping leaked exploitable correlation.''"

definition SAFE_LINE :: rstr where
  "SAFE_LINE = str_of ''No exploitable correlation found at this configuration.''"

definition print_report :: "adversary_report \<Rightarrow> rstr list" where
  "print_report rep =
     [[], str_of ''=== MixTor adversarial correlation report ==='',
      concat [str_of ''base bin width: '', fixed False 0 (bin_ms (ar_config rep)), str_of '' ms   flows in log: '',
        nat_str (length (ar_conn_ids rep)), str_of ''   max lag searched: '', nat_str (max_lag_bins (ar_config rep)), str_of '' bins'']] @
     size_lines (ar_config rep) (ar_size_attack rep) @
     volume_lines (ar_config rep) (ar_volume_attack rep) @
     coarse_lines (ar_volume_coarse rep) @
     linking_lines (ar_linking_attack rep) @
     total_lines (ar_config rep) (ar_total_volume_attack rep) @
     duration_lines (ar_duration_leak rep) @
     [[], str_of ''=== Overall (scored attacks) ==='', if adversary_won rep then GAINED_LINE else SAFE_LINE, []]"

text \<open>The output of \<open>analyze\<close>: a banner of 60 hashes and the report, per direction.\<close>

definition direction_lines :: "rstr \<times> adversary_report \<Rightarrow> rstr list" where
  "direction_lines d =
     (case d of (label, rep) \<Rightarrow>
        [[], replicate 60 35, str_of ''# DIRECTION: '' @ label, replicate 60 35] @ print_report rep)"

definition analyze_output :: "(rstr \<times> adversary_report) list \<Rightarrow> rstr list" where
  "analyze_output reports = concat (map direction_lines reports)"

section \<open>Lemmas\<close>

lemma round_even_close:
  assumes "0 \<le> x"
  shows "\<bar>real (round_even x) - x\<bar> \<le> 1 / 2"
proof -
  define f where "f = real (nat \<lfloor>x\<rfloor>)"
  have "f \<le> x" "x < f + 1" using assms unfolding f_def by linarith+
  moreover have "real (round_even x) = f \<or> real (round_even x) = f + 1" "real (round_even x) = f \<longrightarrow> x - f \<le> 1 / 2"
    "real (round_even x) = f + 1 \<longrightarrow> 1 / 2 \<le> x - f"
    by (auto simp: round_even_def Let_def f_def)
  ultimately show ?thesis by linarith
qed

text \<open>Decimal notation read back.\<close>

definition decimal :: "rstr \<Rightarrow> nat" where
  "decimal s = foldl (\<lambda>a c. 10 * a + (c - 48)) 0 s"

lemma decimal_snoc: "decimal (b @ [c]) = 10 * decimal b + (c - 48)"
  by (simp add: decimal_def)

lemma decimal_append: "decimal (a @ b) = decimal a * 10 ^ length b + decimal b"
proof (induction b rule: rev_induct)
  case Nil
  then show ?case by (simp add: decimal_def)
next
  case (snoc c b)
  have "decimal (a @ b @ [c]) = 10 * decimal (a @ b) + (c - 48)" using decimal_snoc [of "a @ b" c] by simp
  also have "\<dots> = 10 * (decimal a * 10 ^ length b) + decimal (b @ [c])" by (simp only: snoc decimal_snoc distrib_left add.assoc)
  finally show ?case by simp
qed

lemma decimal_nat_str: "decimal (nat_str n) = n"
proof (induction n rule: nat_digits.induct)
  case (1 n)
  then show ?case by (cases "n < 10") (simp_all add: nat_str_simps decimal_append decimal_def)
qed

lemma decimal_pad: "decimal (pad_left 48 k s) = decimal s"
proof -
  have "decimal (replicate m 48) = 0" for m by (induction m) (simp_all add: decimal_def)
  then show ?thesis by (simp add: pad_left_def decimal_append)
qed

lemma length_nat_str: "n < 10 ^ p \<Longrightarrow> length (nat_str n) \<le> max 1 p"
proof (induction p arbitrary: n)
  case 0
  then show ?case by (simp add: nat_str_simps)
next
  case (Suc p)
  show ?case
  proof (cases "n < 10")
    case True
    then show ?thesis by (simp add: nat_str_simps)
  next
    case False
    have "n div 10 < 10 ^ p" using Suc.prems by (simp add: less_mult_imp_div_less mult.commute)
    moreover have "0 < p" using False Suc.prems by (cases p) simp_all
    ultimately show ?thesis using Suc.IH [of "n div 10"] False by (simp add: nat_str_simps)
  qed
qed

text \<open>A printed number has \<open>p\<close> digits behind its point, and all its digits together are those of an
  integer that is within half a unit of the last place of the value.\<close>

lemma fixed_precision:
  assumes "0 < p"
  shows "\<exists>sign whole frac. fixed explicit p x = sign @ nat_str whole @ [46] @ frac \<and> length frac = p \<and>
    \<bar>real (decimal (nat_str whole @ frac)) / 10 ^ p - \<bar>x\<bar>\<bar> \<le> 1 / (2 * 10 ^ p)"
proof -
  define m where "m = round_even (\<bar>x\<bar> * 10 ^ p)"
  define frac where "frac = pad_left 48 p (nat_str (m mod 10 ^ p))"
  have "length (nat_str (m mod 10 ^ p)) \<le> p" using assms length_nat_str [of "m mod 10 ^ p" p] by simp
  then have len: "length frac = p" by (simp add: frac_def pad_left_def)
  have digits: "decimal (nat_str (m div 10 ^ p) @ frac) = m"
    by (simp only: decimal_append decimal_nat_str len) (simp only: frac_def decimal_pad decimal_nat_str div_mult_mod_eq)
  have "\<bar>real m - \<bar>x\<bar> * 10 ^ p\<bar> \<le> 1 / 2" unfolding m_def by (rule round_even_close) simp
  moreover have "real m / 10 ^ p - \<bar>x\<bar> = (real m - \<bar>x\<bar> * 10 ^ p) / 10 ^ p" by (simp add: field_simps)
  ultimately have "\<bar>real m / 10 ^ p - \<bar>x\<bar>\<bar> \<le> 1 / (2 * 10 ^ p)" by (simp add: abs_divide field_simps)
  moreover have "fixed explicit p x = (if x < 0 then [45] else if explicit then [43] else []) @
      nat_str (m div 10 ^ p) @ [46] @ frac"
    using assms by (simp add: fixed_def Let_def m_def frac_def)
  ultimately show ?thesis using len digits by metis
qed

definition wins_line :: "rstr \<Rightarrow> bool" where
  "wins_line l \<longleftrightarrow> str_starts_with (str_of ''    >> ADVERSARY WINS: '') l"

definition defended_line :: "rstr \<Rightarrow> bool" where
  "defended_line l \<longleftrightarrow> str_starts_with (str_of ''    >> defended: '') l"

definition skipped_line :: "rstr \<Rightarrow> bool" where
  "skipped_line l \<longleftrightarrow> str_starts_with (str_of ''    skipped '') l"

lemmas line_kinds = wins_line_def defended_line_def skipped_line_def str_starts_with_def str_of_def

lemma nat_str_digit: "c \<in> set (nat_str n) \<Longrightarrow> 48 \<le> c \<and> c \<le> 57"
  using nat_str_chars by auto

lemma fixed_head:
  "\<exists>c cs. pad_left 32 k (fixed explicit p x) = c # cs \<and> c \<noteq> 62 \<and> c \<noteq> 115"
proof -
  have "fixed explicit p x \<noteq> []" by (simp add: fixed_def Let_def)
  moreover have "\<forall>c\<in>set (fixed explicit p x). c \<noteq> 62 \<and> c \<noteq> 115"
    by (auto simp: fixed_def Let_def pad_left_def dest!: nat_str_digit)
  ultimately have "pad_left 32 k (fixed explicit p x) \<noteq> []" "\<forall>c\<in>set (pad_left 32 k (fixed explicit p x)). c \<noteq> 62 \<and> c \<noteq> 115"
    by (auto simp: pad_left_def)
  then show ?thesis by (cases "pad_left 32 k (fixed explicit p x)") auto
qed

definition plain_line :: "rstr \<Rightarrow> bool" where
  "plain_line l \<longleftrightarrow> \<not> wins_line l \<and> \<not> defended_line l \<and> \<not> skipped_line l"

lemma plain_lines [simp]:
  "plain_line (coarse_line c)" "plain_line (match_line m)" "plain_line (total_line t)" "plain_line (span_line t)"
proof -
  obtain scale a where c: "c = (scale, a)" by fastforce
  obtain d ds where "pad_left 32 6 (fixed False 0 scale) = d # ds" "d \<noteq> 62" "d \<noteq> 115" using fixed_head by blast
  then show "plain_line (coarse_line c)" by (simp add: c coarse_line_def plain_line_def line_kinds)
  show "plain_line (match_line m)" by (cases m) (simp add: match_line_def plain_line_def line_kinds)
  show "plain_line (total_line t)" "plain_line (span_line t)"
    by (cases t; simp add: total_line_def span_line_def plain_line_def line_kinds)+
qed

text \<open>How many verdicts of each kind a part of the report prints.\<close>

definition verdicts :: "rstr list \<Rightarrow> nat \<times> nat \<times> nat" where
  "verdicts ls = (length (filter wins_line ls), length (filter defended_line ls), length (filter skipped_line ls))"

lemma verdicts_Nil [simp]: "verdicts [] = (0, 0, 0)"
  by (simp add: verdicts_def)

lemma verdicts_append:
  "verdicts (xs @ ys) = (fst (verdicts xs) + fst (verdicts ys), fst (snd (verdicts xs)) + fst (snd (verdicts ys)),
     snd (snd (verdicts xs)) + snd (snd (verdicts ys)))"
  by (simp add: verdicts_def)

lemma verdicts_Cons: "plain_line x \<Longrightarrow> verdicts (x # ys) = verdicts ys"
  by (simp add: verdicts_def plain_line_def)

lemma verdicts_map [simp]: "(\<And>x. plain_line (f x)) \<Longrightarrow> verdicts (map f xs) = (0, 0, 0)"
  by (induction xs) (simp_all add: verdicts_def plain_line_def)

lemma verdicts_verdict [simp]: "verdicts (verdict b t u) = (if b then (1, 0, 0) else (0, 1, 0))"
  by (simp add: verdicts_def verdict_def line_kinds)

lemmas verdicts_literal = verdicts_def line_kinds

lemma size_verdicts [simp]:
  "verdicts (size_lines cfg res) = (case res of None \<Rightarrow> (0, 0, 1)
     | Some a \<Rightarrow> if sa_distinguishable a then (1, 0, 0) else (0, 1, 0))"
  by (cases res) (simp_all add: size_lines_def verdict_def verdicts_literal)

lemma volume_verdicts [simp]:
  "verdicts (volume_lines cfg res) = (case res of None \<Rightarrow> (0, 0, 1)
     | Some a \<Rightarrow> if va_leaks a then (1, 0, 0) else (0, 1, 0))"
  by (cases res) (simp_all add: volume_lines_def verdict_def verdicts_literal)

lemma coarse_verdicts [simp]:
  "verdicts (coarse_lines res) = (if res = [] then (0, 0, 1) else if list_ex (\<lambda>(_, a). va_leaks a) res then (1, 0, 0) else (0, 1, 0))"
proof (cases "res = []")
  case True
  then show ?thesis by (simp add: coarse_lines_def verdicts_literal)
next
  case False
  have "verdicts [[], str_of ''[2b] Multi-scale volume attack (same attack at coarser bins)''] = (0, 0, 0)"
    by (simp add: verdicts_literal)
  then show ?thesis unfolding coarse_lines_def if_not_P [OF False] verdicts_append by simp
qed

lemma linking_verdicts [simp]:
  "verdicts (linking_lines res) = (case res of None \<Rightarrow> (0, 0, 1)
     | Some a \<Rightarrow> if la_beats_chance a then (1, 0, 0) else (0, 1, 0))"
proof (cases res)
  case None
  then show ?thesis by (simp add: linking_lines_def verdicts_literal)
next
  case (Some a)
  have "verdicts [[], str_of ''[3] Flow-linking attack (match each wire flow to its real flow)''] = (0, 0, 0)"
    "plain_line (str_of ''    linking accuracy: '' @ x)" for x
    by (simp_all add: verdicts_literal plain_line_def)
  then show ?thesis
    unfolding linking_lines_def Some option.case verdicts_append by (simp add: verdicts_Cons verdicts_append)
qed

lemma total_verdicts [simp]:
  "verdicts (total_lines cfg res) = (case res of None \<Rightarrow> (0, 0, 1)
     | Some a \<Rightarrow> if tv_leaks a then (1, 0, 0) else (0, 1, 0))"
proof (cases res)
  case None
  then show ?thesis by (simp add: total_lines_def verdicts_literal)
next
  case (Some a)
  have "verdicts [[], str_of ''[4] Total-volume (integral) attack (per-flow total wire vs total real)''] = (0, 0, 0)"
    "verdicts [str_of ''    flows: '' @ x, str_of ''    wire-total spread (CV): '' @ y] = (0, 0, 0)" for x y
    by (simp_all add: verdicts_literal)
  then show ?thesis unfolding total_lines_def Some option.case verdicts_append by simp
qed

lemma duration_verdicts [simp]:
  "verdicts (duration_lines res) = (case res of None \<Rightarrow> (0, 0, 1) | Some d \<Rightarrow> (0, 0, 0))"
proof (cases res)
  case None
  then show ?thesis by (simp add: duration_lines_def verdicts_literal)
next
  case (Some d)
  have "verdicts [[], str_of ''[5] Duration leak (per-flow wire active-span vs real active-span) '' @ [8212] @ str_of '' informational''] = (0, 0, 0)"
    "verdicts [str_of ''    median |wire-real|/real span gap: '' @ x,
       str_of ''    >> NOTE: wire and real spans track closely '' @ y] = (0, 0, 0)"
    "verdicts [str_of ''    median |wire-real|/real span gap: '' @ x, str_of ''    >> duration spans diverge '' @ y] = (0, 0, 0)" for x y
    by (simp_all add: verdicts_literal)
  then show ?thesis unfolding duration_lines_def Some option.case verdicts_append by (cases "dl_leaks d") simp_all
qed

section \<open>Properties\<close>

text \<open>What a line of a section can start with.\<close>

definition section_line :: "rstr \<Rightarrow> bool" where
  "section_line l \<longleftrightarrow> l = [] \<or> hd l = 32 \<or> hd l = 91"

lemma section_line_simps [simp]:
  "section_line []" "section_line (str_of (CHR '' '' # s))" "section_line (str_of (CHR '' '' # s) @ t)"
  "section_line (str_of (CHR ''['' # s))" "section_line (str_of (CHR ''['' # s) @ t)"
  by (simp_all add: section_line_def str_of_def)

lemma section_map [simp]:
  "list_all section_line (map coarse_line xs)" "list_all section_line (map match_line ms)"
  "list_all section_line (map total_line ts)" "list_all section_line (map span_line ts)"
  by (simp_all add: list_all_iff coarse_line_def match_line_def total_line_def span_line_def split: prod.split)

lemma section_verdict [simp]: "list_all section_line (verdict b t u)"
  by (simp add: verdict_def)

lemma section_lines:
  "list_all section_line (size_lines cfg s)" "list_all section_line (volume_lines cfg v)"
  "list_all section_line (coarse_lines c)" "list_all section_line (linking_lines l)"
  "list_all section_line (total_lines cfg t)" "list_all section_line (duration_lines d)"
  by (simp_all add: size_lines_def volume_lines_def coarse_lines_def linking_lines_def total_lines_def duration_lines_def
      split: option.split)

lemma overall_lines: "\<not> section_line GAINED_LINE" "\<not> section_line SAFE_LINE" "GAINED_LINE \<noteq> SAFE_LINE"
  by (simp_all add: section_line_def GAINED_LINE_def SAFE_LINE_def str_of_def)

lemma section_free: "list_all section_line ls \<Longrightarrow> GAINED_LINE \<notin> set ls \<and> SAFE_LINE \<notin> set ls"
  using overall_lines by (auto simp: list_all_iff)

lemma report_overall:
  "GAINED_LINE \<in> set (print_report rep) \<longleftrightarrow> adversary_won rep" "SAFE_LINE \<in> set (print_report rep) \<longleftrightarrow> \<not> adversary_won rep"
proof -
  have others: "x \<noteq> [] \<and> x \<noteq> str_of ''=== MixTor adversarial correlation report ==='' \<and> x \<noteq> str_of ''base bin width: '' @ y \<and>
      x \<noteq> str_of ''=== Overall (scored attacks) ==='' " if "x = GAINED_LINE \<or> x = SAFE_LINE" for x y
    using that by (auto simp: GAINED_LINE_def SAFE_LINE_def str_of_def)
  note free = section_lines [THEN section_free]
  show "GAINED_LINE \<in> set (print_report rep) \<longleftrightarrow> adversary_won rep" "SAFE_LINE \<in> set (print_report rep) \<longleftrightarrow> \<not> adversary_won rep"
    using others [of GAINED_LINE] others [of SAFE_LINE] free overall_lines(3) by (auto simp: print_report_def)
qed

lemma frame_plain [simp]:
  "plain_line []" "plain_line (str_of ''=== MixTor adversarial correlation report ==='')" "plain_line (str_of ''base bin width: '' @ x)"
  "plain_line (str_of ''=== Overall (scored attacks) ==='')" "plain_line GAINED_LINE" "plain_line SAFE_LINE"
  by (simp_all add: plain_line_def line_kinds GAINED_LINE_def SAFE_LINE_def)

lemma report_verdicts:
  "verdicts (print_report rep) =
     verdicts (size_lines (ar_config rep) (ar_size_attack rep) @ volume_lines (ar_config rep) (ar_volume_attack rep) @
       coarse_lines (ar_volume_coarse rep) @ linking_lines (ar_linking_attack rep) @
       total_lines (ar_config rep) (ar_total_volume_attack rep) @ duration_lines (ar_duration_leak rep))"
proof -
  have "verdicts [[], str_of ''=== Overall (scored attacks) ==='', if b then GAINED_LINE else SAFE_LINE, []] = (0, 0, 0)" for b
    by (simp add: verdicts_Cons)
  then show ?thesis unfolding print_report_def verdicts_append by (simp add: verdicts_Cons)
qed

lemma report_wins: "(\<exists>l\<in>set (print_report rep). wins_line l) \<longleftrightarrow> adversary_won rep"
proof -
  have wins: "(\<exists>l\<in>set ls. wins_line l) \<longleftrightarrow> fst (verdicts ls) \<noteq> 0" for ls
    by (simp add: verdicts_def filter_empty_conv)
  show ?thesis
    unfolding wins report_verdicts verdicts_append
    by (simp add: adversary_won_def is_some_and_def split: option.splits)
qed

lemma report_accounts:
  "fst (verdicts (print_report rep)) + fst (snd (verdicts (print_report rep))) + snd (snd (verdicts (print_report rep))) =
     5 + (if ar_duration_leak rep = None then 1 else 0)"
  unfolding report_verdicts verdicts_append
  by (cases "ar_size_attack rep"; cases "ar_volume_attack rep"; cases "ar_linking_attack rep";
      cases "ar_total_volume_attack rep"; cases "ar_duration_leak rep"; simp)

lemma analyze_output_gained:
  "GAINED_LINE \<in> set (analyze_output reports) \<longleftrightarrow> (\<exists>(l, rep)\<in>set reports. adversary_won rep)"
proof -
  have "GAINED_LINE \<noteq> []" "GAINED_LINE \<noteq> replicate 60 35" "GAINED_LINE \<noteq> str_of ''# DIRECTION: '' @ label" for label
    by (simp_all add: GAINED_LINE_def str_of_def numeral_eq_Suc)
  then show ?thesis by (auto simp: analyze_output_def direction_lines_def report_overall(1))
qed

lemma attack_directions_won:
  "attack_directions records cfg dirs won = Some (reports, w) \<Longrightarrow> w \<longleftrightarrow> won \<or> (\<exists>(l, rep)\<in>set reports. adversary_won rep)"
proof (induction dirs arbitrary: won reports)
  case (Cons d dirs)
  then show ?case by (cases d) (fastforce split: option.splits prod.splits)
qed simp

text \<open>C31: The report and the exit status agree. Whatever the arguments and the log, \<open>analyze\<close> ends in
  \<open>exit(1)\<close> (and not with an error of its arguments or its file, which also gives status 1) exactly when
  it has printed, for some direction, that the adversary gained
  an advantage; each report has this line or the line that nothing was found, the first exactly when
  some attack's section says that the adversary wins; and every scored attack gets exactly one of the
  three: a win, a defence or the remark that it was skipped. The duration leak never decides.\<close>

theorem report_tells_verdict:
  assumes "analyze parse_f64 open_file args = Some (reports, r)"
  shows "(r = Exits 1 \<longleftrightarrow> GAINED_LINE \<in> set (analyze_output reports)) \<and>
    (\<forall>(label, rep)\<in>set reports.
      (GAINED_LINE \<in> set (print_report rep) \<longleftrightarrow> adversary_won rep) \<and>
      (SAFE_LINE \<in> set (print_report rep) \<longleftrightarrow> \<not> adversary_won rep) \<and>
      ((\<exists>l\<in>set (print_report rep). wins_line l) \<longleftrightarrow> adversary_won rep) \<and>
      (case verdicts (print_report rep) of (wins, defended, skipped) \<Rightarrow>
         wins + defended + skipped = 5 + (if ar_duration_leak rep = None then 1 else 0)))"
proof -
  have "r = Exits 1 \<longleftrightarrow> (\<exists>(l, rep)\<in>set reports. adversary_won rep)"
    using assms attack_directions_won
    by (fastforce simp: analyze_def Option.bind_eq_Some_conv split: sum.splits option.splits if_splits)
  then show ?thesis using report_overall report_wins report_accounts by (auto simp: analyze_output_gained case_prod_beta)
qed

theorem report_tells_verdict_witness:
  "\<exists>reports r. analyze (\<lambda>_. Inl ()) (\<lambda>_. Inr []) [str_of ''server.csv''] = Some (reports, r :: (unit, unit, unit) main_end) \<and>
    reports \<noteq> [] \<and> (r = Exits 1 \<longleftrightarrow> GAINED_LINE \<in> set (analyze_output reports))"
proof -
  define opts where "opts = analyze_defaults\<lparr>an_path := Some (str_of ''server.csv'')\<rparr>"
  have args: "analyze_args (\<lambda>_. Inl ()) [str_of ''server.csv''] analyze_defaults =
      (Inr opts :: (unit, unit, unit) correlate_error + analyze_options)"
    by (simp add: opts_def analyze_defaults_def str_of_def)
  have dirs: "resolve_directions (an_side opts) (an_direction opts) =
      (Inr [(UPLINK_LABEL, events_server), (DOWNLINK_LABEL, events_server_return)] :: (unit, unit, unit) correlate_error + _)"
    by (simp add: opts_def analyze_defaults_def resolve_directions_def str_of_def)
  have opt: "an_path opts = Some (str_of ''server.csv'')" "an_skip_ms opts \<le> 10 ^ 24" by (simp_all add: opts_def analyze_defaults_def)
  have none: "times_ok (parse_reader [])" "skip_records (an_skip_ms opts) (parse_reader []) = Some []"
    by (simp_all add: times_ok_def parse_reader_def skip_records_def opts_def analyze_defaults_def)
  obtain reports r where a: "analyze (\<lambda>_. Inl ()) (\<lambda>_. Inr []) [str_of ''server.csv''] = Some (reports, r :: (unit, unit, unit) main_end)"
    "reports \<noteq> []"
    using analyze_spec [where open_file = "\<lambda>_. Inr []" and text_lines = "[]", OF args opt(1) dirs refl none(1) opt(2) refl none(2)]
    by fastforce
  then show ?thesis using report_tells_verdict [OF a(1)] by blast
qed

end
