(* ===== verification/SampleGen.thy ===== *)
theory SampleGen
  imports Report Conn
begin

text \<open>
  The recording session of \<open>gen-sample\<close> (\<open>mod gen\<close> of \<open>src/src/bin/mixtor-correlate.rs\<close>): the
  amplifying bridge, the applications that drive the flows, and \<open>run\<close>, which puts them together. An
  application is the list of its actions; \<open>wr i\<close> is the outcome of its \<open>i\<close>-th write. The proxies between
  the two are the handlers of \<open>Conn\<close>. The lemmas say that a session does not panic, how much it sends
  and how long it takes, and what the bridge makes of it.
\<close>

section \<open>The bridge\<close>

definition PER_WRITE_CAP :: nat where
  "PER_WRITE_CAP = 32 * 1024"

definition TOTAL_CAP :: nat where
  "TOTAL_CAP = 400 * 1024"

definition bridge_factor :: "nat \<Rightarrow> nat" where
  "bridge_factor idx = 2 + idx mod 4"

text \<open>The loop over the reads of a connection: the replies written, \<open>sent\<close> after them.\<close>

fun bridge_loop :: "nat \<Rightarrow> (nat \<Rightarrow> 'e option) \<Rightarrow> nat \<Rightarrow> nat \<Rightarrow> 'e read_event list \<Rightarrow> bytes list \<times> nat" where
  "bridge_loop factor wr i sent [] = ([], sent)"
| "bridge_loop factor wr i sent (RFail e # evs) = ([], sent)"
| "bridge_loop factor wr i sent (RData bs # evs) =
     (if bs = [] then ([], sent)
      else
        let want = min (min (length bs * factor) PER_WRITE_CAP) (TOTAL_CAP - sent)
        in if want = 0 then bridge_loop factor wr i sent evs
           else
             case wr i of
               Some _ \<Rightarrow> ([], sent)
             | None \<Rightarrow>
                 let (rest, volume) = bridge_loop factor wr (i + 1) (sent + want) evs
                 in (replicate want 0xE5 # rest, volume))"

section \<open>The applications\<close>

datatype app_action = SendBytes bytes | SleepMs nat

text \<open>The start-up: 28 chunks, each followed by a pause.\<close>

fun warm_up :: "(nat \<Rightarrow> 'e option) \<Rightarrow> nat \<Rightarrow> nat \<Rightarrow> ('e + unit) \<times> app_action list" where
  "warm_up wr i 0 = (Inr (), [])"
| "warm_up wr i (Suc n) =
     (case wr i of
        Some e \<Rightarrow> (Inl e, [])
      | None \<Rightarrow>
          let (res, acts) = warm_up wr (i + 1) n
          in (res, SendBytes (replicate 2560 0xAB) # SleepMs 35 # acts))"

definition WARM_WRITES :: nat where
  "WARM_WRITES = 28"

text \<open>The watermark: a write every 100 ms for \<open>HALF_MS\<close>, then silence for as long; the loops also return
  the number of writes.\<close>

definition HALF_MS :: nat where
  "HALF_MS = 1500"

function high_phase :: "(nat \<Rightarrow> 'e option) \<Rightarrow> nat \<Rightarrow> nat \<Rightarrow> nat \<Rightarrow> (('e + unit) \<times> app_action list) \<times> nat" where
  "high_phase wr i burst elapsed =
     (if elapsed < HALF_MS then
        (case wr i of
           Some e \<Rightarrow> ((Inl e, []), i)
         | None \<Rightarrow>
             let ((res, acts), j) = high_phase wr (i + 1) burst (elapsed + 100)
             in ((res, SendBytes (replicate burst 0xCD) # SleepMs 100 # acts), j))
      else ((Inr (), []), i))"
  by pat_completeness auto

termination
  by (relation "measure (\<lambda>(wr, i, burst, elapsed). HALF_MS - elapsed)") auto

declare high_phase.simps [simp del]

fun watermark_cycles :: "(nat \<Rightarrow> 'e option) \<Rightarrow> nat \<Rightarrow> nat \<Rightarrow> nat \<Rightarrow> ('e + unit) \<times> app_action list" where
  "watermark_cycles wr i burst 0 = (Inr (), [])"
| "watermark_cycles wr i burst (Suc n) =
     (case high_phase wr i burst 0 of
        ((Inl e, acts), j) \<Rightarrow> (Inl e, acts)
      | ((Inr _, acts), j) \<Rightarrow>
          let (res, acts') = watermark_cycles wr j burst n in (res, acts @ SleepMs HALF_MS # acts'))"

text \<open>The steady state: bursts of random sizes with random pauses.\<close>

fun burst_loop ::
  "'r rng_ops \<Rightarrow> (nat \<Rightarrow> 'e option) \<Rightarrow> nat \<Rightarrow> nat \<Rightarrow> nat \<Rightarrow> nat \<Rightarrow> nat \<Rightarrow> 'r \<Rightarrow> (('e + unit) \<times> app_action list) option" where
  "burst_loop R wr i burst min_idle max_idle 0 r = Some (Inr (), [])"
| "burst_loop R wr i burst min_idle max_idle (Suc n) r = do {
     (len, r1) \<leftarrow> gen_range R r (burst div 2) burst;
     (case wr i of
        Some e \<Rightarrow> Some (Inl e, [])
      | None \<Rightarrow> do {
          (idle, r2) \<leftarrow> gen_range R r1 min_idle max_idle;
          (res, acts) \<leftarrow> burst_loop R wr (i + 1) burst min_idle max_idle n r2;
          Some (res, SendBytes (replicate len 0xCD) # SleepMs idle # acts)
        })
   }"

record flow_params =
  fp_seed :: nat
  fp_burst_bytes :: nat
  fp_min_idle :: nat
  fp_max_idle :: nat
  fp_watermark :: bool

text \<open>\<open>seeded\<close> is \<open>StdRng::seed_from_u64\<close>, \<open>dial\<close> and \<open>shut\<close> the outcomes of the connection and of the shutdown.\<close>

definition app_flow ::
  "'r rng_ops \<Rightarrow> (nat \<Rightarrow> 'r) \<Rightarrow> 'e option \<Rightarrow> (nat \<Rightarrow> 'e option) \<Rightarrow> 'e option \<Rightarrow> flow_params \<Rightarrow> nat \<Rightarrow>
     (('e + unit) \<times> app_action list) option" where
  "app_flow R seeded connect wr shut p bursts =
     (case connect of
        Some e \<Rightarrow> Some (Inl e, [])
      | None \<Rightarrow>
          (case warm_up wr 0 WARM_WRITES of
             (Inl e, acts) \<Rightarrow> Some (Inl e, acts)
           | (Inr _, acts) \<Rightarrow> do {
               (res, acts') \<leftarrow>
                 (if fp_watermark p then
                    Some (watermark_cycles wr WARM_WRITES (fp_burst_bytes p) (max (bursts div 30) 4))
                  else burst_loop R wr WARM_WRITES (fp_burst_bytes p) (fp_min_idle p) (fp_max_idle p) bursts (seeded (fp_seed p)));
               Some (case res of
                       Inl e \<Rightarrow> (Inl e, acts @ acts')
                     | Inr _ \<Rightarrow> (case shut of Some e \<Rightarrow> Inl e | None \<Rightarrow> Inr (), acts @ acts'))
             }))"

section \<open>The session\<close>

definition flow_params_of :: "bool \<Rightarrow> nat \<Rightarrow> flow_params" where
  "flow_params_of wm i =
     (let min_idle = 70 + (i mod 5) * 30
      in \<lparr>fp_seed = 7 + i * 1009, fp_burst_bytes = 500 + (i mod 6) * 220, fp_min_idle = min_idle,
          fp_max_idle = min_idle + 150 + (i mod 4) * 90, fp_watermark = wm \<and> i = 0\<rparr>)"

text \<open>\<open>catchup_stats\<close>: the two counters of the process, which every correlator adds to.\<close>

definition catchup_stats :: "'r timing_correlator list \<Rightarrow> nat \<times> nat" where
  "catchup_stats tcs =
     (sum_list (map slots_fired tcs) mod 2 ^ 64, sum_list (map slots_dropped tcs) mod 2 ^ 64)"

definition drop_rate :: "nat \<Rightarrow> nat \<Rightarrow> real" where
  "drop_rate fired dropped = (if fired > 0 then 100 * real dropped / real fired else 0)"

definition closing_lines :: "rstr \<Rightarrow> nat \<times> nat \<Rightarrow> rstr list" where
  "closing_lines dir stats =
     (let (fired, dropped) = stats
      in [concat [str_of ''emitter slots: fired '', nat_str fired, str_of ''  dropped(catch-up) '', nat_str dropped, str_of ''  ('',
            fixed False 2 (drop_rate fired dropped), str_of ''% dropped)''],
          str_of ''wrote server.csv and client.csv to '' @ dir,
          concat [str_of ''now run:  mixtor-correlate analyze '', dir, str_of ''/server.csv --direction both --skip-ms 1500''],
          str_of ''tip: set MIXTOR_TAIL_FLOOR_MS=25000 before gen-sample to pad session lifetime and close the duration/integral leak.''])"

fun first_error :: "('e + unit) list \<Rightarrow> 'e option" where
  "first_error [] = None"
| "first_error (Inl e # rs) = Some e"
| "first_error (Inr _ # rs) = first_error rs"

text \<open>
  The proxies of \<open>run\<close>: the handlers of \<open>Conn\<close> with a tail that is off unless the environment sets one.
  The server's has no limit on its connections (a slot is always free), and reads are of at most 1200 bytes.
\<close>

definition gen_tail :: "rstr option \<Rightarrow> nanos \<Rightarrow> tail_policy option" where
  "gen_tail var now = tail_from_env_or var now TailOff"

definition gen_server_proxy ::
  "rstr option \<Rightarrow> nanos \<Rightarrow> crypto_ops \<Rightarrow> 'r rng_ops \<Rightarrow> (bytes \<Rightarrow> bytes \<Rightarrow> bytes) \<Rightarrow> ('os, 'g) os_random \<Rightarrow> 'os \<Rightarrow>
     ('e, 'r) attempt \<Rightarrow> static_keypair \<Rightarrow> 'r \<Rightarrow> 'r \<Rightarrow> 'r \<Rightarrow> (nat \<Rightarrow> nanos) \<Rightarrow> 'q rng_ops \<Rightarrow> (nat \<Rightarrow> nanos) \<Rightarrow>
     (nat \<Rightarrow> 'q demux_state \<Rightarrow> 'q demux_state) \<Rightarrow> 'e wire_in \<Rightarrow> 'q demux_state \<Rightarrow> ('e, 'g, 'r, 'q) served option" where
  "gen_server_proxy var started C R H G os a kp r_hole r_iat r_th clk Q now env w st = do {
     policy \<leftarrow> gen_tail var started;
     handle_server_connection_with_lab C R H G os a kp r_hole 1 r_iat r_th clk policy Q now env w st
   }"

definition gen_client_proxy ::
  "rstr option \<Rightarrow> nanos \<Rightarrow> crypto_ops \<Rightarrow> 'r rng_ops \<Rightarrow> (bytes \<Rightarrow> bytes \<Rightarrow> bytes) \<Rightarrow> ('os, 'g) os_random \<Rightarrow> 'os \<Rightarrow>
     ('e, 'r) attempt \<Rightarrow> bytes \<Rightarrow> 'r \<Rightarrow> 'r \<Rightarrow> (nat \<Rightarrow> nanos) \<Rightarrow> nat option \<Rightarrow> 'e read_event list \<Rightarrow> 'r \<Rightarrow>
     (nat \<Rightarrow> 'e option) \<Rightarrow> 'e wire_in \<Rightarrow> bool \<Rightarrow>
     ((('e, 'g) conn_error + unit) \<times> 'r flow_slot option \<times> bytes list \<times> bytes) option" where
  "gen_client_proxy var started C R H G os a server_pub r_iat r_th clk accepted evs r_pad wr w outbound_first = do {
     policy \<leftarrow> gen_tail var started;
     handle_client_connection_with_lab C R H G os a server_pub r_iat r_th clk policy accepted evs r_pad wr w outbound_first
   }"

text \<open>
  The first error of \<open>run\<close> before the flows start: that of a logger, or of one of the three listeners
  and their addresses (\<open>bound k\<close> is the outcome of the \<open>k\<close>-th of these six calls).
\<close>

definition gen_setup :: "'e + lab_logger \<Rightarrow> 'e + lab_logger \<Rightarrow> (nat \<Rightarrow> 'e option) \<Rightarrow> 'e option" where
  "gen_setup server_lab client_lab bound =
     (case server_lab of
        Inl e \<Rightarrow> Some e
      | Inr _ \<Rightarrow>
          (case client_lab of
             Inl e \<Rightarrow> Some e
           | Inr _ \<Rightarrow> first_error (map (\<lambda>k. case bound k of Some e \<Rightarrow> Inl e | None \<Rightarrow> Inr ()) [0..<6])))"

text \<open>\<open>finish\<close> is how the flow with these parameters ends; the first error of a flow, in their order, is
  that of \<open>run\<close>. At the end the lines for the user.\<close>

definition gen_run ::
  "'e option \<Rightarrow> bool \<Rightarrow> (flow_params \<Rightarrow> 'e + unit) \<Rightarrow> nat \<times> nat \<Rightarrow> rstr \<Rightarrow> nat \<Rightarrow> 'e + rstr list" where
  "gen_run setup wm finish stats dir flow_count =
     (case setup of
        Some e \<Rightarrow> Inl e
      | None \<Rightarrow>
          (case first_error (map (\<lambda>i. finish (flow_params_of wm i)) [0..<flow_count]) of
             Some e \<Rightarrow> Inl e
           | None \<Rightarrow> Inr (closing_lines dir stats)))"

section \<open>Lemmas\<close>

text \<open>Without the variable the proxies have no tail cover.\<close>

lemma gen_proxies_default:
  "gen_client_proxy None started C R H G os a server_pub r_iat r_th clk accepted evs r_pad wr w outbound_first =
     handle_client_connection C R H G os a server_pub r_iat r_th clk accepted evs r_pad wr w outbound_first"
  "gen_server_proxy None started C R H G os a kp r_hole r_iat r_th clk Q now env wi st =
     handle_server_connection C R H G os a kp r_hole 1 r_iat r_th clk Q now env wi st"
  by (simp_all add: gen_client_proxy_def gen_server_proxy_def gen_tail_def tail_from_env_or_def tail_from_env_def
      or_else_def handle_client_connection_def handle_server_connection_def)

lemma first_error_None: "first_error rs = None \<longleftrightarrow> (\<forall>r\<in>set rs. r = Inr ())"
  by (induction rs rule: first_error.induct) auto

text \<open>A run succeeds exactly when it was set up and every flow ended well.\<close>

lemma gen_run_ok:
  "gen_run setup wm finish stats dir n = Inr ls \<longleftrightarrow>
     setup = None \<and> (\<forall>i<n. finish (flow_params_of wm i) = Inr ()) \<and> ls = closing_lines dir stats"
proof -
  have "first_error (map (\<lambda>i. finish (flow_params_of wm i)) [0..<n]) = None \<longleftrightarrow> (\<forall>i<n. finish (flow_params_of wm i) = Inr ())"
    by (auto simp: first_error_None)
  then show ?thesis by (auto simp: gen_run_def split: option.splits)
qed

definition sent_bytes :: "app_action list \<Rightarrow> bytes" where
  "sent_bytes acts = concat (map (\<lambda>a. case a of SendBytes bs \<Rightarrow> bs | SleepMs _ \<Rightarrow> []) acts)"

definition slept_ms :: "app_action list \<Rightarrow> nat" where
  "slept_ms acts = (\<Sum>a\<leftarrow>acts. case a of SendBytes _ \<Rightarrow> 0 | SleepMs ms \<Rightarrow> ms)"

lemma action_sums [simp]:
  "sent_bytes [] = []" "sent_bytes (SendBytes bs # acts) = bs @ sent_bytes acts" "sent_bytes (SleepMs ms # acts) = sent_bytes acts"
  "sent_bytes (acts @ acts') = sent_bytes acts @ sent_bytes acts'"
  "slept_ms [] = 0" "slept_ms (SendBytes bs # acts) = slept_ms acts" "slept_ms (SleepMs ms # acts) = ms + slept_ms acts"
  "slept_ms (acts @ acts') = slept_ms acts + slept_ms acts'"
  by (simp_all add: sent_bytes_def slept_ms_def)

lemma warm_up_ok:
  "\<exists>acts. warm_up (\<lambda>_. None) i n = (Inr () :: 'e + unit, acts) \<and> length (sent_bytes acts) = 2560 * n \<and> slept_ms acts = 35 * n"
proof (induction n arbitrary: i)
  case (Suc n)
  from Suc.IH [of "i + 1"] show ?case by auto
qed simp

lemma high_phase_ok:
  assumes "elapsed + 100 * n = HALF_MS"
  shows "\<exists>acts j. high_phase (\<lambda>_. None) i burst elapsed = ((Inr () :: 'e + unit, acts), j) \<and>
    length (sent_bytes acts) = burst * n \<and> slept_ms acts = 100 * n"
  using assms
proof (induction n arbitrary: elapsed i)
  case 0
  then show ?case by (simp add: high_phase.simps)
next
  case (Suc n)
  then obtain acts j where "high_phase (\<lambda>_. None) (i + 1) burst (elapsed + 100) = ((Inr () :: 'e + unit, acts), j)"
    "length (sent_bytes acts) = burst * n" "slept_ms acts = 100 * n"
    by (metis (no_types, lifting) add.assoc mult_Suc_right)
  moreover have "elapsed < HALF_MS" using Suc.prems by simp
  ultimately show ?case by (simp add: high_phase.simps [of _ i burst elapsed])
qed

lemma watermark_ok:
  "\<exists>acts. watermark_cycles (\<lambda>_. None) i burst n = (Inr () :: 'e + unit, acts) \<and>
    length (sent_bytes acts) = 15 * burst * n \<and> slept_ms acts = 3000 * n"
proof (induction n arbitrary: i)
  case (Suc n)
  obtain acts j where h: "high_phase (\<lambda>_. None) i burst 0 = ((Inr () :: 'e + unit, acts), j)"
    "length (sent_bytes acts) = burst * 15" "slept_ms acts = 100 * 15"
    using high_phase_ok [of 0 15 i burst] by (auto simp: HALF_MS_def)
  from Suc.IH [of j] obtain acts' where "watermark_cycles (\<lambda>_. None) j burst n = (Inr () :: 'e + unit, acts')"
    "length (sent_bytes acts') = 15 * burst * n" "slept_ms acts' = 3000 * n" by blast
  then show ?case using h by (simp add: HALF_MS_def)
qed simp

lemma burst_loop_ok:
  assumes "rng_ok R" "min_idle \<le> max_idle"
  shows "\<exists>acts. burst_loop R (\<lambda>_. None) i burst min_idle max_idle n r = Some (Inr () :: 'e + unit, acts) \<and>
    burst div 2 * n \<le> length (sent_bytes acts) \<and> length (sent_bytes acts) \<le> burst * n \<and>
    min_idle * n \<le> slept_ms acts \<and> slept_ms acts \<le> max_idle * n"
proof (induction n arbitrary: i r)
  case (Suc n)
  have "burst div 2 \<le> burst" by simp
  then obtain len r1 where l: "gen_range R r (burst div 2) burst = Some (len, r1)" "burst div 2 \<le> len" "len \<le> burst"
    using gen_range_total [OF assms(1)] by metis
  obtain idle r2 where d: "gen_range R r1 min_idle max_idle = Some (idle, r2)" "min_idle \<le> idle" "idle \<le> max_idle"
    using gen_range_total [OF assms(1,2)] by metis
  from Suc.IH [of "i + 1" r2] show ?case using l d by auto
qed simp

text \<open>No panic, whatever the writes do.\<close>

lemma burst_loop_total:
  assumes "rng_ok R" "min_idle \<le> max_idle"
  shows "\<exists>res. burst_loop R wr i burst min_idle max_idle n r = Some res"
proof (induction n arbitrary: i r)
  case (Suc n)
  have "burst div 2 \<le> burst" by simp
  then obtain len r1 where l: "gen_range R r (burst div 2) burst = Some (len, r1)"
    using gen_range_total [OF assms(1)] by metis
  obtain idle r2 where d: "gen_range R r1 min_idle max_idle = Some (idle, r2)"
    using gen_range_total [OF assms] by metis
  obtain res acts where "burst_loop R wr (i + 1) burst min_idle max_idle n r2 = Some (res, acts)"
    using Suc.IH [of "i + 1" r2] by fastforce
  then show ?case using l d by (simp split: option.split)
qed simp

text \<open>What the bridge replies: the amplified reads, up to the caps.\<close>

definition read_sizes :: "'e read_event list \<Rightarrow> nat list" where
  "read_sizes evs = map (\<lambda>e. case e of RData bs \<Rightarrow> length bs | RFail _ \<Rightarrow> 0) evs"

lemma bridge_loop_ok:
  assumes "\<forall>e\<in>set evs. \<exists>bs. e = RData bs \<and> bs \<noteq> []" "sent \<le> TOTAL_CAP" "0 < factor"
  shows "\<exists>replies. bridge_loop factor (\<lambda>_. None) i sent evs =
      (replies, min TOTAL_CAP (sent + (\<Sum>n\<leftarrow>read_sizes evs. min (n * factor) PER_WRITE_CAP))) \<and>
    sent + length (concat replies) = min TOTAL_CAP (sent + (\<Sum>n\<leftarrow>read_sizes evs. min (n * factor) PER_WRITE_CAP)) \<and>
    (\<forall>b\<in>set replies. b \<noteq> [] \<and> length b \<le> PER_WRITE_CAP)"
  using assms(1,2)
proof (induction evs arbitrary: i sent)
  case Nil
  then show ?case by (simp add: read_sizes_def)
next
  case (Cons e evs)
  obtain bs where bs: "e = RData bs" "bs \<noteq> []" using Cons.prems(1) by auto
  define full where "full = min (length bs * factor) PER_WRITE_CAP"
  define want where "want = min full (TOTAL_CAP - sent)"
  have rest: "\<forall>e\<in>set evs. \<exists>bs. e = RData bs \<and> bs \<noteq> []" using Cons.prems(1) by simp
  have full: "0 < full" using bs(2) assms(3) by (simp add: full_def PER_WRITE_CAP_def)
  define later where "later = (\<Sum>n\<leftarrow>read_sizes evs. min (n * factor) PER_WRITE_CAP)"
  have all: "(\<Sum>n\<leftarrow>read_sizes (e # evs). min (n * factor) PER_WRITE_CAP) = full + later"
    by (simp add: read_sizes_def bs(1) full_def later_def)
  have cap: "min TOTAL_CAP (sent + want + later) = min TOTAL_CAP (sent + (full + later))"
    using Cons.prems(2) unfolding want_def by arith
  show ?case
  proof (cases "want = 0")
    case True
    then have sent: "sent = TOTAL_CAP" using full Cons.prems(2) by (simp add: want_def min_def split: if_splits)
    from Cons.IH [OF rest Cons.prems(2), of i] sent show ?thesis
      using True bs unfolding all later_def [symmetric] by (simp flip: full_def want_def)
  next
    case False
    have "sent + want \<le> TOTAL_CAP" using Cons.prems(2) by (simp add: want_def)
    from Cons.IH [OF rest this, of "i + 1"] obtain replies where
      "bridge_loop factor (\<lambda>_. None) (i + 1) (sent + want) evs = (replies, min TOTAL_CAP (sent + want + later))"
      "sent + want + length (concat replies) = min TOTAL_CAP (sent + want + later)"
      "\<forall>b\<in>set replies. b \<noteq> [] \<and> length b \<le> PER_WRITE_CAP" unfolding later_def by blast
    moreover have "want \<le> PER_WRITE_CAP" unfolding want_def full_def by linarith
    ultimately show ?thesis
      using False bs unfolding all by (simp add: cap [symmetric] flip: full_def want_def)
  qed
qed

section \<open>Properties\<close>

lemma app_flow_total:
  assumes "rng_ok R" "fp_min_idle p \<le> fp_max_idle p"
  shows "\<exists>r. app_flow R seeded connect wr shut p bursts = Some r"
proof -
  obtain x where "burst_loop R wr WARM_WRITES (fp_burst_bytes p) (fp_min_idle p) (fp_max_idle p) bursts (seeded (fp_seed p)) = Some x"
    using burst_loop_total [OF assms] by blast
  moreover obtain y where "warm_up wr 0 WARM_WRITES = y" by blast
  ultimately show ?thesis
    by (cases x; cases "fst y"; cases y; cases connect) (simp_all add: app_flow_def case_prod_beta)
qed

lemma app_flow_ok:
  assumes "rng_ok R" "fp_min_idle p \<le> fp_max_idle p"
  obtains acts where "app_flow R seeded None (\<lambda>_. None) None p bursts = Some (Inr () :: 'e + unit, acts)"
    "\<not> fp_watermark p \<Longrightarrow> 71680 + fp_burst_bytes p div 2 * bursts \<le> length (sent_bytes acts) \<and>
       length (sent_bytes acts) \<le> 71680 + fp_burst_bytes p * bursts \<and>
       980 + fp_min_idle p * bursts \<le> slept_ms acts \<and> slept_ms acts \<le> 980 + fp_max_idle p * bursts"
    "fp_watermark p \<Longrightarrow> length (sent_bytes acts) = 71680 + 15 * fp_burst_bytes p * max (bursts div 30) 4 \<and>
       slept_ms acts = 980 + 3000 * max (bursts div 30) 4"
proof -
  obtain warm where w: "warm_up (\<lambda>_. None) 0 WARM_WRITES = (Inr () :: 'e + unit, warm)"
    "length (sent_bytes warm) = 2560 * WARM_WRITES" "slept_ms warm = 35 * WARM_WRITES"
    using warm_up_ok [of 0 WARM_WRITES] by blast
  show thesis
  proof (cases "fp_watermark p")
    case True
    obtain acts where a: "watermark_cycles (\<lambda>_. None) WARM_WRITES (fp_burst_bytes p) (max (bursts div 30) 4) = (Inr () :: 'e + unit, acts)"
      "length (sent_bytes acts) = 15 * fp_burst_bytes p * max (bursts div 30) 4" "slept_ms acts = 3000 * max (bursts div 30) 4"
      using watermark_ok by blast
    show thesis
    proof (rule that [of "warm @ acts"])
      show "app_flow R seeded None (\<lambda>_. None) None p bursts = Some (Inr () :: 'e + unit, warm @ acts)"
        using w(1) a(1) True by (simp add: app_flow_def)
    qed (use w a True in \<open>simp_all add: WARM_WRITES_def\<close>)
  next
    case False
    obtain acts where a: "burst_loop R (\<lambda>_. None) WARM_WRITES (fp_burst_bytes p) (fp_min_idle p) (fp_max_idle p) bursts (seeded (fp_seed p)) =
        Some (Inr () :: 'e + unit, acts)"
      "fp_burst_bytes p div 2 * bursts \<le> length (sent_bytes acts)" "length (sent_bytes acts) \<le> fp_burst_bytes p * bursts"
      "fp_min_idle p * bursts \<le> slept_ms acts" "slept_ms acts \<le> fp_max_idle p * bursts"
      using burst_loop_ok [OF assms] by blast
    show thesis
    proof (rule that [of "warm @ acts"])
      show "app_flow R seeded None (\<lambda>_. None) None p bursts = Some (Inr () :: 'e + unit, warm @ acts)"
        using w(1) a(1) False by (simp add: app_flow_def)
    qed (use w a False in \<open>simp_all add: WARM_WRITES_def\<close>)
  qed
qed

lemma flow_params_idle: "fp_min_idle (flow_params_of wm i) \<le> fp_max_idle (flow_params_of wm i)"
  by (simp add: flow_params_of_def Let_def)

text \<open>A recording session ends and is bounded: no application of \<open>gen-sample\<close> panics, whatever its
  sockets do and whatever number of flows and bursts was asked for; when its writes succeed, flow \<open>i\<close>
  sends its 70 KiB of start-up and then at most 1600 bytes and at least 250 bytes a burst, sleeping 70 to
  610 ms after each, and the flow with the watermark sends 15 equal bursts in each of its 3 s cycles.\<close>

theorem sample_flow_bounded:
  assumes "rng_ok R"
  shows "(\<exists>r. app_flow R seeded connect wr shut (flow_params_of wm i) bursts = Some r) \<and>
    (\<exists>acts. app_flow R seeded None (\<lambda>_. None) None (flow_params_of wm i) bursts = Some (Inr () :: 'e + unit, acts) \<and>
      (if wm \<and> i = 0 then
         length (sent_bytes acts) = 71680 + 15 * 500 * max (bursts div 30) 4 \<and> slept_ms acts = 980 + 3000 * max (bursts div 30) 4
       else
         71680 + 250 * bursts \<le> length (sent_bytes acts) \<and> length (sent_bytes acts) \<le> 71680 + 1600 * bursts \<and>
         980 + 70 * bursts \<le> slept_ms acts \<and> slept_ms acts \<le> 980 + 610 * bursts))"
proof -
  define p where "p = flow_params_of wm i"
  have idle: "fp_min_idle p \<le> fp_max_idle p" unfolding p_def by (rule flow_params_idle)
  have "i mod 6 \<le> 5" "i mod 5 \<le> 4" "i mod 4 \<le> 3" by simp_all
  then have b: "500 \<le> fp_burst_bytes p" "fp_burst_bytes p \<le> 1600" "70 \<le> fp_min_idle p" "fp_max_idle p \<le> 610"
    "wm \<and> i = 0 \<Longrightarrow> fp_burst_bytes p = 500" "fp_watermark p \<longleftrightarrow> wm \<and> i = 0"
    by (auto simp: p_def flow_params_of_def Let_def)
  have half: "250 \<le> fp_burst_bytes p div 2" using b(1) by simp
  note m = mult_le_mono1 [OF half, of bursts] mult_le_mono1 [OF b(2), of bursts] mult_le_mono1 [OF b(3), of bursts]
    mult_le_mono1 [OF b(4), of bursts]
  obtain acts where a: "app_flow R seeded None (\<lambda>_. None) None p bursts = Some (Inr () :: 'e + unit, acts)"
    "\<not> fp_watermark p \<Longrightarrow> 71680 + fp_burst_bytes p div 2 * bursts \<le> length (sent_bytes acts) \<and>
       length (sent_bytes acts) \<le> 71680 + fp_burst_bytes p * bursts \<and>
       980 + fp_min_idle p * bursts \<le> slept_ms acts \<and> slept_ms acts \<le> 980 + fp_max_idle p * bursts"
    "fp_watermark p \<Longrightarrow> length (sent_bytes acts) = 71680 + 15 * fp_burst_bytes p * max (bursts div 30) 4 \<and>
       slept_ms acts = 980 + 3000 * max (bursts div 30) 4"
    using app_flow_ok [OF assms idle] by blast
  have "if wm \<and> i = 0 then
         length (sent_bytes acts) = 71680 + 15 * 500 * max (bursts div 30) 4 \<and> slept_ms acts = 980 + 3000 * max (bursts div 30) 4
       else
         71680 + 250 * bursts \<le> length (sent_bytes acts) \<and> length (sent_bytes acts) \<le> 71680 + 1600 * bursts \<and>
         980 + 70 * bursts \<le> slept_ms acts \<and> slept_ms acts \<le> 980 + 610 * bursts"
  proof (cases "wm \<and> i = 0")
    case True
    then show ?thesis using a(3) b(5,6) by simp
  next
    case False
    then show ?thesis
      unfolding if_not_P [OF False] using a(2) b(6) m by (intro conjI) linarith+
  qed
  then show ?thesis using app_flow_total [OF assms idle] a(1) unfolding p_def by blast
qed

text \<open>What a flow downloads. When the sockets work and the bridge reads what an application sends in
  pieces of at most 6 KiB, its replies add up to the bytes sent times the factor of the connection, cut
  off at 400 KiB. Hence with 123 bursts or more all connections with a factor of 4 or 5 download
  exactly 409600 bytes, and connections four apart have the same factor: the volumes are not distinct.\<close>

theorem sample_download:
  assumes "rng_ok R" "app_flow R seeded None (\<lambda>_. None) None (flow_params_of False i) bursts = Some (Inr () :: 'e + unit, acts)"
    and "\<forall>e\<in>set evs. \<exists>bs. e = RData bs \<and> bs \<noteq> [] \<and> length bs \<le> 6144" "read_bytes evs = sent_bytes acts"
    and "bridge_loop (bridge_factor idx) (\<lambda>_. None :: 'x option) 0 0 evs = (replies, volume)"
  shows "volume = min 409600 (bridge_factor idx * length (sent_bytes acts)) \<and> length (concat replies) = volume \<and>
    (123 \<le> bursts \<and> 2 \<le> idx mod 4 \<longrightarrow> volume = 409600) \<and> bridge_factor (idx + 4) = bridge_factor idx"
proof -
  have idle: "fp_min_idle (flow_params_of False i) \<le> fp_max_idle (flow_params_of False i)" by (rule flow_params_idle)
  have "500 \<le> fp_burst_bytes (flow_params_of False i)" "\<not> fp_watermark (flow_params_of False i)"
    by (simp_all add: flow_params_of_def Let_def)
  then have half: "250 \<le> fp_burst_bytes (flow_params_of False i) div 2" "\<not> fp_watermark (flow_params_of False i)" by simp_all
  obtain acts' where a: "app_flow R seeded None (\<lambda>_. None) None (flow_params_of False i) bursts = Some (Inr () :: 'e + unit, acts')"
    "71680 + fp_burst_bytes (flow_params_of False i) div 2 * bursts \<le> length (sent_bytes acts')"
    using app_flow_ok [OF assms(1) idle, of seeded bursts] half(2) by blast
  have sent: "71680 + 250 * bursts \<le> length (sent_bytes acts)"
  proof -
    have acts: "acts' = acts" using a(1) assms(2) by simp
    have "71680 + 250 * bursts \<le> 71680 + fp_burst_bytes (flow_params_of False i) div 2 * bursts"
      by (intro add_left_mono mult_le_mono1 half(1))
    then show ?thesis using a(2) unfolding acts by (rule le_trans)
  qed
  have f: "0 < bridge_factor idx" "bridge_factor idx \<le> 5" by (simp_all add: bridge_factor_def)
  have data: "\<forall>e\<in>set evs. \<exists>bs. e = RData bs \<and> bs \<noteq> []" using assms(3) by blast
  have "n * bridge_factor idx \<le> PER_WRITE_CAP" if "n \<in> set (read_sizes evs)" for n
  proof -
    have "n \<le> 6144" using that assms(3) by (auto simp: read_sizes_def)
    then show ?thesis using mult_le_mono [OF _ f(2), of n 6144] by (simp add: PER_WRITE_CAP_def)
  qed
  then have "(\<Sum>n\<leftarrow>read_sizes evs. min (n * bridge_factor idx) PER_WRITE_CAP) = (\<Sum>n\<leftarrow>read_sizes evs. n * bridge_factor idx)"
    by (intro arg_cong [of _ _ sum_list] map_cong) (simp_all add: min_absorb1)
  also have "\<dots> = bridge_factor idx * sum_list (read_sizes evs)" by (simp add: sum_list_mult_const mult.commute)
  also have "sum_list (read_sizes evs) = length (read_bytes evs)"
    using data by (induction evs) (auto simp: read_sizes_def)
  finally have volume: "volume = min TOTAL_CAP (bridge_factor idx * length (sent_bytes acts))" "length (concat replies) = volume"
    using bridge_loop_ok [OF data _ f(1), of 0 0] assms(4,5) by auto
  have "volume = 409600" if "123 \<le> bursts" "2 \<le> idx mod 4"
  proof -
    have "4 \<le> bridge_factor idx" "102400 \<le> length (sent_bytes acts)" using that sent by (simp_all add: bridge_factor_def)
    then have "4 * 102400 \<le> bridge_factor idx * length (sent_bytes acts)" by (rule mult_le_mono)
    then show ?thesis by (simp add: volume(1) TOTAL_CAP_def)
  qed
  then show ?thesis using volume by (simp add: TOTAL_CAP_def bridge_factor_def)
qed

section \<open>Witnesses\<close>

theorem sample_flow_bounded_witness:
  "\<exists>acts. app_flow lcg id None (\<lambda>_. None) None (flow_params_of True 0) 64 = Some (Inr () :: unit + unit, acts) \<and>
    length (sent_bytes acts) = 101680 \<and> slept_ms acts = 12980"
  using sample_flow_bounded [where 'e = unit and connect = None and wr = "\<lambda>_. None" and shut = None,
      OF lcg_ok, of id True 0 64, THEN conjunct2] by simp

text \<open>A bridge that reads what the application sends byte by byte.\<close>

theorem sample_download_witness:
  "\<exists>acts replies. app_flow lcg id None (\<lambda>_. None) None (flow_params_of False 1) 130 = Some (Inr () :: unit + unit, acts) \<and>
    bridge_loop (bridge_factor 3) (\<lambda>_. None :: unit option) 0 0 (map (\<lambda>b. RData [b]) (sent_bytes acts)) = (replies, 409600)"
proof -
  obtain acts where a: "app_flow lcg id None (\<lambda>_. None) None (flow_params_of False 1) 130 = Some (Inr () :: unit + unit, acts)"
    using sample_flow_bounded [where 'e = unit and connect = None and wr = "\<lambda>_. None" and shut = None,
      OF lcg_ok, of id False 1 130] by blast
  define evs :: "unit read_event list" where "evs = map (\<lambda>b. RData [b]) (sent_bytes acts)"
  obtain replies volume where b: "bridge_loop (bridge_factor 3) (\<lambda>_. None :: unit option) 0 0 evs = (replies, volume)" by fastforce
  have reads: "\<forall>e\<in>set evs. \<exists>bs. e = RData bs \<and> bs \<noteq> [] \<and> length bs \<le> 6144" by (auto simp: evs_def)
  have bytes: "read_bytes evs = sent_bytes acts" proof -
    have "read_bytes (map (\<lambda>b. RData [b] :: unit read_event) xs) = xs" for xs by (induction xs) auto
    then show ?thesis by (simp add: evs_def)
  qed
  have "volume = 409600" using sample_download [OF lcg_ok a reads bytes b] by simp
  then show ?thesis using a b unfolding evs_def by blast
qed

end
