(* ===== verification/Messages.thy ===== *)
theory Messages
  imports Monitor Report Socks Timing
begin

text \<open>
  The texts of \<open>Display\<close> and \<open>Debug\<close>: what an error of each component says, the failures of the
  self-test, and how the seeds print. The texts of the system's errors are an argument. The lemmas
  say that the errors of a SOCKS client can be told apart by their texts, that a failure prints the
  rounded statistic exactly, and that no text of a seed depends on its bytes.
\<close>

section \<open>Seeds\<close>

definition role_debug :: "seed_role \<Rightarrow> rstr" where
  "role_debug r = (case r of TimingAndPool \<Rightarrow> str_of ''TimingAndPool'' | BurstComposition \<Rightarrow> str_of ''BurstComposition'')"

definition seed_debug :: "ephemeral_seed \<Rightarrow> rstr" where
  "seed_debug s =
     concat [str_of ''EphemeralSeed { role: '', role_debug (seed_role s),
       str_of '', bytes: '', [34], str_of ''[redacted; zeroized on drop]'', [34], str_of '' }'']"

text \<open>\<open>Debug\<close> of a \<open>Duration\<close>: the largest unit that fits, with the fraction's trailing zeros cut. 181 is the micro sign.\<close>

definition duration_decimal :: "nat \<Rightarrow> nat \<Rightarrow> nat \<Rightarrow> rstr" where
  "duration_decimal w whole fraction =
     (let digits = rev (dropWhile (\<lambda>c. c = 48) (rev (pad_left 48 w (nat_str fraction))))
      in nat_str whole @ (if digits = [] then [] else 46 # digits))"

definition duration_debug :: "nanos \<Rightarrow> rstr" where
  "duration_debug d =
     (if d \<ge> 1000000000 then duration_decimal 9 (d div 1000000000) (d mod 1000000000) @ str_of ''s''
      else if d \<ge> 1000000 then duration_decimal 6 (d div 1000000) (d mod 1000000) @ str_of ''ms''
      else if d \<ge> 1000 then duration_decimal 3 (d div 1000) (d mod 1000) @ 181 # str_of ''s''
      else duration_decimal 0 d 0 @ str_of ''ns'')"

definition session_debug :: "session_seeds \<Rightarrow> rstr" where
  "session_debug s =
     concat [str_of ''SessionSeeds { timing_and_pool: '', seed_debug (timing_and_pool s),
       str_of '', burst_composition: '', seed_debug (burst_composition s),
       str_of '', rotation_interval: '', duration_debug (rotation_interval s), str_of '' }'']"

definition seed_error_text :: "('g \<Rightarrow> rstr) \<Rightarrow> 'g seed_error \<Rightarrow> rstr" where
  "seed_error_text show_os e =
     (case e of
        SeedRandom g \<Rightarrow> str_of ''failed to read OS CSPRNG: '' @ show_os g
      | AllZeroSeed r \<Rightarrow> str_of ''generated all-zero seed for '' @ role_debug r
      | DuplicateSeeds \<Rightarrow> str_of ''generated duplicate dual-seed material''
      | InvalidRotationInterval \<Rightarrow> str_of ''seed rotation interval must be non-zero'')"

section \<open>Errors\<close>

definition wrong_role_text :: "seed_role \<Rightarrow> seed_role \<Rightarrow> rstr" where
  "wrong_role_text expected actual =
     concat [str_of ''wrong seed role: expected '', role_debug expected, str_of '', got '', role_debug actual]"

definition clumping_error_text :: "clumping_error \<Rightarrow> rstr" where
  "clumping_error_text e =
     (case e of
        EmptyPacket \<Rightarrow> str_of ''packet cannot be empty''
      | ClumpInvalidConfig message \<Rightarrow> str_of ''invalid clumping config: '' @ str_of message
      | ClumpWrongSeedRole expected actual \<Rightarrow> wrong_role_text expected actual)"

definition timing_error_text :: "timing_error \<Rightarrow> rstr" where
  "timing_error_text e =
     (case e of
        TimingInvalidConfig message \<Rightarrow> str_of ''invalid timing config: '' @ str_of message
      | InvalidClumpingConfig error \<Rightarrow> clumping_error_text error
      | TimingWrongSeedRole expected actual \<Rightarrow> wrong_role_text expected actual)"

definition composition_error_text :: "composition_error \<Rightarrow> rstr" where
  "composition_error_text e =
     (case e of
        CompInvalidConfig msg \<Rightarrow> str_of ''invalid composition config: '' @ str_of msg
      | CompWrongSeedRole expected actual \<Rightarrow> wrong_role_text expected actual
      | CompQueueFull \<Rightarrow> concat [str_of ''timing correlator queue full '', [8212], str_of '' apply back-pressure to upstream''])"

definition tc_error_text :: "tc_error \<Rightarrow> rstr" where
  "tc_error_text e =
     (case e of
        TcInvalidConfig msg \<Rightarrow> str_of ''invalid TimingCorrelator config: '' @ str_of msg
      | TcQueueFull \<Rightarrow> concat [str_of ''real packet queue is full '', [8212], str_of '' apply back-pressure''])"

definition spectral_error_text :: "spectral_error \<Rightarrow> rstr" where
  "spectral_error_text e = (case e of SpectralInvalidConfig msg \<Rightarrow> str_of ''invalid spectral config: '' @ str_of msg)"

definition dp_error_text :: "dp_error \<Rightarrow> rstr" where
  "dp_error_text e = (case e of DpInvalidConfig msg \<Rightarrow> str_of ''invalid DP shaper config: '' @ str_of msg)"

definition handshake_error_text :: "('e \<Rightarrow> rstr) \<Rightarrow> 'e handshake_error \<Rightarrow> rstr" where
  "handshake_error_text show_io h =
     (case h of
        HsIo e \<Rightarrow> str_of ''handshake I/O error: '' @ show_io e
      | HsClosed \<Rightarrow> str_of ''peer closed during handshake''
      | NonContributory \<Rightarrow> str_of ''handshake produced a non-contributory shared secret''
      | BadServerAuth \<Rightarrow> str_of ''server authentication failed (wrong key or MITM)''
      | ProbeRejected \<Rightarrow> str_of ''handshake MARK/MAC did not validate (likely active probe)'')"

definition socks_error_text :: "rstr \<Rightarrow> socks_error \<Rightarrow> rstr" where
  "socks_error_text io e =
     (case e of
        SocksIo \<Rightarrow> str_of ''SOCKS I/O error: '' @ io
      | DomainTargetRejected \<Rightarrow> str_of ''SOCKS domain target rejected (bridge must be addressed by IP to avoid a DNS leak)''
      | NoSupportedAuthMethod \<Rightarrow> str_of ''SOCKS client offered no supported auth method''
      | UnsupportedAddressKind kind \<Rightarrow> str_of ''unsupported SOCKS address kind '' @ nat_str (unat kind)
      | UnsupportedCommand command \<Rightarrow> str_of ''unsupported SOCKS command '' @ nat_str (unat command)
      | UnsupportedVersion version \<Rightarrow> str_of ''unsupported SOCKS version '' @ nat_str (unat version))"

section \<open>The self-test\<close>

definition failure_description :: "self_test_failure \<Rightarrow> rstr" where
  "failure_description f =
     (case f of
        KsTestFailed statistic \<Rightarrow> str_of ''KS test failed: statistic = '' @ fixed False 3 (real statistic / 1000)
      | AutocorrelationTooHigh lag1 \<Rightarrow> str_of ''lag-1 autocorrelation too high: '' @ fixed False 3 (real_of_int lag1 / 1000)
      | DummyRatioOutOfBounds ratio \<Rightarrow> str_of ''dummy ratio out of bounds: '' @ fixed False 3 (real ratio / 1000)
      | SpectralPeakDetected ratio \<Rightarrow> str_of ''spectral peak detected: ratio = '' @ fixed False 2 (real ratio / 100)
      | InsufficientData \<Rightarrow> str_of ''insufficient data for self-test'')"

fun join_str :: "rstr \<Rightarrow> rstr list \<Rightarrow> rstr" where
  "join_str sep [] = []"
| "join_str sep [s] = s"
| "join_str sep (s # t # ss) = s @ sep @ join_str sep (t # ss)"

definition shaper_error_text :: "self_test_failure list \<Rightarrow> rstr" where
  "shaper_error_text failures =
     str_of ''shaper self-test failed: '' @ join_str (str_of ''; '') (map failure_description failures)"

section \<open>Lemmas\<close>

lemma nat_str_eq: "nat_str m = nat_str n \<longleftrightarrow> m = n"
  by (metis parse_nat_str max.cobounded1 max.cobounded2 option.inject)

text \<open>The texts of two different refusals differ.\<close>

lemma socks_error_text_inj: "socks_error_text io e = socks_error_text io e' \<longleftrightarrow> e = e'"
  by (cases e; cases e') (simp_all add: socks_error_text_def str_of_def nat_str_eq word_unat_eq_iff)

lemma handshake_error_text_inj:
  assumes "\<And>e e'. show_io e = show_io e' \<longleftrightarrow> e = e'"
  shows "handshake_error_text show_io h = handshake_error_text show_io h' \<longleftrightarrow> h = h'"
  by (cases h; cases h') (simp_all add: handshake_error_text_def str_of_def assms)

text \<open>Nothing of the secret shows.\<close>

lemma seed_debug_redacted:
  assumes "seed_role (timing_and_pool s) = seed_role (timing_and_pool s')"
    and "seed_role (burst_composition s) = seed_role (burst_composition s')" "rotation_interval s = rotation_interval s'"
  shows "session_debug s = session_debug s'"
  using assms by (simp add: session_debug_def seed_debug_def)

text \<open>A failure prints its statistic, rounded before, without another error.\<close>

lemma fixed_exact:
  "fixed False p (real n / 10 ^ p) = nat_str (n div 10 ^ p) @ (if p = 0 then [] else 46 # pad_left 48 p (nat_str (n mod 10 ^ p)))"
proof -
  have "\<not> real n / 10 ^ p < 0" by (simp add: not_less)
  then show ?thesis by (simp add: fixed_def round_even_def Let_def)
qed

lemma failure_exact:
  "failure_description (DummyRatioOutOfBounds n) =
     str_of ''dummy ratio out of bounds: '' @ nat_str (n div 1000) @ 46 # pad_left 48 3 (nat_str (n mod 1000))"
  "failure_description (SpectralPeakDetected n) =
     str_of ''spectral peak detected: ratio = '' @ nat_str (n div 100) @ 46 # pad_left 48 2 (nat_str (n mod 100))"
  using fixed_exact [of 3 n] fixed_exact [of 2 n] by (simp_all add: failure_description_def)

text \<open>The text of a failed self-test names every failure.\<close>

lemma join_str_parts: "s \<in> set ss \<Longrightarrow> \<exists>a b. join_str sep ss = a @ s @ b"
proof (induction sep ss rule: join_str.induct)
  case (3 sep s' t ss)
  show ?case
  proof (cases "s = s'")
    case True
    then show ?thesis by (intro exI [of _ "[]"] exI [of _ "sep @ join_str sep (t # ss)"]) simp
  next
    case False
    then obtain a b where "join_str sep (t # ss) = a @ s @ b" using 3 by auto
    then show ?thesis by (intro exI [of _ "s' @ sep @ a"] exI [of _ b]) simp
  qed
next
  case (2 sep s')
  then show ?case by (intro exI [of _ "[]"]) simp
qed simp

lemma shaper_error_names:
  assumes "assert_passing st = Inl failures" "f \<in> set failures"
  shows "\<exists>a b. shaper_error_text failures = a @ failure_description f @ b"
proof -
  obtain a b where "join_str (str_of ''; '') (map failure_description failures) = a @ failure_description f @ b"
    using join_str_parts [of "failure_description f" "map failure_description failures" "str_of ''; ''"] assms(2)
    by (metis image_eqI set_map)
  then show ?thesis
    by (intro exI [of _ "str_of ''shaper self-test failed: '' @ a"] exI [of _ b]) (simp add: shaper_error_text_def)
qed

end
