(* ===== verification/Spec2Isabelle.thy ===== *)
theory Spec2Isabelle
  imports Routing Flow Timing Attack Socks Programs Analyze Pipeline Monitor LogAudit SampleGen Messages
begin

text \<open>
  MixTor, a traffic-shaping pluggable transport for Tor (\<open>src/\<close>, a Rust crate and its programs).

  A client program takes the connections of a local Tor through SOCKS5, multiplexes their bytes as
  fixed-size cells over one connection to a bridge, and sends a frame at every slot of a departure
  clock, with a dummy where no data waits. The bridge program admits connections, proves its
  identity in a handshake that stays silent to anyone else, takes the cells out of the frames again,
  relays each stream to the local Tor bridge, and shapes the way back in the same manner. Beside the
  transport the crate has a second shaping chain (clumping pool, timing scheduler, composer), a lab
  logger, and programs that attack the recorded traffic and test the shaper.

  \<^bold>\<open>Conventions\<close> (theory \<open>Prelude\<close>). The outcome of a call is of type \<open>'a option\<close>, \<open>None\<close> where the code
  panics or would not return; an error is the left side of a sum; an operation that changes state
  returns the new state; a reading of the clock is an argument, in nanoseconds. Random draws go
  through a record of generator operations about which \<open>rng_ok\<close> states only the ranges documented by
  the crate; the samplers of \<open>rand_distr\<close> (\<open>dist_ok\<close>), the hash, cipher, key exchange and its
  encoding (\<open>crypto_ops\<close>), the operating system's generator and the file system are parameters in
  the same way, with concrete instances for the witnesses. Machine integers have their width where it
  matters (stream ids, nonces, connection counters); lengths and counters that cannot reach their
  bound are naturals, with the saturating operations written out. A float is a real.

  \<^bold>\<open>The theories\<close>, by the part of the program they model:
  \<^item> \<open>Prelude\<close>, \<open>Strings\<close>: the shared vocabulary, the operations of \<open>str\<close>, and the contracts:
    \<open>fifo_stage\<close> (nothing lost or reordered), \<open>sized_stage\<close> (and all outputs of one size),
    \<open>config_check\<close>, \<open>invariant_system\<close>; \<open>lockstep\<close> is in \<open>Handshake\<close>. Each is interpreted on the
    definitions of the components below, and their run lemmas carry the properties.
  \<^item> \<open>Seeds\<close> (\<open>seeds.rs\<close>): generation and rotation of the two seeds of a session.
  \<^item> \<open>Clumping\<close>, \<open>Timing\<close>, \<open>Composition\<close> (\<open>clumping.rs\<close>, \<open>timing.rs\<close>, \<open>composition.rs\<close>): the pool, the scheduler and
    the composer, with the helpers \<open>Spectral\<close>, \<open>Padding\<close>, \<open>SessionBound\<close>, \<open>Privacy\<close>
    (\<open>spectral.rs\<close>, \<open>optimal_padding.rs\<close>, \<open>session_bounder.rs\<close>, \<open>dp_shaper.rs\<close>, \<open>privacy_accountant.rs\<close>).
    They never panic on the configurations used, keep packets in order and stay within their bounds.
  \<^item> \<open>Correlator\<close>, \<open>Session\<close> (\<open>timing_correlator.rs\<close>, \<open>composition.rs\<close>): the departure clock with its
    queue, and the shaped session made of a composer and a correlator. Lossless, of one frame size,
    and with a wire trace that does not depend on what is injected.
  \<^item> \<open>SelfTest\<close>, \<open>Monitor\<close> (\<open>self_test.rs\<close>): what the shaper records of its frames, and the tests over it.
  \<^item> \<open>Crypto\<close>, \<open>Handshake\<close> (\<open>crypto.rs\<close>): keys and their text form, the frame cipher, the handshake with
    its elligator-encoded keys, MARK and MAC; agreement, silence to probes, order and freshness.
  \<^item> \<open>Cells\<close>, \<open>Tail\<close>, \<open>Emitter\<close>, \<open>Flow\<close> (\<open>transport.rs\<close>): the cell format, the policy that keeps a
    finished flow sending, the emitter that services all flows in turn, and the receiving side. A
    flow is a record of its session, cipher, unwritten bytes and tail counters.
  \<^item> \<open>Mux\<close>, \<open>Routing\<close>, \<open>Wire\<close> (\<open>transport.rs\<close>): both multiplexers. Their tasks interleave: \<open>demux_step\<close> and
    \<open>wire_step\<close> are the step relations, with the invariants proved by rule induction; \<open>Wire\<close> has the
    loops between the deframed wire and the channels and refines a wire to one ordered channel per
    stream, up and down.
  \<^item> \<open>Admission\<close>, \<open>Conn\<close> (\<open>transport.rs\<close>, \<open>bin/mixtor-server.rs\<close>): the accept loop with its two
    semaphores, the handshake timeout and the black hole as a timed step relation; dialling, both
    connection handlers, the map of wires, and the way of a circuit's bytes to the bridge.
  \<^item> \<open>Socks\<close>, \<open>Programs\<close> (\<open>socks.rs\<close>, \<open>bin/mixtor-server.rs\<close>, \<open>bin/mixtor-client.rs\<close>): the front end, the
    identity file, managed start-up, and the cert that goes from the server to the client.
  \<^item> \<open>LabLog\<close>, \<open>Stats\<close>, \<open>Attack\<close>, \<open>Analyze\<close> (\<open>lab.rs\<close>, \<open>correlation_attack.rs\<close>, \<open>bin/mixtor-correlate.rs\<close>): the
    logger with its writer thread, the statistics, the attacks and the audit with its exit status.
  \<^item> \<open>FlowLog\<close>, \<open>LogAudit\<close> (\<open>transport.rs\<close>): the rows every task of the transport logs and the ids it logs
    them under; the sessions of both programs as interleavings of their tasks, and what the attacks
    can find in them.
  \<^item> \<open>Report\<close>, \<open>SampleGen\<close>, \<open>Messages\<close> (\<open>bin/mixtor-correlate.rs\<close> and the error types): the lines of the printed
    report, the recording session of \<open>gen-sample\<close>, and the texts of \<open>Display\<close> and \<open>Debug\<close>.
  \<^item> \<open>Pipeline\<close> (\<open>bin/verify.rs\<close>): the smoke test that drives pool, scheduler and composer.
  The last section of this theory states what spans the session and its configuration.

  \<^bold>\<open>What is shown.\<close> Secrecy of the shape: the frames of a production session leave at times and with
  lengths that depend on the seed and the clock alone. Delivery: from a circuit on the client to the
  relay of its stream on the server nothing is lost, reordered or misrouted, through multiplexing,
  shaping, sealing and deframing, and whatever a network delivers, only authentic data is forwarded.
  Resistance: the server answers nobody who has not proved knowledge of its identity, a stalled peer
  returns its permit within a bounded time, and the client sends nothing to an unproved bridge.
  Resources: streams, unwritten bytes, queues and connections stay within their limits. Evaluation:
  the attacks give no false alarm on a perfect cover and do not miss a flow in the clear, from the
  logged rows to the exit status; the rows are the ground truth of what the transport carried, and the
  report agrees with the exit status. Where the code departs from its documentation, the deviation is
  proved of the definitions.

  \<^bold>\<open>Fuel and bounds.\<close> Three loops run on fuel. The loop of \<open>push\<close> gets the number of buffered packets
  plus one (\<open>push_loop_ok\<close>), the loop of a service as many rounds as
  frames fit under the bound on unwritten bytes (\<open>service_loop_ok\<close>), and the search for a stream id as many steps as there
  are ids (\<open>find_id\<close>); each is shown to be enough in every reachable state, so that the results
  are not \<open>None\<close>. The loop of \<open>drain_ready\<close>, which the transport does not call, may not end under
  a clock that runs ahead of its slots and is left with its fuel. All other loops are structural or
  have a measure. Timestamps of a log are assumed
  below 2^64 nanoseconds (the year 2554), and the warm-up an audit skips below 10^24 ms.

  \<^bold>\<open>Not modelled.\<close> The runtime: sockets are lists of chunks, tasks are interleavings of their steps, and
  which of two ready tasks runs first is left open. The warnings on stderr and the table of the smoke
  test, which no other code reads. Zeroizing of dropped keys, which no
  operation can observe. The argument declarations of clap and the timer resolution of Windows.
  The loopback sockets of \<open>gen-sample\<close>, which are the outcomes of their calls. Rounding of floats, and
  with it the texts \<open>nan\<close> and \<open>inf\<close> as arguments. Unit tests and the test helpers.
\<close>

section \<open>Properties across components\<close>

text \<open>C1: The wire does not depend on the traffic. Two runs of a session opened with the production
  configuration and the same seed, driven by the same ticks and clock restarts at the same readings,
  produce the same trace, slot by slot: whether a frame leaves and how long it is. What is injected,
  when, how much of it and whether the queue refuses it cannot be seen in when frames leave or in
  their lengths.\<close>
theorem traffic_unobservable:
  assumes "rng_ok R" "0 < iat_ms" "seed_role seed = BurstComposition"
    and "filter is_clock_event es = filter is_clock_event es'"
  shows "\<exists>s. shaped_new R H clk seed (shaped_composition_config iat_ms) = Some (Inr s) \<and>
    wire_trace R s es = wire_trace R s es'"
proof -
  note cfg = shaped_config_ok [OF assms(2)]
  obtain s where s: "shaped_new R H clk seed (shaped_composition_config iat_ms) = Some (Inr s)" "shaped_inv R s"
      "tc_conf (ss_correlator s) = shaped_tc_config CELL_BYTES (shaped_composition_config iat_ms)"
    using shaped_new_ok [OF assms(1) cfg(1) assms(3) cfg(2,3)] by blast
  have "fixed_rate s" using s(3) cfg(4) by (simp add: fixed_rate_def)
  from wire_trace_independent [OF s(2,2) this refl assms(4)] s(1) show ?thesis by blast
qed

theorem traffic_unobservable_witness:
  "\<exists>s. shaped_new lcg (\<lambda>k d. d) (\<lambda>i. i) \<lparr>seed_role = BurstComposition, seed_bytes = [3]\<rparr> (shaped_composition_config 4) = Some (Inr s) \<and>
    wire_trace lcg s [SsInject (Packet [1, 2, 3]) 5 5, SsTick 9000000 9000001, SsTick 19000000 19000001] =
    wire_trace lcg s [SsTick 9000000 9000001, SsTick 19000000 19000001]"
  by (rule traffic_unobservable [OF lcg_ok]) simp_all



end
